(* ===== verification/Oc_Prelude.thy ===== *)
theory Oc_Prelude
  imports Main "HOL-Library.AList"
begin

text \<open>
  Prelude of the development: what every component theory shares.

  \<^item> JavaScript \<open>Map\<close> objects. A \<open>Map\<close> iterates in insertion order, \<open>set\<close> on a present key
    keeps its position and \<open>delete\<close> followed by \<open>set\<close> moves it to the end. An association list
    with \<open>AList.update\<close> and \<open>AList.delete\<close> has exactly these laws, so \<open>('k, 'v) jmap\<close> is one.
  \<^item> The operators \<open>??\<close> (nullish coalescing) and truthiness of optional strings and numbers.
  \<^item> The locales \<open>machine\<close>, \<open>refined_machine\<close> and \<open>growing_machine\<close>: the interfaces through
    which a component's invariant, its abstraction and its monotone counters are carried over runs.

  Timestamps are integers (\<open>Date.now()\<close>) and are passed to an operation explicitly; strings are
  lists of characters, so they cover the Latin-1 range only.
\<close>

named_theorems jm \<open>rewriting of insertion-ordered maps\<close>

section \<open>Insertion-ordered maps\<close>

type_synonym ('k, 'v) jmap = "('k \<times> 'v) list"

abbreviation jget :: "('k, 'v) jmap \<Rightarrow> 'k \<Rightarrow> 'v option" where
  "jget m k \<equiv> map_of m k"

abbreviation jset :: "'k \<Rightarrow> 'v \<Rightarrow> ('k, 'v) jmap \<Rightarrow> ('k, 'v) jmap" where
  "jset k v m \<equiv> AList.update k v m"

abbreviation jdel :: "'k \<Rightarrow> ('k, 'v) jmap \<Rightarrow> ('k, 'v) jmap" where
  "jdel k m \<equiv> AList.delete k m"

definition jkeys :: "('k, 'v) jmap \<Rightarrow> 'k list" where
  "jkeys m = map fst m"

definition jwf :: "('k, 'v) jmap \<Rightarrow> bool" where
  "jwf m \<longleftrightarrow> distinct (map fst m)"

definition jhas :: "('k, 'v) jmap \<Rightarrow> 'k \<Rightarrow> bool" where
  "jhas m k \<longleftrightarrow> jget m k \<noteq> None"

definition jkeep :: "('k \<Rightarrow> 'v \<Rightarrow> bool) \<Rightarrow> ('k, 'v) jmap \<Rightarrow> ('k, 'v) jmap" where
  "jkeep P m = filter (\<lambda>(k, v). P k v) m"

definition jmapv :: "('v \<Rightarrow> 'w) \<Rightarrow> ('k, 'v) jmap \<Rightarrow> ('k, 'w) jmap" where
  "jmapv f m = map (\<lambda>(k, v). (k, f v)) m"

lemma jget_set [jm]: "jget (jset k v m) j = (if j = k then Some v else jget m j)"
  by (simp add: update_conv)

lemma jget_del [jm]: "jget (jdel k m) j = (if j = k then None else jget m j)"
  by (simp add: delete_conv)

lemma jwf_Nil [simp, intro]: "jwf []"
  by (simp add: jwf_def)

lemma jwf_set [simp, intro]: "jwf m \<Longrightarrow> jwf (jset k v m)"
  by (simp add: jwf_def distinct_update)

lemma jwf_del [simp, intro]: "jwf m \<Longrightarrow> jwf (jdel k m)"
  by (simp add: jwf_def distinct_delete)

lemma jwf_keep [simp, intro]: "jwf m \<Longrightarrow> jwf (jkeep P m)"
  unfolding jwf_def jkeep_def by (induction m) auto

lemma jget_keep [jm]:
  assumes "jwf m"
  shows "jget (jkeep P m) k = (case jget m k of None \<Rightarrow> None | Some v \<Rightarrow> if P k v then Some v else None)"
  using assms
proof (induction m)
  case (Cons p m)
  obtain j v where [simp]: "p = (j, v)" by (cases p)
  show ?case
  proof (cases "j = k")
    case True
    with Cons.prems have "jget (jkeep P m) k = None"
      by (auto simp: jwf_def jkeep_def map_of_eq_None_iff)
    with True show ?thesis by (simp add: jkeep_def)
  next
    case False
    with Cons show ?thesis by (simp add: jwf_def jkeep_def)
  qed
qed (simp add: jkeep_def)

lemma jget_mapv [jm]: "jget (jmapv f m) k = map_option f (jget m k)"
  by (induction m) (auto simp: jmapv_def)

lemma jwf_mapv [simp]: "jwf (jmapv f m) = jwf m"
proof -
  have "map fst (jmapv f m) = map fst m"
    unfolding jmapv_def by (induction m) auto
  then show ?thesis by (simp add: jwf_def)
qed

lemma length_jmapv [simp]: "length (jmapv f m) = length m"
  by (simp add: jmapv_def)

lemma jget_in_set: "jwf m \<Longrightarrow> jget m k = Some v \<longleftrightarrow> (k, v) \<in> set m"
  by (simp add: jwf_def)

lemma length_jset: "length (jset k v m) = (if jhas m k then length m else Suc (length m))"
  by (induction m) (auto simp: jhas_def)

lemma length_jkeep_le: "length (jkeep P m) \<le> length m"
  by (simp add: jkeep_def)

lemma length_jdel_le: "length (jdel k m) \<le> length m"
  by (simp add: length_delete_le)

lemma length_jdel_less: "jget m k = Some v \<Longrightarrow> length (jdel k m) < length m"
proof (induction m)
  case (Cons p m)
  then show ?case
    using length_jdel_le [of k m] by (cases p) (auto simp: less_Suc_eq_le split: if_splits)
qed simp

lemma jdel_notin: "jget m k = None \<Longrightarrow> jdel k m = m"
  by (simp add: map_of_eq_None_iff)

lemma length_jdel: "jwf m \<Longrightarrow> jget m k = Some v \<Longrightarrow> Suc (length (jdel k m)) = length m"
proof (induction m)
  case (Cons p m)
  then show ?case
    by (cases p) (auto simp: jwf_def jdel_notin map_of_eq_None_iff split: if_splits)
qed simp

lemma jmem_del: "(j, v) \<in> set (jdel k m) \<longleftrightarrow> j \<noteq> k \<and> (j, v) \<in> set m"
  by (auto simp: AList.delete_eq)

lemma jmem_set: "jwf m \<Longrightarrow> (j, w) \<in> set (jset k v m) \<longleftrightarrow> (if j = k then w = v else (j, w) \<in> set m)"
  using jget_in_set [of "jset k v m" j w] jget_in_set [of m j w] by (auto simp: jget_set)

section \<open>The operators of optional values\<close>

definition coalesce :: "'a option \<Rightarrow> 'a option \<Rightarrow> 'a option" where
  "coalesce x y = (case x of None \<Rightarrow> y | Some _ \<Rightarrow> x)"

definition default_to :: "'a \<Rightarrow> 'a option \<Rightarrow> 'a" where
  "default_to d x = (case x of None \<Rightarrow> d | Some v \<Rightarrow> v)"

definition truthy_str :: "string option \<Rightarrow> string option" where
  "truthy_str x = (case x of Some (c # cs) \<Rightarrow> Some (c # cs) | _ \<Rightarrow> None)"

definition truthy_int :: "int option \<Rightarrow> int option" where
  "truthy_int x = (case x of Some n \<Rightarrow> if n = 0 then None else Some n | None \<Rightarrow> None)"

lemma coalesce_simps [simp]: "coalesce None y = y" "coalesce (Some v) y = Some v"
  by (simp_all add: coalesce_def)

lemma default_to_simps [simp]: "default_to d None = d" "default_to d (Some v) = v"
  by (simp_all add: default_to_def)

section \<open>Numbers\<close>

text \<open>A JavaScript number that the code tests with \<open>Number.isFinite\<close>: a finite value, here an integer,
  or one of NaN and the infinities.\<close>

datatype jsnum = Fin int | NonFinite

section \<open>Folds\<close>

lemma foldl_inv: "P s \<Longrightarrow> (\<And>s x. P s \<Longrightarrow> P (f s x)) \<Longrightarrow> P (foldl f s xs)"
  by (induction xs arbitrary: s) auto

section \<open>Machines: invariants and abstractions carried over runs\<close>

locale machine =
  fixes step :: "'s \<Rightarrow> 'op \<Rightarrow> 's"
    and inv :: "'s \<Rightarrow> bool"
  assumes step_inv: "inv s \<Longrightarrow> inv (step s op)"
begin

lemma run_inv: "inv s \<Longrightarrow> inv (foldl step s ops)"
  by (induction ops arbitrary: s) (auto intro: step_inv)

lemma run_append: "foldl step s (xs @ ys) = foldl step (foldl step s xs) ys"
  by simp

lemma prefix_inv: "inv s \<Longrightarrow> inv (foldl step s (take n ops))"
  by (rule run_inv)

end

locale refined_machine = machine +
  fixes abs :: "'s \<Rightarrow> 'a"
    and astep :: "'a \<Rightarrow> 'op \<Rightarrow> 'a"
  assumes step_refines: "inv s \<Longrightarrow> abs (step s op) = astep (abs s) op"
begin

lemma run_refines: "inv s \<Longrightarrow> abs (foldl step s ops) = foldl astep (abs s) ops"
  by (induction ops arbitrary: s) (auto simp: step_refines step_inv)

end

text \<open>A quantity that no step decreases: a counter, a high-water mark, a log.\<close>

locale growing_machine = machine +
  fixes level :: "'s \<Rightarrow> 'n :: preorder"
  assumes step_grows: "inv s \<Longrightarrow> level s \<le> level (step s op)"
begin

lemma run_grows: "inv s \<Longrightarrow> level s \<le> level (foldl step s ops)"
proof (induction ops arbitrary: s)
  case (Cons op ops)
  have "level s \<le> level (step s op)" using Cons.prems by (rule step_grows)
  also have "\<dots> \<le> level (foldl step (step s op) ops)"
    by (rule Cons.IH) (rule step_inv [OF Cons.prems])
  finally show ?case by simp
qed simp

end

end
