(* ===== verification/Target_Lease.thy ===== *)
theory Target_Lease
  imports Oc_Prelude
begin

text \<open>
  The target lease registry, \<open>src/src/session/target-lease-registry.ts\<close>: which session owns a
  browser target, and until when. The class is a \<open>Map\<close> from target ids to lease records; every
  operation of it is one definition, the clock reading \<open>Date.now()\<close> is the argument \<open>clk\<close>, and a
  thrown \<open>TargetLeaseConflictError\<close> is \<open>Inl\<close> of the existing lease. A lease object stored in the map
  is replaced by \<open>acquire\<close> and mutated by \<open>touch\<close> only, so records are values here.
\<close>

section \<open>Data\<close>

datatype cleanup_policy = CloseOnSessionEnd | Preserve | Expire

record lease =
  ls_target :: string
  ls_session :: string
  ls_client :: "string option"
  ls_worker :: "string option"
  ls_lane :: "string option"
  ls_context :: "string option"
  ls_created :: int
  ls_last_activity :: int
  ls_expires :: "int option"
  ls_ttl :: "int option"
  ls_cleanup :: cleanup_policy

record acquire_input =
  ai_target :: string
  ai_session :: string
  ai_client :: "string option"
  ai_worker :: "string option"
  ai_lane :: "string option"
  ai_context :: "string option"
  ai_now :: "int option"
  ai_ttl :: "int option"
  ai_cleanup :: "cleanup_policy option"

text \<open>The argument \<open>overrides: Partial<AcquireTargetLeaseInput>\<close> of \<open>inherit\<close>; its \<open>targetId\<close>
  is not read by the code.\<close>

record lease_overrides =
  ov_session :: "string option"
  ov_client :: "string option"
  ov_worker :: "string option"
  ov_lane :: "string option"
  ov_context :: "string option"
  ov_now :: "int option"
  ov_ttl :: "int option"
  ov_cleanup :: "cleanup_policy option"

type_synonym lease_map = "(string, lease) jmap"

section \<open>Operations\<close>

definition lease_record :: "int \<Rightarrow> lease option \<Rightarrow> acquire_input \<Rightarrow> lease" where
  "lease_record now existing inp =
     (let ttl = coalesce (ai_ttl inp) (Option.bind existing ls_ttl) in
      \<lparr>ls_target = ai_target inp,
       ls_session = ai_session inp,
       ls_client = truthy_str (ai_client inp),
       ls_worker = truthy_str (ai_worker inp),
       ls_lane = truthy_str (ai_lane inp),
       ls_context = truthy_str (ai_context inp),
       ls_created = default_to now (map_option ls_created existing),
       ls_last_activity = now,
       ls_expires = (case ttl of Some t \<Rightarrow> Some (now + t)
                               | None \<Rightarrow> truthy_int (Option.bind existing ls_expires)),
       ls_ttl = ttl,
       ls_cleanup = default_to CloseOnSessionEnd
                      (coalesce (ai_cleanup inp) (map_option ls_cleanup existing))\<rparr>)"

definition acquire :: "int \<Rightarrow> acquire_input \<Rightarrow> lease_map \<Rightarrow> lease + (lease \<times> lease_map)" where
  "acquire clk inp m =
     (let now = default_to clk (ai_now inp);
          existing = jget m (ai_target inp);
          record' = lease_record now existing inp
      in case existing of
           Some e \<Rightarrow> if ls_session e \<noteq> ai_session inp then Inl e
                     else Inr (record', jset (ai_target inp) record' m)
         | None \<Rightarrow> Inr (record', jset (ai_target inp) record' m))"

definition inherit_input :: "string \<Rightarrow> lease \<Rightarrow> lease_overrides \<Rightarrow> acquire_input" where
  "inherit_input target parent ov =
     \<lparr>ai_target = target,
      ai_session = default_to (ls_session parent) (ov_session ov),
      ai_client = coalesce (ov_client ov) (ls_client parent),
      ai_worker = coalesce (ov_worker ov) (ls_worker parent),
      ai_lane = coalesce (ov_lane ov) (ls_lane parent),
      ai_context = coalesce (ov_context ov) (ls_context parent),
      ai_now = ov_now ov,
      ai_ttl = coalesce (ov_ttl ov) (ls_ttl parent),
      ai_cleanup = Some (default_to (ls_cleanup parent) (ov_cleanup ov))\<rparr>"

definition inherit ::
  "int \<Rightarrow> string \<Rightarrow> string \<Rightarrow> lease_overrides \<Rightarrow> lease_map \<Rightarrow> lease + (lease option \<times> lease_map)" where
  "inherit clk target parent_id ov m =
     (case jget m parent_id of
        None \<Rightarrow> Inr (None, m)
      | Some parent \<Rightarrow>
          (case acquire clk (inherit_input target parent ov) m of
             Inl e \<Rightarrow> Inl e
           | Inr (r, m') \<Rightarrow> Inr (Some r, m')))"

definition touched :: "int \<Rightarrow> lease \<Rightarrow> lease" where
  "touched now l =
     (let l' = l\<lparr>ls_last_activity := now\<rparr>
      in case ls_ttl l of Some t \<Rightarrow> l'\<lparr>ls_expires := Some (now + t)\<rparr> | None \<Rightarrow> l')"

definition touch :: "string \<Rightarrow> int \<Rightarrow> lease_map \<Rightarrow> lease_map" where
  "touch target now m =
     (case jget m target of None \<Rightarrow> m | Some l \<Rightarrow> jset target (touched now l) m)"

definition release :: "string \<Rightarrow> string option \<Rightarrow> lease_map \<Rightarrow> bool \<times> lease_map" where
  "release target session m =
     (case jget m target of
        None \<Rightarrow> (False, m)
      | Some l \<Rightarrow>
          (case truthy_str session of
             Some s \<Rightarrow> if ls_session l \<noteq> s then (False, m) else (True, jdel target m)
           | None \<Rightarrow> (True, jdel target m)))"

definition release_session :: "string \<Rightarrow> lease_map \<Rightarrow> string list \<times> lease_map" where
  "release_session session m =
     (map fst (filter (\<lambda>(_, l). ls_session l = session) m),
      jkeep (\<lambda>_ l. ls_session l \<noteq> session) m)"

definition lease_expired :: "int \<Rightarrow> lease \<Rightarrow> bool" where
  "lease_expired now l = (case ls_expires l of Some e \<Rightarrow> e \<le> now | None \<Rightarrow> False)"

definition expire :: "int \<Rightarrow> string set \<Rightarrow> lease_map \<Rightarrow> lease list \<times> lease_map" where
  "expire now held m =
     (map snd (filter (\<lambda>(t, l). t \<notin> held \<and> lease_expired now l) m),
      jkeep (\<lambda>t l. \<not> (t \<notin> held \<and> lease_expired now l)) m)"

definition reconcile_leases :: "string set \<Rightarrow> lease_map \<Rightarrow> lease list \<times> lease_map" where
  "reconcile_leases alive m =
     (map snd (filter (\<lambda>(t, _). t \<notin> alive) m), jkeep (\<lambda>t _. t \<in> alive) m)"

definition lease_snapshot :: "lease_map \<Rightarrow> lease list" where
  "lease_snapshot m = map snd m"

text \<open>The registry as a machine: one constructor per public mutator, with its arguments.\<close>

datatype lease_op =
    OpAcquire int acquire_input
  | OpInherit int string string lease_overrides
  | OpTouch string int
  | OpRelease string "string option"
  | OpReleaseSession string
  | OpExpire int "string set"
  | OpReconcile "string set"

fun lease_step :: "lease_map \<Rightarrow> lease_op \<Rightarrow> lease_map" where
  "lease_step m (OpAcquire clk inp) = (case acquire clk inp m of Inl _ \<Rightarrow> m | Inr (_, m') \<Rightarrow> m')"
| "lease_step m (OpInherit clk t p ov) =
     (case inherit clk t p ov m of Inl _ \<Rightarrow> m | Inr (_, m') \<Rightarrow> m')"
| "lease_step m (OpTouch t now) = touch t now m"
| "lease_step m (OpRelease t s) = snd (release t s m)"
| "lease_step m (OpReleaseSession s) = snd (release_session s m)"
| "lease_step m (OpExpire now held) = snd (expire now held m)"
| "lease_step m (OpReconcile alive) = snd (reconcile_leases alive m)"

section \<open>Invariant\<close>

text \<open>The registry is keyed by the lease's own target, and a lease with an idle TTL always
  carries the expiry that TTL gives from its last activity.\<close>

definition lease_ok :: "string \<Rightarrow> lease \<Rightarrow> bool" where
  "lease_ok t l \<longleftrightarrow> ls_target l = t \<and>
     (\<forall>d. ls_ttl l = Some d \<longrightarrow> ls_expires l = Some (ls_last_activity l + d))"

definition leases_wf :: "lease_map \<Rightarrow> bool" where
  "leases_wf m \<longleftrightarrow> jwf m \<and> (\<forall>t l. jget m t = Some l \<longrightarrow> lease_ok t l)"

lemma leases_wf_jwf [simp]: "leases_wf m \<Longrightarrow> jwf m"
  by (simp add: leases_wf_def)

lemma leases_wf_keep: "leases_wf m \<Longrightarrow> leases_wf (jkeep P m)"
  by (auto simp: leases_wf_def jget_keep split: option.splits if_splits)

lemma leases_wf_set: "leases_wf m \<Longrightarrow> lease_ok t l \<Longrightarrow> leases_wf (jset t l m)"
  by (auto simp: leases_wf_def jm)

lemma leases_wf_del: "leases_wf m \<Longrightarrow> leases_wf (jdel t m)"
  by (auto simp: leases_wf_def jm)

lemma lease_record_ok: "lease_ok (ai_target inp) (lease_record now existing inp)"
  by (auto simp: lease_ok_def lease_record_def Let_def split: option.splits)

lemma lease_record_session [simp]: "ls_session (lease_record now existing inp) = ai_session inp"
  by (simp add: lease_record_def Let_def)

lemma touched_ok: "lease_ok t l \<Longrightarrow> lease_ok t (touched now l)"
  by (auto simp: lease_ok_def touched_def Let_def split: option.splits)

lemma touched_session [simp]: "ls_session (touched now l) = ls_session l"
  by (simp add: touched_def Let_def split: option.splits)

lemma acquire_InrD:
  assumes "acquire clk inp m = Inr (r, m')"
  shows "r = lease_record (default_to clk (ai_now inp)) (jget m (ai_target inp)) inp"
    and "m' = jset (ai_target inp) r m"
    and "\<And>e. jget m (ai_target inp) = Some e \<Longrightarrow> ls_session e = ai_session inp"
  using assms by (auto simp: acquire_def Let_def split: option.splits if_splits)

lemma inherit_InrD:
  assumes "inherit clk t p ov m = Inr (r, m')"
  obtains "m' = m" | parent r' where "jget m p = Some parent"
    "acquire clk (inherit_input t parent ov) m = Inr (r', m')"
  using assms by (auto simp: inherit_def split: option.splits sum.splits)

lemma acquire_wf: "leases_wf m \<Longrightarrow> acquire clk inp m = Inr (r, m') \<Longrightarrow> leases_wf m'"
  using acquire_InrD(1,2) [of clk inp m r m'] by (auto intro!: leases_wf_set lease_record_ok)

lemma inherit_wf: "leases_wf m \<Longrightarrow> inherit clk t p ov m = Inr (r, m') \<Longrightarrow> leases_wf m'"
  by (elim inherit_InrD) (auto dest: acquire_wf)

lemma touch_wf: "leases_wf m \<Longrightarrow> leases_wf (touch t now m)"
  by (auto simp: touch_def leases_wf_def jm touched_ok split: option.splits)

lemma release_wf: "leases_wf m \<Longrightarrow> leases_wf (snd (release t s m))"
  by (auto simp: release_def leases_wf_del split: option.splits)

lemma lease_step_wf: "leases_wf m \<Longrightarrow> leases_wf (lease_step m op)"
  by (cases op)
    (auto simp: touch_wf release_wf release_session_def expire_def reconcile_leases_def
      intro: leases_wf_keep dest: acquire_wf inherit_wf split: sum.splits)

interpretation lease_machine: machine lease_step leases_wf
  by unfold_locales (rule lease_step_wf)

text \<open>What one operation does to the owner of a target.\<close>

lemma acquire_owner:
  assumes "acquire clk inp m = Inr (r, m')" "jget m t = Some l" "jget m' t = Some l'"
  shows "ls_session l' = ls_session l"
  using acquire_InrD [OF assms(1)] assms(2,3) by (auto simp: jm split: if_splits)

lemma lease_step_owner:
  assumes "jwf m" "jget m t = Some l" "jget (lease_step m op) t = Some l'"
  shows "ls_session l' = ls_session l"
proof (cases op)
  case (OpAcquire clk inp)
  with assms show ?thesis by (auto dest: acquire_owner split: sum.splits)
next
  case (OpInherit clk u p ov)
  with assms show ?thesis
    by (auto elim!: inherit_InrD dest: acquire_owner split: sum.splits)
next
  case (OpRelease u s)
  with assms show ?thesis by (auto simp: release_def jm split: option.splits if_splits)
qed (use assms in \<open>auto simp: touch_def release_session_def expire_def reconcile_leases_def jm
        split: option.splits if_splits\<close>)

section \<open>Properties\<close>


definition demo_input :: "string \<Rightarrow> acquire_input" where
  "demo_input s = \<lparr>ai_target = ''T'', ai_session = s, ai_client = None, ai_worker = None,
     ai_lane = None, ai_context = None, ai_now = None, ai_ttl = Some 100, ai_cleanup = None\<rparr>"


text \<open>The idle TTL slides: after activity at time \<open>n\<close> on a lease whose TTL is \<open>d\<close>,
  an expiry sweep at any time \<open>now\<close> keeps the lease exactly when the target is held or
  \<open>now < n + d\<close>, and the sweep returns the lease exactly when it removes it. The TTL itself
  survives the activity, so the same law holds again after it.\<close>

lemma touch_get: "jget m t = Some l \<Longrightarrow> jget (touch t n m) t = Some (touched n l)"
  by (simp add: touch_def jm)

lemma expire_get:
  "jwf m \<Longrightarrow> jget m t = Some l \<Longrightarrow>
   jget (snd (expire now held m)) t =
     (if t \<notin> held \<and> lease_expired now l then None else Some l)"
  by (simp add: expire_def jm)

lemma expire_reports:
  "leases_wf m \<Longrightarrow> jget m t = Some l \<Longrightarrow>
   l \<in> set (fst (expire now held m)) \<longleftrightarrow> t \<notin> held \<and> lease_expired now l"
proof -
  assume wf: "leases_wf m" and l: "jget m t = Some l"
  have k: "u = ls_target k" if "(u, k) \<in> set m" for u k
    using wf that jget_in_set [of m u k] by (simp add: leases_wf_def lease_ok_def)
  have tl: "(t, l) \<in> set m" using wf l by (simp add: jget_in_set)
  have "l \<in> set (fst (expire now held m)) \<longleftrightarrow>
      (\<exists>u. (u, l) \<in> set m \<and> u \<notin> held \<and> lease_expired now l)"
    by (auto simp: expire_def image_iff)
  then show ?thesis using tl k by blast
qed

theorem lease_ttl_slides:
  assumes wf: "leases_wf m" and l: "jget m t = Some l" and d: "ls_ttl l = Some d"
  shows "(jget (snd (expire now held (touch t n m))) t \<noteq> None \<longleftrightarrow> t \<in> held \<or> now < n + d)
    \<and> (touched n l \<in> set (fst (expire now held (touch t n m))) \<longleftrightarrow> \<not> (t \<in> held \<or> now < n + d))
    \<and> ls_ttl (touched n l) = Some d"
proof -
  have g: "jget (touch t n m) t = Some (touched n l)" using l by (rule touch_get)
  have e: "lease_expired now (touched n l) \<longleftrightarrow> n + d \<le> now"
    using d by (simp add: lease_expired_def touched_def Let_def)
  have t: "ls_ttl (touched n l) = Some d" using d by (simp add: touched_def Let_def)
  show ?thesis
    using expire_get [OF leases_wf_jwf [OF touch_wf [OF wf]] g]
      expire_reports [OF touch_wf [OF wf] g] e t
    by auto
qed

theorem lease_ttl_slides_witness:
  "let l = lease_record 5 None (demo_input ''A''); m = [(''T'', l)] in
     jget (snd (expire 129 {} (touch ''T'' 30 m))) ''T'' \<noteq> None \<and>
     jget (snd (expire 130 {} (touch ''T'' 30 m))) ''T'' = None"
proof -
  let ?l = "lease_record 5 None (demo_input ''A'')"
  have wf: "leases_wf [(''T'', ?l)]"
    using lease_record_ok [of "demo_input ''A''" 5 None]
    by (auto simp: leases_wf_def jwf_def demo_input_def)
  have d: "ls_ttl ?l = Some 100" by (simp add: lease_record_def demo_input_def Let_def)
  show ?thesis
    using lease_ttl_slides [OF wf _ d, of "''T''" 129 "{}" 30]
      lease_ttl_slides [OF wf _ d, of "''T''" 130 "{}" 30]
    by (auto simp: Let_def)
qed

end
