(* ===== verification/Js_Strings.thy ===== *)
theory Js_Strings
  imports Oc_Prelude
begin

text \<open>
  The string functions of the language that several components use, on Latin-1 strings: the white
  space of \<open>trim\<close> and \<open>\s\<close>, lower case, \<open>startsWith\<close>, decimal notation (\<open>String(n)\<close>, template
  literals) and \<open>parseInt(s, 10)\<close>.
\<close>

section \<open>White space and case\<close>

definition is_space :: "char \<Rightarrow> bool" where
  "is_space c \<longleftrightarrow> (let n = of_char c :: nat in (9 \<le> n \<and> n \<le> 13) \<or> n = 32 \<or> n = 160)"

definition trim_ws :: "string \<Rightarrow> string" where
  "trim_ws s = rev (dropWhile is_space (rev (dropWhile is_space s)))"

definition lower_char :: "char \<Rightarrow> char" where
  "lower_char c = (let n = of_char c :: nat in
     if (65 \<le> n \<and> n \<le> 90) \<or> (192 \<le> n \<and> n \<le> 222 \<and> n \<noteq> 215) then char_of (n + 32) else c)"

definition to_lower :: "string \<Rightarrow> string" where
  "to_lower s = map lower_char s"

definition starts_with :: "string \<Rightarrow> string \<Rightarrow> bool" where
  "starts_with p s \<longleftrightarrow> take (length p) s = p"

lemma starts_with_append [simp]: "starts_with p (p @ s)"
  by (simp add: starts_with_def)

lemma starts_with_split: "starts_with p s \<Longrightarrow> s = p @ drop (length p) s"
  by (metis append_take_drop_id starts_with_def)

section \<open>Decimal notation\<close>

definition is_digit :: "char \<Rightarrow> bool" where
  "is_digit c \<longleftrightarrow> (let n = of_char c :: nat in 48 \<le> n \<and> n \<le> 57)"

definition digit_char :: "nat \<Rightarrow> char" where
  "digit_char d = char_of (48 + d)"

definition digit_val :: "char \<Rightarrow> nat" where
  "digit_val c = of_char c - 48"

fun dec :: "nat \<Rightarrow> string" where
  "dec n = (if n < 10 then [digit_char n] else dec (n div 10) @ [digit_char (n mod 10)])"

declare dec.simps [simp del]

definition undec :: "string \<Rightarrow> nat" where
  "undec cs = foldl (\<lambda>n c. 10 * n + digit_val c) 0 cs"

definition int_str :: "int \<Rightarrow> string" where
  "int_str i = (if i < 0 then CHR ''-'' # dec (nat (- i)) else dec (nat i))"

definition split_sign :: "string \<Rightarrow> int \<times> string" where
  "split_sign s = (case s of [] \<Rightarrow> (1, [])
     | c # cs \<Rightarrow> if c = CHR ''-'' then (-1, cs) else if c = CHR ''+'' then (1, cs) else (1, s))"

definition parse_int :: "string \<Rightarrow> int option" where
  "parse_int s =
     (let (sgn, rest) = split_sign (dropWhile is_space s); ds = takeWhile is_digit rest
      in if ds = [] then None else Some (sgn * int (undec ds)))"

lemma digit_char [simp]: "d < 10 \<Longrightarrow> is_digit (digit_char d)" "d < 10 \<Longrightarrow> digit_val (digit_char d) = d"
  by (simp_all add: is_digit_def digit_char_def digit_val_def)

lemma dec_digits [simp]: "list_all is_digit (dec n)"
proof (induction n rule: dec.induct)
  case (1 n)
  then show ?case by (cases "n < 10") (simp_all add: dec.simps [of n])
qed

lemma undec_dec [simp]: "undec (dec n) = n"
proof (induction n rule: dec.induct)
  case (1 n)
  then show ?case by (cases "n < 10") (simp_all add: dec.simps [of n] undec_def)
qed

lemma dec_not_Nil [simp]: "dec n \<noteq> []"
  by (subst dec.simps) simp

lemma dec_inj [simp]: "dec m = dec n \<longleftrightarrow> m = n"
  by (metis undec_dec)

lemma digit_not_space: "is_digit c \<Longrightarrow> \<not> is_space c"
  by (auto simp: is_digit_def is_space_def Let_def)

lemma digit_not_sign: "is_digit c \<Longrightarrow> c \<noteq> CHR ''-'' \<and> c \<noteq> CHR ''+''"
  by (auto simp: is_digit_def Let_def)

lemma takeWhile_all: "list_all P xs \<Longrightarrow> takeWhile P xs = xs"
  by (simp add: list_all_iff takeWhile_eq_all_conv)

lemma parse_int_digits:
  assumes "list_all is_digit s" "s \<noteq> []"
  shows "parse_int s = Some (int (undec s))"
proof (cases s)
  case (Cons c cs)
  then have "is_digit c" using assms(1) by simp
  then have "split_sign (dropWhile is_space s) = (1, s)"
    using digit_not_space [of c] digit_not_sign [of c] Cons by (simp add: split_sign_def)
  then show ?thesis using assms by (simp add: parse_int_def takeWhile_all)
qed (use assms in simp)

lemma parse_int_dec [simp]: "parse_int (dec n) = Some (int n)"
  by (simp add: parse_int_digits)

lemma parse_int_str_nonneg: "parse_int s = Some i \<Longrightarrow> 0 < i \<Longrightarrow> int_str i = s \<Longrightarrow> s = dec (nat i)"
  by (simp add: int_str_def)

lemma int_str_of_nat [simp]: "int_str (int n) = dec n"
  by (simp add: int_str_def)

lemma int_str_chars: "c \<in> set (int_str n) \<Longrightarrow> is_digit c \<or> c = CHR ''-''"
  using dec_digits [of "nat n"] dec_digits [of "nat (- n)"] by (auto simp: int_str_def list_all_iff split: if_splits)

lemma no_minus: "CHR ''-'' # x \<noteq> dec k"
proof
  assume "CHR ''-'' # x = dec k"
  then have "CHR ''-'' \<in> set (dec k)" by (metis list.set_intros(1))
  then show False using dec_digits [of k] by (auto simp: list_all_iff is_digit_def)
qed

lemma int_str_inj: "int_str m = int_str n \<longleftrightarrow> m = n"
  using no_minus no_minus [symmetric] by (cases "m < 0"; cases "n < 0") (auto simp: int_str_def)

end
