(* ===== verification/Target_Creation.thy ===== *)
theory Target_Creation
  imports Js_Strings
begin

text \<open>
  The popup ledger, \<open>src/src/session/target-creation-ledger.ts\<close>: browser targets opened by other
  targets, their life cycle (provisional, ready, blocked by policy, closed) and the query that
  reports newly opened tabs to a tool call. The class keeps two maps, sequence number to record and
  target id to sequence number; the model keeps the same two. The argument \<open>canon\<close> of the operations
  that store a URL stands for the platform's WHATWG \<open>URL\<close> object with user name, password and hash
  cleared (\<open>None\<close> when the constructor throws); nothing is assumed of it.
\<close>

section \<open>Sanitizing text\<close>

definition is_control :: "char \<Rightarrow> bool" where
  "is_control c \<longleftrightarrow> (let n = of_char c :: nat in n \<le> 31 \<or> (127 \<le> n \<and> n \<le> 159))"

function collapse_ws :: "string \<Rightarrow> string" where
  "collapse_ws [] = []"
| "collapse_ws (c # cs) =
     (if is_space c then CHR '' '' # collapse_ws (dropWhile is_space cs) else c # collapse_ws cs)"
  by pat_completeness auto
termination
  by (relation "measure length") (auto simp: less_Suc_eq_le length_dropWhile_le)

definition sanitize_text :: "string option \<Rightarrow> nat \<Rightarrow> string" where
  "sanitize_text value max_length =
     (case truthy_str value of
        None \<Rightarrow> []
      | Some v \<Rightarrow>
          take max_length (trim_ws (collapse_ws (map (\<lambda>c. if is_control c then CHR '' '' else c) v))))"

definition max_url_length :: nat where "max_url_length = 2048"
definition max_title_length :: nat where "max_title_length = 200"
definition max_id_length :: nat where "max_id_length = 128"

definition sanitize_target_url :: "(string \<Rightarrow> string option) \<Rightarrow> string option \<Rightarrow> string" where
  "sanitize_target_url canon value =
     (let cleaned = sanitize_text value (max_url_length * 2)
      in if cleaned = [] then []
         else case canon cleaned of
                Some u \<Rightarrow> take max_url_length u
              | None \<Rightarrow> take max_url_length (takeWhile (\<lambda>c. c \<noteq> CHR ''#'') cleaned))"

definition sanitize_target_title :: "string option \<Rightarrow> string" where
  "sanitize_target_title value = sanitize_text value max_title_length"

section \<open>Data\<close>

datatype creation_state = Provisional | Ready | Blocked | Closed

datatype registration_state = RegProvisional | RegReady | RegBlocked

fun creation_of :: "registration_state \<Rightarrow> creation_state" where
  "creation_of RegProvisional = Provisional"
| "creation_of RegReady = Ready"
| "creation_of RegBlocked = Blocked"

record registration =
  rg_target :: string
  rg_session :: string
  rg_worker :: string
  rg_opener :: string
  rg_state :: registration_state
  rg_url :: "string option"
  rg_title :: "string option"
  rg_created :: "int option"
  rg_committed :: "bool option"

record creation =
  cr_sequence :: nat
  cr_target :: string
  cr_session :: string
  cr_worker :: string
  cr_opener :: string
  cr_current_opener :: string
  cr_state :: creation_state
  cr_url :: string
  cr_title :: string
  cr_created :: int
  cr_committed :: "int option"
  cr_ready :: "int option"
  cr_blocked :: "int option"
  cr_closed :: "int option"

record ledger =
  lg_records :: "(nat, creation) jmap"
  lg_index :: "(string, nat) jmap"
  lg_sequence :: nat
  lg_max :: nat

text \<open>\<open>None\<close> is the constructor's exception.\<close>

definition new_ledger :: "int \<Rightarrow> ledger option" where
  "new_ledger max_records =
     (if max_records < 1 then None
      else Some \<lparr>lg_records = [], lg_index = [], lg_sequence = 0, lg_max = nat max_records\<rparr>)"

section \<open>Operations\<close>

definition get_mutable :: "ledger \<Rightarrow> string \<Rightarrow> creation option" where
  "get_mutable s t = Option.bind (jget (lg_index s) t) (jget (lg_records s))"

definition put_record :: "ledger \<Rightarrow> creation \<Rightarrow> ledger" where
  "put_record s r = s\<lparr>lg_records := jset (cr_sequence r) r (lg_records s)\<rparr>"

definition remove_sequence :: "nat \<Rightarrow> ledger \<Rightarrow> ledger" where
  "remove_sequence q s =
     (case jget (lg_records s) q of
        None \<Rightarrow> s
      | Some r \<Rightarrow>
          s\<lparr>lg_records := jdel q (lg_records s),
            lg_index := (if jget (lg_index s) (cr_target r) = Some q
                         then jdel (cr_target r) (lg_index s) else lg_index s)\<rparr>)"

definition finished :: "creation \<Rightarrow> bool" where
  "finished r \<longleftrightarrow> cr_state r = Blocked \<or> cr_state r = Closed"

definition prune_victim :: "ledger \<Rightarrow> nat option" where
  "prune_victim s =
     (case filter (\<lambda>(_, r). finished r) (lg_records s) of
        (q, _) # _ \<Rightarrow> Some q
      | [] \<Rightarrow> (case lg_records s of (q, _) # _ \<Rightarrow> Some q | [] \<Rightarrow> None))"

lemma prune_victim_cases:
  assumes "prune_victim s = Some q"
  obtains (finished) r where "(q, r) \<in> set (lg_records s)" "finished r"
  | (oldest) r rest where "lg_records s = (q, r) # rest" "\<forall>(p, x) \<in> set (lg_records s). \<not> finished x"
proof (cases "filter (\<lambda>(_, r). finished r) (lg_records s)")
  case Nil
  with assms show ?thesis
    by (cases "lg_records s") (auto simp: prune_victim_def filter_empty_conv intro!: oldest split: if_splits)
next
  case (Cons p rest)
  obtain k r where p: "p = (k, r)" by (cases p)
  have "(k, r) \<in> set (filter (\<lambda>(_, r). finished r) (lg_records s))" using Cons p by simp
  moreover have "k = q" using Cons assms p by (simp add: prune_victim_def)
  ultimately show ?thesis by (intro finished [of r]) auto
qed

lemma prune_victim_present: "prune_victim s = Some q \<Longrightarrow> \<exists>r. jget (lg_records s) q = Some r"
  by (erule prune_victim_cases) (force simp: map_of_eq_None_iff simp flip: not_None_eq)+

lemma remove_sequence_less:
  "jget (lg_records s) q = Some r \<Longrightarrow> length (lg_records (remove_sequence q s)) < length (lg_records s)"
  by (simp add: remove_sequence_def length_jdel_less)

function prune :: "ledger \<Rightarrow> ledger" where
  "prune s = (if lg_max s < length (lg_records s)
              then (case prune_victim s of None \<Rightarrow> s | Some q \<Rightarrow> prune (remove_sequence q s))
              else s)"
  by pat_completeness auto
termination
  by (relation "measure (\<lambda>s. length (lg_records s))")
    (auto dest: prune_victim_present intro: remove_sequence_less)

declare prune.simps [simp del]

definition mark_ready ::
  "(string \<Rightarrow> string option) \<Rightarrow> string \<Rightarrow> string option \<Rightarrow> string option \<Rightarrow> int \<Rightarrow> ledger \<Rightarrow> bool \<times> ledger" where
  "mark_ready canon t url title at s =
     (case get_mutable s t of
        None \<Rightarrow> (False, s)
      | Some r \<Rightarrow>
          if cr_blocked r \<noteq> None then (False, s)
          else if cr_state r = Closed \<and> cr_ready r = None then (False, s)
          else (True, put_record s (r\<lparr>
                 cr_state := (if cr_state r \<noteq> Closed then Ready else Closed),
                 cr_ready := coalesce (cr_ready r) (Some at),
                 cr_url := (case url of None \<Rightarrow> cr_url r | Some u \<Rightarrow> sanitize_target_url canon (Some u)),
                 cr_title := (case title of None \<Rightarrow> cr_title r
                                          | Some x \<Rightarrow> sanitize_target_title (Some x))\<rparr>)))"

definition can_commit_ownership :: "string \<Rightarrow> ledger \<Rightarrow> bool" where
  "can_commit_ownership t s =
     (case get_mutable s t of None \<Rightarrow> False | Some r \<Rightarrow> cr_state r \<noteq> Blocked \<and> cr_state r \<noteq> Closed)"

definition mark_ownership_committed :: "string \<Rightarrow> int \<Rightarrow> ledger \<Rightarrow> bool \<times> ledger" where
  "mark_ownership_committed t at s =
     (case get_mutable s t of
        None \<Rightarrow> (False, s)
      | Some r \<Rightarrow>
          if cr_state r = Blocked \<or> cr_state r = Closed then (False, s)
          else (True, put_record s (r\<lparr>cr_committed := coalesce (cr_committed r) (Some at)\<rparr>)))"

definition mark_blocked :: "string \<Rightarrow> int \<Rightarrow> ledger \<Rightarrow> bool \<times> ledger" where
  "mark_blocked t at s =
     (case get_mutable s t of
        None \<Rightarrow> (False, s)
      | Some r \<Rightarrow> (True, put_record s (r\<lparr>cr_state := Blocked,
                     cr_blocked := coalesce (cr_blocked r) (Some at), cr_url := [], cr_title := []\<rparr>)))"

definition mark_closed :: "string \<Rightarrow> int \<Rightarrow> ledger \<Rightarrow> bool \<times> ledger" where
  "mark_closed t at s =
     (case get_mutable s t of
        None \<Rightarrow> (False, s)
      | Some r \<Rightarrow> (True, put_record s (r\<lparr>
                     cr_state := (if cr_state r \<noteq> Blocked then Closed else Blocked),
                     cr_closed := coalesce (cr_closed r) (Some at)\<rparr>)))"

definition new_creation :: "(string \<Rightarrow> string option) \<Rightarrow> nat \<Rightarrow> int \<Rightarrow> registration \<Rightarrow> creation" where
  "new_creation canon q created inp =
     \<lparr>cr_sequence = q,
      cr_target = rg_target inp,
      cr_session = rg_session inp,
      cr_worker = rg_worker inp,
      cr_opener = rg_opener inp,
      cr_current_opener = rg_opener inp,
      cr_state = creation_of (rg_state inp),
      cr_url = (if rg_state inp = RegReady then sanitize_target_url canon (rg_url inp) else []),
      cr_title = (if rg_state inp = RegReady then sanitize_target_title (rg_title inp) else []),
      cr_created = created,
      cr_committed = (if rg_committed inp \<noteq> Some False then Some created else None),
      cr_ready = (if rg_state inp = RegReady then Some created else None),
      cr_blocked = (if rg_state inp = RegBlocked then Some created else None),
      cr_closed = None\<rparr>"

definition insert_creation :: "creation \<Rightarrow> ledger \<Rightarrow> ledger" where
  "insert_creation r s =
     s\<lparr>lg_records := jset (cr_sequence r) r (lg_records s),
       lg_index := jset (cr_target r) (cr_sequence r) (lg_index s),
       lg_sequence := cr_sequence r\<rparr>"

definition register :: "(string \<Rightarrow> string option) \<Rightarrow> int \<Rightarrow> registration \<Rightarrow> ledger \<Rightarrow> creation option \<times> ledger" where
  "register canon clk inp s =
     (let at = default_to clk (rg_created inp) in
      case get_mutable s (rg_target inp) of
        Some _ \<Rightarrow>
          (let s' = (case rg_state inp of
                       RegReady \<Rightarrow> snd (mark_ready canon (rg_target inp) (rg_url inp) (rg_title inp) at s)
                     | RegBlocked \<Rightarrow> snd (mark_blocked (rg_target inp) at s)
                     | RegProvisional \<Rightarrow> s)
           in (get_mutable s' (rg_target inp), s'))
      | None \<Rightarrow>
          (let r = new_creation canon (Suc (lg_sequence s)) at inp
           in (Some r, prune (insert_creation r s))))"

definition remap_opener :: "string \<Rightarrow> string \<Rightarrow> creation \<Rightarrow> creation" where
  "remap_opener old new r = (if cr_current_opener r = old then r\<lparr>cr_current_opener := new\<rparr> else r)"

definition remap_index :: "string \<Rightarrow> string \<Rightarrow> ledger \<Rightarrow> ledger" where
  "remap_index old new s =
     (case jget (lg_index s) old of
        None \<Rightarrow> s
      | Some q \<Rightarrow>
          (case jget (lg_records s) q of
             None \<Rightarrow> s
           | Some r \<Rightarrow> s\<lparr>lg_records := jset q (r\<lparr>cr_target := new\<rparr>) (lg_records s),
                         lg_index := jset new q (jdel old (lg_index s))\<rparr>))"

definition remap_target_id :: "string \<Rightarrow> string \<Rightarrow> ledger \<Rightarrow> bool \<times> ledger" where
  "remap_target_id old new s =
     (if old = new then (jhas (lg_index s) old, s)
      else if (case (jget (lg_index s) old, jget (lg_index s) new) of
                 (Some q, Some p) \<Rightarrow> p \<noteq> q | _ \<Rightarrow> False) then (False, s)
      else (let s' = remap_index old new s;
                touched_any = jhas (lg_index s) old
                  \<or> list_ex (\<lambda>(_, r). cr_current_opener r = old) (lg_records s')
            in (touched_any, s'\<lparr>lg_records := jmapv (remap_opener old new) (lg_records s')\<rparr>)))"

definition reconcile_one :: "string set \<Rightarrow> int \<Rightarrow> ledger \<Rightarrow> nat \<Rightarrow> ledger" where
  "reconcile_one alive at s q =
     (case jget (lg_records s) q of
        None \<Rightarrow> s
      | Some r \<Rightarrow> if (cr_state r = Provisional \<or> cr_state r = Ready) \<and> cr_target r \<notin> alive
                  then snd (mark_closed (cr_target r) at s) else s)"

definition reconcile_alive :: "string set \<Rightarrow> int \<Rightarrow> ledger \<Rightarrow> ledger" where
  "reconcile_alive alive at s = foldl (reconcile_one alive at) s (jkeys (lg_records s))"

definition remove_where :: "(creation \<Rightarrow> bool) \<Rightarrow> ledger \<Rightarrow> ledger" where
  "remove_where P s =
     foldl (\<lambda>s (q, r). if P r then remove_sequence q s else s) s (lg_records s)"

definition clear_session :: "string \<Rightarrow> ledger \<Rightarrow> ledger" where
  "clear_session session s = remove_where (\<lambda>r. cr_session r = session) s"

definition clear_worker :: "string \<Rightarrow> string \<Rightarrow> ledger \<Rightarrow> ledger" where
  "clear_worker session worker s =
     remove_where (\<lambda>r. cr_session r = session \<and> cr_worker r = worker) s"

section \<open>The query\<close>

record creation_query =
  cq_after :: nat
  cq_session :: string
  cq_worker :: string
  cq_opener :: string
  cq_limit :: "int option"

datatype tab_status = TabReady | TabClosed

record opened_tab =
  ot_tab :: string
  ot_worker :: string
  ot_url :: string
  ot_title :: string
  ot_status :: tab_status

record query_result =
  qr_total :: nat
  qr_truncated :: bool
  qr_pending :: nat
  qr_tabs :: "opened_tab list"

definition query_scope :: "creation_query \<Rightarrow> creation \<Rightarrow> bool" where
  "query_scope inp r \<longleftrightarrow> cq_after inp < cr_sequence r
     \<and> cr_session r = cq_session inp \<and> cr_worker r = cq_worker inp
     \<and> cr_current_opener r = cq_opener inp"

definition is_pending :: "creation \<Rightarrow> bool" where
  "is_pending r \<longleftrightarrow> cr_blocked r = None \<and> cr_state r \<noteq> Closed
     \<and> (cr_state r = Provisional \<or> cr_committed r = None)"

definition is_eligible :: "creation \<Rightarrow> bool" where
  "is_eligible r \<longleftrightarrow> \<not> (cr_ready r = None \<or> cr_committed r = None \<or> cr_blocked r \<noteq> None)"

definition tab_fact :: "creation \<Rightarrow> opened_tab" where
  "tab_fact r = \<lparr>ot_tab = sanitize_text (Some (cr_target r)) max_id_length,
     ot_worker = sanitize_text (Some (cr_worker r)) max_id_length,
     ot_url = cr_url r, ot_title = cr_title r,
     ot_status = (if cr_state r = Closed then TabClosed else TabReady)\<rparr>"

definition query_limit :: "creation_query \<Rightarrow> nat" where
  "query_limit inp = nat (max 0 (min (default_to 5 (cq_limit inp)) 5))"

definition query :: "creation_query \<Rightarrow> ledger \<Rightarrow> query_result" where
  "query inp s =
     (let scoped = filter (query_scope inp) (map snd (lg_records s));
          eligible = filter is_eligible scoped;
          tabs = map tab_fact (take (query_limit inp) eligible)
      in \<lparr>qr_total = length eligible,
          qr_truncated = (length tabs < length eligible),
          qr_pending = length (filter is_pending scoped),
          qr_tabs = tabs\<rparr>)"

datatype ledger_op =
    LgRegister int registration
  | LgReady string "string option" "string option" int
  | LgCommit string int
  | LgBlock string int
  | LgClose string int
  | LgRemap string string
  | LgReconcile "string set" int
  | LgClearSession string
  | LgClearWorker string string

fun ledger_step :: "(string \<Rightarrow> string option) \<Rightarrow> ledger \<Rightarrow> ledger_op \<Rightarrow> ledger" where
  "ledger_step canon s (LgRegister clk inp) = snd (register canon clk inp s)"
| "ledger_step canon s (LgReady t u x at) = snd (mark_ready canon t u x at s)"
| "ledger_step canon s (LgCommit t at) = snd (mark_ownership_committed t at s)"
| "ledger_step canon s (LgBlock t at) = snd (mark_blocked t at s)"
| "ledger_step canon s (LgClose t at) = snd (mark_closed t at s)"
| "ledger_step canon s (LgRemap old new) = snd (remap_target_id old new s)"
| "ledger_step canon s (LgReconcile alive at) = reconcile_alive alive at s"
| "ledger_step canon s (LgClearSession session) = clear_session session s"
| "ledger_step canon s (LgClearWorker session worker) = clear_worker session worker s"

section \<open>Invariant\<close>

text \<open>A record in the state its time stamps say, and carrying no page data unless it was ready.\<close>

definition creation_ok :: "creation \<Rightarrow> bool" where
  "creation_ok r \<longleftrightarrow>
     (cr_state r = Blocked \<longleftrightarrow> cr_blocked r \<noteq> None)
     \<and> (cr_state r = Blocked \<longrightarrow> cr_url r = [] \<and> cr_title r = [])
     \<and> (cr_state r = Ready \<longrightarrow> cr_ready r \<noteq> None)
     \<and> (cr_state r = Closed \<longrightarrow> cr_closed r \<noteq> None)
     \<and> (cr_ready r = None \<longrightarrow> cr_url r = [] \<and> cr_title r = [])
     \<and> (cr_state r = Provisional \<longrightarrow> cr_ready r = None)"

text \<open>The two maps are inverse to each other, and the records are numbered below the cursor.\<close>

definition ledger_core :: "ledger \<Rightarrow> bool" where
  "ledger_core s \<longleftrightarrow> jwf (lg_records s) \<and> jwf (lg_index s)
     \<and> (\<forall>q r. jget (lg_records s) q = Some r \<longrightarrow>
          cr_sequence r = q \<and> q \<le> lg_sequence s \<and> jget (lg_index s) (cr_target r) = Some q \<and> creation_ok r)
     \<and> (\<forall>t q. jget (lg_index s) t = Some q \<longrightarrow>
          (\<exists>r. jget (lg_records s) q = Some r \<and> cr_target r = t))"

definition ledger_wf :: "ledger \<Rightarrow> bool" where
  "ledger_wf s \<longleftrightarrow> ledger_core s \<and> 0 < lg_max s \<and> length (lg_records s) \<le> lg_max s"

lemma ledger_coreD:
  assumes "ledger_core s"
  shows "jwf (lg_records s)" "jwf (lg_index s)"
    and "jget (lg_records s) q = Some r \<Longrightarrow> cr_sequence r = q"
    and "jget (lg_records s) q = Some r \<Longrightarrow> q \<le> lg_sequence s"
    and "jget (lg_records s) q = Some r \<Longrightarrow> jget (lg_index s) (cr_target r) = Some q"
    and "jget (lg_records s) q = Some r \<Longrightarrow> creation_ok r"
    and "jget (lg_index s) t = Some q \<Longrightarrow> \<exists>r. jget (lg_records s) q = Some r \<and> cr_target r = t"
  using assms by (simp_all add: ledger_core_def)

lemma ledger_coreI:
  assumes "jwf (lg_records s)" "jwf (lg_index s)"
    and "\<And>q r. jget (lg_records s) q = Some r \<Longrightarrow>
       cr_sequence r = q \<and> q \<le> lg_sequence s \<and> jget (lg_index s) (cr_target r) = Some q \<and> creation_ok r"
    and "\<And>t q. jget (lg_index s) t = Some q \<Longrightarrow> \<exists>r. jget (lg_records s) q = Some r \<and> cr_target r = t"
  shows "ledger_core s"
  using assms by (simp add: ledger_core_def)

lemma get_mutable_Some:
  assumes "ledger_core s"
  shows "get_mutable s t = Some r \<longleftrightarrow> jget (lg_records s) (cr_sequence r) = Some r \<and> cr_target r = t"
proof
  assume "get_mutable s t = Some r"
  then obtain q where q: "jget (lg_index s) t = Some q" "jget (lg_records s) q = Some r"
    by (auto simp: get_mutable_def bind_eq_Some_conv)
  then show "jget (lg_records s) (cr_sequence r) = Some r \<and> cr_target r = t"
    using ledger_coreD(3,7) [OF assms] by fastforce
next
  assume r: "jget (lg_records s) (cr_sequence r) = Some r \<and> cr_target r = t"
  then have "jget (lg_index s) t = Some (cr_sequence r)" using ledger_coreD(5) [OF assms] by blast
  with r show "get_mutable s t = Some r" by (simp add: get_mutable_def)
qed

lemma get_mutable_None:
  "ledger_core s \<Longrightarrow> get_mutable s t = None \<longleftrightarrow> jget (lg_index s) t = None"
  by (cases "jget (lg_index s) t") (auto simp: get_mutable_def dest: ledger_coreD(7))

lemma put_record_core:
  assumes "ledger_core s" "jget (lg_records s) (cr_sequence r) = Some r0"
    "cr_target r = cr_target r0" "creation_ok r"
  shows "ledger_core (put_record s r)"
proof -
  have "cr_target r0 = t" if "jget (lg_index s) t = Some (cr_sequence r)" for t
    using ledger_coreD(7) [OF assms(1) that] assms(2) by simp
  then show ?thesis using assms by (auto simp: ledger_core_def put_record_def jm)
qed

lemma put_record_max [simp]: "lg_max (put_record s r) = lg_max s"
  by (simp add: put_record_def)

lemma put_record_length:
  "jget (lg_records s) (cr_sequence r) = Some r0 \<Longrightarrow>
   length (lg_records (put_record s r)) = length (lg_records s)"
  by (simp add: put_record_def length_jset jhas_def)

text \<open>The four marking operations update one record in place; a bundle for all of them.\<close>

lemmas mark_defs = mark_ready_def mark_ownership_committed_def mark_blocked_def mark_closed_def

lemma put_record_wf:
  assumes "ledger_wf s" "get_mutable s t = Some r0" "cr_sequence r = cr_sequence r0"
    "cr_target r = cr_target r0" "creation_ok r0 \<Longrightarrow> creation_ok r"
  shows "ledger_wf (put_record s r)"
proof -
  have c: "ledger_core s" using assms(1) by (simp add: ledger_wf_def)
  have r0: "jget (lg_records s) (cr_sequence r) = Some r0"
    using get_mutable_Some [OF c] assms(2,3) by simp
  have "ledger_core (put_record s r)"
    using put_record_core [OF c r0 assms(4)] assms(5) ledger_coreD(6) [OF c r0] by blast
  then show ?thesis using assms(1) put_record_length [OF r0] by (simp add: ledger_wf_def)
qed

lemma mark_ready_wf: "ledger_wf s \<Longrightarrow> ledger_wf (snd (mark_ready canon t u x at s))"
  by (auto simp: mark_ready_def creation_ok_def coalesce_def intro!: put_record_wf split: option.splits)

lemma mark_committed_wf: "ledger_wf s \<Longrightarrow> ledger_wf (snd (mark_ownership_committed t at s))"
  by (auto simp: mark_ownership_committed_def creation_ok_def intro!: put_record_wf split: option.splits)

lemma mark_blocked_wf: "ledger_wf s \<Longrightarrow> ledger_wf (snd (mark_blocked t at s))"
  by (auto simp: mark_blocked_def creation_ok_def coalesce_def intro!: put_record_wf split: option.splits)

lemma mark_closed_wf: "ledger_wf s \<Longrightarrow> ledger_wf (snd (mark_closed t at s))"
  by (auto simp: mark_closed_def creation_ok_def coalesce_def intro!: put_record_wf split: option.splits)

text \<open>Removal, and the eviction loop.\<close>

lemma remove_sequence_core: "ledger_core s \<Longrightarrow> ledger_core (remove_sequence q s)"
proof -
  assume c: "ledger_core s"
  show ?thesis
  proof (cases "jget (lg_records s) q")
    case (Some r)
    have i: "jget (lg_index s) (cr_target r) = Some q" using ledger_coreD(5) [OF c Some] .
    then have s': "remove_sequence q s = s\<lparr>lg_records := jdel q (lg_records s),
        lg_index := jdel (cr_target r) (lg_index s)\<rparr>"
      using Some by (simp add: remove_sequence_def)
    show ?thesis unfolding s'
    proof (rule ledger_coreI, goal_cases)
      case (3 p x)
      then have x: "jget (lg_records s) p = Some x" "p \<noteq> q" by (auto simp: jm split: if_splits)
      have "jget (lg_index s) (cr_target x) = Some p" using ledger_coreD(5) [OF c x(1)] .
      with ledger_coreD(3,4,6) [OF c x(1)] i x(2) show ?case by (auto simp: jm)
    next
      case (4 t p)
      then have "jget (lg_index s) t = Some p" "t \<noteq> cr_target r" by (auto simp: jm split: if_splits)
      with ledger_coreD(7) [OF c] Some show ?case by (fastforce simp: jm)
    qed (use ledger_coreD(1,2) [OF c] in auto)
  qed (use c in \<open>simp add: remove_sequence_def\<close>)
qed

lemma remove_sequence_max [simp]: "lg_max (remove_sequence q s) = lg_max s"
  by (simp add: remove_sequence_def split: option.splits)

lemma remove_sequence_seq [simp]: "lg_sequence (remove_sequence q s) = lg_sequence s"
  by (simp add: remove_sequence_def split: option.splits)

lemma remove_sequence_get:
  "jget (lg_records (remove_sequence q s)) p = (if p = q then None else jget (lg_records s) p)"
  by (auto simp: remove_sequence_def jm split: option.splits)

lemma remove_sequence_length_le: "length (lg_records (remove_sequence q s)) \<le> length (lg_records s)"
  by (simp add: remove_sequence_def length_jdel_le split: option.splits)

lemma remove_sequence_wf: "ledger_wf s \<Longrightarrow> ledger_wf (remove_sequence q s)"
  using remove_sequence_length_le [of q s] by (auto simp: ledger_wf_def remove_sequence_core)

lemma prune_stop: "length (lg_records s) \<le> lg_max s \<Longrightarrow> prune s = s"
  by (simp add: prune.simps)

lemma prune_go:
  "lg_max s < length (lg_records s) \<Longrightarrow> prune_victim s = Some q \<Longrightarrow> prune s = prune (remove_sequence q s)"
  by (simp add: prune.simps)

lemma prune_victim_exists: "lg_records s \<noteq> [] \<Longrightarrow> \<exists>q. prune_victim s = Some q"
  by (auto simp: prune_victim_def neq_Nil_conv split: list.splits)

lemma prune_rule [consumes 1, case_names stop go]:
  assumes "Q s" "\<And>s. length (lg_records s) \<le> lg_max s \<Longrightarrow> Q s \<Longrightarrow> P s"
    "\<And>s q. lg_max s < length (lg_records s) \<Longrightarrow> prune_victim s = Some q \<Longrightarrow> Q s
       \<Longrightarrow> Q (remove_sequence q s)"
  shows "P (prune s)"
  using assms(1)
proof (induction s rule: prune.induct)
  case (1 s)
  show ?case
  proof (cases "length (lg_records s) \<le> lg_max s")
    case True
    then show ?thesis using "1.prems" assms(2) by (simp add: prune_stop)
  next
    case False
    then obtain q where q: "prune_victim s = Some q"
      using prune_victim_exists [of s] by fastforce
    have m: "lg_max s < length (lg_records s)" using False by simp
    show ?thesis
      using "1.IH" [OF m q assms(3) [OF m q "1.prems"]] by (simp add: prune_go [OF m q])
  qed
qed

lemma prune_wf: "ledger_core s \<Longrightarrow> 0 < lg_max s \<Longrightarrow> ledger_wf (prune s)"
  by (rule prune_rule [where Q = "\<lambda>s. ledger_core s \<and> 0 < lg_max s"])
    (auto simp: ledger_wf_def remove_sequence_core)

lemma insert_creation_max [simp]: "lg_max (insert_creation r s) = lg_max s"
  by (simp add: insert_creation_def)

lemma insert_creation_core:
  assumes "ledger_core s" "cr_sequence r = Suc (lg_sequence s)" "jget (lg_index s) (cr_target r) = None"
    "creation_ok r"
  shows "ledger_core (insert_creation r s)"
proof -
  have n: "jget (lg_records s) (Suc (lg_sequence s)) = None"
    using ledger_coreD(4) [OF assms(1)] not_less_eq_eq by fastforce
  show ?thesis
    using assms n by (fastforce simp: ledger_core_def insert_creation_def jm)
qed

lemma new_creation_ok: "creation_ok (new_creation canon q at inp)"
  by (cases "rg_state inp") (simp_all add: creation_ok_def new_creation_def)

lemma register_wf: "ledger_wf s \<Longrightarrow> ledger_wf (snd (register canon clk inp s))"
proof -
  assume wf: "ledger_wf s"
  then have c: "ledger_core s" and m: "0 < lg_max s" by (simp_all add: ledger_wf_def)
  show ?thesis
  proof (cases "get_mutable s (rg_target inp)")
    case None
    let ?r = "new_creation canon (Suc (lg_sequence s)) (default_to clk (rg_created inp)) inp"
    have "ledger_core (insert_creation ?r s)"
      using insert_creation_core [OF c, of ?r] None new_creation_ok get_mutable_None [OF c]
      by (simp add: new_creation_def)
    then show ?thesis using None m by (simp add: register_def Let_def prune_wf)
  next
    case (Some r)
    then show ?thesis using wf
      by (auto simp: register_def Let_def mark_ready_wf mark_blocked_wf split: registration_state.splits)
  qed
qed

text \<open>Renaming a target, closing vanished targets, clearing a session.\<close>

lemma remap_index_core:
  assumes c: "ledger_core s" and q: "jget (lg_index s) old = Some q" and ne: "old \<noteq> new"
    and free: "jget (lg_index s) new = None"
  shows "ledger_core (remap_index old new s)"
proof -
  obtain r where r: "jget (lg_records s) q = Some r" "cr_target r = old"
    using ledger_coreD(7) [OF c q] by blast
  have other: "cr_target x \<noteq> old \<and> cr_target x \<noteq> new" if "jget (lg_records s) p = Some x" "p \<noteq> q" for p x
    using ledger_coreD(5) [OF c that(1)] that(2) q free by auto
  have s': "remap_index old new s = s\<lparr>lg_records := jset q (r\<lparr>cr_target := new\<rparr>) (lg_records s),
      lg_index := jset new q (jdel old (lg_index s))\<rparr>"
    using q r by (simp add: remap_index_def)
  show ?thesis unfolding s'
  proof (rule ledger_coreI, goal_cases)
    case (3 p x)
    show ?case
    proof (cases "p = q")
      case True
      with 3 have "x = r\<lparr>cr_target := new\<rparr>" by (simp add: jm)
      with True ledger_coreD(3,4,6) [OF c r(1)] show ?thesis by (simp add: jm creation_ok_def)
    next
      case False
      with 3 have x: "jget (lg_records s) p = Some x" by (simp add: jm)
      with False other [OF x] ledger_coreD(3-6) [OF c x] show ?thesis by (simp add: jm)
    qed
  next
    case (4 t p)
    then show ?case
    proof (cases "t = new")
      case False
      with 4 have t: "jget (lg_index s) t = Some p" "t \<noteq> old" by (auto simp: jm split: if_splits)
      then obtain x where "jget (lg_records s) p = Some x" "cr_target x = t"
        using ledger_coreD(7) [OF c] by blast
      moreover have "p \<noteq> q" using calculation r t(2) by auto
      ultimately show ?thesis by (simp add: jm)
    qed (simp add: jm)
  qed (use ledger_coreD(1,2) [OF c] in auto)
qed

lemma map_opener_core:
  "ledger_core s \<Longrightarrow> ledger_core (s\<lparr>lg_records := jmapv (remap_opener old new) (lg_records s)\<rparr>)"
proof -
  assume c: "ledger_core s"
  have keep: "cr_sequence (remap_opener old new r) = cr_sequence r"
    "cr_target (remap_opener old new r) = cr_target r"
    "creation_ok (remap_opener old new r) = creation_ok r" for r
    by (simp_all add: remap_opener_def creation_ok_def)
  show ?thesis
  proof (rule ledger_coreI, goal_cases)
    case (3 q r)
    then obtain x where x: "jget (lg_records s) q = Some x" "r = remap_opener old new x"
      by (auto simp: jm)
    with ledger_coreD(3-6) [OF c x(1)] show ?case by (simp add: keep)
  next
    case (4 t q)
    then obtain x where "jget (lg_records s) q = Some x" "cr_target x = t"
      using ledger_coreD(7) [OF c, of t q] by auto
    then show ?case by (simp add: jm keep)
  qed (use ledger_coreD(1,2) [OF c] in auto)
qed

lemma remap_index_max [simp]: "lg_max (remap_index old new s) = lg_max s"
  by (simp add: remap_index_def split: option.splits)

lemma remap_index_length: "length (lg_records (remap_index old new s)) = length (lg_records s)"
  by (auto simp: remap_index_def length_jset jhas_def split: option.splits)

lemma remap_wf: "ledger_wf s \<Longrightarrow> ledger_wf (snd (remap_target_id old new s))"
proof -
  assume wf: "ledger_wf s"
  then have c: "ledger_core s" by (simp add: ledger_wf_def)
  have "ledger_core (remap_index old new s)"
    if ne: "old \<noteq> new"
      and ok: "\<not> (case (jget (lg_index s) old, jget (lg_index s) new) of
                 (Some q, Some p) \<Rightarrow> p \<noteq> q | _ \<Rightarrow> False)"
  proof (cases "jget (lg_index s) old")
    case (Some q)
    have "jget (lg_index s) new = None"
    proof (rule ccontr)
      assume "jget (lg_index s) new \<noteq> None"
      then have p: "jget (lg_index s) new = Some q" using ok Some by (auto split: option.splits)
      show False using ledger_coreD(7) [OF c p] ledger_coreD(7) [OF c Some] ne by auto
    qed
    then show ?thesis using remap_index_core [OF c Some ne] by blast
  qed (use c in \<open>simp add: remap_index_def\<close>)
  then show ?thesis using wf
    by (auto simp: remap_target_id_def Let_def ledger_wf_def remap_index_length intro: map_opener_core)
qed

lemma reconcile_one_wf: "ledger_wf s \<Longrightarrow> ledger_wf (reconcile_one alive at s q)"
  by (auto simp: reconcile_one_def mark_closed_wf split: option.splits)

lemma reconcile_wf: "ledger_wf s \<Longrightarrow> ledger_wf (reconcile_alive alive at s)"
  unfolding reconcile_alive_def by (erule foldl_inv) (rule reconcile_one_wf)

lemma remove_where_wf: "ledger_wf s \<Longrightarrow> ledger_wf (remove_where P s)"
  unfolding remove_where_def by (erule foldl_inv) (auto simp: remove_sequence_wf split: prod.splits)

lemma ledger_step_wf: "ledger_wf s \<Longrightarrow> ledger_wf (ledger_step canon s op)"
  by (cases op)
    (simp_all add: register_wf mark_ready_wf mark_committed_wf mark_blocked_wf mark_closed_wf remap_wf
      reconcile_wf clear_session_def clear_worker_def remove_where_wf)

interpretation ledger_machine: machine "ledger_step canon" ledger_wf for canon
  by unfold_locales (rule ledger_step_wf)

section \<open>How records evolve\<close>

text \<open>The identity of a record never changes and its four time stamps are written once. A record
  of the new ledger is an evolved record of the old one or has a fresh sequence number.\<close>

definition kept :: "'a option \<Rightarrow> 'a option \<Rightarrow> bool" where
  "kept x y \<longleftrightarrow> (x \<noteq> None \<longrightarrow> y = x)"

definition same_record :: "creation \<Rightarrow> creation \<Rightarrow> bool" where
  "same_record r r' \<longleftrightarrow> cr_session r' = cr_session r \<and> cr_worker r' = cr_worker r
     \<and> cr_opener r' = cr_opener r \<and> cr_created r' = cr_created r
     \<and> kept (cr_committed r) (cr_committed r') \<and> kept (cr_ready r) (cr_ready r')
     \<and> kept (cr_blocked r) (cr_blocked r') \<and> kept (cr_closed r) (cr_closed r')"

definition evolves :: "ledger \<Rightarrow> ledger \<Rightarrow> bool" where
  "evolves s s' \<longleftrightarrow> lg_max s' = lg_max s \<and> lg_sequence s \<le> lg_sequence s' \<and>
     (\<forall>q r'. jget (lg_records s') q = Some r' \<longrightarrow>
        (\<exists>r. jget (lg_records s) q = Some r \<and> same_record r r') \<or> lg_sequence s < q)"

lemma kept_simps [simp]: "kept x x" "kept x (coalesce x y)"
  by (auto simp: kept_def coalesce_def split: option.splits)

lemma same_record_refl [simp]: "same_record r r"
  by (simp add: same_record_def)

lemma same_record_trans: "same_record a b \<Longrightarrow> same_record b c \<Longrightarrow> same_record a c"
  by (auto simp: same_record_def kept_def)

lemma evolves_refl [simp, intro]: "evolves s s"
  by (auto simp: evolves_def)

lemma evolves_trans:
  assumes "evolves a b" "evolves b c"
  shows "evolves a c"
proof -
  have "(\<exists>r. jget (lg_records a) q = Some r \<and> same_record r r'') \<or> lg_sequence a < q"
    if c: "jget (lg_records c) q = Some r''" for q r''
  proof -
    from c assms(2) consider r' where "jget (lg_records b) q = Some r'" "same_record r' r''"
      | "lg_sequence b < q"
      by (auto simp: evolves_def)
    then show ?thesis
    proof cases
      case 1
      with assms(1) same_record_trans show ?thesis unfolding evolves_def by blast
    qed (use assms(1) in \<open>auto simp: evolves_def\<close>)
  qed
  with assms show ?thesis by (auto simp: evolves_def)
qed

lemma put_record_evolves:
  assumes "ledger_wf s" "get_mutable s t = Some r0" "cr_sequence r = cr_sequence r0" "same_record r0 r"
  shows "evolves s (put_record s r)"
proof -
  have "jget (lg_records s) (cr_sequence r) = Some r0"
    using get_mutable_Some [of s t r0] assms(1-3) by (simp add: ledger_wf_def)
  then show ?thesis using assms(4) by (auto simp: evolves_def put_record_def jm)
qed

lemma mark_evolves:
  assumes "ledger_wf s"
  shows "evolves s (snd (mark_ready canon t u x at s))"
    and "evolves s (snd (mark_ownership_committed t at s))"
    and "evolves s (snd (mark_blocked t at s))"
    and "evolves s (snd (mark_closed t at s))"
  by (auto simp: mark_defs same_record_def intro!: put_record_evolves [OF assms] split: option.splits)

lemma remove_sequence_evolves: "evolves s (remove_sequence q s)"
  by (auto simp: evolves_def remove_sequence_get)

lemma prune_evolves: "evolves s (prune s)"
  by (rule prune_rule [where Q = "\<lambda>s'. evolves s s'"])
    (auto intro: evolves_trans remove_sequence_evolves)

lemma register_evolves: "ledger_wf s \<Longrightarrow> evolves s (snd (register canon clk inp s))"
proof -
  assume wf: "ledger_wf s"
  have "evolves s (insert_creation r s)" if "cr_sequence r = Suc (lg_sequence s)" for r
    using that by (auto simp: evolves_def insert_creation_def jm)
  then have "evolves s (prune (insert_creation (new_creation canon (Suc (lg_sequence s)) at inp) s))" for at
    by (intro evolves_trans [OF _ prune_evolves]) (simp add: new_creation_def)
  then show ?thesis
    by (auto simp: register_def Let_def mark_evolves [OF wf]
        split: option.splits registration_state.splits)
qed

lemma remap_evolves: "ledger_wf s \<Longrightarrow> evolves s (snd (remap_target_id old new s))"
proof -
  have i: "evolves s (remap_index old new s)"
    by (auto simp: evolves_def remap_index_def jm same_record_def split: option.splits)
  have "evolves s' (s'\<lparr>lg_records := jmapv (remap_opener old new) (lg_records s')\<rparr>)" for s'
    by (auto simp: evolves_def jm remap_opener_def same_record_def)
  then show ?thesis using i by (auto simp: remap_target_id_def Let_def intro: evolves_trans)
qed

lemma reconcile_evolves: "ledger_wf s \<Longrightarrow> evolves s (reconcile_alive alive at s)"
proof -
  assume wf: "ledger_wf s"
  have one: "ledger_wf (reconcile_one alive at s' q) \<and> evolves s (reconcile_one alive at s' q)"
    if "ledger_wf s' \<and> evolves s s'" for s' q
  proof -
    have "evolves s' (reconcile_one alive at s' q)"
      using that by (auto simp: reconcile_one_def mark_evolves split: option.splits)
    then show ?thesis using that evolves_trans reconcile_one_wf by blast
  qed
  have "ledger_wf (reconcile_alive alive at s) \<and> evolves s (reconcile_alive alive at s)"
    unfolding reconcile_alive_def using wf one
    by (intro foldl_inv [where P = "\<lambda>s'. ledger_wf s' \<and> evolves s s'"]) auto
  then show ?thesis ..
qed

lemma remove_where_evolves: "evolves s (remove_where P s)"
  unfolding remove_where_def
  by (rule foldl_inv) (auto intro: evolves_trans remove_sequence_evolves split: prod.splits)

lemma ledger_step_evolves: "ledger_wf s \<Longrightarrow> evolves s (ledger_step canon s op)"
  by (cases op)
    (simp_all add: register_evolves mark_evolves remap_evolves reconcile_evolves clear_session_def
      clear_worker_def remove_where_evolves)

lemma ledger_run_evolves: "ledger_wf s \<Longrightarrow> evolves s (foldl (ledger_step canon) s ops)"
proof (induction ops arbitrary: s)
  case (Cons op ops)
  then show ?case
    using evolves_trans [OF ledger_step_evolves [OF Cons.prems, of canon op]]
      ledger_step_wf [OF Cons.prems, of canon op]
    by simp
qed simp

lemma new_ledger_wf: "new_ledger n = Some s \<Longrightarrow> ledger_wf s \<and> lg_max s = nat n"
  by (auto simp: new_ledger_def ledger_wf_def ledger_core_def split: if_splits)

section \<open>Properties\<close>

text \<open>In every ledger that any sequence of operations reaches from the constructor,
  the number of records is at most \<open>maxRecords\<close>, the target index and the record map are inverse to
  each other (a target id finds the record that carries it, and each record is found under its own
  id, also after targets have been renamed), and every record's sequence number is at most the
  cursor.\<close>

theorem ledger_indexed_and_bounded:
  assumes "new_ledger n = Some s0" and "s = foldl (ledger_step canon) s0 ops"
  shows "length (lg_records s) \<le> nat n
    \<and> (\<forall>t q. jget (lg_index s) t = Some q \<longleftrightarrow>
         (\<exists>r. jget (lg_records s) q = Some r \<and> cr_target r = t))
    \<and> list_all (\<lambda>q. q \<le> lg_sequence s) (jkeys (lg_records s))"
proof -
  have wf0: "ledger_wf s0" and m0: "lg_max s0 = nat n" using new_ledger_wf [OF assms(1)] by auto
  have wf: "ledger_wf s" unfolding assms(2) using wf0 by (rule ledger_machine.run_inv)
  have m: "lg_max s = nat n"
    using ledger_run_evolves [OF wf0, of canon ops] m0 assms(2) by (simp add: evolves_def)
  have c: "ledger_core s" using wf by (simp add: ledger_wf_def)
  have k: "q \<le> lg_sequence s" if "(q, r) \<in> set (lg_records s)" for q r
    using that ledger_coreD(4) [OF c, of q r] jget_in_set [OF ledger_coreD(1) [OF c], of q r] by simp
  have "jget (lg_index s) t = Some q \<longleftrightarrow> (\<exists>r. jget (lg_records s) q = Some r \<and> cr_target r = t)" for t q
    using ledger_coreD(5,7) [OF c] by blast
  then show ?thesis using wf m k by (auto simp: ledger_wf_def list_all_iff jkeys_def)
qed

definition demo_registration :: "string \<Rightarrow> registration_state \<Rightarrow> registration" where
  "demo_registration t st = \<lparr>rg_target = t, rg_session = ''S'', rg_worker = ''W'', rg_opener = ''O'',
     rg_state = st, rg_url = Some ''u'', rg_title = Some ''x'', rg_created = Some 7, rg_committed = None\<rparr>"

theorem ledger_indexed_and_bounded_witness:
  "\<exists>s0. new_ledger 1 = Some s0 \<and>
     length (lg_records (foldl (ledger_step Some) s0
       [LgRegister 0 (demo_registration ''a'' RegReady), LgRegister 0 (demo_registration ''b'' RegReady)]))
     \<le> nat 1"
proof -
  obtain s0 where s0: "new_ledger 1 = Some s0" by (simp add: new_ledger_def)
  show ?thesis using ledger_indexed_and_bounded [OF s0 refl] s0 by blast
qed



end
