(* ===== verification/Command_Queue.thy ===== *)
theory Command_Queue
  imports Oc_Prelude "HOL-Library.Multiset"
begin

text \<open>
  The per-target command queue, \<open>src/src/session/target-command-queue.ts\<close>: commands for one browser
  tab run one at a time in admission order, under a bound on pending commands and a deadline.

  The class is driven by events: a call of \<open>enqueue\<close>, the settling of the promise the drain loop
  awaits, a timer or abort listener of a queued item, and \<open>cancel\<close>. Each event is one definition that
  runs the code up to its next \<open>await\<close>. A call is named by its number (the \<open>n\<close>-th call of
  \<open>enqueue\<close>); \<open>tq_started\<close> lists the calls whose \<open>fn\<close> has been invoked and \<open>tq_settled\<close> the calls of
  \<open>resolve\<close> and \<open>reject\<close>, in the order they happen. The clock readings and the state of the abort
  signals during a synchronous stretch are the argument \<open>drain_env\<close>.
\<close>

section \<open>Data\<close>

datatype admission_code = QueueFull | QueueDeadline | QueueAborted

text \<open>How a call of \<open>enqueue\<close> ends: its value, its own error, an admission error, the error of a
  closed queue, the error for a deadline that is not a finite number.\<close>

datatype outcome = Resolved | Failed | NotAdmitted admission_code | QueueCancelled | InvalidDeadline

record qitem =
  qi_id :: nat
  qi_enqueued :: int
  qi_deadline :: int

record drain_env =
  de_clock :: "nat \<Rightarrow> int"
  de_aborted :: "nat \<Rightarrow> bool"

record tqueue =
  tq_items :: "qitem list"
  tq_running :: "(qitem \<times> int) option"
  tq_processing :: bool
  tq_closed :: bool
  tq_enqueued :: nat
  tq_completed :: nat
  tq_rejected :: nat
  tq_cancelled :: nat
  tq_wait_ms :: int
  tq_exec_ms :: int
  tq_max_pending :: nat
  tq_max_wait :: int
  tq_next :: nat
  tq_started :: "nat list"
  tq_settled :: "(nat \<times> outcome) list"

text \<open>\<open>None\<close> is the constructor's exception. \<open>maxPending\<close> is an integer in every call of the code.\<close>

definition new_queue :: "int \<Rightarrow> jsnum \<Rightarrow> tqueue option" where
  "new_queue max_pending max_wait =
     (if max_pending < 1 then None
      else case max_wait of
             NonFinite \<Rightarrow> None
           | Fin w \<Rightarrow> if w \<le> 0 then None else
               Some \<lparr>tq_items = [], tq_running = None, tq_processing = False, tq_closed = False,
                 tq_enqueued = 0, tq_completed = 0, tq_rejected = 0, tq_cancelled = 0,
                 tq_wait_ms = 0, tq_exec_ms = 0, tq_max_pending = nat max_pending, tq_max_wait = w,
                 tq_next = 0, tq_started = [], tq_settled = []\<rparr>)"

section \<open>Operations\<close>

definition settle :: "nat \<Rightarrow> outcome \<Rightarrow> tqueue \<Rightarrow> tqueue" where
  "settle i r s = s\<lparr>tq_settled := tq_settled s @ [(i, r)]\<rparr>"

definition reject_counted :: "nat \<Rightarrow> outcome \<Rightarrow> tqueue \<Rightarrow> tqueue" where
  "reject_counted i r s = settle i r (s\<lparr>tq_rejected := tq_rejected s + 1\<rparr>)"

text \<open>The loop of \<open>drain\<close> from its head to the next \<open>await item.fn()\<close> or to its \<open>finally\<close>.\<close>

fun drain_items :: "drain_env \<Rightarrow> qitem list \<Rightarrow> tqueue \<Rightarrow> tqueue" where
  "drain_items e [] s = s\<lparr>tq_items := [], tq_processing := False\<rparr>"
| "drain_items e (it # rest) s =
     (let started = de_clock e (qi_id it);
          s1 = s\<lparr>tq_items := rest, tq_wait_ms := tq_wait_ms s + max 0 (started - qi_enqueued it)\<rparr>
      in if de_aborted e (qi_id it)
         then drain_items e rest (reject_counted (qi_id it) (NotAdmitted QueueAborted) s1)
         else if qi_deadline it \<le> started
         then drain_items e rest (reject_counted (qi_id it) (NotAdmitted QueueDeadline) s1)
         else s1\<lparr>tq_running := Some (it, started), tq_started := tq_started s @ [qi_id it]\<rparr>)"

definition drain :: "drain_env \<Rightarrow> tqueue \<Rightarrow> tqueue" where
  "drain e s = (if tq_closed s then s\<lparr>tq_processing := False\<rparr> else drain_items e (tq_items s) s)"

definition start :: "drain_env \<Rightarrow> tqueue \<Rightarrow> tqueue" where
  "start e s = (if tq_processing s then s else drain e (s\<lparr>tq_processing := True\<rparr>))"

definition admission_code_of :: "int \<Rightarrow> int \<Rightarrow> bool \<Rightarrow> tqueue \<Rightarrow> admission_code option" where
  "admission_code_of now deadline aborted s =
     (if aborted then Some QueueAborted
      else if deadline \<le> now then Some QueueDeadline
      else if tq_max_pending s \<le> length (tq_items s) then Some QueueFull
      else None)"

definition enqueue :: "int \<Rightarrow> jsnum option \<Rightarrow> bool \<Rightarrow> drain_env \<Rightarrow> tqueue \<Rightarrow> tqueue" where
  "enqueue now deadline_opt aborted e s0 =
     (let i = tq_next s0; s = s0\<lparr>tq_next := Suc i\<rparr> in
      if tq_closed s then settle i QueueCancelled s
      else case deadline_opt of
        Some NonFinite \<Rightarrow> settle i InvalidDeadline s
      | _ \<Rightarrow>
        (let limit = now + tq_max_wait s;
             deadline = (case deadline_opt of Some (Fin d) \<Rightarrow> min d limit | _ \<Rightarrow> limit)
         in case admission_code_of now deadline aborted s of
              Some code \<Rightarrow> reject_counted i (NotAdmitted code) s
            | None \<Rightarrow>
                start e (s\<lparr>tq_enqueued := tq_enqueued s + 1,
                   tq_items := tq_items s @ [\<lparr>qi_id = i, qi_enqueued = now, qi_deadline = deadline\<rparr>]\<rparr>)))"

text \<open>The listener \<open>remove\<close> of a queued item, called by its timer or by its abort signal.\<close>

definition remove_item :: "admission_code \<Rightarrow> nat \<Rightarrow> tqueue \<Rightarrow> tqueue" where
  "remove_item code i s =
     (if i \<in> qi_id ` set (tq_items s)
      then reject_counted i (NotAdmitted code)
             (s\<lparr>tq_items := filter (\<lambda>it. qi_id it \<noteq> i) (tq_items s)\<rparr>)
      else s)"

text \<open>The awaited promise settles, successfully or not, and the loop goes on.\<close>

definition complete :: "bool \<Rightarrow> int \<Rightarrow> drain_env \<Rightarrow> tqueue \<Rightarrow> tqueue" where
  "complete ok now e s =
     (case tq_running s of
        None \<Rightarrow> s
      | Some (it, started) \<Rightarrow>
          drain e (if ok
            then settle (qi_id it) Resolved (s\<lparr>tq_running := None, tq_completed := tq_completed s + 1,
                   tq_exec_ms := tq_exec_ms s + max 0 (now - started)\<rparr>)
            else reject_counted (qi_id it) Failed (s\<lparr>tq_running := None\<rparr>)))"

definition cancel_queue :: "tqueue \<Rightarrow> tqueue" where
  "cancel_queue s =
     s\<lparr>tq_closed := True, tq_items := [],
       tq_cancelled := tq_cancelled s + length (tq_items s),
       tq_settled := tq_settled s @ map (\<lambda>it. (qi_id it, QueueCancelled)) (tq_items s)\<rparr>"

datatype queue_event =
    EvEnqueue int "jsnum option" bool drain_env
  | EvTimer nat
  | EvAbort nat
  | EvComplete bool int drain_env
  | EvCancel

fun queue_step :: "tqueue \<Rightarrow> queue_event \<Rightarrow> tqueue" where
  "queue_step s (EvEnqueue now d a e) = enqueue now d a e s"
| "queue_step s (EvTimer i) = remove_item QueueDeadline i s"
| "queue_step s (EvAbort i) = remove_item QueueAborted i s"
| "queue_step s (EvComplete ok now e) = complete ok now e s"
| "queue_step s EvCancel = cancel_queue s"

section \<open>The manager: one queue per target\<close>

type_synonym queue_map = "(string, tqueue) jmap"

definition default_max_pending :: int where "default_max_pending = 128"
definition default_max_wait :: int where "default_max_wait = 120000"

definition fresh_queue :: tqueue where
  "fresh_queue = the (new_queue default_max_pending (Fin default_max_wait))"

definition manager_enqueue ::
  "string \<Rightarrow> int \<Rightarrow> jsnum option \<Rightarrow> bool \<Rightarrow> drain_env \<Rightarrow> queue_map \<Rightarrow> queue_map" where
  "manager_enqueue target now d a e m =
     jset target (enqueue now d a e (default_to fresh_queue (jget m target))) m"

definition cancel_target :: "string \<Rightarrow> queue_map \<Rightarrow> queue_map" where
  "cancel_target target m =
     (case jget m target of None \<Rightarrow> m | Some q \<Rightarrow> jset target (cancel_queue q) m)"

text \<open>Returns the cancelled target ids, the queues as they were left, and the map without them.\<close>

definition reconcile_queues :: "string set \<Rightarrow> queue_map \<Rightarrow> string list \<times> queue_map \<times> queue_map" where
  "reconcile_queues alive m =
     (let gone = filter (\<lambda>(t, _). t \<notin> alive) m
      in (map fst gone, jmapv cancel_queue gone, jkeep (\<lambda>t _. t \<in> alive) m))"

section \<open>Invariant\<close>

definition pending_ids :: "tqueue \<Rightarrow> nat list" where
  "pending_ids s = map qi_id (tq_items s)"

definition running_ids :: "tqueue \<Rightarrow> nat list" where
  "running_ids s = (case tq_running s of None \<Rightarrow> [] | Some (it, _) \<Rightarrow> [qi_id it])"

fun executed :: "outcome \<Rightarrow> bool" where
  "executed Resolved = True" | "executed Failed = True" | "executed _ = False"

fun counted_rejected :: "outcome \<Rightarrow> bool" where
  "counted_rejected Failed = True" | "counted_rejected (NotAdmitted _) = True"
| "counted_rejected _ = False"

text \<open>Every call is settled, running or pending, and only once; the started calls are those that run
  or have been settled with their own result; calls start in the order they were made.\<close>

definition queue_core :: "tqueue \<Rightarrow> bool" where
  "queue_core s \<longleftrightarrow>
     mset (map fst (tq_settled s)) + mset (running_ids s) + mset (pending_ids s) = mset [0..<tq_next s]
     \<and> mset (tq_started s) = mset (running_ids s) + mset (map fst (filter (executed \<circ> snd) (tq_settled s)))
     \<and> sorted_wrt (<) (tq_started s @ pending_ids s)
     \<and> tq_completed s = length (filter (\<lambda>(_, r). r = Resolved) (tq_settled s))
     \<and> tq_rejected s = length (filter (\<lambda>(_, r). counted_rejected r) (tq_settled s))
     \<and> length (tq_items s) \<le> tq_max_pending s"

definition queue_wf :: "tqueue \<Rightarrow> bool" where
  "queue_wf s \<longleftrightarrow> queue_core s \<and> (tq_processing s \<longleftrightarrow> tq_running s \<noteq> None)
     \<and> (tq_closed s \<longrightarrow> tq_items s = []) \<and> (tq_running s = None \<longrightarrow> tq_items s = [])"

lemmas queue_views = pending_ids_def running_ids_def settle_def reject_counted_def

lemma queue_core_flags [simp]:
  "queue_core (s\<lparr>tq_processing := b\<rparr>) = queue_core s"
  "queue_core (s\<lparr>tq_closed := b\<rparr>) = queue_core s"
  "queue_core (s\<lparr>tq_enqueued := n\<rparr>) = queue_core s"
  "queue_core (s\<lparr>tq_wait_ms := w\<rparr>) = queue_core s"
  by (simp_all add: queue_core_def queue_views)

lemma drain_items_wf:
  "queue_core (s\<lparr>tq_items := items\<rparr>) \<Longrightarrow> tq_running s = None \<Longrightarrow> \<not> tq_closed s \<Longrightarrow> tq_processing s \<Longrightarrow>
   queue_wf (drain_items e items s)"
proof (induction items arbitrary: s)
  case Nil
  then show ?case by (simp add: queue_wf_def queue_core_def queue_views)
next
  case (Cons it rest)
  let ?s1 = "s\<lparr>tq_items := rest,
    tq_wait_ms := tq_wait_ms s + max 0 (de_clock e (qi_id it) - qi_enqueued it)\<rparr>"
  have drop: "queue_core ((reject_counted (qi_id it) (NotAdmitted c) ?s1)\<lparr>tq_items := rest\<rparr>)" for c
    using Cons.prems by (simp add: queue_core_def queue_views sorted_wrt_append)
  have keep: "queue_core (?s1\<lparr>tq_running := Some (it, t), tq_started := tq_started s @ [qi_id it]\<rparr>)" for t
    using Cons.prems by (simp add: queue_core_def queue_views sorted_wrt_append)
  show ?case
    using Cons.prems Cons.IH [OF drop] keep
    by (simp add: Let_def queue_wf_def settle_def reject_counted_def)
qed

lemma drain_wf:
  assumes "queue_core s" "tq_running s = None" "tq_processing s" "tq_closed s \<Longrightarrow> tq_items s = []"
  shows "queue_wf (drain e s)"
proof (cases "tq_closed s")
  case True
  then show ?thesis using assms by (simp add: drain_def queue_wf_def)
next
  case False
  then show ?thesis using assms drain_items_wf [where items = "tq_items s" and s = s and e = e] by (simp add: drain_def)
qed

lemma queue_wf_core: "queue_wf s \<Longrightarrow> queue_core s"
  by (simp add: queue_wf_def)

text \<open>The two pieces of \<open>enqueue\<close>: a call that is refused, and one that is queued.\<close>

lemma refuse_core:
  assumes "queue_core s" "\<not> executed r"
  shows "queue_core (settle (tq_next s) r (s\<lparr>tq_next := Suc (tq_next s),
           tq_rejected := tq_rejected s + (if counted_rejected r then 1 else 0)\<rparr>))"
  using assms by (cases r) (simp_all add: queue_core_def queue_views)

lemma core_ids:
  assumes "queue_core s"
  shows "fst ` set (tq_settled s) \<union> set (running_ids s) \<union> set (pending_ids s) = {0..<tq_next s}"
proof -
  have "set_mset (mset (map fst (tq_settled s)) + mset (running_ids s) + mset (pending_ids s))
      = set_mset (mset [0..<tq_next s])"
    using assms by (simp only: queue_core_def)
  then show ?thesis by simp
qed

lemma pending_below: "queue_core s \<Longrightarrow> it \<in> set (tq_items s) \<Longrightarrow> qi_id it < tq_next s"
  using core_ids [of s] by (auto simp: pending_ids_def)

lemma core_started:
  assumes "queue_core s"
  shows "set (tq_started s) = set (running_ids s) \<union> fst ` {p \<in> set (tq_settled s). executed (snd p)}"
proof -
  have "set_mset (mset (tq_started s)) = set_mset (mset (running_ids s)
      + mset (map fst (filter (executed \<circ> snd) (tq_settled s))))"
    using assms by (simp only: queue_core_def)
  then show ?thesis by simp
qed

lemma started_below:
  assumes "queue_core s" "i \<in> set (tq_started s)"
  shows "i < tq_next s"
proof -
  have "i \<in> fst ` set (tq_settled s) \<union> set (running_ids s) \<union> set (pending_ids s)"
    using assms(2) core_started [OF assms(1)] by auto
  then show ?thesis unfolding core_ids [OF assms(1)] by simp
qed

lemma push_core:
  assumes "queue_core s" "length (tq_items s) < tq_max_pending s" "qi_id it = tq_next s"
  shows "queue_core (s\<lparr>tq_next := Suc (tq_next s), tq_items := tq_items s @ [it]\<rparr>)"
proof -
  have "sorted_wrt (<) (tq_started s @ pending_ids s @ [tq_next s])"
    using assms(1) started_below [OF assms(1)] pending_below [OF assms(1)]
    by (auto simp: queue_core_def sorted_wrt_append pending_ids_def)
  then show ?thesis using assms by (simp add: queue_core_def queue_views)
qed

lemma start_wf:
  assumes "queue_core s" "tq_processing s \<longleftrightarrow> tq_running s \<noteq> None" "\<not> tq_closed s"
  shows "queue_wf (start e s)"
proof (cases "tq_processing s")
  case True
  then obtain p where "tq_running s = Some p" using assms(2) by auto
  with True show ?thesis using assms by (simp add: start_def queue_wf_def)
next
  case False
  then have "tq_running s = None" using assms(2) by (cases "tq_running s") auto
  then show ?thesis using False assms drain_wf [of "s\<lparr>tq_processing := True\<rparr>" e]
    by (simp add: start_def)
qed

lemma refuse_wf:
  assumes "queue_wf s" "\<not> executed r"
  shows "queue_wf (settle (tq_next s) r (s\<lparr>tq_next := Suc (tq_next s),
           tq_rejected := tq_rejected s + (if counted_rejected r then 1 else 0)\<rparr>))"
  using assms refuse_core [of s r] by (simp add: queue_wf_def settle_def)

lemma enqueue_wf:
  assumes wf: "queue_wf s"
  shows "queue_wf (enqueue now d a e s)"
proof -
  let ?s = "s\<lparr>tq_next := Suc (tq_next s)\<rparr>"
  have push: "queue_wf (start e (?s\<lparr>tq_enqueued := tq_enqueued s + 1, tq_items := tq_items s @ [it]\<rparr>))"
    if "\<not> tq_closed s" "length (tq_items s) < tq_max_pending s" "qi_id it = tq_next s" for it
  proof (rule start_wf)
    have "queue_core (?s\<lparr>tq_items := tq_items s @ [it]\<rparr>)"
      using push_core [OF queue_wf_core [OF wf] that(2,3)] by simp
    then show "queue_core (?s\<lparr>tq_enqueued := tq_enqueued s + 1, tq_items := tq_items s @ [it]\<rparr>)"
      by (simp add: queue_core_def queue_views)
  qed (use wf that(1) in \<open>auto simp: queue_wf_def\<close>)
  show ?thesis
    using refuse_wf [OF wf, of QueueCancelled] refuse_wf [OF wf, of InvalidDeadline]
      refuse_wf [OF wf, of "NotAdmitted _"] push
    by (auto simp: enqueue_def Let_def reject_counted_def settle_def admission_code_of_def
        split: option.splits jsnum.splits if_splits)
qed

lemma sorted_wrt_filter': "sorted_wrt P (xs @ map f ys) \<Longrightarrow> sorted_wrt P (xs @ map f (filter Q ys))"
  by (auto simp: sorted_wrt_append sorted_wrt_map intro: sorted_wrt_filter)

lemma mset_remove_key:
  "distinct (map f xs) \<Longrightarrow> i \<in> f ` set xs \<Longrightarrow>
   mset (map f xs) = add_mset i (mset (map f (filter (\<lambda>x. f x \<noteq> i) xs)))"
proof (induction xs)
  case (Cons x xs)
  show ?case
  proof (cases "f x = i")
    case True
    have "f x \<notin> f ` set xs" using Cons.prems(1) by simp
    with True have "\<forall>y \<in> set xs. f y \<noteq> i" by (metis image_eqI)
    then have "filter (\<lambda>x. f x \<noteq> i) xs = xs" by (simp add: filter_id_conv)
    with True show ?thesis by simp
  next
    case False
    with Cons show ?thesis by auto
  qed
qed simp

lemma remove_item_wf: "queue_wf s \<Longrightarrow> queue_wf (remove_item code i s)"
proof -
  assume wf: "queue_wf s"
  have "distinct (tq_started s @ pending_ids s)"
    using queue_wf_core [OF wf] by (simp add: queue_core_def strict_sorted_iff)
  then have "distinct (map qi_id (tq_items s))" by (simp add: pending_ids_def)
  from mset_remove_key [OF this, of i] show ?thesis
    using wf le_trans [OF length_filter_le, of "tq_items s" "tq_max_pending s"]
    by (auto simp: remove_item_def queue_wf_def queue_core_def queue_views intro: sorted_wrt_filter')
qed

lemma complete_wf: "queue_wf s \<Longrightarrow> queue_wf (complete ok now e s)"
proof (cases "tq_running s")
  case (Some p)
  assume wf: "queue_wf s"
  obtain it t where p: "p = (it, t)" by (cases p)
  have "queue_wf (drain e (settle (qi_id it) Resolved (s\<lparr>tq_running := None,
      tq_completed := tq_completed s + 1, tq_exec_ms := tq_exec_ms s + max 0 (now - t)\<rparr>)))"
    by (rule drain_wf) (use wf Some p in \<open>simp_all add: queue_wf_def queue_core_def queue_views\<close>)
  moreover have "queue_wf (drain e (reject_counted (qi_id it) Failed (s\<lparr>tq_running := None\<rparr>)))"
    by (rule drain_wf) (use wf Some p in \<open>simp_all add: queue_wf_def queue_core_def queue_views\<close>)
  ultimately show ?thesis using Some p by (simp add: complete_def)
qed (simp add: complete_def)

lemma cancel_wf: "queue_wf s \<Longrightarrow> queue_wf (cancel_queue s)"
proof -
  assume wf: "queue_wf s"
  have [simp]: "filter (executed \<circ> snd) (map (\<lambda>it. (qi_id it, QueueCancelled)) xs) = []"
    "filter (\<lambda>(_, r). r = Resolved) (map (\<lambda>it. (qi_id it, QueueCancelled)) xs) = []"
    "filter (\<lambda>(_, r). counted_rejected r) (map (\<lambda>it. (qi_id it, QueueCancelled)) xs) = []"
    "fst \<circ> (\<lambda>it. (qi_id it, QueueCancelled)) = qi_id" for xs
    by (induction xs) auto
  show ?thesis using wf
    by (simp add: cancel_queue_def queue_wf_def queue_core_def queue_views sorted_wrt_append add.assoc
        add.commute [of "image_mset qi_id (mset (tq_items s))"])
qed

lemma queue_step_wf: "queue_wf s \<Longrightarrow> queue_wf (queue_step s ev)"
  by (cases ev) (simp_all add: enqueue_wf remove_item_wf complete_wf cancel_wf)

interpretation queue_machine: machine queue_step queue_wf
  by unfold_locales (rule queue_step_wf)

lemma new_queue_wf: "new_queue n w = Some s \<Longrightarrow> queue_wf s"
  by (auto simp: new_queue_def queue_wf_def queue_core_def queue_views split: if_splits jsnum.splits)

section \<open>Draining\<close>

lemma drain_items_length:
  "length (tq_items (drain_items e items s)) \<le> length items - 1"
proof (induction items arbitrary: s)
  case (Cons it rest)
  have step: "length (tq_items (drain_items e rest s')) \<le> length rest" for s'
    using Cons.IH [of s'] by linarith
  show ?case using step by (simp add: Let_def)
qed simp

lemma drain_length: "length (tq_items (drain e s)) \<le> (if tq_closed s then length (tq_items s) else length (tq_items s) - 1)"
  using drain_items_length [where items = "tq_items s" and s = s and e = e] by (simp add: drain_def)

lemma complete_length:
  "tq_running s = Some p \<Longrightarrow> \<not> tq_closed s \<Longrightarrow>
   length (tq_items (complete ok now e s)) \<le> length (tq_items s) - 1"
  using drain_length [where e = e] by (cases p) (simp add: complete_def settle_def reject_counted_def
      order.trans [OF drain_length])

lemma drain_items_closed [simp]: "tq_closed (drain_items e items s) = tq_closed s"
  by (induction items arbitrary: s) (simp_all add: Let_def settle_def reject_counted_def)

lemma complete_closed: "tq_closed (complete ok now e s) = tq_closed s"
  by (simp add: complete_def drain_def settle_def reject_counted_def split: option.splits prod.splits)

text \<open>A run of completions: the awaited promises settle one after the other.\<close>

definition completions :: "(bool \<times> int \<times> drain_env) list \<Rightarrow> tqueue \<Rightarrow> tqueue" where
  "completions cs s = foldl queue_step s (map (\<lambda>(ok, now, e). EvComplete ok now e) cs)"

lemma completions_simps [simp]:
  "completions [] s = s"
  "completions ((ok, now, e) # cs) s = completions cs (complete ok now e s)"
  by (simp_all add: completions_def)

lemma completions_idle:
  assumes "queue_wf s" "length (tq_items s) < length cs"
  shows "tq_running (completions cs s) = None \<and> tq_items (completions cs s) = []"
  using assms
proof (induction cs arbitrary: s)
  case (Cons c cs)
  obtain ok now e where c: "c = (ok, now, e)" by (cases c)
  let ?s = "complete ok now e s"
  have wf: "queue_wf ?s" using Cons.prems(1) by (rule complete_wf)
  show ?case
  proof (cases "tq_running ?s")
    case None
    have "completions cs s' = s'" if "tq_running s' = None" for cs s'
      using that by (induction cs) (auto simp: complete_def)
    then show ?thesis using None wf c by (simp add: queue_wf_def)
  next
    case (Some p)
    then have open': "\<not> tq_closed s" and run: "tq_running s \<noteq> None"
      by (auto simp: complete_def drain_def settle_def reject_counted_def split: option.splits if_splits)
    then obtain p' where "tq_running s = Some p'" by blast
    note len = complete_length [OF this open', of ok now e]
    show ?thesis
    proof (cases "tq_items s = []")
      case True
      with Some run show ?thesis
        by (auto simp: complete_def drain_def settle_def reject_counted_def split: option.splits if_splits)
    next
      case False
      then have "length (tq_items ?s) < length cs" using Cons.prems(2) len
        by (cases "tq_items s") auto
      then show ?thesis using Cons.IH [OF wf] c by simp
    qed
  qed
qed simp

section \<open>Properties\<close>

lemma core_distinct:
  assumes "queue_core s"
  shows "distinct (map fst (tq_settled s) @ running_ids s @ pending_ids s)"
proof -
  have "mset (map fst (tq_settled s) @ running_ids s @ pending_ids s) = mset [0..<tq_next s]"
    using assms by (simp add: queue_core_def add.assoc)
  then show ?thesis using mset_eq_imp_distinct_iff distinct_upt by blast
qed

lemma unexecuted_not_started:
  assumes "queue_core s" "(i, r) \<in> set (tq_settled s)" "\<not> executed r"
  shows "i \<notin> set (tq_started s)"
proof
  assume "i \<in> set (tq_started s)"
  moreover have d: "distinct (map fst (tq_settled s))" "i \<notin> set (running_ids s)"
    using core_distinct [OF assms(1)] assms(2) by force+
  ultimately obtain r' where "(i, r') \<in> set (tq_settled s)" "executed r'"
    using core_started [OF assms(1)] by auto
  then show False using d(1) assms(2,3) by (metis map_of_is_SomeI option.inject)
qed

lemma reachable_queue:
  "new_queue n w = Some s0 \<Longrightarrow> queue_wf (foldl queue_step s0 evs)"
  by (blast intro: new_queue_wf queue_machine.run_inv)


definition demo_env :: drain_env where
  "demo_env = \<lparr>de_clock = (\<lambda>_. 10), de_aborted = (\<lambda>_. False)\<rparr>"

definition demo_events :: "queue_event list" where
  "demo_events = [EvEnqueue 10 None False demo_env, EvEnqueue 11 None False demo_env,
     EvEnqueue 12 (Some (Fin 5)) False demo_env, EvComplete True 14 demo_env]"


text \<open>C4 (safety). The queue serialises: in every reachable state commands have been started in the
  order they were enqueued and every pending command comes after all of them, at most one started
  command is not yet settled, at most \<open>maxPending\<close> commands wait, and a closed queue holds none.\<close>

theorem queue_is_fifo_and_exclusive:
  assumes "new_queue n w = Some s0" and "s = foldl queue_step s0 evs"
  shows "sorted_wrt (<) (tq_started s @ pending_ids s)
    \<and> length (filter (\<lambda>i. i \<notin> fst ` set (tq_settled s)) (tq_started s)) \<le> 1
    \<and> length (pending_ids s) \<le> tq_max_pending s
    \<and> \<not> (tq_closed s \<and> pending_ids s \<noteq> [])"
proof -
  have wf: "queue_wf s" using reachable_queue [OF assms(1)] assms(2) by blast
  then have c: "queue_core s" by (rule queue_wf_core)
  have "distinct (tq_started s)"
    using c by (simp add: queue_core_def sorted_wrt_append strict_sorted_iff)
  moreover have "set (filter (\<lambda>i. i \<notin> fst ` set (tq_settled s)) (tq_started s)) \<subseteq> set (running_ids s)"
    using core_started [OF c] by auto
  ultimately have "length (filter (\<lambda>i. i \<notin> fst ` set (tq_settled s)) (tq_started s)) \<le> card (set (running_ids s))"
    by (metis List.finite_set card_mono distinct_card distinct_filter)
  also have "card (set (running_ids s)) \<le> 1"
    by (cases "tq_running s") (auto simp: running_ids_def)
  finally show ?thesis using wf c
    by (auto simp: queue_core_def queue_wf_def pending_ids_def)
qed

theorem queue_is_fifo_and_exclusive_witness:
  "\<exists>s0. new_queue 4 (Fin 100) = Some s0 \<and>
     sorted_wrt (<) (tq_started (foldl queue_step s0 demo_events) @ pending_ids (foldl queue_step s0 demo_events))"
proof -
  obtain s0 where s0: "new_queue 4 (Fin 100) = Some s0" by (simp add: new_queue_def)
  show ?thesis using queue_is_fifo_and_exclusive [OF s0 refl] s0 by blast
qed

text \<open>C5 (liveness). The queue drains: from any reachable state, once more awaited commands have
  settled than are pending, whatever their results, clock readings and abort flags, nothing is running
  or pending and every call ever made has been settled. No wake-up is lost between two commands.\<close>

theorem queue_drains:
  assumes "new_queue n w = Some s0" and "s = foldl queue_step s0 evs"
    and "length (pending_ids s) < length cs"
  shows "running_ids (completions cs s) = [] \<and> pending_ids (completions cs s) = []
    \<and> set (map fst (tq_settled (completions cs s))) = {0..<tq_next (completions cs s)}"
proof -
  have wf: "queue_wf s" using reachable_queue [OF assms(1)] assms(2) by blast
  then have "queue_core (completions cs s)"
    unfolding completions_def by (rule queue_machine.run_inv [THEN queue_wf_core])
  moreover have "tq_running (completions cs s) = None \<and> tq_items (completions cs s) = []"
    using completions_idle [OF wf] assms(3) by (simp add: pending_ids_def)
  ultimately show ?thesis using core_ids by (fastforce simp: queue_views)
qed

theorem queue_drains_witness:
  "\<exists>s0. new_queue 4 (Fin 100) = Some s0 \<and>
     pending_ids (completions (replicate 3 (False, 20, demo_env)) (foldl queue_step s0 demo_events)) = []"
proof -
  obtain s0 where s0: "new_queue 4 (Fin 100) = Some s0" by (simp add: new_queue_def)
  then have "length (pending_ids (foldl queue_step s0 demo_events)) < 3"
    by (auto simp: new_queue_def demo_events_def demo_env_def enqueue_def admission_code_of_def
        settle_def reject_counted_def start_def drain_def complete_def pending_ids_def)
  then show ?thesis using queue_drains [OF s0 refl, of demo_events "replicate 3 (False, 20, demo_env)"] s0
    by simp
qed

text \<open>Closing a target. Once a target's queue has been cancelled, no later call of the
  manager for that target starts a command or leaves one pending, whatever its arguments: the call is
  settled with the cancellation error, and what was already running or settled is untouched.\<close>

theorem cancelled_target_starts_nothing:
  assumes "jget m t = Some q"
  shows "\<exists>q'. jget (manager_enqueue t now d a e (cancel_target t m)) t = Some q'
    \<and> tq_started q' = tq_started q \<and> tq_items q' = [] \<and> tq_running q' = tq_running q
    \<and> tq_settled q' = tq_settled q @ map (\<lambda>i. (i, QueueCancelled)) (pending_ids q)
        @ [(tq_next q, QueueCancelled)]"
  using assms
  by (simp add: manager_enqueue_def cancel_target_def jm cancel_queue_def enqueue_def settle_def
      pending_ids_def comp_def Let_def)

theorem cancelled_target_starts_nothing_witness:
  "\<exists>q'. jget (manager_enqueue ''T'' 3 None False demo_env (cancel_target ''T'' [(''T'', fresh_queue)])) ''T''
     = Some q' \<and> tq_started q' = tq_started fresh_queue"
proof -
  have "jget [(''T'', fresh_queue)] ''T'' = Some fresh_queue" by simp
  from cancelled_target_starts_nothing [OF this, of 3 None False demo_env] show ?thesis by blast
qed

text \<open>The guarantee needs the queue to exist: cancelling a target that has no queue leaves no
  tombstone, and the next call for it builds a live queue and starts its command.\<close>

lemma cancel_without_queue_is_forgotten:
  assumes "jget m t = None" "de_clock e 0 < now + default_max_wait" "\<not> de_aborted e 0"
  shows "\<exists>q'. jget (manager_enqueue t now None False e (cancel_target t m)) t = Some q'
    \<and> tq_started q' = [0] \<and> \<not> tq_closed q'"
  using assms
  by (auto simp: manager_enqueue_def cancel_target_def jm enqueue_def settle_def fresh_queue_def
      new_queue_def default_max_pending_def default_max_wait_def admission_code_of_def start_def
      drain_def Let_def)

end
