(* ===== verification/Circuit_Breaker.thy ===== *)
theory Circuit_Breaker
  imports Oc_Prelude "HOL-Library.Word" "HOL-Library.Sublist"
begin

text \<open>
  The three-level circuit breaker of the interaction tools,
  \<open>src/src/recovery/ralph/circuit-breaker.ts\<close>: per element (a query on a tab), per page (distinct
  failed queries of a tab) and global (failures in a sliding window). Each operation takes the clock
  reading \<open>now\<close> it makes; the readings within one call are one argument. The page's
  \<open>Set\<close> of failed query hashes is a list without repetitions. Suggestion texts are represented by
  what they are filled with.
\<close>

section \<open>Data\<close>

datatype breaker_state = CLOSED | OPEN | HALF_OPEN

datatype suggestion = SuggestElement string nat | SuggestPage nat | SuggestGlobal

record breaker_status =
  bs_state :: breaker_state
  bs_failures :: nat
  bs_last_failure :: int
  bs_suggestion :: "suggestion option"

record element_entry =
  ee_failures :: nat
  ee_state :: breaker_state
  ee_opened :: int
  ee_last :: int

record page_entry =
  pe_failed :: "string list"
  pe_state :: breaker_state
  pe_opened :: int
  pe_last :: int

record breaker_config =
  bc_element_threshold :: nat
  bc_element_reset :: int
  bc_page_threshold :: nat
  bc_page_reset :: int
  bc_global_threshold :: nat
  bc_global_window :: int
  bc_global_reset :: int

record breaker_options =
  bo_element_threshold :: "nat option"
  bo_element_reset :: "int option"
  bo_page_threshold :: "nat option"
  bo_page_reset :: "int option"
  bo_global_threshold :: "nat option"
  bo_global_window :: "int option"
  bo_global_reset :: "int option"

record breaker =
  cb_elements :: "(string, element_entry) jmap"
  cb_pages :: "(string, page_entry) jmap"
  cb_failures :: "int list"
  cb_state :: breaker_state
  cb_opened :: int
  cb_config :: breaker_config

definition breaker_config_of :: "breaker_options \<Rightarrow> breaker_config" where
  "breaker_config_of o' =
     \<lparr>bc_element_threshold = default_to 3 (bo_element_threshold o'),
      bc_element_reset = default_to 120000 (bo_element_reset o'),
      bc_page_threshold = default_to 5 (bo_page_threshold o'),
      bc_page_reset = default_to 60000 (bo_page_reset o'),
      bc_global_threshold = default_to 10 (bo_global_threshold o'),
      bc_global_window = default_to 300000 (bo_global_window o'),
      bc_global_reset = default_to 300000 (bo_global_reset o')\<rparr>"

definition new_breaker :: "breaker_options \<Rightarrow> breaker" where
  "new_breaker o' = \<lparr>cb_elements = [], cb_pages = [], cb_failures = [], cb_state = CLOSED,
     cb_opened = 0, cb_config = breaker_config_of o'\<rparr>"

section \<open>Element level\<close>

definition element_key :: "string \<Rightarrow> string \<Rightarrow> string" where
  "element_key tab query = tab @ '':'' @ query"

definition check_element :: "string \<Rightarrow> string \<Rightarrow> int \<Rightarrow> breaker \<Rightarrow> breaker_status \<times> breaker" where
  "check_element tab query now s =
     (let key = element_key tab query in
      case jget (cb_elements s) key of
        None \<Rightarrow> (\<lparr>bs_state = CLOSED, bs_failures = 0, bs_last_failure = 0, bs_suggestion = None\<rparr>, s)
      | Some e \<Rightarrow>
          if ee_state e = CLOSED then
            (\<lparr>bs_state = CLOSED, bs_failures = ee_failures e, bs_last_failure = ee_last e,
              bs_suggestion = None\<rparr>, s)
          else if ee_state e = OPEN \<and> bc_element_reset (cb_config s) \<le> now - ee_opened e then
            (\<lparr>bs_state = HALF_OPEN, bs_failures = ee_failures e, bs_last_failure = ee_last e,
              bs_suggestion = None\<rparr>,
             s\<lparr>cb_elements := jset key (e\<lparr>ee_state := HALF_OPEN\<rparr>) (cb_elements s)\<rparr>)
          else
            (\<lparr>bs_state = ee_state e, bs_failures = ee_failures e, bs_last_failure = ee_last e,
              bs_suggestion = Some (SuggestElement query (ee_failures e))\<rparr>, s))"

definition fail_element :: "nat \<Rightarrow> int \<Rightarrow> element_entry option \<Rightarrow> element_entry" where
  "fail_element threshold now entry =
     (let e0 = default_to \<lparr>ee_failures = 0, ee_state = CLOSED, ee_opened = 0, ee_last = 0\<rparr> entry;
          e = e0\<lparr>ee_failures := ee_failures e0 + 1, ee_last := now\<rparr>
      in if threshold \<le> ee_failures e \<and> ee_state e = CLOSED
         then e\<lparr>ee_state := OPEN, ee_opened := now\<rparr> else e)"

section \<open>Page level\<close>

definition add_once :: "'a \<Rightarrow> 'a list \<Rightarrow> 'a list" where
  "add_once x xs = (if x \<in> set xs then xs else xs @ [x])"

definition fail_page :: "nat \<Rightarrow> int \<Rightarrow> string \<Rightarrow> page_entry option \<Rightarrow> page_entry" where
  "fail_page threshold now query entry =
     (let e0 = default_to \<lparr>pe_failed = [], pe_state = CLOSED, pe_opened = 0, pe_last = 0\<rparr> entry;
          e = e0\<lparr>pe_failed := add_once query (pe_failed e0), pe_last := now\<rparr>
      in if threshold \<le> length (pe_failed e) \<and> pe_state e = CLOSED
         then e\<lparr>pe_state := OPEN, pe_opened := now\<rparr> else e)"

definition record_page_failure :: "string \<Rightarrow> string \<Rightarrow> int \<Rightarrow> breaker \<Rightarrow> breaker" where
  "record_page_failure tab query now s =
     s\<lparr>cb_pages := jset tab (fail_page (bc_page_threshold (cb_config s)) now query
                              (jget (cb_pages s) tab)) (cb_pages s)\<rparr>"

definition check_page :: "string \<Rightarrow> int \<Rightarrow> breaker \<Rightarrow> breaker_status \<times> breaker" where
  "check_page tab now s =
     (case jget (cb_pages s) tab of
        None \<Rightarrow> (\<lparr>bs_state = CLOSED, bs_failures = 0, bs_last_failure = 0, bs_suggestion = None\<rparr>, s)
      | Some e \<Rightarrow>
          if pe_state e = CLOSED then
            (\<lparr>bs_state = CLOSED, bs_failures = length (pe_failed e), bs_last_failure = pe_last e,
              bs_suggestion = None\<rparr>, s)
          else if pe_state e = OPEN \<and> bc_page_reset (cb_config s) \<le> now - pe_opened e then
            (\<lparr>bs_state = HALF_OPEN, bs_failures = 0, bs_last_failure = pe_last e,
              bs_suggestion = None\<rparr>,
             s\<lparr>cb_pages := jset tab (e\<lparr>pe_state := HALF_OPEN, pe_failed := []\<rparr>) (cb_pages s)\<rparr>)
          else
            (\<lparr>bs_state = pe_state e, bs_failures = length (pe_failed e), bs_last_failure = pe_last e,
              bs_suggestion = Some (SuggestPage (length (pe_failed e)))\<rparr>, s))"

definition reset_page :: "string \<Rightarrow> breaker \<Rightarrow> breaker" where
  "reset_page tab s =
     s\<lparr>cb_pages := jdel tab (cb_pages s),
       cb_elements := jkeep (\<lambda>key _. \<not> prefix (tab @ '':'') key) (cb_elements s)\<rparr>"

section \<open>Global level\<close>

definition recent_failures :: "int \<Rightarrow> int \<Rightarrow> int list \<Rightarrow> int list" where
  "recent_failures window now ts = filter (\<lambda>t. now - t < window) ts"

definition record_global_failure :: "int \<Rightarrow> breaker \<Rightarrow> breaker" where
  "record_global_failure now s =
     (let fs = recent_failures (bc_global_window (cb_config s)) now (cb_failures s @ [now]);
          s1 = s\<lparr>cb_failures := fs\<rparr>
      in if bc_global_threshold (cb_config s) \<le> length fs \<and> cb_state s = CLOSED
         then s1\<lparr>cb_state := OPEN, cb_opened := now\<rparr> else s1)"

definition check_global :: "int \<Rightarrow> breaker \<Rightarrow> breaker_status \<times> breaker" where
  "check_global now s =
     (if cb_state s = CLOSED then
        (\<lparr>bs_state = CLOSED,
          bs_failures = length (recent_failures (bc_global_window (cb_config s)) now (cb_failures s)),
          bs_last_failure = (if cb_failures s = [] then 0 else last (cb_failures s)),
          bs_suggestion = None\<rparr>, s)
      else if cb_state s = OPEN \<and> bc_global_reset (cb_config s) \<le> now - cb_opened s then
        (\<lparr>bs_state = HALF_OPEN, bs_failures = length (cb_failures s), bs_last_failure = cb_opened s,
          bs_suggestion = None\<rparr>, s\<lparr>cb_state := HALF_OPEN\<rparr>)
      else
        (\<lparr>bs_state = cb_state s, bs_failures = length (cb_failures s), bs_last_failure = cb_opened s,
          bs_suggestion = Some SuggestGlobal\<rparr>, s))"

definition record_global_success :: "breaker \<Rightarrow> breaker" where
  "record_global_success s =
     (if cb_state s = HALF_OPEN then s\<lparr>cb_state := CLOSED, cb_failures := []\<rparr> else s)"

section \<open>The operations that span levels\<close>

definition record_element_failure :: "string \<Rightarrow> string \<Rightarrow> int \<Rightarrow> breaker \<Rightarrow> breaker" where
  "record_element_failure tab query now s =
     (let key = element_key tab query;
          e = fail_element (bc_element_threshold (cb_config s)) now (jget (cb_elements s) key)
      in record_global_failure now
           (record_page_failure tab query now (s\<lparr>cb_elements := jset key e (cb_elements s)\<rparr>)))"

definition record_element_success :: "string \<Rightarrow> string \<Rightarrow> breaker \<Rightarrow> breaker" where
  "record_element_success tab query s = s\<lparr>cb_elements := jdel (element_key tab query) (cb_elements s)\<rparr>"

datatype breaker_level = LevelElement | LevelPage | LevelGlobal

record check_result =
  ck_allowed :: bool
  ck_level :: "breaker_level option"
  ck_status :: breaker_status

definition denied :: "breaker_level \<Rightarrow> breaker_status \<Rightarrow> check_result" where
  "denied level st = \<lparr>ck_allowed = False, ck_level = Some level, ck_status = st\<rparr>"

definition allowed_result :: check_result where
  "allowed_result = \<lparr>ck_allowed = True, ck_level = None,
     ck_status = \<lparr>bs_state = CLOSED, bs_failures = 0, bs_last_failure = 0, bs_suggestion = None\<rparr>\<rparr>"

definition check :: "string \<Rightarrow> string \<Rightarrow> int \<Rightarrow> breaker \<Rightarrow> check_result \<times> breaker" where
  "check tab query now s =
     (let (g, s1) = check_global now s in
      if bs_state g = OPEN then (denied LevelGlobal g, s1)
      else let (p, s2) = check_page tab now s1 in
        if bs_state p = OPEN then (denied LevelPage p, s2)
        else let (e, s3) = check_element tab query now s2 in
          if bs_state e = OPEN then (denied LevelElement e, s3)
          else (allowed_result, s3))"

definition reset_breaker :: "breaker \<Rightarrow> breaker" where
  "reset_breaker s = s\<lparr>cb_elements := [], cb_pages := [], cb_failures := [], cb_state := CLOSED,
     cb_opened := 0\<rparr>"

datatype breaker_op =
    BFail string string int
  | BSucceed string string
  | BGlobalSuccess
  | BCheck string string int
  | BResetPage string
  | BReset

fun breaker_step :: "breaker \<Rightarrow> breaker_op \<Rightarrow> breaker" where
  "breaker_step s (BFail tab query now) = record_element_failure tab query now s"
| "breaker_step s (BSucceed tab query) = record_element_success tab query s"
| "breaker_step s BGlobalSuccess = record_global_success s"
| "breaker_step s (BCheck tab query now) = snd (check tab query now s)"
| "breaker_step s (BResetPage tab) = reset_page tab s"
| "breaker_step s BReset = reset_breaker s"

section \<open>The query hash\<close>

text \<open>\<open>(hash << 5) - hash + charCode | 0\<close> is arithmetic on 32-bit integers.\<close>

definition hash_step :: "32 word \<Rightarrow> char \<Rightarrow> 32 word" where
  "hash_step h c = push_bit 5 h - h + of_nat (of_char c)"

definition hash_word :: "string \<Rightarrow> 32 word" where
  "hash_word query = foldl hash_step 0 query"

definition digit36 :: "nat \<Rightarrow> char" where
  "digit36 d = (if d < 10 then char_of (48 + d) else char_of (87 + d))"

fun base36 :: "nat \<Rightarrow> string" where
  "base36 n = (if n < 36 then [digit36 n] else base36 (n div 36) @ [digit36 (n mod 36)])"

declare base36.simps [simp del]

definition hash_query :: "string \<Rightarrow> string" where
  "hash_query query =
     (let h = sint (hash_word query)
      in if h < 0 then ''-'' @ base36 (nat (- h)) else base36 (nat h))"

section \<open>Invariant\<close>

definition element_ok :: "nat \<Rightarrow> element_entry \<Rightarrow> bool" where
  "element_ok threshold e \<longleftrightarrow> (ee_state e = CLOSED \<longleftrightarrow> ee_failures e < threshold)"

definition page_ok :: "nat \<Rightarrow> page_entry \<Rightarrow> bool" where
  "page_ok threshold e \<longleftrightarrow> distinct (pe_failed e)
     \<and> (pe_state e = CLOSED \<longrightarrow> length (pe_failed e) < threshold)
     \<and> (pe_state e = OPEN \<longrightarrow> threshold \<le> length (pe_failed e))"

definition config_ok :: "breaker_config \<Rightarrow> bool" where
  "config_ok c \<longleftrightarrow> 1 \<le> bc_element_threshold c \<and> 1 \<le> bc_page_threshold c \<and> 1 \<le> bc_global_threshold c"

definition breaker_wf :: "breaker \<Rightarrow> bool" where
  "breaker_wf s \<longleftrightarrow> config_ok (cb_config s) \<and> jwf (cb_elements s) \<and> jwf (cb_pages s)
     \<and> (\<forall>k e. jget (cb_elements s) k = Some e \<longrightarrow> element_ok (bc_element_threshold (cb_config s)) e)
     \<and> (\<forall>t e. jget (cb_pages s) t = Some e \<longrightarrow> page_ok (bc_page_threshold (cb_config s)) e)
     \<and> (cb_state s = CLOSED \<longrightarrow> length (cb_failures s) < bc_global_threshold (cb_config s))"

lemma fail_element_ok:
  "case_option True (element_ok n) entry \<Longrightarrow> 1 \<le> n \<Longrightarrow> element_ok n (fail_element n now entry)"
  by (cases entry) (auto simp: fail_element_def element_ok_def Let_def)

lemma fail_page_ok:
  "case_option True (page_ok n) entry \<Longrightarrow> 1 \<le> n \<Longrightarrow> page_ok n (fail_page n now q entry)"
  by (cases entry) (auto simp: fail_page_def page_ok_def Let_def add_once_def)

lemma record_element_failure_wf:
  "breaker_wf s \<Longrightarrow> breaker_wf (record_element_failure tab query now s)"
  using fail_element_ok [of "bc_element_threshold (cb_config s)"
      "jget (cb_elements s) (element_key tab query)" now]
    fail_page_ok [of "bc_page_threshold (cb_config s)" "jget (cb_pages s) tab" now query]
  by (auto simp: record_element_failure_def record_page_failure_def record_global_failure_def Let_def
      breaker_wf_def config_ok_def jm split: option.splits)

lemma check_global_wf: "breaker_wf s \<Longrightarrow> breaker_wf (snd (check_global now s))"
  by (simp add: check_global_def breaker_wf_def)

lemma check_page_wf: "breaker_wf s \<Longrightarrow> breaker_wf (snd (check_page tab now s))"
  by (auto simp: check_page_def breaker_wf_def jm page_ok_def split: option.splits)

lemma check_element_wf: "breaker_wf s \<Longrightarrow> breaker_wf (snd (check_element tab query now s))"
  by (auto simp: check_element_def breaker_wf_def jm element_ok_def Let_def split: option.splits)

lemma check_wf: "breaker_wf s \<Longrightarrow> breaker_wf (snd (check tab query now s))"
  using check_global_wf [of s now]
    check_page_wf [of "snd (check_global now s)" tab now]
    check_element_wf [of "snd (check_page tab now (snd (check_global now s)))" tab query now]
  by (simp add: check_def split_def Let_def)

lemma reset_page_wf: "breaker_wf s \<Longrightarrow> breaker_wf (reset_page tab s)"
  by (auto simp: reset_page_def breaker_wf_def jm split: option.splits if_splits)

lemma small_steps_wf:
  assumes "breaker_wf s"
  shows "breaker_wf (record_element_success tab query s)" "breaker_wf (record_global_success s)"
    and "breaker_wf (reset_breaker s)"
  using assms
  by (simp_all add: record_element_success_def record_global_success_def reset_breaker_def
      breaker_wf_def config_ok_def jm)

lemma breaker_step_wf: "breaker_wf s \<Longrightarrow> breaker_wf (breaker_step s op)"
  by (cases op) (simp_all add: record_element_failure_wf check_wf reset_page_wf small_steps_wf)

interpretation breaker_machine: machine breaker_step breaker_wf
  by unfold_locales (rule breaker_step_wf)

lemma new_breaker_wf: "config_ok (breaker_config_of o') \<Longrightarrow> breaker_wf (new_breaker o')"
  by (simp add: new_breaker_def breaker_wf_def config_ok_def)

text \<open>Nothing changes the configuration.\<close>

lemma check_level_config [simp]:
  "cb_config (snd (check_global now s)) = cb_config s"
  "cb_config (snd (check_page tab now s)) = cb_config s"
  "cb_config (snd (check_element tab query now s)) = cb_config s"
  by (simp_all add: check_global_def check_page_def check_element_def Let_def split: option.split)

lemma check_config [simp]: "cb_config (snd (check tab query now s)) = cb_config s"
  by (simp add: check_def Let_def split_def)

lemma step_config [simp]: "cb_config (breaker_step s op) = cb_config s"
  by (cases op) (simp_all add: record_element_failure_def record_page_failure_def
      record_global_failure_def record_element_success_def record_global_success_def reset_page_def
      reset_breaker_def Let_def)

lemma run_config [simp]: "cb_config (foldl breaker_step s ops) = cb_config s"
  by (induction ops arbitrary: s) auto

section \<open>Properties\<close>


definition demo_options :: breaker_options where
  "demo_options = \<lparr>bo_element_threshold = Some 2, bo_element_reset = None, bo_page_threshold = None,
     bo_page_reset = None, bo_global_threshold = None, bo_global_window = None, bo_global_reset = None\<rparr>"

definition demo_failures :: "breaker_op list" where
  "demo_failures = [BFail ''t'' ''q'' 1, BFail ''t'' ''q'' 2]"


text \<open>When an entry opened: never after the last operation.\<close>

fun op_time :: "breaker_op \<Rightarrow> int" where
  "op_time (BFail _ _ now) = now"
| "op_time (BCheck _ _ now) = now"
| "op_time _ = 0"

definition opened_by :: "int \<Rightarrow> breaker \<Rightarrow> bool" where
  "opened_by t s \<longleftrightarrow> jwf (cb_elements s)
     \<and> (\<forall>k e. jget (cb_elements s) k = Some e \<longrightarrow> ee_state e = OPEN \<longrightarrow> ee_opened e \<le> t)
     \<and> (\<forall>k e. jget (cb_pages s) k = Some e \<longrightarrow> pe_state e = OPEN \<longrightarrow> pe_opened e \<le> t)
     \<and> (cb_state s = OPEN \<longrightarrow> cb_opened s \<le> t)"

lemma fail_opened:
  "case_option True (\<lambda>e. ee_state e = OPEN \<longrightarrow> ee_opened e \<le> t) entry \<Longrightarrow> now \<le> t \<Longrightarrow>
    ee_state (fail_element n now entry) = OPEN \<Longrightarrow> ee_opened (fail_element n now entry) \<le> t"
  "case_option True (\<lambda>e. pe_state e = OPEN \<longrightarrow> pe_opened e \<le> t) pentry \<Longrightarrow> now \<le> t \<Longrightarrow>
    pe_state (fail_page n now q pentry) = OPEN \<Longrightarrow> pe_opened (fail_page n now q pentry) \<le> t"
  by (cases entry; auto simp: fail_element_def Let_def split: if_splits)
    (cases pentry; auto simp: fail_page_def Let_def split: if_splits)

lemma check_levels_opened:
  assumes "opened_by t s"
  shows "opened_by t (snd (check_global now s))" "opened_by t (snd (check_page tab now s))"
    and "opened_by t (snd (check_element tab query now s))"
  using assms
  by (auto simp: opened_by_def check_global_def check_page_def check_element_def jm Let_def
      split: option.splits)

lemma check_opened: "opened_by t s \<Longrightarrow> opened_by t (snd (check tab query now s))"
  by (simp add: check_def split_def Let_def check_levels_opened)

lemma record_element_failure_opened:
  assumes "opened_by t s" "now \<le> t"
  shows "opened_by t (record_element_failure tab query now s)"
proof -
  have 1: "case_option True (\<lambda>e. ee_state e = OPEN \<longrightarrow> ee_opened e \<le> t)
      (jget (cb_elements s) (element_key tab query))"
    and 2: "case_option True (\<lambda>e. pe_state e = OPEN \<longrightarrow> pe_opened e \<le> t) (jget (cb_pages s) tab)"
    using assms(1) by (auto simp: opened_by_def split: option.split)
  show ?thesis using assms fail_opened(1) [OF 1 assms(2)] fail_opened(2) [OF 2 assms(2)]
    by (simp add: opened_by_def record_element_failure_def record_page_failure_def
        record_global_failure_def Let_def jm)
qed

lemma small_steps_opened:
  assumes "opened_by t s"
  shows "opened_by t (record_element_success tab query s)" "opened_by t (record_global_success s)"
    and "opened_by t (reset_breaker s)"
  using assms
  by (simp_all add: opened_by_def record_element_success_def record_global_success_def
      reset_breaker_def jm)

lemma reset_page_opened: "opened_by t s \<Longrightarrow> opened_by t (reset_page tab s)"
  by (simp add: opened_by_def reset_page_def jm split: option.split)

lemma breaker_step_opened: "opened_by t s \<Longrightarrow> op_time op \<le> t \<Longrightarrow> opened_by t (breaker_step s op)"
  by (cases op) (simp_all add: record_element_failure_opened small_steps_opened reset_page_opened check_opened)

lemma run_opened: "opened_by t s \<Longrightarrow> list_all (\<lambda>op. op_time op \<le> t) ops \<Longrightarrow>
    opened_by t (foldl breaker_step s ops)"
  by (induction ops arbitrary: s) (auto simp: breaker_step_opened)

lemma levels_recover:
  assumes "opened_by t s"
  shows "t + bc_global_reset (cb_config s) \<le> now \<Longrightarrow> bs_state (fst (check_global now s)) \<noteq> OPEN"
    and "t + bc_page_reset (cb_config s) \<le> now \<Longrightarrow> bs_state (fst (check_page tab now s)) \<noteq> OPEN"
    and "t + bc_element_reset (cb_config s) \<le> now \<Longrightarrow> bs_state (fst (check_element tab query now s)) \<noteq> OPEN"
proof -
  have p: "jget (cb_pages s) tab = Some x \<Longrightarrow> pe_state x = OPEN \<Longrightarrow> pe_opened x \<le> t" for x
    using assms by (simp add: opened_by_def)
  have e: "jget (cb_elements s) key = Some y \<Longrightarrow> ee_state y = OPEN \<Longrightarrow> ee_opened y \<le> t" for key y
    using assms by (simp add: opened_by_def)
  have g: "cb_state s = OPEN \<Longrightarrow> cb_opened s \<le> t"
    using assms by (simp add: opened_by_def)
  show "t + bc_global_reset (cb_config s) \<le> now \<Longrightarrow> bs_state (fst (check_global now s)) \<noteq> OPEN"
    using g by (cases "cb_state s") (simp_all add: check_global_def)
  show "t + bc_page_reset (cb_config s) \<le> now \<Longrightarrow> bs_state (fst (check_page tab now s)) \<noteq> OPEN"
    using p by (cases "jget (cb_pages s) tab") (auto simp: check_page_def)
  show "t + bc_element_reset (cb_config s) \<le> now \<Longrightarrow> bs_state (fst (check_element tab query now s)) \<noteq> OPEN"
    by (cases "jget (cb_elements s) (element_key tab query)") (auto simp: check_element_def Let_def dest: e)
qed

text \<open>No breaker blocks for good. Let every operation so far have happened by time
  \<open>t\<close>. Then a check at any time at least the three cooldowns after \<open>t\<close> is allowed, for every tab and
  every query, however many failures were recorded.\<close>

theorem breaker_always_recovers:
  assumes "s = foldl breaker_step (new_breaker o') ops" and "list_all (\<lambda>op. op_time op \<le> t) ops"
    and "t + bc_element_reset (cb_config s) \<le> now" "t + bc_page_reset (cb_config s) \<le> now"
    "t + bc_global_reset (cb_config s) \<le> now"
  shows "ck_allowed (fst (check tab query now s))"
proof -
  have o': "opened_by t s" unfolding assms(1)
    using assms(2) by (intro run_opened) (simp_all add: opened_by_def new_breaker_def)
  let ?s1 = "snd (check_global now s)"
  have o1: "opened_by t ?s1" and c1: "cb_config ?s1 = cb_config s"
    using o' by (simp_all add: check_levels_opened)
  let ?s2 = "snd (check_page tab now ?s1)"
  have o2: "opened_by t ?s2" and c2: "cb_config ?s2 = cb_config s"
    using o1 by (simp_all add: check_levels_opened)
  have g: "bs_state (fst (check_global now s)) \<noteq> OPEN"
    using o' assms(5) by (rule levels_recover)
  have p: "bs_state (fst (check_page tab now ?s1)) \<noteq> OPEN"
    using o1 assms(4) by (intro levels_recover) simp_all
  have e: "bs_state (fst (check_element tab query now ?s2)) \<noteq> OPEN"
    using o2 assms(3) by (intro levels_recover) simp_all
  show ?thesis using g p e by (simp add: check_def split_def Let_def allowed_result_def)
qed

theorem breaker_always_recovers_witness:
  "ck_allowed (fst (check ''t'' ''q'' 300002 (foldl breaker_step (new_breaker demo_options) demo_failures)))"
proof -
  have c: "cb_config (foldl breaker_step (new_breaker demo_options) demo_failures) = breaker_config_of demo_options"
    by (simp only: run_config) (simp add: new_breaker_def)
  have t: "list_all (\<lambda>op. op_time op \<le> 2) demo_failures" by (simp add: demo_failures_def)
  show ?thesis
    by (rule breaker_always_recovers [OF refl t])
      (simp_all only: c, simp_all add: breaker_config_of_def demo_options_def)
qed

text \<open>A tripped entry, and what untrips it.\<close>

definition tripped :: "string \<Rightarrow> string \<Rightarrow> breaker \<Rightarrow> bool" where
  "tripped tab query s =
     (case jget (cb_elements s) (element_key tab query) of None \<Rightarrow> False | Some e \<Rightarrow> ee_state e = HALF_OPEN)"

fun untrips :: "string \<Rightarrow> string \<Rightarrow> breaker_op \<Rightarrow> bool" where
  "untrips tab query (BSucceed t q) = (element_key t q = element_key tab query)"
| "untrips tab query (BResetPage t) = prefix (t @ '':'') (element_key tab query)"
| "untrips tab query BReset = True"
| "untrips tab query _ = False"

lemma tripped_fail: "tripped tab query s \<Longrightarrow> tripped tab query (record_element_failure t q now s)"
  by (auto simp: tripped_def record_element_failure_def record_page_failure_def
      record_global_failure_def fail_element_def Let_def jm split: option.splits)

lemma tripped_check: "tripped tab query s \<Longrightarrow> tripped tab query (snd (check t q now s))"
proof -
  have 1: "tripped tab query x \<Longrightarrow> tripped tab query (snd (check_global now x))" for x
    by (simp add: tripped_def check_global_def)
  have 2: "tripped tab query x \<Longrightarrow> tripped tab query (snd (check_page t now x))" for x
    by (simp add: tripped_def check_page_def split: option.splits)
  have 3: "tripped tab query x \<Longrightarrow> tripped tab query (snd (check_element t q now x))" for x
    by (auto simp: tripped_def check_element_def Let_def jm split: option.splits)
  show "tripped tab query s \<Longrightarrow> ?thesis" by (simp add: check_def split_def Let_def 1 2 3)
qed

lemma tripped_step:
  assumes "breaker_wf s" "tripped tab query s" "\<not> untrips tab query op"
  shows "tripped tab query (breaker_step s op)"
proof (cases op)
  case BGlobalSuccess
  with assms show ?thesis by (simp add: tripped_def record_global_success_def)
next
  case (BResetPage t)
  with assms show ?thesis
    by (simp add: tripped_def reset_page_def breaker_wf_def jm split: option.splits)
qed (use assms in \<open>simp_all add: tripped_fail tripped_check\<close>,
     simp add: tripped_def record_element_success_def jm split: option.splits)

lemma tripped_run: "breaker_wf s \<Longrightarrow> tripped tab query s \<Longrightarrow> list_all (\<lambda>op. \<not> untrips tab query op) ops \<Longrightarrow>
    tripped tab query (foldl breaker_step s ops)"
proof (induction ops arbitrary: s)
  case (Cons op ops)
  then show ?case using Cons.IH [of "breaker_step s op"] tripped_step breaker_step_wf by simp
qed simp

lemma tripped_not_open: "tripped tab query s \<Longrightarrow> bs_state (fst (check_element tab query now s)) \<noteq> OPEN"
  by (auto simp: tripped_def check_element_def Let_def split: option.splits)

text \<open>A probe that fails does not reopen the breaker. Once an element breaker is
  HALF_OPEN, its level never blocks the query again, whatever is recorded afterwards, until a success
  for that very key, a page reset of its tab or a full reset: any number of further failures included,
  \<open>checkElement\<close> answers something else than OPEN at every later time. (The code moves an entry to OPEN
  only from CLOSED, and never back from HALF_OPEN, so "HALF_OPEN allows a single probe" is not what
  it does.)\<close>

theorem failed_probe_does_not_reopen:
  assumes "config_ok (breaker_config_of o')" and "s = foldl breaker_step (new_breaker o') ops"
    and "tripped tab query s"
    and "list_all (\<lambda>op. \<not> untrips tab query op) later"
  shows "bs_state (fst (check_element tab query now (foldl breaker_step s later))) \<noteq> OPEN
    \<and> tripped tab query (foldl breaker_step s later)"
proof -
  have "breaker_wf s" unfolding assms(2)
    using new_breaker_wf [OF assms(1)] by (rule breaker_machine.run_inv)
  then have "tripped tab query (foldl breaker_step s later)" using assms(3,4) by (rule tripped_run)
  then show ?thesis using tripped_not_open by blast
qed

definition demo_probe :: "breaker_op list" where
  "demo_probe = [BFail ''t'' ''q'' 1, BFail ''t'' ''q'' 2, BCheck ''t'' ''q'' 200000]"

theorem failed_probe_does_not_reopen_witness:
  "bs_state (fst (check_element ''t'' ''q'' 200005 (foldl breaker_step
       (foldl breaker_step (new_breaker demo_options) demo_probe) [BFail ''t'' ''q'' 200001, BFail ''t'' ''q'' 200002])))
     \<noteq> OPEN"
proof -
  have c: "config_ok (breaker_config_of demo_options)"
    by (simp add: config_ok_def breaker_config_of_def demo_options_def)
  have t: "tripped ''t'' ''q'' (foldl breaker_step (new_breaker demo_options) demo_probe)" by code_simp
  have l: "list_all (\<lambda>op. \<not> untrips ''t'' ''q'' op) [BFail ''t'' ''q'' 200001, BFail ''t'' ''q'' 200002]"
    by simp
  show ?thesis using failed_probe_does_not_reopen [OF c refl t l] by blast
qed

end
