(* ===== verification/Ring_Buffer.thy ===== *)
theory Ring_Buffer
  imports Oc_Prelude
begin

text \<open>
  The console ring buffer, \<open>src/src/core/console-buffer/ring-buffer.ts\<close>: a circular array of
  entries with a cap on their number and on their total size. The three parallel arrays are lists of
  length \<open>maxLines\<close> written by index; an undefined slot is \<open>None\<close>. \<open>stamp\<close> reads the \<open>timestamp\<close>
  field of an entry (\<open>None\<close> when it has no numeric one) and \<open>ph\<close> is the caller's placeholder factory.
  The abstract contract is \<open>fifo\<close>: a list of entries, dropped from the front until the new one fits.
\<close>

section \<open>The buffer\<close>

record 'a ring =
  rb_max_lines :: nat
  rb_max_bytes :: int
  rb_buf :: "'a option list"
  rb_sizes :: "int list"
  rb_stamps :: "int list"
  rb_head :: nat
  rb_tail :: nat
  rb_count :: nat
  rb_bytes :: int
  rb_evicted :: nat
  rb_evicted_bytes :: int
  rb_first :: "int option"
  rb_last :: "int option"

record ring_stats =
  st_retained :: nat
  st_bytes :: int
  st_evicted :: nat
  st_evicted_bytes :: int
  st_first :: "int option"
  st_last :: "int option"

definition new_ring :: "nat \<Rightarrow> int \<Rightarrow> 'a ring" where
  "new_ring n b = \<lparr>rb_max_lines = n, rb_max_bytes = b, rb_buf = replicate n None,
     rb_sizes = replicate n 0, rb_stamps = replicate n 0, rb_head = 0, rb_tail = 0, rb_count = 0,
     rb_bytes = 0, rb_evicted = 0, rb_evicted_bytes = 0, rb_first = None, rb_last = None\<rparr>"

text \<open>A cap given by the caller: an integer, or any other number (NaN, an infinity, a fraction).\<close>

datatype cap = CapInt int | CapOther

definition sane_positive_int :: "cap option \<Rightarrow> int \<Rightarrow> int" where
  "sane_positive_int v fallback =
     (case v of Some (CapInt n) \<Rightarrow> if n \<le> 0 then fallback else n | _ \<Rightarrow> fallback)"

definition create_ring :: "int \<Rightarrow> int \<Rightarrow> cap option \<Rightarrow> cap option \<Rightarrow> 'a ring" where
  "create_ring default_lines default_bytes lines bytes =
     new_ring (nat (sane_positive_int lines default_lines)) (sane_positive_int bytes default_bytes)"

definition ring_insert :: "'a \<Rightarrow> int \<Rightarrow> int \<Rightarrow> 'a ring \<Rightarrow> 'a ring" where
  "ring_insert x sz ts s =
     (let t = rb_tail s; c = rb_count s + 1 in
      s\<lparr>rb_buf := (rb_buf s)[t := Some x],
        rb_sizes := (rb_sizes s)[t := sz],
        rb_stamps := (rb_stamps s)[t := ts],
        rb_tail := (t + 1) mod rb_max_lines s,
        rb_count := c,
        rb_bytes := rb_bytes s + sz,
        rb_first := (if c = 1 then Some ts else rb_first s),
        rb_last := Some ts\<rparr>)"

definition evict_oldest :: "'a ring \<Rightarrow> 'a ring" where
  "evict_oldest s =
     (if rb_count s = 0 then s
      else let h = rb_head s; sz = rb_sizes s ! h; h' = (h + 1) mod rb_max_lines s;
               c = rb_count s - 1
           in s\<lparr>rb_evicted := rb_evicted s + 1,
                rb_evicted_bytes := rb_evicted_bytes s + sz,
                rb_bytes := rb_bytes s - sz,
                rb_buf := (rb_buf s)[h := None],
                rb_head := h',
                rb_count := c,
                rb_first := (if c = 0 then None else Some (rb_stamps s ! h')),
                rb_last := (if c = 0 then None else rb_last s)\<rparr>)"

function make_room :: "int \<Rightarrow> 'a ring \<Rightarrow> 'a ring" where
  "make_room sz s =
     (if 0 < rb_count s \<and> (rb_max_lines s \<le> rb_count s \<or> rb_max_bytes s < rb_bytes s + sz)
      then make_room sz (evict_oldest s) else s)"
  by pat_completeness auto

termination
  by (relation "measure (\<lambda>(_, s). rb_count s)") (auto simp: evict_oldest_def Let_def)

declare make_room.simps [simp del]

definition entry_timestamp :: "('a \<Rightarrow> int option) \<Rightarrow> int \<Rightarrow> 'a \<Rightarrow> int" where
  "entry_timestamp stamp clk x = default_to clk (stamp x)"

definition ring_push ::
  "('a \<Rightarrow> int option) \<Rightarrow> (int \<Rightarrow> 'a \<Rightarrow> 'a) \<Rightarrow> int \<Rightarrow> 'a \<Rightarrow> int \<Rightarrow> 'a ring \<Rightarrow> 'a ring" where
  "ring_push stamp ph clk x sz s =
     (let ts = entry_timestamp stamp clk x;
          oversized = rb_max_bytes s < sz;
          target = (if oversized then ph sz x else x);
          accounted = (if oversized then 0 else sz)
      in ring_insert target accounted ts (make_room accounted s))"

definition ring_index :: "'a ring \<Rightarrow> nat \<Rightarrow> nat" where
  "ring_index s i = (rb_head s + i) mod rb_max_lines s"

definition ring_clear :: "'a ring \<Rightarrow> 'a ring" where
  "ring_clear s = s\<lparr>rb_buf := replicate (rb_max_lines s) None, rb_head := 0, rb_tail := 0,
     rb_count := 0, rb_bytes := 0, rb_first := None, rb_last := None\<rparr>"

definition survivors :: "('a \<Rightarrow> bool) \<Rightarrow> 'a ring \<Rightarrow> ('a \<times> int \<times> int) list" where
  "survivors P s =
     [(the (rb_buf s ! j), rb_sizes s ! j, rb_stamps s ! j).
        j \<leftarrow> map (ring_index s) [0..<rb_count s], \<not> P (the (rb_buf s ! j))]"

definition ring_remove_where :: "('a \<Rightarrow> bool) \<Rightarrow> 'a ring \<Rightarrow> nat \<times> 'a ring" where
  "ring_remove_where P s =
     (if rb_count s = 0 then (0, s)
      else let kept = survivors P s; removed = rb_count s - length kept in
        if removed = 0 then (0, s)
        else (removed,
              foldl (\<lambda>t (x, sz, ts). ring_insert x sz ts t)
                ((ring_clear s)\<lparr>rb_sizes := replicate (rb_max_lines s) 0,
                                rb_stamps := replicate (rb_max_lines s) 0\<rparr>) kept))"

definition ring_tail :: "int \<Rightarrow> 'a ring \<Rightarrow> 'a list" where
  "ring_tail n s =
     (if rb_count s = 0 \<or> n \<le> 0 then []
      else let take' = min (nat n) (rb_count s); offset = rb_count s - take'
           in map (\<lambda>i. the (rb_buf s ! ring_index s (offset + i))) [0..<take'])"

definition ring_drain :: "'a ring \<Rightarrow> 'a list" where
  "ring_drain s =
     (if rb_count s = 0 then []
      else map (\<lambda>i. the (rb_buf s ! ring_index s i)) [0..<rb_count s])"

definition ring_stats_of :: "'a ring \<Rightarrow> ring_stats" where
  "ring_stats_of s = \<lparr>st_retained = rb_count s, st_bytes = rb_bytes s, st_evicted = rb_evicted s,
     st_evicted_bytes = rb_evicted_bytes s, st_first = rb_first s, st_last = rb_last s\<rparr>"

text \<open>Sizes are byte lengths, so a pushed size is a natural number.\<close>

datatype 'a ring_op = RPush int 'a nat | RRemoveWhere "'a \<Rightarrow> bool" | RClear

fun ring_step :: "('a \<Rightarrow> int option) \<Rightarrow> (int \<Rightarrow> 'a \<Rightarrow> 'a) \<Rightarrow> 'a ring \<Rightarrow> 'a ring_op \<Rightarrow> 'a ring" where
  "ring_step stamp ph s (RPush clk x sz) = ring_push stamp ph clk x (int sz) s"
| "ring_step stamp ph s (RRemoveWhere P) = snd (ring_remove_where P s)"
| "ring_step stamp ph s RClear = ring_clear s"

section \<open>The contract: a bounded queue\<close>

record 'a fifo =
  ff_max_lines :: nat
  ff_max_bytes :: int
  ff_items :: "('a \<times> int \<times> int) list"
  ff_evicted :: nat
  ff_evicted_bytes :: int

abbreviation item_size :: "'a \<times> int \<times> int \<Rightarrow> int" where
  "item_size p \<equiv> fst (snd p)"

abbreviation total_size :: "('a \<times> int \<times> int) list \<Rightarrow> int" where
  "total_size xs \<equiv> sum_list (map item_size xs)"

definition fits :: "nat \<Rightarrow> int \<Rightarrow> int \<Rightarrow> ('a \<times> int \<times> int) list \<Rightarrow> bool" where
  "fits n b sz xs \<longleftrightarrow> xs = [] \<or> (length xs < n \<and> total_size xs + sz \<le> b)"

text \<open>How many of the oldest items go: the fewest that make room.\<close>

fun overflow :: "nat \<Rightarrow> int \<Rightarrow> int \<Rightarrow> ('a \<times> int \<times> int) list \<Rightarrow> nat" where
  "overflow n b sz [] = 0"
| "overflow n b sz (x # xs) = (if fits n b sz (x # xs) then 0 else Suc (overflow n b sz xs))"

definition fifo_drop :: "nat \<Rightarrow> 'a fifo \<Rightarrow> 'a fifo" where
  "fifo_drop k q = q\<lparr>ff_items := drop k (ff_items q), ff_evicted := ff_evicted q + k,
     ff_evicted_bytes := ff_evicted_bytes q + total_size (take k (ff_items q))\<rparr>"

fun fifo_step :: "('a \<Rightarrow> int option) \<Rightarrow> (int \<Rightarrow> 'a \<Rightarrow> 'a) \<Rightarrow> 'a fifo \<Rightarrow> 'a ring_op \<Rightarrow> 'a fifo" where
  "fifo_step stamp ph q (RPush clk x sz) =
     (let big = ff_max_bytes q < int sz;
          p = (if big then ph (int sz) x else x, if big then 0 else int sz, entry_timestamp stamp clk x);
          q' = fifo_drop (overflow (ff_max_lines q) (ff_max_bytes q) (item_size p) (ff_items q)) q
      in q'\<lparr>ff_items := ff_items q' @ [p]\<rparr>)"
| "fifo_step stamp ph q (RRemoveWhere P) = q\<lparr>ff_items := filter (\<lambda>p. \<not> P (fst p)) (ff_items q)\<rparr>"
| "fifo_step stamp ph q RClear = q\<lparr>ff_items := []\<rparr>"

definition empty_fifo :: "nat \<Rightarrow> int \<Rightarrow> 'a fifo" where
  "empty_fifo n b =
     \<lparr>ff_max_lines = n, ff_max_bytes = b, ff_items = [], ff_evicted = 0, ff_evicted_bytes = 0\<rparr>"

definition fifo_bounded :: "'a fifo \<Rightarrow> bool" where
  "fifo_bounded q \<longleftrightarrow> length (ff_items q) \<le> ff_max_lines q \<and> total_size (ff_items q) \<le> ff_max_bytes q
     \<and> (\<forall>p \<in> set (ff_items q). 0 \<le> item_size p)"

section \<open>The circular view\<close>

definition view :: "nat \<Rightarrow> nat \<Rightarrow> nat \<Rightarrow> 'a list \<Rightarrow> 'a list" where
  "view n h c xs = map (\<lambda>i. xs ! ((h + i) mod n)) [0..<c]"

lemma length_view [simp]: "length (view n h c xs) = c"
  by (simp add: view_def)

lemma view_0 [simp]: "view n h 0 xs = []"
  by (simp add: view_def)

lemma nth_view [simp]: "i < c \<Longrightarrow> view n h c xs ! i = xs ! ((h + i) mod n)"
  by (simp add: view_def)

lemma ring_index_neq:
  fixes h i c n :: nat
  assumes "i < c" "c < n" shows "(h + i) mod n \<noteq> (h + c) mod n"
proof
  assume e: "(h + i) mod n = (h + c) mod n"
  have "n dvd (h + c) - (h + i)" by (rule mod_eq_dvd_iff_nat [THEN iffD1]) (use assms e in auto)
  then have "n dvd c - i" by simp
  then show False using assms by (auto dest: dvd_imp_le)
qed

lemma view_append:
  assumes "c < n" "length xs = n"
  shows "view n h (Suc c) (xs[(h + c) mod n := v]) = view n h c xs @ [v]"
proof -
  have "xs[(h + c) mod n := v] ! ((h + i) mod n) = xs ! ((h + i) mod n)" if "i < c" for i
    using ring_index_neq [OF that assms(1), of h] by (simp add: nth_list_update_neq)
  then show ?thesis using assms by (auto simp: view_def)
qed

lemma view_tl:
  assumes "h < n" "c \<le> n" "0 < c" "length xs = n"
  shows "view n ((h + 1) mod n) (c - 1) (xs[h := v]) = tl (view n h c xs)"
proof (rule nth_equalityI)
  fix i assume i: "i < length (view n ((h + 1) mod n) (c - 1) (xs[h := v]))"
  then have "(h + 0) mod n \<noteq> (h + Suc i) mod n"
    using ring_index_neq [of 0 "Suc i" n h] assms by auto
  moreover have "((h + 1) mod n + i) mod n = (h + Suc i) mod n"
    by (simp add: mod_add_left_eq)
  ultimately show "view n ((h + 1) mod n) (c - 1) (xs[h := v]) ! i = tl (view n h c xs) ! i"
    using i assms by (simp add: nth_tl)
qed simp

lemma view_tl_id:
  assumes "h < n" "c \<le> n" "0 < c" "length xs = n"
  shows "view n ((h + 1) mod n) (c - 1) xs = tl (view n h c xs)"
  using view_tl [OF assms, of "xs ! h"] by simp

section \<open>Abstraction and invariant\<close>

definition ring_items :: "'a ring \<Rightarrow> ('a \<times> int \<times> int) list" where
  "ring_items s =
        zip (map the (view (rb_max_lines s) (rb_head s) (rb_count s) (rb_buf s)))
           (zip (view (rb_max_lines s) (rb_head s) (rb_count s) (rb_sizes s))
                (view (rb_max_lines s) (rb_head s) (rb_count s) (rb_stamps s)))"

definition ring_abs :: "'a ring \<Rightarrow> 'a fifo" where
  "ring_abs s = \<lparr>ff_max_lines = rb_max_lines s, ff_max_bytes = rb_max_bytes s, ff_items = ring_items s,
     ff_evicted = rb_evicted s, ff_evicted_bytes = rb_evicted_bytes s\<rparr>"

definition ring_shape :: "'a ring \<Rightarrow> bool" where
  "ring_shape s \<longleftrightarrow> 0 < rb_max_lines s \<and> length (rb_buf s) = rb_max_lines s
     \<and> length (rb_sizes s) = rb_max_lines s \<and> length (rb_stamps s) = rb_max_lines s
     \<and> rb_head s < rb_max_lines s \<and> rb_count s \<le> rb_max_lines s
     \<and> rb_tail s = (rb_head s + rb_count s) mod rb_max_lines s
     \<and> rb_bytes s = total_size (ring_items s)
     \<and> rb_first s = (if rb_count s = 0 then None else Some (snd (snd (hd (ring_items s)))))
     \<and> rb_last s = (if rb_count s = 0 then None else Some (snd (snd (last (ring_items s)))))"

definition ring_wf :: "'a ring \<Rightarrow> bool" where
  "ring_wf s \<longleftrightarrow> ring_shape s \<and> 0 < rb_max_bytes s \<and> fifo_bounded (ring_abs s)"

lemma length_ring_items [simp]: "length (ring_items s) = rb_count s"
  by (simp add: ring_items_def)

lemma tl_zip: "tl (zip xs ys) = zip (tl xs) (tl ys)"
  by (cases xs; cases ys) auto

lemma ring_items_Nil: "rb_count s = 0 \<Longrightarrow> ring_items s = []"
  by (simp add: ring_items_def)

lemma ring_insert_ok:
  assumes "ring_shape s" "rb_count s < rb_max_lines s"
  shows "ring_items (ring_insert x sz ts s) = ring_items s @ [(x, sz, ts)]"
    and "ring_shape (ring_insert x sz ts s)"
proof -
  note w = assms [unfolded ring_shape_def]
  show items: "ring_items (ring_insert x sz ts s) = ring_items s @ [(x, sz, ts)]"
    using w by (simp add: ring_items_def ring_insert_def Let_def view_append zip_append)
  have "hd (ring_items s @ [(x, sz, ts)]) = hd (ring_items s)" if "rb_count s \<noteq> 0"
    using that by (metis hd_append2 length_0_conv length_ring_items)
  then show "ring_shape (ring_insert x sz ts s)"
    using w ring_items_Nil [of s] unfolding ring_shape_def items
    by (auto simp: ring_insert_def Let_def mod_Suc_eq)
qed

lemma evict_ok:
  assumes "ring_shape s" "0 < rb_count s"
  shows "ring_items (evict_oldest s) = tl (ring_items s)"
    and "ring_shape (evict_oldest s)"
    and "rb_evicted_bytes (evict_oldest s) = rb_evicted_bytes s + item_size (hd (ring_items s))"
proof -
  let ?n = "rb_max_lines s" and ?h = "rb_head s" and ?c = "rb_count s"
  have w: "0 < ?n" "length (rb_buf s) = ?n" "length (rb_sizes s) = ?n" "length (rb_stamps s) = ?n"
    "?h < ?n" "?c \<le> ?n" "rb_tail s = (?h + ?c) mod ?n" "rb_bytes s = total_size (ring_items s)"
    "rb_first s = (if ?c = 0 then None else Some (snd (snd (hd (ring_items s)))))"
    "rb_last s = (if ?c = 0 then None else Some (snd (snd (last (ring_items s)))))"
    using assms(1) unfolding ring_shape_def by blast+
  note ranges = w(5,6) assms(2)
  show items: "ring_items (evict_oldest s) = tl (ring_items s)"
    using assms(2) view_tl [OF ranges w(2), of None] view_tl_id [OF ranges w(3)] view_tl_id [OF ranges w(4)]
    by (simp add: ring_items_def evict_oldest_def Let_def tl_zip map_tl)
  have ne: "ring_items s \<noteq> []" using assms(2) by (metis length_0_conv length_ring_items less_irrefl)
  have nth: "ring_items s ! i = (the (rb_buf s ! ((?h + i) mod ?n)), rb_sizes s ! ((?h + i) mod ?n),
      rb_stamps s ! ((?h + i) mod ?n))" if "i < ?c" for i
    using that by (simp add: ring_items_def)
  have hd: "hd (ring_items s) = (the (rb_buf s ! ?h), rb_sizes s ! ?h, rb_stamps s ! ?h)"
    using nth [of 0] w(5) assms(2) ne by (simp add: hd_conv_nth)
  have next': "snd (snd (hd (tl (ring_items s)))) = rb_stamps s ! ((?h + 1) mod ?n)" if "?c \<noteq> 1"
  proof -
    have "tl (ring_items s) \<noteq> []" using that assms(2) by (metis One_nat_def Suc_pred length_0_conv length_ring_items length_tl)
    then have "hd (tl (ring_items s)) = ring_items s ! 1"
      by (cases "ring_items s") (auto simp: hd_conv_nth)
    then show ?thesis using nth [of 1] that assms(2) by simp
  qed
  show "rb_evicted_bytes (evict_oldest s) = rb_evicted_bytes s + item_size (hd (ring_items s))"
    using assms(2) hd by (simp add: evict_oldest_def Let_def)
  have sum: "total_size (ring_items s) = item_size (hd (ring_items s)) + total_size (tl (ring_items s))"
    using ne by (cases "ring_items s") simp_all
  have last': "last (tl (ring_items s)) = last (ring_items s)" if "?c \<noteq> 1"
    using that assms(2) ne by (metis One_nat_def Suc_pred last_tl length_0_conv length_ring_items length_tl)
  obtain c' where c': "?c = Suc c'" using assms(2) by (cases ?c) auto
  have tail: "(?h + Suc c') mod ?n = (Suc ?h mod ?n + c') mod ?n"
    by (simp add: mod_add_left_eq)
  show "ring_shape (evict_oldest s)"
  proof (cases "c' = 0")
    case True
    then show ?thesis using w c' sum hd tail unfolding ring_shape_def items
      by (simp add: evict_oldest_def Let_def)
  next
    case False
    then show ?thesis using w c' sum hd next' last' tail unfolding ring_shape_def items
      by (simp add: evict_oldest_def Let_def)
  qed
qed

section \<open>Refinement\<close>

lemma overflow_Suc:
  "xs \<noteq> [] \<Longrightarrow> \<not> fits n b sz xs \<Longrightarrow> overflow n b sz xs = Suc (overflow n b sz (tl xs))"
  by (cases xs) simp_all

lemma overflow_fits: "fits n b sz xs \<Longrightarrow> overflow n b sz xs = 0"
  by (cases xs) simp_all

lemma fits_drop: "fits n b sz (drop (overflow n b sz xs) xs)"
  by (induction xs) (simp_all add: fits_def)

lemma fifo_drop_Suc:
  "ff_items q = x # xs \<Longrightarrow> fifo_drop (Suc k) q = fifo_drop k (q\<lparr>ff_items := xs,
     ff_evicted := Suc (ff_evicted q), ff_evicted_bytes := ff_evicted_bytes q + item_size x\<rparr>)"
  by (simp add: fifo_drop_def)

lemma evict_const [simp]:
  "rb_max_lines (evict_oldest s) = rb_max_lines s" "rb_max_bytes (evict_oldest s) = rb_max_bytes s"
  "0 < rb_count s \<Longrightarrow> rb_evicted (evict_oldest s) = Suc (rb_evicted s)"
  "rb_count (evict_oldest s) = rb_count s - 1"
  by (simp_all add: evict_oldest_def Let_def)

lemma room_needed:
  assumes "ring_shape s"
  shows "(0 < rb_count s \<and> (rb_max_lines s \<le> rb_count s \<or> rb_max_bytes s < rb_bytes s + sz))
    \<longleftrightarrow> \<not> fits (rb_max_lines s) (rb_max_bytes s) sz (ring_items s)"
proof -
  have "rb_bytes s = total_size (ring_items s)" using assms by (simp add: ring_shape_def)
  moreover have "ring_items s = [] \<longleftrightarrow> rb_count s = 0" by (metis length_0_conv length_ring_items)
  ultimately show ?thesis by (auto simp: fits_def)
qed

lemma make_room_refines:
  "ring_shape s \<Longrightarrow> ring_shape (make_room sz s)
     \<and> ring_abs (make_room sz s)
       = fifo_drop (overflow (rb_max_lines s) (rb_max_bytes s) sz (ring_items s)) (ring_abs s)"
proof (induction sz s rule: make_room.induct)
  case (1 sz s)
  show ?case
  proof (cases "fits (rb_max_lines s) (rb_max_bytes s) sz (ring_items s)")
    case True
    then have "\<not> (0 < rb_count s \<and> (rb_max_lines s \<le> rb_count s \<or> rb_max_bytes s < rb_bytes s + sz))"
      using room_needed [OF 1(2), of sz] by blast
    then have "make_room sz s = s" by (subst make_room.simps) (rule if_not_P)
    with True 1(2) show ?thesis by (simp add: overflow_fits fifo_drop_def)
  next
    case False
    then have more: "0 < rb_count s \<and> (rb_max_lines s \<le> rb_count s \<or> rb_max_bytes s < rb_bytes s + sz)"
      using room_needed [OF 1(2)] by blast
    then have c: "0 < rb_count s" ..
    obtain x xs where items: "ring_items s = x # xs"
      using c by (metis length_greater_0_conv length_ring_items neq_Nil_conv)
    note e = evict_ok [OF 1(2) c]
    have "make_room sz s = make_room sz (evict_oldest s)"
      using more by (subst make_room.simps) (rule if_P)
    then show ?thesis
      using 1(1) [OF more e(2)] False e c items
      by (simp add: overflow_Suc ring_abs_def fifo_drop_def)
  qed
qed

lemma make_room_const [simp]:
  "rb_max_lines (make_room sz s) = rb_max_lines s" "rb_max_bytes (make_room sz s) = rb_max_bytes s"
  by (induction sz s rule: make_room.induct; subst make_room.simps; simp)+

lemma insert_refines:
  assumes "ring_shape s" "rb_count s < rb_max_lines s"
  shows "ring_abs (ring_insert x sz ts s) = (ring_abs s)\<lparr>ff_items := ring_items s @ [(x, sz, ts)]\<rparr>"
  using ring_insert_ok(1) [OF assms] by (simp add: ring_abs_def) (simp add: ring_insert_def Let_def)

lemma ring_abs_simps [simp]:
  "ff_items (ring_abs s) = ring_items s" "ff_max_lines (ring_abs s) = rb_max_lines s"
  "ff_max_bytes (ring_abs s) = rb_max_bytes s" "ff_evicted (ring_abs s) = rb_evicted s"
  "ff_evicted_bytes (ring_abs s) = rb_evicted_bytes s"
  by (simp_all add: ring_abs_def)

lemma room_left:
  assumes "ring_shape s" shows "rb_count (make_room sz s) < rb_max_lines s"
proof -
  note r = make_room_refines [OF assms, of sz]
  have "ring_items (make_room sz s) = drop (overflow (rb_max_lines s) (rb_max_bytes s) sz (ring_items s)) (ring_items s)"
    using arg_cong [OF conjunct2 [OF r], of ff_items] by (simp add: fifo_drop_def)
  then have "fits (rb_max_lines s) (rb_max_bytes s) sz (ring_items (make_room sz s))"
    by (simp add: fits_drop)
  then show ?thesis using assms unfolding fits_def ring_shape_def
    by (metis length_ring_items list.size(3))
qed

lemma room_insert:
  fixes s :: "'a ring" and z :: int
  assumes "ring_shape s"
  defines "q \<equiv> fifo_drop (overflow (rb_max_lines s) (rb_max_bytes s) z (ring_items s)) (ring_abs s)"
  shows "ring_shape (ring_insert x z ts (make_room z s))"
    and "ring_abs (ring_insert x z ts (make_room z s)) = q\<lparr>ff_items := ff_items q @ [(x, z, ts)]\<rparr>"
proof -
  let ?t = "make_room z s"
  have t: "ring_shape ?t" "ring_abs ?t = q" using make_room_refines [OF assms(1)] by (simp_all add: q_def)
  have c: "rb_count ?t < rb_max_lines ?t" using room_left [OF assms(1)] by simp
  have i: "ring_items ?t = ff_items q" using t(2) by (metis ring_abs_simps(1))
  show "ring_shape (ring_insert x z ts ?t)" by (rule ring_insert_ok(2) [OF t(1) c])
  show "ring_abs (ring_insert x z ts ?t) = q\<lparr>ff_items := ff_items q @ [(x, z, ts)]\<rparr>"
    using insert_refines [OF t(1) c] t(2) i by simp
qed

lemma push_refines:
  assumes "ring_shape s"
  shows "ring_shape (ring_push stamp ph clk x (int sz) s)"
    and "ring_abs (ring_push stamp ph clk x (int sz) s) = fifo_step stamp ph (ring_abs s) (RPush clk x sz)"
  by (simp_all add: ring_push_def Let_def room_insert [OF assms])

lemma clear_refines:
  assumes "ring_shape s"
  shows "ring_shape (ring_clear s)" "ring_abs (ring_clear s) = fifo_step stamp ph (ring_abs s) RClear"
  using assms by (simp_all add: ring_shape_def ring_clear_def ring_abs_def ring_items_def)

lemma ring_items_map:
  "ring_items s = map (\<lambda>j. (the (rb_buf s ! j), rb_sizes s ! j, rb_stamps s ! j))
     (map (ring_index s) [0..<rb_count s])" if "ring_shape s"
  using that by (intro nth_equalityI) (simp_all add: ring_items_def ring_index_def ring_shape_def)

lemma concat_map_if: "concat (map (\<lambda>x. if P x then [f x] else []) xs) = map f (filter P xs)"
  by (induction xs) auto

lemma survivors_filter: "ring_shape s \<Longrightarrow> survivors P s = filter (\<lambda>p. \<not> P (fst p)) (ring_items s)"
  by (simp add: survivors_def ring_items_map filter_map o_def concat_map_if)

lemma reinsert:
  "ring_shape s \<Longrightarrow> rb_count s + length kept \<le> rb_max_lines s \<Longrightarrow>
    ring_shape (foldl (\<lambda>t (x, sz, ts). ring_insert x sz ts t) s kept)
    \<and> ring_abs (foldl (\<lambda>t (x, sz, ts). ring_insert x sz ts t) s kept)
        = (ring_abs s)\<lparr>ff_items := ring_items s @ kept\<rparr>"
proof (induction kept arbitrary: s)
  case Nil
  then show ?case by (simp add: ring_abs_def)
next
  case (Cons p kept)
  obtain x sz ts where p [simp]: "p = (x, sz, ts)" by (cases p)
  have c: "rb_count s < rb_max_lines s" using Cons.prems(2) by simp
  let ?t = "ring_insert x sz ts s"
  have "rb_count ?t = Suc (rb_count s)" "rb_max_lines ?t = rb_max_lines s"
    by (simp_all add: ring_insert_def Let_def)
  then show ?case
    using Cons.IH [OF ring_insert_ok(2) [OF Cons.prems(1) c]] Cons.prems
      ring_insert_ok(1) [OF Cons.prems(1) c] insert_refines [OF Cons.prems(1) c] by simp
qed

lemma remove_refines:
  assumes "ring_shape s"
  shows "ring_shape (snd (ring_remove_where P s))"
    and "ring_abs (snd (ring_remove_where P s)) = fifo_step stamp ph (ring_abs s) (RRemoveWhere P)"
    and "fst (ring_remove_where P s) = length (filter (\<lambda>p. P (fst p)) (ring_items s))"
proof -
  let ?kept = "filter (\<lambda>p. \<not> P (fst p)) (ring_items s)"
  let ?empty = "(ring_clear s)\<lparr>rb_sizes := replicate (rb_max_lines s) 0,
    rb_stamps := replicate (rb_max_lines s) 0\<rparr>"
  have le: "length ?kept \<le> rb_count s" by (metis length_filter_le length_ring_items)
  have split: "length (filter (\<lambda>p. P (fst p)) (ring_items s)) + length ?kept = rb_count s"
    by (metis length_ring_items sum_length_filter_compl)
  have all: "?kept = ring_items s" if "rb_count s - length ?kept = 0"
  proof -
    have "length ?kept = length (ring_items s)" using that le by simp
    then show ?thesis by (metis filter_id_conv length_filter_less less_irrefl)
  qed
  have e: "ring_shape ?empty" "rb_count ?empty = 0" "rb_max_lines ?empty = rb_max_lines s"
    "ring_items ?empty = []"
    using assms by (simp_all add: ring_shape_def ring_clear_def ring_items_def)
  have k: "rb_count s \<le> rb_max_lines s" using assms by (simp add: ring_shape_def)
  have r: "ring_shape (foldl (\<lambda>t (x, sz, ts). ring_insert x sz ts t) ?empty ?kept)
    \<and> ring_abs (foldl (\<lambda>t (x, sz, ts). ring_insert x sz ts t) ?empty ?kept)
        = (ring_abs ?empty)\<lparr>ff_items := ring_items ?empty @ ?kept\<rparr>"
    by (rule reinsert) (use e le k in simp_all)
  have a: "(ring_abs ?empty)\<lparr>ff_items := ?kept\<rparr> = (ring_abs s)\<lparr>ff_items := ?kept\<rparr>"
    by (simp add: ring_abs_def ring_clear_def)
  show "ring_shape (snd (ring_remove_where P s))"
    using r assms by (simp add: ring_remove_where_def Let_def survivors_filter)
  show "ring_abs (snd (ring_remove_where P s)) = fifo_step stamp ph (ring_abs s) (RRemoveWhere P)"
    using r a e(4) all assms ring_items_Nil [of s]
    by (auto simp: ring_remove_where_def Let_def survivors_filter)
  show "fst (ring_remove_where P s) = length (filter (\<lambda>p. P (fst p)) (ring_items s))"
  proof -
    have d: "rb_count s - length ?kept = length (filter (\<lambda>p. P (fst p)) (ring_items s))"
      using split by simp
    then have "rb_count s \<le> length ?kept \<longleftrightarrow> filter (\<lambda>p. P (fst p)) (ring_items s) = []"
      by (metis diff_is_0_eq length_0_conv)
    with d show ?thesis
      by (simp add: ring_remove_where_def Let_def survivors_filter assms ring_items_Nil)
  qed
qed

section \<open>The bounded queue keeps its bounds\<close>

lemma total_filter_le: "\<forall>p \<in> set xs. 0 \<le> item_size p \<Longrightarrow> total_size (filter P xs) \<le> total_size xs"
  by (induction xs) auto

lemma fifo_push_bounded:
  assumes "fifo_bounded q" "0 < ff_max_lines q" "0 < ff_max_bytes q" "0 \<le> z" "z \<le> ff_max_bytes q"
  shows "fifo_bounded ((fifo_drop (overflow (ff_max_lines q) (ff_max_bytes q) z (ff_items q)) q)
     \<lparr>ff_items := ff_items (fifo_drop (overflow (ff_max_lines q) (ff_max_bytes q) z (ff_items q)) q) @ [(x, z, ts)]\<rparr>)"
  using fits_drop [of "ff_max_lines q" "ff_max_bytes q" z "ff_items q"] assms
  by (auto simp: fifo_bounded_def fifo_drop_def fits_def dest: in_set_dropD)

lemma fifo_step_bounded:
  assumes "fifo_bounded q" "0 < ff_max_lines q" "0 < ff_max_bytes q"
  shows "fifo_bounded (fifo_step stamp ph q op)"
proof (cases op)
  case (RPush clk x sz)
  then show ?thesis
    using fifo_push_bounded [OF assms, of 0] fifo_push_bounded [OF assms, of "int sz"] assms(3)
    by (simp add: Let_def)
next
  case (RRemoveWhere P)
  have "length (filter (\<lambda>p. \<not> P (fst p)) (ff_items q)) \<le> ff_max_lines q"
    using assms(1) by (auto simp: fifo_bounded_def intro: order_trans [OF length_filter_le])
  with assms total_filter_le [of "ff_items q" "\<lambda>p. \<not> P (fst p)"] RRemoveWhere show ?thesis
    by (simp add: fifo_bounded_def)
next
  case RClear
  then show ?thesis using assms by (simp add: fifo_bounded_def)
qed

lemma fifo_step_const [simp]:
  "ff_max_lines (fifo_step stamp ph q op) = ff_max_lines q"
  "ff_max_bytes (fifo_step stamp ph q op) = ff_max_bytes q"
  by (cases op; simp add: Let_def fifo_drop_def)+

lemma fifo_evicted_grows: "ff_evicted q \<le> ff_evicted (fifo_step stamp ph q op)"
  by (cases op) (simp_all add: Let_def fifo_drop_def)

lemma ring_step_refines:
  assumes "ring_wf s"
  shows "ring_abs (ring_step stamp ph s op) = fifo_step stamp ph (ring_abs s) op"
    and "ring_shape (ring_step stamp ph s op)"
proof -
  have "ring_shape s" using assms by (simp add: ring_wf_def)
  then show "ring_abs (ring_step stamp ph s op) = fifo_step stamp ph (ring_abs s) op"
    and "ring_shape (ring_step stamp ph s op)"
    by (cases op; simp only: ring_step.simps push_refines clear_refines remove_refines)+
qed

lemma ring_step_wf: "ring_wf s \<Longrightarrow> ring_wf (ring_step stamp ph s op)"
proof -
  assume w: "ring_wf s"
  then have b: "fifo_bounded (ring_abs s)" "0 < ff_max_lines (ring_abs s)" "0 < ff_max_bytes (ring_abs s)"
    by (simp_all add: ring_wf_def ring_shape_def)
  have "0 < ff_max_bytes (ring_abs (ring_step stamp ph s op))"
    using b(3) by (simp only: ring_step_refines [OF w] fifo_step_const)
  then have "0 < rb_max_bytes (ring_step stamp ph s op)" by (simp only: ring_abs_simps)
  moreover have "fifo_bounded (ring_abs (ring_step stamp ph s op))"
    unfolding ring_step_refines(1) [OF w] by (rule fifo_step_bounded [OF b])
  ultimately show ?thesis
    using ring_step_refines(2) [OF w] by (simp add: ring_wf_def)
qed

interpretation ring_machine: refined_machine "ring_step stamp ph" ring_wf ring_abs "fifo_step stamp ph"
  for stamp ph
  by unfold_locales (simp_all only: ring_step_wf ring_step_refines)

interpretation ring_evictions: growing_machine "ring_step stamp ph" ring_wf rb_evicted
  for stamp ph
proof
  fix s :: "'a ring" and op assume "ring_wf s"
  then have "ff_evicted (ring_abs (ring_step stamp ph s op)) = ff_evicted (fifo_step stamp ph (ring_abs s) op)"
    by (simp only: ring_step_refines)
  then show "rb_evicted s \<le> rb_evicted (ring_step stamp ph s op)"
    using fifo_evicted_grows [of "ring_abs s" stamp ph op] by simp
qed

lemma new_ring_wf: "0 < n \<Longrightarrow> 0 < b \<Longrightarrow> ring_wf (new_ring n b)"
  by (simp add: ring_wf_def ring_shape_def new_ring_def ring_items_def fifo_bounded_def)

lemma abs_new_ring: "ring_abs (new_ring n b) = empty_fifo n b"
  by (simp add: empty_fifo_def ring_abs_def new_ring_def ring_items_def)

lemma ring_drain_items: "ring_shape s \<Longrightarrow> ring_drain s = map fst (ring_items s)"
  by (auto simp: ring_drain_def ring_items_map ring_items_Nil)

lemma ring_tail_items:
  "ring_shape s \<Longrightarrow> ring_tail n s = drop (rb_count s - nat n) (map fst (ring_items s))"
  by (cases "n \<le> 0") (auto simp: ring_tail_def ring_items_map ring_items_Nil Let_def min_def
    intro!: nth_equalityI)

section \<open>Properties\<close>

text \<open>C7 (refinement). The circular array is the bounded queue. From an empty buffer with positive caps,
  after any sequence of pushes, removals and clears, the entries the buffer drains, the eviction counters
  and the timestamps of its oldest and newest entry are exactly those of the list queue that drops the
  fewest oldest entries to make room; \<open>tail(n)\<close> is its last \<open>n\<close> entries.\<close>

theorem ring_refines_fifo:
  assumes "0 < n" "0 < b"
    and q: "q = foldl (fifo_step stamp ph) (empty_fifo n b) ops"
    and s: "s = foldl (ring_step stamp ph) (new_ring n b) ops"
  shows "ring_drain s = map fst (ff_items q)
    \<and> ring_tail k s = drop (length (ff_items q) - nat k) (map fst (ff_items q))
    \<and> st_evicted (ring_stats_of s) = ff_evicted q
    \<and> st_evicted_bytes (ring_stats_of s) = ff_evicted_bytes q
    \<and> st_first (ring_stats_of s)
        = (if ff_items q = [] then None else Some (snd (snd (hd (ff_items q)))))
    \<and> st_last (ring_stats_of s)
        = (if ff_items q = [] then None else Some (snd (snd (last (ff_items q)))))"
proof -
  have w: "ring_wf s"
    unfolding s by (rule ring_machine.run_inv) (rule new_ring_wf [OF assms(1,2)])
  then have sh: "ring_shape s" by (simp add: ring_wf_def)
  have r: "ring_abs s = q"
    unfolding s q using ring_machine.run_refines [OF new_ring_wf [OF assms(1,2)], of stamp ph ops]
    by (simp add: abs_new_ring)
  have i: "ff_items q = ring_items s" "ff_evicted q = rb_evicted s"
    "ff_evicted_bytes q = rb_evicted_bytes s"
    unfolding r [symmetric] by simp_all
  have n: "ring_items s = [] \<longleftrightarrow> rb_count s = 0" by (metis length_0_conv length_ring_items)
  have f: "rb_first s = (if rb_count s = 0 then None else Some (snd (snd (hd (ring_items s)))))"
    "rb_last s = (if rb_count s = 0 then None else Some (snd (snd (last (ring_items s)))))"
    using sh unfolding ring_shape_def by blast+
  show ?thesis
    by (simp add: ring_drain_items [OF sh] ring_tail_items [OF sh] ring_stats_of_def i n f)
qed

definition demo_pushes :: "string ring_op list" where
  "demo_pushes = [RPush 1 ''a'' 4, RPush 2 ''b'' 4, RPush 3 ''c'' 40]"

theorem ring_refines_fifo_witness:
  "ring_drain (foldl (ring_step (\<lambda>_. None) (\<lambda>_ _. ''..'')) (new_ring 2 10) demo_pushes)
   = map fst (ff_items (foldl (fifo_step (\<lambda>_. None) (\<lambda>_ _. ''..'')) (empty_fifo 2 10) demo_pushes))"
  using ring_refines_fifo [OF _ _ refl refl, of 2 10 "\<lambda>_. None" "\<lambda>_ _. ''..''" demo_pushes]
  by simp

text \<open>Both caps hold after every operation and the audit counter never goes back: with
  positive caps, at most \<open>maxLines\<close> entries and \<open>maxBytes\<close> bytes are retained in every state reached, the
  byte count is the sum of the retained sizes, and \<open>evictedTotal\<close> after more operations is at least what
  it was.\<close>

theorem ring_bounded_and_audited:
  assumes "0 < n" "0 < b" and "s = foldl (ring_step stamp ph) (new_ring n b) ops"
  shows "st_retained (ring_stats_of s) \<le> n \<and> st_bytes (ring_stats_of s) \<le> b
    \<and> st_bytes (ring_stats_of s) = total_size (ring_items s)
    \<and> length (ring_drain s) = st_retained (ring_stats_of s)
    \<and> st_evicted (ring_stats_of s) \<le> st_evicted (ring_stats_of (foldl (ring_step stamp ph) s later))"
proof -
  have w: "ring_wf s" unfolding assms(3)
    by (rule ring_machine.run_inv) (rule new_ring_wf [OF assms(1,2)])
  have "ff_max_lines (ring_abs s) = n \<and> ff_max_bytes (ring_abs s) = b"
    unfolding assms(3) ring_machine.run_refines [OF new_ring_wf [OF assms(1,2)]]
    by (rule foldl_inv) (simp_all add: ring_abs_def new_ring_def)
  then have "rb_max_lines s = n" "rb_max_bytes s = b" by simp_all
  then show ?thesis
    using w ring_evictions.run_grows [OF w, of stamp ph later]
    by (simp add: ring_stats_of_def ring_wf_def ring_shape_def fifo_bounded_def ring_drain_items)
qed

theorem ring_bounded_and_audited_witness:
  "st_retained (ring_stats_of (foldl (ring_step (\<lambda>_. None) (\<lambda>_ _. ''..'')) (new_ring 2 10) demo_pushes)) \<le> 2"
  using ring_bounded_and_audited [OF _ _ refl, of 2 10 "\<lambda>_. None" "\<lambda>_ _. ''..''" demo_pushes "[]"]
  by simp

end
