(* ===== verification/Ref_Ids.thy ===== *)
theory Ref_Ids
  imports Js_Strings
begin

text \<open>
  The element references handed to the client, \<open>src/src/core/perception/ref-id-manager.ts\<close>: \<open>ref_N\<close>
  ids minted per session and target by a counter, their alias \<open>@eN\<close>, their staleness and validation,
  the migration of a target to a new id, and the resolver that also accepts raw DOM node numbers. The
  relocation of a stale ref evaluates a script in the page and is a parameter (\<open>found\<close>, the backend node
  the page search and the protocol call yield).
\<close>

section \<open>Ids and aliases\<close>

definition ref_id_of :: "nat \<Rightarrow> string" where
  "ref_id_of n = ''ref_'' @ dec n"

text \<open>\<open>/^prefix(\d+)$/\<close>: the digits after the prefix.\<close>

definition digits_after :: "string \<Rightarrow> string \<Rightarrow> string option" where
  "digits_after p s =
     (let d = drop (length p) s
      in if starts_with p s \<and> d \<noteq> [] \<and> list_all is_digit d then Some d else None)"

definition alias_for :: "string \<Rightarrow> string option" where
  "alias_for ref = map_option (\<lambda>d. ''@e'' @ d) (digits_after ''ref_'' ref)"

definition ref_id_from_alias :: "string \<Rightarrow> string option" where
  "ref_id_from_alias alias = map_option (\<lambda>d. ''ref_'' @ d) (digits_after ''@e'' alias)"

definition normalize_alias :: "string \<Rightarrow> string" where
  "normalize_alias ref = default_to ref (ref_id_from_alias ref)"

section \<open>Data\<close>

definition ref_ttl_ms :: int where "ref_ttl_ms = 30000"

record snapshot_meta =
  sm_id :: string
  sm_captured :: int
  sm_url :: string
  sm_tab :: string

record ref_entry =
  re_ref :: string
  re_node :: nat
  re_role :: string
  re_name :: "string option"
  re_tag :: "string option"
  re_text :: "string option"
  re_created :: int
  re_stale_after :: int
  re_frame :: "string option"
  re_snapshot :: "snapshot_meta option"

record ref_options =
  ro_stale_after :: "int option"
  ro_frame :: "string option"
  ro_snapshot :: "snapshot_meta option"

record ref_fields =
  rf_node :: nat
  rf_role :: string
  rf_name :: "string option"
  rf_tag :: "string option"
  rf_text :: "string option"

record ref_state =
  rs_refs :: "(string, (string, (string, ref_entry) jmap) jmap) jmap"
  rs_counters :: "(string, (string, nat) jmap) jmap"

definition no_refs :: ref_state where
  "no_refs = \<lparr>rs_refs = [], rs_counters = []\<rparr>"

section \<open>Operations\<close>

text \<open>\<open>get(k) || new\<close>, on the nested maps.\<close>

definition sub_map :: "'k \<Rightarrow> ('k, ('j, 'v) jmap) jmap \<Rightarrow> ('j, 'v) jmap" where
  "sub_map k m = default_to [] (jget m k)"

definition counter_of :: "string \<Rightarrow> string \<Rightarrow> ref_state \<Rightarrow> nat" where
  "counter_of session target s = default_to 0 (jget (sub_map session (rs_counters s)) target)"

definition generate_ref ::
  "string \<Rightarrow> string \<Rightarrow> ref_fields \<Rightarrow> ref_options option \<Rightarrow> int \<Rightarrow> ref_state \<Rightarrow> string \<times> ref_state" where
  "generate_ref session target f opts now s =
     (let c = counter_of session target s + 1;
          ref = ref_id_of c;
          entry = \<lparr>re_ref = ref, re_node = rf_node f, re_role = rf_role f, re_name = rf_name f,
            re_tag = rf_tag f, re_text = rf_text f, re_created = now,
            re_stale_after = default_to ref_ttl_ms (Option.bind opts ro_stale_after),
            re_frame = Option.bind opts ro_frame, re_snapshot = Option.bind opts ro_snapshot\<rparr>;
          session_refs = sub_map session (rs_refs s);
          target_refs = sub_map target session_refs
      in (ref, \<lparr>rs_refs = jset session (jset target (jset ref entry target_refs) session_refs) (rs_refs s),
                rs_counters = jset session (jset target c (sub_map session (rs_counters s))) (rs_counters s)\<rparr>))"

definition get_ref :: "ref_state \<Rightarrow> string \<Rightarrow> string \<Rightarrow> string \<Rightarrow> ref_entry option" where
  "get_ref s session target ref =
     Option.bind (jget (rs_refs s) session) (\<lambda>sr.
       Option.bind (jget sr target) (\<lambda>tr. jget tr (normalize_alias ref)))"

definition backend_node_id :: "ref_state \<Rightarrow> string \<Rightarrow> string \<Rightarrow> string \<Rightarrow> nat option" where
  "backend_node_id s session target ref = map_option re_node (get_ref s session target ref)"

definition clear_target_refs :: "string \<Rightarrow> string \<Rightarrow> ref_state \<Rightarrow> ref_state" where
  "clear_target_refs session target s =
     (case jget (rs_refs s) session of
        None \<Rightarrow> s
      | Some sr \<Rightarrow> s\<lparr>rs_refs := jset session (jdel target sr) (rs_refs s)\<rparr>)"

definition clear_session_refs :: "string \<Rightarrow> ref_state \<Rightarrow> ref_state" where
  "clear_session_refs session s =
     \<lparr>rs_refs = jdel session (rs_refs s), rs_counters = jdel session (rs_counters s)\<rparr>"

definition clear_target_all_sessions :: "string \<Rightarrow> ref_state \<Rightarrow> ref_state" where
  "clear_target_all_sessions target s = s\<lparr>rs_refs := jmapv (jdel target) (rs_refs s)\<rparr>"

definition target_refs_of :: "ref_state \<Rightarrow> string \<Rightarrow> string \<Rightarrow> ref_entry list" where
  "target_refs_of s session target =
     (case Option.bind (jget (rs_refs s) session) (\<lambda>sr. jget sr target) of
        None \<Rightarrow> [] | Some tr \<Rightarrow> map snd tr)"

definition entry_stale :: "int \<Rightarrow> ref_entry \<Rightarrow> bool" where
  "entry_stale now e \<longleftrightarrow> re_stale_after e < now - re_created e"

definition is_ref_stale :: "ref_state \<Rightarrow> string \<Rightarrow> string \<Rightarrow> string \<Rightarrow> int \<Rightarrow> bool" where
  "is_ref_stale s session target ref now =
     (case get_ref s session target ref of None \<Rightarrow> True | Some e \<Rightarrow> entry_stale now e)"

datatype stale_code = StaleSnapshot | PossiblyStaleSnapshot

record stale_warning =
  sw_code :: stale_code
  sw_ref :: string
  sw_snapshot :: "string option"
  sw_captured :: "int option"
  sw_age :: "int option"

definition staleness_warning :: "ref_state \<Rightarrow> string \<Rightarrow> string \<Rightarrow> string \<Rightarrow> int \<Rightarrow> stale_warning option" where
  "staleness_warning s session target ref now =
     (case get_ref s session target ref of
        None \<Rightarrow> Some \<lparr>sw_code = StaleSnapshot, sw_ref = ref, sw_snapshot = None, sw_captured = None,
                       sw_age = None\<rparr>
      | Some e \<Rightarrow>
          (let age = now - re_created e in
           if age \<le> re_stale_after e then None
           else Some \<lparr>sw_code = PossiblyStaleSnapshot, sw_ref = ref,
                  sw_snapshot = map_option sm_id (re_snapshot e),
                  sw_captured = Some (default_to (re_created e) (map_option sm_captured (re_snapshot e))),
                  sw_age = Some age\<rparr>))"

datatype validation_reason = RefNotFound | TagChanged string string | TextChanged string string
  | NameChanged string string

text \<open>Valid with its staleness, or invalid with the reason (and \<open>stale: true\<close> but for a missing ref).\<close>

datatype validation = Valid bool | Invalid validation_reason

definition prefix30 :: "string \<Rightarrow> string" where
  "prefix30 x = trim_ws (take 30 x)"

definition prefix_changed :: "string option \<Rightarrow> string option \<Rightarrow> bool" where
  "prefix_changed stored current =
     (case (truthy_str stored, truthy_str current) of
        (Some a, Some b) \<Rightarrow> prefix30 a \<noteq> [] \<and> prefix30 b \<noteq> [] \<and> prefix30 a \<noteq> prefix30 b
      | _ \<Rightarrow> False)"

definition validate_ref ::
  "ref_state \<Rightarrow> string \<Rightarrow> string \<Rightarrow> string \<Rightarrow> string \<Rightarrow> string option \<Rightarrow> string option \<Rightarrow> int \<Rightarrow> validation" where
  "validate_ref s session target ref node text name now =
     (case get_ref s session target ref of
        None \<Rightarrow> Invalid RefNotFound
      | Some e \<Rightarrow>
          (let tag = default_to [] (re_tag e) in
           if tag \<noteq> [] \<and> node \<noteq> [] \<and> to_lower tag \<noteq> to_lower node then Invalid (TagChanged tag node)
           else if prefix_changed (re_text e) text
           then Invalid (TextChanged (prefix30 (the (re_text e))) (prefix30 (the text)))
           else if prefix_changed (re_name e) name
           then Invalid (NameChanged (prefix30 (the (re_name e))) (prefix30 (the name)))
           else Valid (entry_stale now e)))"

definition migrate_key :: "'k \<Rightarrow> 'k \<Rightarrow> ('k, 'v) jmap \<Rightarrow> ('k, 'v) jmap" where
  "migrate_key old new m =
     (case jget m old of None \<Rightarrow> m | Some v \<Rightarrow> jdel old (jset new v m))"

definition migrate_target :: "string \<Rightarrow> string \<Rightarrow> string \<Rightarrow> ref_state \<Rightarrow> ref_state" where
  "migrate_target session old new s =
     \<lparr>rs_refs = (case jget (rs_refs s) session of None \<Rightarrow> rs_refs s
        | Some sr \<Rightarrow> jset session (migrate_key old new sr) (rs_refs s)),
      rs_counters = (case jget (rs_counters s) session of None \<Rightarrow> rs_counters s
        | Some sc \<Rightarrow> jset session (migrate_key old new sc) (rs_counters s))\<rparr>"

text \<open>\<open>tryRelocateRef\<close> after its page search: the entry and the found node, or nothing.\<close>

definition relocate_ref ::
  "string \<Rightarrow> string \<Rightarrow> string \<Rightarrow> nat option \<Rightarrow> int \<Rightarrow> ref_state \<Rightarrow> (nat \<times> string) option \<times> ref_state" where
  "relocate_ref session tab ref found now s =
     (case get_ref s session tab ref of
        None \<Rightarrow> (None, s)
      | Some e \<Rightarrow>
          (case truthy_str (re_tag e) of
             None \<Rightarrow> (None, s)
           | Some tag \<Rightarrow>
               (case found of
                  None \<Rightarrow> (None, s)
                | Some node \<Rightarrow> if node = 0 then (None, s) else
                    (let (new_ref, s') = generate_ref session tab
                       \<lparr>rf_node = node, rf_role = re_role e, rf_name = re_name e, rf_tag = re_tag e,
                        rf_text = re_text e\<rparr>
                       (Some \<lparr>ro_stale_after = Some (re_stale_after e), ro_frame = re_frame e,
                              ro_snapshot = re_snapshot e\<rparr>) now s
                     in (Some (node, new_ref), s')))))"

text \<open>A positive 32-bit number in canonical decimal notation.\<close>

definition canonical_node :: "string \<Rightarrow> nat option" where
  "canonical_node x =
     (case parse_int x of
        None \<Rightarrow> None
      | Some n \<Rightarrow> if 0 < n \<and> int_str n = x \<and> n \<le> 2147483647 then Some (nat n) else None)"

definition resolve_backend :: "ref_state \<Rightarrow> string \<Rightarrow> string \<Rightarrow> string \<Rightarrow> nat option" where
  "resolve_backend s session target x =
     (case get_ref s session target x of
        Some e \<Rightarrow> Some (re_node e)
      | None \<Rightarrow>
          (case canonical_node x of
             Some n \<Rightarrow> Some n
           | None \<Rightarrow> if starts_with ''node_'' x then canonical_node (drop 5 x) else None))"

datatype ref_op =
    RfGenerate string string ref_fields "ref_options option" int
  | RfClearTarget string string
  | RfClearSession string
  | RfClearTargetAll string
  | RfMigrate string string string
  | RfRelocate string string string "nat option" int

fun ref_step :: "ref_state \<Rightarrow> ref_op \<Rightarrow> ref_state" where
  "ref_step s (RfGenerate se t f o' now) = snd (generate_ref se t f o' now s)"
| "ref_step s (RfClearTarget se t) = clear_target_refs se t s"
| "ref_step s (RfClearSession se) = clear_session_refs se s"
| "ref_step s (RfClearTargetAll t) = clear_target_all_sessions t s"
| "ref_step s (RfMigrate se old new) = migrate_target se old new s"
| "ref_step s (RfRelocate se t ref found now) = snd (relocate_ref se t ref found now s)"

section \<open>Lookups after each operation\<close>

definition entry_at :: "ref_state \<Rightarrow> string \<Rightarrow> string \<Rightarrow> string \<Rightarrow> ref_entry option" where
  "entry_at s session target r = jget (sub_map target (sub_map session (rs_refs s))) r"

lemma get_ref_entry: "get_ref s se t r = entry_at s se t (normalize_alias r)"
  by (simp add: get_ref_def entry_at_def sub_map_def default_to_def split: option.split)

lemma sub_map_set: "sub_map j (jset k v m) = (if j = k then v else sub_map j m)"
  by (simp add: sub_map_def jm)

lemma sub_map_del: "sub_map j (jdel k m) = (if j = k then [] else sub_map j m)"
  by (simp add: sub_map_def jm)

lemma generate_entry:
  "entry_at (snd (generate_ref se t f o' now s)) se' t' r =
     (if se' = se \<and> t' = t \<and> r = ref_id_of (counter_of se t s + 1)
      then Some \<lparr>re_ref = r, re_node = rf_node f, re_role = rf_role f, re_name = rf_name f,
            re_tag = rf_tag f, re_text = rf_text f, re_created = now,
            re_stale_after = default_to ref_ttl_ms (Option.bind o' ro_stale_after),
            re_frame = Option.bind o' ro_frame, re_snapshot = Option.bind o' ro_snapshot\<rparr>
      else entry_at s se' t' r)"
  by (simp add: generate_ref_def Let_def entry_at_def sub_map_set jget_set)

lemma generate_counter:
  "counter_of se' t' (snd (generate_ref se t f o' now s)) =
     (if se' = se \<and> t' = t then counter_of se t s + 1 else counter_of se' t' s)"
  by (simp add: generate_ref_def Let_def counter_of_def sub_map_set jget_set)

lemma generate_fst: "fst (generate_ref se t f o' now s) = ref_id_of (counter_of se t s + 1)"
  by (simp add: generate_ref_def Let_def)

lemma clear_target_entry:
  "entry_at (clear_target_refs se t s) se' t' r = (if se' = se \<and> t' = t then None else entry_at s se' t' r)"
  by (auto simp: clear_target_refs_def entry_at_def sub_map_set sub_map_del sub_map_def jm
      split: option.split)

lemma clear_target_counter [simp]: "counter_of se' t' (clear_target_refs se t s) = counter_of se' t' s"
  by (simp add: clear_target_refs_def counter_of_def split: option.split)

lemma clear_session_entry:
  "entry_at (clear_session_refs se s) se' t' r = (if se' = se then None else entry_at s se' t' r)"
  by (simp add: clear_session_refs_def entry_at_def sub_map_del) (simp add: sub_map_def)

lemma clear_session_counter:
  "counter_of se' t' (clear_session_refs se s) = (if se' = se then 0 else counter_of se' t' s)"
  by (simp add: clear_session_refs_def counter_of_def sub_map_del)

lemma clear_all_entry:
  "entry_at (clear_target_all_sessions t s) se' t' r = (if t' = t then None else entry_at s se' t' r)"
  by (auto simp: clear_target_all_sessions_def entry_at_def sub_map_def jm default_to_def
      split: option.split)

lemma clear_all_counter [simp]: "counter_of se' t' (clear_target_all_sessions t s) = counter_of se' t' s"
  by (simp add: clear_target_all_sessions_def counter_of_def)

lemma migrate_key_get:
  "jget (migrate_key old new m) k =
     (if jget m old = None then jget m k
      else if k = old then None else if k = new then jget m old else jget m k)"
  by (auto simp: migrate_key_def jm split: option.split)

lemma sub_map_migrate:
  "sub_map k (migrate_key old new m) =
     (if jget m old = None then sub_map k m
      else if k = old then [] else if k = new then sub_map old m else sub_map k m)"
  by (auto simp: sub_map_def migrate_key_get)

lemma migrate_refs:
  "sub_map se' (rs_refs (migrate_target se old new s)) =
     (if se' = se then migrate_key old new (sub_map se (rs_refs s)) else sub_map se' (rs_refs s))"
  by (auto simp: migrate_target_def sub_map_set split: option.split)
    (simp_all add: sub_map_def migrate_key_def)

lemma migrate_counters:
  "sub_map se' (rs_counters (migrate_target se old new s)) =
     (if se' = se then migrate_key old new (sub_map se (rs_counters s)) else sub_map se' (rs_counters s))"
  by (auto simp: migrate_target_def sub_map_set split: option.split)
    (simp_all add: sub_map_def migrate_key_def)

lemma migrate_entry_other:
  "se' \<noteq> se \<or> (t' \<noteq> old \<and> t' \<noteq> new) \<Longrightarrow>
    entry_at (migrate_target se old new s) se' t' r = entry_at s se' t' r
    \<and> counter_of se' t' (migrate_target se old new s) = counter_of se' t' s"
  by (auto simp: entry_at_def counter_of_def migrate_refs migrate_counters sub_map_migrate migrate_key_get)

lemma migrate_entry_cases:
  "entry_at (migrate_target se old new s) se' t' r = Some e \<Longrightarrow>
    entry_at s se' t' r = Some e \<or> entry_at s se old r = Some e"
  by (auto simp: entry_at_def migrate_refs sub_map_migrate split: if_splits)

lemma relocate_state:
  "snd (relocate_ref se t ref found now s) = s
   \<or> (\<exists>f o'. snd (relocate_ref se t ref found now s) = snd (generate_ref se t f o' now s))"
proof (cases "get_ref s se t ref")
  case (Some e)
  show ?thesis
  proof (cases "truthy_str (re_tag e)")
    case tag: (Some tag)
    show ?thesis
      using Some tag by (cases found) (auto simp: relocate_ref_def split_def Let_def)
  qed (use Some in \<open>simp add: relocate_ref_def\<close>)
qed (simp add: relocate_ref_def)

section \<open>Invariants\<close>

lemma ref_id_inj [simp]: "ref_id_of j = ref_id_of k \<longleftrightarrow> j = k"
  by (simp add: ref_id_of_def)

text \<open>Every stored key is a minted id.\<close>

definition keys_minted :: "ref_state \<Rightarrow> bool" where
  "keys_minted s \<longleftrightarrow> (\<forall>se t r e. entry_at s se t r = Some e \<longrightarrow> (\<exists>k. r = ref_id_of k \<and> re_ref e = r))"

lemma generate_minted: "keys_minted s \<Longrightarrow> keys_minted (snd (generate_ref se t f o' now s))"
  by (auto simp: keys_minted_def generate_entry)

lemma ref_step_minted: "keys_minted s \<Longrightarrow> keys_minted (ref_step s op)"
proof (cases op)
  case (RfGenerate se t f o' now)
  assume "keys_minted s"
  with RfGenerate show ?thesis by (simp add: generate_minted)
next
  case (RfRelocate se t ref found now)
  assume "keys_minted s"
  with RfRelocate show ?thesis using relocate_state [of se t ref found now s] generate_minted by auto
next
  case (RfMigrate se old new)
  assume "keys_minted s"
  then have "\<exists>k. r = ref_id_of k \<and> re_ref e = r"
    if "entry_at (migrate_target se old new s) se' t' r = Some e" for se' t' r e
    using migrate_entry_cases [OF that] unfolding keys_minted_def by blast
  with RfMigrate show ?thesis by (simp add: keys_minted_def)
next
  case (RfClearTarget se t)
  assume "keys_minted s"
  with RfClearTarget show ?thesis by (simp add: keys_minted_def clear_target_entry)
next
  case (RfClearSession se)
  assume "keys_minted s"
  with RfClearSession show ?thesis by (simp add: keys_minted_def clear_session_entry)
next
  case (RfClearTargetAll t)
  assume "keys_minted s"
  with RfClearTargetAll show ?thesis by (simp add: keys_minted_def clear_all_entry)
qed

interpretation ref_machine: machine ref_step keys_minted
  by unfold_locales (rule ref_step_minted)

lemma no_refs_minted: "keys_minted no_refs"
  by (simp add: keys_minted_def no_refs_def entry_at_def sub_map_def)

text \<open>The ids of one tab stay at or below its counter, as long as the tab is not migrated.\<close>

definition below_counter :: "string \<Rightarrow> string \<Rightarrow> ref_state \<Rightarrow> bool" where
  "below_counter se t s \<longleftrightarrow>
     (\<forall>r e. entry_at s se t r = Some e \<longrightarrow> (\<exists>k. r = ref_id_of k \<and> k \<le> counter_of se t s))"

fun moves_tab :: "string \<Rightarrow> string \<Rightarrow> ref_op \<Rightarrow> bool" where
  "moves_tab se t (RfMigrate se' old new) = (se' = se \<and> (old = t \<or> new = t))"
| "moves_tab se t _ = False"

fun drops_session :: "string \<Rightarrow> ref_op \<Rightarrow> bool" where
  "drops_session se (RfClearSession se') = (se' = se)"
| "drops_session se _ = False"

text \<open>What a tab-preserving step does to one id: it keeps the entry, drops it, or mints it afresh.\<close>

lemma generate_effect:
  assumes "s' = snd (generate_ref se' t' f o' now s)"
  shows "counter_of se t s \<le> counter_of se t s' \<and> (entry_at s' se t r = entry_at s se t r
    \<or> (r = ref_id_of (counter_of se t s + 1) \<and> counter_of se t s' = counter_of se t s + 1))"
  unfolding assms by (simp add: generate_entry generate_counter)

lemma step_effect:
  assumes "\<not> moves_tab se t op" "\<not> drops_session se op"
  shows "counter_of se t s \<le> counter_of se t (ref_step s op)
    \<and> (entry_at (ref_step s op) se t r = entry_at s se t r \<or> entry_at (ref_step s op) se t r = None
       \<or> (r = ref_id_of (counter_of se t s + 1) \<and> counter_of se t (ref_step s op) = counter_of se t s + 1))"
proof (cases op)
  case (RfGenerate se' t' f o' now)
  then show ?thesis using generate_effect [OF refl, of se t s se' t' f o' now r] by auto
next
  case (RfRelocate se' t' ref found now)
  consider "ref_step s op = s" | f o' where "ref_step s op = snd (generate_ref se' t' f o' now s)"
    using relocate_state [of se' t' ref found now s] RfRelocate by auto
  then show ?thesis
  proof cases
    case (2 f o')
    then show ?thesis using generate_effect [OF 2, of se t r] by blast
  qed simp
next
  case (RfMigrate se' old new)
  then have "entry_at (ref_step s op) se t r = entry_at s se t r
    \<and> counter_of se t (ref_step s op) = counter_of se t s"
    using assms(1) migrate_entry_other [of se se' t old new s r] by auto
  then show ?thesis by simp
qed (use assms in \<open>simp_all add: clear_target_entry clear_session_entry clear_session_counter clear_all_entry\<close>)

lemma step_below:
  assumes "below_counter se t s" "\<not> moves_tab se t op"
  shows "below_counter se t (ref_step s op)"
proof (cases "drops_session se op")
  case True
  then have "op = RfClearSession se" by (cases op) simp_all
  then show ?thesis by (simp add: below_counter_def clear_session_entry)
next
  case False
  show ?thesis unfolding below_counter_def
  proof (intro allI impI)
    fix r e assume "entry_at (ref_step s op) se t r = Some e"
    then consider "entry_at s se t r = Some e"
      | "r = ref_id_of (counter_of se t s + 1)" "counter_of se t (ref_step s op) = counter_of se t s + 1"
      using step_effect [OF assms(2) False, of s r] by auto
    then show "\<exists>k. r = ref_id_of k \<and> k \<le> counter_of se t (ref_step s op)"
    proof cases
      case 1
      then obtain k where "r = ref_id_of k" "k \<le> counter_of se t s"
        using assms(1) unfolding below_counter_def by blast
      then show ?thesis using step_effect [OF assms(2) False, of s r] by (auto intro: exI [of _ k])
    next
      case 2
      then show ?thesis by auto
    qed
  qed
qed

lemma run_below: "below_counter se t s \<Longrightarrow> list_all (\<lambda>op. \<not> moves_tab se t op) ops \<Longrightarrow>
    below_counter se t (foldl ref_step s ops)"
  by (induction ops arbitrary: s) (auto simp: step_below)

text \<open>An id already minted keeps its element, or is gone for good.\<close>

lemma minted_stable:
  "k \<le> counter_of se t s \<Longrightarrow> entry_at s se t (ref_id_of k) = None \<or> entry_at s se t (ref_id_of k) = Some e \<Longrightarrow>
    list_all (\<lambda>op. \<not> moves_tab se t op \<and> \<not> drops_session se op) ops \<Longrightarrow>
    entry_at (foldl ref_step s ops) se t (ref_id_of k) = None
    \<or> entry_at (foldl ref_step s ops) se t (ref_id_of k) = Some e"
proof (induction ops arbitrary: s)
  case (Cons op ops)
  have m: "\<not> moves_tab se t op" "\<not> drops_session se op" using Cons.prems(3) by simp_all
  show ?case
    using Cons.IH [of "ref_step s op"] Cons.prems step_effect [OF m, of s "ref_id_of k"] by auto
qed simp

section \<open>Properties\<close>

text \<open>C8 (safety). A reference never changes its element. Take any history of a tab in which the tab is
  not migrated, and a reference (or its alias) that resolves to an entry. After any further operations
  that neither migrate the tab nor drop the session - more ids minted, the tab's refs cleared any number
  of times, relocations - the reference resolves to that same entry or to nothing: the number of a
  cleared reference is never given to another element.\<close>

theorem ref_never_rebound:
  assumes "s = foldl ref_step no_refs ops" and "list_all (\<lambda>op. \<not> moves_tab se t op) ops"
    and "get_ref s se t ref = Some e"
    and "list_all (\<lambda>op. \<not> moves_tab se t op \<and> \<not> drops_session se op) later"
  shows "get_ref (foldl ref_step s later) se t ref \<in> {None, Some e}"
proof -
  have "below_counter se t s" unfolding assms(1)
    by (rule run_below) (use assms(2) in \<open>simp_all add: below_counter_def no_refs_def entry_at_def sub_map_def\<close>)
  then obtain k where k: "normalize_alias ref = ref_id_of k" "k \<le> counter_of se t s"
    using assms(3) unfolding get_ref_entry below_counter_def by blast
  show ?thesis
    using minted_stable [OF k(2) _ assms(4), of e] assms(3) unfolding get_ref_entry k(1) by auto
qed

definition demo_fields :: "nat \<Rightarrow> ref_fields" where
  "demo_fields n = \<lparr>rf_node = n, rf_role = ''button'', rf_name = None, rf_tag = None, rf_text = None\<rparr>"

definition demo_mint :: "nat \<Rightarrow> ref_op" where
  "demo_mint n = RfGenerate ''s'' ''t'' (demo_fields n) None 0"

theorem ref_never_rebound_witness:
  "\<exists>e. get_ref (foldl ref_step no_refs [demo_mint 7]) ''s'' ''t'' ''@e1'' = Some e
     \<and> get_ref (foldl ref_step (foldl ref_step no_refs [demo_mint 7]) [RfClearTarget ''s'' ''t'', demo_mint 8])
         ''s'' ''t'' ''@e1'' \<in> {None, Some e}"
proof -
  have "get_ref (foldl ref_step no_refs [demo_mint 7]) ''s'' ''t'' ''@e1'' \<noteq> None" by code_simp
  then obtain e where e: "get_ref (foldl ref_step no_refs [demo_mint 7]) ''s'' ''t'' ''@e1'' = Some e"
    by blast
  have l: "list_all (\<lambda>op. \<not> moves_tab ''s'' ''t'' op) [demo_mint 7]"
    "list_all (\<lambda>op. \<not> moves_tab ''s'' ''t'' op \<and> \<not> drops_session ''s'' op)
       [RfClearTarget ''s'' ''t'', demo_mint 8]"
    by (simp_all add: demo_mint_def)
  show ?thesis using ref_never_rebound [OF refl l(1) e l(2)] e by blast
qed

text \<open>Migrating onto a tab that is in use breaks this: its counter is overwritten by the other tab's, so
  a live reference is minted again for another element.\<close>

lemma migration_can_rebind:
  "let s = foldl ref_step no_refs [RfGenerate ''s'' ''a'' (demo_fields 1) None 0, RfClearTarget ''s'' ''a'',
         demo_mint 5, demo_mint 6];
       s' = foldl ref_step s [RfMigrate ''s'' ''a'' ''t'', demo_mint 7]
   in backend_node_id s ''s'' ''t'' ''ref_2'' = Some 6 \<and> backend_node_id s' ''s'' ''t'' ''ref_2'' = Some 7"
  by code_simp

lemma list_all_digit_dec: "digits_after p (p @ dec n) = Some (dec n)"
  by (simp add: digits_after_def)

lemma aliases [simp]:
  "alias_for (ref_id_of n) = Some (''@e'' @ dec n)"
  "ref_id_from_alias (''@e'' @ dec n) = Some (ref_id_of n)"
  by (simp_all only: alias_for_def ref_id_from_alias_def ref_id_of_def list_all_digit_dec option.map)

lemma normalize_ref [simp]: "normalize_alias (ref_id_of n) = ref_id_of n"
  by (simp add: normalize_alias_def ref_id_from_alias_def ref_id_of_def digits_after_def starts_with_def)

lemma normalize_alias_of [simp]: "normalize_alias (''@e'' @ dec n) = ref_id_of n"
  unfolding normalize_alias_def by (simp only: aliases default_to_simps)

lemma canonical_dec: "canonical_node (dec n) = (if 0 < n \<and> n \<le> 2147483647 then Some n else None)"
  by (simp add: canonical_node_def)

lemma digit_first: "is_digit (hd (dec n))"
  using dec_digits [of n] dec_not_Nil [of n] by (cases "dec n") simp_all

lemma normalize_dec: "normalize_alias (dec n) = dec n"
proof -
  have "\<not> starts_with ''@e'' (dec n)"
  proof
    assume "starts_with ''@e'' (dec n)"
    then have "hd (dec n) = CHR ''@''" by (metis hd_append2 list.distinct(1) list.sel(1) starts_with_split)
    then show False using digit_first [of n] by (simp add: is_digit_def)
  qed
  then show ?thesis by (simp add: normalize_alias_def ref_id_from_alias_def digits_after_def)
qed

lemma not_minted: "dec n \<noteq> ref_id_of k" "''node_'' @ dec n \<noteq> ref_id_of k"
proof -
  have "hd (ref_id_of k) = CHR ''r''" by (simp add: ref_id_of_def)
  then show "dec n \<noteq> ref_id_of k" using digit_first [of n] by (auto simp: is_digit_def)
qed (simp add: ref_id_of_def)

lemma canonical_node_prefix: "canonical_node (''node_'' @ x) = None"
  by (simp add: canonical_node_def parse_int_def split_sign_def is_space_def is_digit_def)

text \<open>One resolver for the three notations. In every reachable state, a freshly minted
  reference and its alias both resolve to the element's backend node; a decimal number \<open>n\<close>, alone or
  after \<open>node_\<close>, resolves to itself exactly when it is a positive 32-bit integer, whatever references
  exist.\<close>

theorem resolver_notations:
  assumes "s = foldl ref_step no_refs ops" and "(ref, s') = generate_ref se t f opts now s"
  shows "resolve_backend s' se t ref = Some (rf_node f)
    \<and> (\<exists>a. alias_for ref = Some a \<and> resolve_backend s' se t a = Some (rf_node f))
    \<and> resolve_backend s se t (dec n) = (if 0 < n \<and> n \<le> 2147483647 then Some n else None)
    \<and> resolve_backend s se t (''node_'' @ dec n) = (if 0 < n \<and> n \<le> 2147483647 then Some n else None)"
proof -
  have w: "keys_minted s" unfolding assms(1) by (rule ref_machine.run_inv) (rule no_refs_minted)
  define c where "c = counter_of se t s + 1"
  have ref: "ref = ref_id_of c" and s': "s' = snd (generate_ref se t f opts now s)"
    using assms(2) generate_fst [of se t f opts now s] unfolding c_def by (metis fst_conv, metis snd_conv)
  have e: "entry_at s' se t (ref_id_of c) \<noteq> None"
    "\<And>x. entry_at s' se t (ref_id_of c) = Some x \<Longrightarrow> re_node x = rf_node f"
    unfolding s' c_def by (auto simp: generate_entry)
  have r: "resolve_backend s' se t x = Some (rf_node f)" if "normalize_alias x = ref_id_of c" for x
    using e that by (auto simp: resolve_backend_def get_ref_entry)
  have none: "entry_at s se t x = None" if "\<And>k. x \<noteq> ref_id_of k" for x
    using w that unfolding keys_minted_def by (meson not_Some_eq)
  have 1: "get_ref s se t (dec n) = None"
    unfolding get_ref_entry normalize_dec by (rule none) (rule not_minted)
  have nn: "normalize_alias (''node_'' @ dec n) = ''node_'' @ dec n"
    by (simp add: normalize_alias_def ref_id_from_alias_def digits_after_def starts_with_def)
  have 2: "get_ref s se t (''node_'' @ dec n) = None"
    unfolding get_ref_entry nn by (rule none) (rule not_minted)
  have 3: "starts_with ''node_'' (''node_'' @ dec n)" "drop 5 (''node_'' @ dec n) = dec n"
    by (simp_all add: starts_with_def)
  have 4: "\<not> starts_with ''node_'' (dec n)"
  proof
    assume "starts_with ''node_'' (dec n)"
    then have "hd (dec n) = CHR ''n''" by (metis hd_append2 list.distinct(1) list.sel(1) starts_with_split)
    then show False using digit_first [of n] by (simp add: is_digit_def)
  qed
  have "resolve_backend s se t (dec n) = (if 0 < n \<and> n \<le> 2147483647 then Some n else None)"
    unfolding resolve_backend_def 1 by (simp add: canonical_dec 4)
  moreover have "resolve_backend s se t (''node_'' @ dec n)
      = (if 0 < n \<and> n \<le> 2147483647 then Some n else None)"
    unfolding resolve_backend_def 2 option.case canonical_node_prefix 3(2)
    by (simp only: 3(1) if_True canonical_dec)
  ultimately show ?thesis using r [of ref] r [of "''@e'' @ dec c"] unfolding ref
    by (simp only: normalize_ref normalize_alias_of aliases) blast
qed

theorem resolver_notations_witness:
  "resolve_backend (snd (generate_ref ''s'' ''t'' (demo_fields 7) None 0 no_refs)) ''s'' ''t''
     (fst (generate_ref ''s'' ''t'' (demo_fields 7) None 0 no_refs)) = Some (rf_node (demo_fields 7))"
  using resolver_notations [of no_refs "[]" "fst (generate_ref ''s'' ''t'' (demo_fields 7) None 0 no_refs)"
      "snd (generate_ref ''s'' ''t'' (demo_fields 7) None 0 no_refs)" "''s''" "''t''" "demo_fields 7" None 0]
  by simp

end
