(* ===== verification/Task_Utility.thy ===== *)
theory Task_Utility
  imports Oc_Prelude Complex_Main
begin

text \<open>
  The progress tracker of task episodes, \<open>src/src/core/task-ledger/marginal-utility.ts\<close>, and the stop
  recommendation over it, \<open>src/src/core/task-ledger/early-stop.ts\<close>. Scores are rational numbers, so the
  rounding of double-precision arithmetic is not modelled; a number that a caller supplies may also be
  NaN or an infinity.
\<close>

section \<open>The tracker\<close>

definition window_size :: nat where "window_size = 20"
definition low_delta_threshold :: rat where "low_delta_threshold = 2/100"

record step_signals =
  ss_ts :: int
  ss_tool_ok :: bool
  ss_passes :: nat
  ss_fails :: nat
  ss_inconclusives :: nat
  ss_checkpoint :: bool

record step_record =
  sr_step :: nat
  sr_ts :: int
  sr_p :: rat
  sr_delta :: rat

record utility_state =
  mu_total :: nat
  mu_window :: "step_record list"
  mu_last :: rat

definition initial_utility :: utility_state where
  "initial_utility = \<lparr>mu_total = 0, mu_window = [], mu_last = 1/2\<rparr>"

definition step_score :: "step_signals \<Rightarrow> rat" where
  "step_score g =
     (let bonus = (if ss_checkpoint g then 1 else 0 :: nat);
          denominator = ss_passes g + ss_fails g + ss_inconclusives g + bonus
      in if denominator = 0 then (if ss_tool_ok g then 7/10 else 3/10)
         else max 0 (min 1 ((of_nat (ss_passes g) + (1/2) * of_nat (ss_inconclusives g) + of_nat bonus)
                            / of_nat denominator)))"

text \<open>Weight 1 for the oldest score, \<open>n\<close> for the newest.\<close>

definition weighted_average :: "rat list \<Rightarrow> rat" where
  "weighted_average xs =
     (let pairs = zip xs [1..<Suc (length xs)];
          total = sum_list (map (\<lambda>(_, w). of_nat w) pairs)
      in if 0 < total then sum_list (map (\<lambda>(x, w). x * of_nat w) pairs) / total else last xs)"

definition record_utility_step :: "utility_state \<Rightarrow> step_signals \<Rightarrow> utility_state" where
  "record_utility_step s g =
     (let i = mu_total s + 1;
          w = mu_window s;
          kept = (if window_size \<le> length w then drop (length w - (window_size - 1)) w else w);
          p = weighted_average (map sr_p kept @ [step_score g])
      in \<lparr>mu_total = i,
          mu_window = kept @ [\<lparr>sr_step = i, sr_ts = ss_ts g, sr_p = p, sr_delta = p - mu_last s\<rparr>],
          mu_last = p\<rparr>)"

record utility_summary =
  us_last_p :: rat
  us_mean_delta :: rat
  us_low_delta :: nat

definition summarize :: "utility_state \<Rightarrow> utility_summary" where
  "summarize s =
     (let w = mu_window s in
      if w = [] then \<lparr>us_last_p = mu_last s, us_mean_delta = 0, us_low_delta = 0\<rparr>
      else \<lparr>us_last_p = mu_last s,
            us_mean_delta = sum_list (map sr_delta w) / of_nat (length w),
            us_low_delta = length (takeWhile (\<lambda>r. \<bar>sr_delta r\<bar> < low_delta_threshold) (rev w))\<rparr>)"

section \<open>The stop recommendation\<close>

datatype jsreal = RealNum rat | NotANumber | PlusInfinity | MinusInfinity

record stop_policy =
  sp_plateau :: "jsreal option"
  sp_min_p :: "jsreal option"

text \<open>The resolved plateau length; \<open>None\<close> is infinity.\<close>

definition resolved_plateau :: "jsreal option \<Rightarrow> nat option" where
  "resolved_plateau v =
     (case v of
        Some (RealNum x) \<Rightarrow> if 0 < x then Some (nat \<lfloor>x\<rfloor>) else Some 10
      | Some PlusInfinity \<Rightarrow> None
      | _ \<Rightarrow> Some 10)"

definition resolved_min_p :: "jsreal option \<Rightarrow> rat" where
  "resolved_min_p v =
     (case v of Some (RealNum x) \<Rightarrow> if 0 \<le> x \<and> x \<le> 1 then x else 7/10 | _ \<Rightarrow> 7/10)"

datatype stop_reason = LastPNotFinite | BelowMinP | BelowPlateau | PlateauReached

definition recommend_stop :: "jsreal \<Rightarrow> nat \<Rightarrow> stop_policy option \<Rightarrow> bool \<times> stop_reason" where
  "recommend_stop last_p low_delta policy =
     (case last_p of
        RealNum p \<Rightarrow>
          if p < resolved_min_p (Option.bind policy sp_min_p) then (False, BelowMinP)
          else (case resolved_plateau (Option.bind policy sp_plateau) of
                  None \<Rightarrow> (False, BelowPlateau)
                | Some n \<Rightarrow> if low_delta < n then (False, BelowPlateau) else (True, PlateauReached))
      | _ \<Rightarrow> (False, LastPNotFinite))"

definition recommend_for :: "utility_state \<Rightarrow> stop_policy option \<Rightarrow> bool \<times> stop_reason" where
  "recommend_for s policy =
     recommend_stop (RealNum (us_last_p (summarize s))) (us_low_delta (summarize s)) policy"

section \<open>Bounds\<close>

lemma step_score_unit: "0 \<le> step_score g" "step_score g \<le> 1"
  by (simp_all add: step_score_def Let_def)

lemma weighted_sum_bounds:
  fixes ps :: "(rat \<times> nat) list"
  assumes "\<forall>(x, w) \<in> set ps. 0 \<le> x \<and> x \<le> 1"
  shows "0 \<le> sum_list (map (\<lambda>(x, w). x * of_nat w) ps)"
    and "sum_list (map (\<lambda>(x, w). x * of_nat w) ps) \<le> sum_list (map (\<lambda>(_, w). of_nat w) ps)"
  using assms by (induction ps) (auto intro!: add_nonneg_nonneg add_mono mult_left_le_one_le)

lemma weighted_average_unit:
  assumes "xs \<noteq> []" "\<forall>x \<in> set xs. 0 \<le> x \<and> x \<le> 1"
  shows "0 \<le> weighted_average xs \<and> weighted_average xs \<le> 1"
proof -
  let ?ps = "zip xs [1..<Suc (length xs)]"
  have "\<forall>(x, w) \<in> set ?ps. 0 \<le> x \<and> x \<le> 1" using assms(2) by (auto dest: set_zip_leftD)
  note b = weighted_sum_bounds [OF this]
  have "0 \<le> last xs \<and> last xs \<le> 1" using assms by (simp add: last_in_set)
  then show ?thesis using b by (auto simp: weighted_average_def Let_def divide_le_eq)
qed

definition utility_wf :: "utility_state \<Rightarrow> bool" where
  "utility_wf s \<longleftrightarrow> 0 \<le> mu_last s \<and> mu_last s \<le> 1
     \<and> (\<forall>r \<in> set (mu_window s). 0 \<le> sr_p r \<and> sr_p r \<le> 1)
     \<and> length (mu_window s) = min (mu_total s) window_size
     \<and> map sr_step (mu_window s) = [Suc (mu_total s - length (mu_window s))..<Suc (mu_total s)]
     \<and> (mu_window s \<noteq> [] \<longrightarrow> sr_p (last (mu_window s)) = mu_last s)"

lemma record_step_wf:
  assumes "utility_wf s"
  shows "utility_wf (record_utility_step s g)"
proof -
  define w where "w = mu_window s"
  define kept where "kept = (if window_size \<le> length w then drop (length w - (window_size - 1)) w else w)"
  define p where "p = weighted_average (map sr_p kept @ [step_score g])"
  have new: "record_utility_step s g = \<lparr>mu_total = mu_total s + 1,
      mu_window = kept @ [\<lparr>sr_step = mu_total s + 1, sr_ts = ss_ts g, sr_p = p, sr_delta = p - mu_last s\<rparr>],
      mu_last = p\<rparr>"
    by (simp add: record_utility_step_def Let_def kept_def p_def w_def)
  have len: "length w = min (mu_total s) 20" and steps: "map sr_step w = [Suc (mu_total s - length w)..<Suc (mu_total s)]"
    using assms by (simp_all add: utility_wf_def w_def window_size_def del: upt_Suc)
  have in_w: "set kept \<subseteq> set w" by (auto simp: kept_def dest: in_set_dropD)
  then have unit: "\<forall>r \<in> set kept. 0 \<le> sr_p r \<and> sr_p r \<le> 1" using assms by (auto simp: utility_wf_def w_def)
  then have "\<forall>x \<in> set (map sr_p kept @ [step_score g]). 0 \<le> x \<and> x \<le> 1"
    using step_score_unit [of g] by auto
  then have "0 \<le> p \<and> p \<le> 1" unfolding p_def by (intro weighted_average_unit) simp_all
  moreover have "length kept = min (mu_total s) 19" using len by (auto simp: kept_def window_size_def)
  moreover have "map sr_step kept = [Suc (mu_total s - length kept)..<Suc (mu_total s)]"
  proof (cases "20 \<le> mu_total s")
    case True
    then have "map sr_step kept = drop 1 [Suc (mu_total s - 20)..<Suc (mu_total s)]"
      using len steps by (simp add: kept_def window_size_def drop_map [symmetric] del: upt_Suc)
    moreover have "Suc (mu_total s - 20) + 1 = Suc (mu_total s - 19)" using True by simp
    ultimately show ?thesis
      using True len by (simp only: drop_upt) (simp add: kept_def window_size_def del: upt_Suc)
  qed (use len steps in \<open>simp add: kept_def window_size_def del: upt_Suc\<close>)
  ultimately show ?thesis using unit by (auto simp: utility_wf_def new window_size_def min_def)
qed

interpretation utility_machine: machine record_utility_step utility_wf
  by unfold_locales (rule record_step_wf)

lemma initial_utility_wf: "utility_wf initial_utility"
  by (simp add: utility_wf_def initial_utility_def)

definition episode :: "step_signals list \<Rightarrow> utility_state" where
  "episode gs = foldl record_utility_step initial_utility gs"

lemma episode_wf: "utility_wf (episode gs)"
  unfolding episode_def by (rule utility_machine.run_inv) (rule initial_utility_wf)

lemma episode_total: "mu_total (episode gs) = length gs"
proof -
  have "mu_total (foldl record_utility_step s gs) = mu_total s + length gs" for s
    by (induction gs arbitrary: s) (simp_all add: record_utility_step_def Let_def)
  then show ?thesis by (simp add: episode_def initial_utility_def)
qed

section \<open>Properties\<close>

text \<open>The success estimate is a probability and the window is the recent past: after any
  sequence of steps every estimate in the window and the last one lie between 0 and 1, the window holds
  the last 20 steps (all of them before the 20th) with consecutive numbers, and the number of steps is
  counted exactly.\<close>

theorem success_estimate_bounded:
  "0 \<le> us_last_p (summarize (episode gs)) \<and> us_last_p (summarize (episode gs)) \<le> 1
    \<and> list_all (\<lambda>r. 0 \<le> sr_p r \<and> sr_p r \<le> 1) (mu_window (episode gs))
    \<and> mu_total (episode gs) = length gs
    \<and> map sr_step (mu_window (episode gs)) = [Suc (length gs - min (length gs) 20)..<Suc (length gs)]"
  using episode_wf [of gs] episode_total [of gs]
  by (simp add: utility_wf_def summarize_def Let_def list_all_iff window_size_def del: upt_Suc)

text \<open>What a stop recommendation says. Over an episode, the policy recommends to stop
  exactly when the estimate has reached the minimum and the last \<open>n\<close> recorded steps all moved it by
  less than 0.02, \<open>n\<close> being the resolved plateau length; so never for an infinite length or one above
  the window of 20 steps, however long the plateau; and a requested length of 1/2 resolves
  to 0, which stops without any plateau.\<close>

theorem stop_needs_plateau:
  "(fst (recommend_for (episode gs) policy) \<longleftrightarrow>
      resolved_min_p (Option.bind policy sp_min_p) \<le> mu_last (episode gs)
      \<and> (case resolved_plateau (Option.bind policy sp_plateau) of
            None \<Rightarrow> False
          | Some n \<Rightarrow> n \<le> min (length gs) 20
              \<and> list_all (\<lambda>r. \<bar>sr_delta r\<bar> < low_delta_threshold) (take n (rev (mu_window (episode gs))))))
   \<and> resolved_plateau (Some (RealNum (1/2))) = Some 0"
proof -
  let ?w = "mu_window (episode gs)" and ?low = "\<lambda>r. \<bar>sr_delta r\<bar> < low_delta_threshold"
  have len: "length ?w = min (length gs) 20"
    using episode_wf [of gs] episode_total [of gs] by (simp add: utility_wf_def window_size_def)
  have low: "us_low_delta (summarize (episode gs)) = length (takeWhile ?low (rev ?w))"
    by (simp add: summarize_def Let_def)
  have tw: "n \<le> length (takeWhile ?low ys) \<longleftrightarrow> n \<le> length ys \<and> list_all ?low (take n ys)" for n ys
    by (induction ys arbitrary: n) (auto split: nat.splits simp: take_Cons)
  have "us_last_p (summarize (episode gs)) = mu_last (episode gs)" by (simp add: summarize_def Let_def)
  then have "fst (recommend_for (episode gs) policy) \<longleftrightarrow>
      resolved_min_p (Option.bind policy sp_min_p) \<le> mu_last (episode gs)
      \<and> (case resolved_plateau (Option.bind policy sp_plateau) of
            None \<Rightarrow> False | Some n \<Rightarrow> n \<le> length (takeWhile ?low (rev ?w)))"
    by (simp add: recommend_for_def recommend_stop_def low not_less not_le split: option.split)
  then show ?thesis
    by (simp add: tw len resolved_plateau_def split: option.split)
qed

text \<open>The estimate averages earlier estimates with the new score, not the scores of the window.\<close>

lemma estimate_averages_estimates:
  "let ok = \<lparr>ss_ts = 0, ss_tool_ok = True, ss_passes = 0, ss_fails = 0, ss_inconclusives = 0, ss_checkpoint = False\<rparr>;
       bad = ok\<lparr>ss_tool_ok := False\<rparr>
   in mu_last (episode [ok, bad, bad]) = 37/90 \<and> weighted_average (map step_score [ok, bad, bad]) = 11/30"
  by code_simp

end
