(* ===== verification/Task_Budget.thy ===== *)
theory Task_Budget
  imports Js_Strings Task_Utility
begin

text \<open>
  The budget ledger of a task, \<open>src/src/core/task-ledger/budget.ts\<close>, over the data of
  \<open>src/src/core/task-ledger/types.ts\<close>: each recorded tool call updates counters and streaks, appends a
  recent event, advances the progress tracker and decides the budget status against the task's policy.
  \<open>host\<close> stands for the platform's \<open>new URL(u).hostname\<close> (\<open>None\<close> when it throws). The argument
  summary and the browser lanes of a task are not read here and are left out of its record.
\<close>

section \<open>Data\<close>

datatype task_status = PENDING | RUNNING | COMPLETED | FAILED | CANCELLED
datatype task_phase = Explore | Act | Verify | Recover | Done
datatype budget_status = BudgetOk | BudgetWarning | BudgetExceeded

text \<open>A field of a JSON argument object: a string, or anything else.\<close>

datatype arg_value = ArgStr string | ArgOther

record raw_policy =
  rp_max_tool_calls :: "jsreal option"
  rp_max_wall_ms :: "jsreal option"
  rp_max_same_tool :: "jsreal option"
  rp_max_observations :: "jsreal option"
  rp_max_failures :: "jsreal option"
  rp_max_same_url :: "jsreal option"
  rp_allowed_domains :: "arg_value list option"
  rp_checkpoint_every :: "jsreal option"

record task_policy =
  tp_max_tool_calls :: "nat option"
  tp_max_wall_ms :: "nat option"
  tp_max_same_tool :: "nat option"
  tp_max_observations :: "nat option"
  tp_max_failures :: "nat option"
  tp_max_same_url :: "nat option"
  tp_allowed_domains :: "string list option"
  tp_checkpoint_every :: "nat option"

record task_counters =
  tc_tool_calls :: nat
  tc_actions :: nat
  tc_observations :: nat
  tc_failures :: nat
  tc_same_tool :: nat
  tc_observation_streak :: nat
  tc_failure_streak :: nat
  tc_same_url :: "(string, nat) jmap"

record recent_event =
  ev_ts :: int
  ev_tool :: string
  ev_ok :: bool
  ev_summary :: string

record call_args =
  ca_action :: "arg_value option"
  ca_url :: "arg_value option"
  ca_href :: "arg_value option"

record tool_call =
  cl_ts :: int
  cl_tool :: string
  cl_session :: string
  cl_tenant :: "string option"
  cl_mode :: "string option"
  cl_args :: call_args
  cl_duration :: int
  cl_ok :: bool

record task_owner =
  ow_session :: string
  ow_tenant :: "string option"
  ow_key :: "string option"
  ow_mode :: "string option"

record cost_point =
  cp_step :: nat
  cp_p :: rat
  cp_delta :: rat

record task_meta =
  tm_id :: string
  tm_kind :: string
  tm_status :: task_status
  tm_pid :: int
  tm_created :: int
  tm_started :: "int option"
  tm_ended :: "int option"
  tm_owner :: "task_owner option"
  tm_result_path :: "string option"
  tm_error :: "(string \<times> string option) option"
  tm_cancel_requested :: "int option"
  tm_objective :: "string option"
  tm_phase :: "task_phase option"
  tm_policy :: "raw_policy option"
  tm_counters :: "task_counters option"
  tm_budget :: "budget_status option"
  tm_exceeded :: "string list option"
  tm_recommended :: "string option"
  tm_recent :: "recent_event list option"
  tm_last_tool :: "string option"
  tm_last_activity :: "int option"
  tm_cost_curve :: "cost_point list option"
  tm_utility :: "utility_state option"

section \<open>Normalisation\<close>

definition observation_tools :: "string list" where
  "observation_tools = [''read_page'', ''find'', ''tabs_context'', ''tabs_list'', ''tabs_get'', ''inspect'',
     ''page_screenshot'', ''vision_find'', ''oc_assert'']"

definition is_observation_tool :: "string \<Rightarrow> call_args \<Rightarrow> bool" where
  "is_observation_tool tool args \<longleftrightarrow>
     tool \<in> set observation_tools \<or> (tool = ''computer'' \<and> ca_action args = Some (ArgStr ''screenshot''))"

definition normalize_phase :: "task_phase option \<Rightarrow> task_phase" where
  "normalize_phase p = default_to Explore p"

definition positive_int :: "jsreal option \<Rightarrow> nat option" where
  "positive_int v =
     (case v of Some (RealNum x) \<Rightarrow> if 0 < \<lfloor>x\<rfloor> then Some (nat \<lfloor>x\<rfloor>) else None | _ \<Rightarrow> None)"

fun arg_strings :: "arg_value list \<Rightarrow> string list" where
  "arg_strings [] = []"
| "arg_strings (ArgStr s # vs) = (if s = [] then arg_strings vs else s # arg_strings vs)"
| "arg_strings (ArgOther # vs) = arg_strings vs"

definition empty_policy :: raw_policy where
  "empty_policy = \<lparr>rp_max_tool_calls = None, rp_max_wall_ms = None, rp_max_same_tool = None,
     rp_max_observations = None, rp_max_failures = None, rp_max_same_url = None,
     rp_allowed_domains = None, rp_checkpoint_every = None\<rparr>"

definition normalize_policy :: "raw_policy option \<Rightarrow> task_policy" where
  "normalize_policy inp =
     (let raw = default_to empty_policy inp in
      \<lparr>tp_max_tool_calls = positive_int (rp_max_tool_calls raw),
       tp_max_wall_ms = positive_int (rp_max_wall_ms raw),
       tp_max_same_tool = coalesce (positive_int (rp_max_same_tool raw)) (Some 5),
       tp_max_observations = coalesce (positive_int (rp_max_observations raw)) (Some 6),
       tp_max_failures = coalesce (positive_int (rp_max_failures raw)) (Some 4),
       tp_max_same_url = coalesce (positive_int (rp_max_same_url raw)) (Some 3),
       tp_allowed_domains = map_option arg_strings (rp_allowed_domains raw),
       tp_checkpoint_every = positive_int (rp_checkpoint_every raw)\<rparr>)"

text \<open>The normalised policy as it is stored and read back.\<close>

definition stored_policy :: "task_policy \<Rightarrow> raw_policy" where
  "stored_policy p =
     (let num = map_option (\<lambda>n. RealNum (of_nat n)) in
      \<lparr>rp_max_tool_calls = num (tp_max_tool_calls p), rp_max_wall_ms = num (tp_max_wall_ms p),
       rp_max_same_tool = num (tp_max_same_tool p), rp_max_observations = num (tp_max_observations p),
       rp_max_failures = num (tp_max_failures p), rp_max_same_url = num (tp_max_same_url p),
       rp_allowed_domains = map_option (map ArgStr) (tp_allowed_domains p),
       rp_checkpoint_every = num (tp_checkpoint_every p)\<rparr>)"

definition initial_counters :: task_counters where
  "initial_counters = \<lparr>tc_tool_calls = 0, tc_actions = 0, tc_observations = 0, tc_failures = 0,
     tc_same_tool = 0, tc_observation_streak = 0, tc_failure_streak = 0, tc_same_url = []\<rparr>"

section \<open>The budget decision\<close>

definition extract_url :: "call_args \<Rightarrow> string option" where
  "extract_url args =
     (case coalesce (ca_url args) (ca_href args) of
        Some (ArgStr (c # cs)) \<Rightarrow> Some (c # cs) | _ \<Rightarrow> None)"

text \<open>The lists \<open>exceeded\<close> and \<open>warnings\<close> the checks push to. A limit, when present, is positive;
  \<open>\<lceil>3 n / 4\<rceil>\<close> is written \<open>(3 n + 3) div 4\<close>.\<close>

type_synonym verdicts = "string list \<times> string list"

definition exceed :: "string \<Rightarrow> verdicts \<Rightarrow> verdicts" where
  "exceed key v = (fst v @ [key], snd v)"

definition warn :: "string \<Rightarrow> verdicts \<Rightarrow> verdicts" where
  "warn key v = (fst v, snd v @ [key])"

definition warn_at :: "nat \<Rightarrow> int" where
  "warn_at n = int ((3 * n + 3) div 4)"

definition check_limit :: "string \<Rightarrow> int \<Rightarrow> nat option \<Rightarrow> verdicts \<Rightarrow> verdicts" where
  "check_limit key value limit v =
     (case limit of
        None \<Rightarrow> v
      | Some n \<Rightarrow> if n = 0 then v else if int n < value then exceed key v
          else if warn_at n \<le> value then warn key v else v)"

definition check_same_url :: "(string, nat) jmap \<Rightarrow> nat option \<Rightarrow> verdicts \<Rightarrow> verdicts" where
  "check_same_url navs limit v =
     (case limit of
        None \<Rightarrow> v
      | Some n \<Rightarrow> if n = 0 then v
          else if \<exists>(_, c) \<in> set navs. n < c then exceed ''maxSameUrlNavigations'' v
          else if \<exists>(_, c) \<in> set navs. warn_at n \<le> int c then warn ''maxSameUrlNavigations'' v
          else v)"

definition strip_dot :: "string \<Rightarrow> string" where
  "strip_dot s = (case s of [] \<Rightarrow> [] | c # cs \<Rightarrow> if c = CHR ''.'' then cs else s)"

definition ends_with :: "string \<Rightarrow> string \<Rightarrow> bool" where
  "ends_with suf s \<longleftrightarrow> length suf \<le> length s \<and> drop (length s - length suf) s = suf"

definition domain_allows :: "string \<Rightarrow> string \<Rightarrow> bool" where
  "domain_allows h domain =
     (let d = strip_dot (to_lower (trim_ws domain))
      in d \<noteq> [] \<and> (h = d \<or> ends_with (CHR ''.'' # d) h))"

definition check_allowed_domain ::
  "(string \<Rightarrow> string option) \<Rightarrow> string option \<Rightarrow> string list option \<Rightarrow> verdicts \<Rightarrow> verdicts" where
  "check_allowed_domain host url domains v =
     (case (url, domains) of
        (Some u, Some (d # ds)) \<Rightarrow>
          (case host u of
             None \<Rightarrow> exceed ''allowedDomains'' v
           | Some h \<Rightarrow> if list_ex (domain_allows (to_lower h)) (d # ds) then v
                       else exceed ''allowedDomains'' v)
      | _ \<Rightarrow> v)"

definition check_checkpoint :: "nat \<Rightarrow> nat option \<Rightarrow> verdicts \<Rightarrow> verdicts" where
  "check_checkpoint calls every v =
     (case every of
        None \<Rightarrow> v
      | Some n \<Rightarrow> if n = 0 \<or> calls = 0 then v
          else if calls mod n = 0 then warn ''checkpointEveryCalls'' v else v)"

record budget_decision =
  bd_status :: budget_status
  bd_exceeded :: "string list"
  bd_warnings :: "string list"
  bd_recommended :: "string option"

definition budget_verdicts ::
  "(string \<Rightarrow> string option) \<Rightarrow> int \<Rightarrow> int \<Rightarrow> task_counters \<Rightarrow> task_policy \<Rightarrow> tool_call \<Rightarrow> verdicts" where
  "budget_verdicts host now created c p call =
     (case tp_max_wall_ms p of None \<Rightarrow> (\<lambda>v. v)
        | Some n \<Rightarrow> check_limit ''maxWallMs'' (now - created) (Some n))
     (check_checkpoint (tc_tool_calls c) (tp_checkpoint_every p)
     (check_allowed_domain host (extract_url (cl_args call)) (tp_allowed_domains p)
     (check_same_url (tc_same_url c) (tp_max_same_url p)
     (check_limit ''maxFailureStreak'' (int (tc_failure_streak c)) (tp_max_failures p)
     (check_limit ''maxObservationStreak'' (int (tc_observation_streak c)) (tp_max_observations p)
     (check_limit ''maxConsecutiveSameTool'' (int (tc_same_tool c)) (tp_max_same_tool p)
     (check_limit ''maxToolCalls'' (int (tc_tool_calls c)) (tp_max_tool_calls p) ([], []))))))))"

definition evaluate_budget ::
  "(string \<Rightarrow> string option) \<Rightarrow> int \<Rightarrow> int \<Rightarrow> task_counters \<Rightarrow> task_policy \<Rightarrow> tool_call \<Rightarrow> budget_decision" where
  "evaluate_budget host now created c p call =
     (let (exceeded, warnings) = budget_verdicts host now created c p call;
          status = (if exceeded \<noteq> [] then BudgetExceeded else if warnings \<noteq> [] then BudgetWarning else BudgetOk)
      in \<lparr>bd_status = status, bd_exceeded = exceeded, bd_warnings = warnings,
          bd_recommended = (case status of BudgetExceeded \<Rightarrow> Some ''change_strategy_or_verify''
             | BudgetWarning \<Rightarrow> Some ''checkpoint_or_verify'' | BudgetOk \<Rightarrow> None)\<rparr>)"

section \<open>Recording a call\<close>

fun join_with :: "string \<Rightarrow> string list \<Rightarrow> string" where
  "join_with sep [] = []"
| "join_with sep [x] = x"
| "join_with sep (x # y # ys) = x @ sep @ join_with sep (y # ys)"

definition summarize_call :: "tool_call \<Rightarrow> budget_decision \<Rightarrow> string" where
  "summarize_call call d =
     cl_tool call @ '' '' @ (if cl_ok call then ''ok'' else ''error'') @ '' durationMs='' @ int_str (cl_duration call)
     @ (if bd_exceeded d \<noteq> [] then '' budget_exceeded='' @ join_with '','' (bd_exceeded d)
        else if bd_warnings d \<noteq> [] then '' budget_warning='' @ join_with '','' (bd_warnings d)
        else [])"

definition last_n :: "nat \<Rightarrow> 'a list \<Rightarrow> 'a list" where
  "last_n n xs = drop (length xs - n) xs"

definition count_call :: "string option \<Rightarrow> tool_call \<Rightarrow> task_counters \<Rightarrow> task_counters" where
  "count_call previous call c =
     (let obs = is_observation_tool (cl_tool call) (cl_args call);
          nav = (if cl_tool call = ''navigate'' then extract_url (cl_args call) else None)
      in \<lparr>tc_tool_calls = tc_tool_calls c + 1,
          tc_actions = (if obs then tc_actions c else tc_actions c + 1),
          tc_observations = (if obs then tc_observations c + 1 else tc_observations c),
          tc_failures = (if cl_ok call then tc_failures c else tc_failures c + 1),
          tc_same_tool = (if previous = Some (cl_tool call) then tc_same_tool c + 1 else 1),
          tc_observation_streak = (if obs then tc_observation_streak c + 1 else 0),
          tc_failure_streak = (if cl_ok call then 0 else tc_failure_streak c + 1),
          tc_same_url = (case nav of None \<Rightarrow> tc_same_url c
             | Some u \<Rightarrow> jset u (default_to 0 (jget (tc_same_url c) u) + 1) (tc_same_url c))\<rparr>)"

definition call_signals :: "tool_call \<Rightarrow> step_signals" where
  "call_signals call =
     \<lparr>ss_ts = cl_ts call, ss_tool_ok = cl_ok call,
      ss_passes = (if cl_tool call = ''oc_assert'' \<and> cl_ok call then 1 else 0),
      ss_fails = (if cl_tool call = ''oc_assert'' \<and> \<not> cl_ok call then 1 else 0),
      ss_inconclusives = 0, ss_checkpoint = (cl_tool call = ''oc_checkpoint'' \<and> cl_ok call)\<rparr>"

definition apply_tool_call :: "(string \<Rightarrow> string option) \<Rightarrow> int \<Rightarrow> task_meta \<Rightarrow> tool_call \<Rightarrow> task_meta" where
  "apply_tool_call host now m call =
     (let p = normalize_policy (tm_policy m);
          c = count_call (tm_last_tool m) call (default_to initial_counters (tm_counters m));
          d = evaluate_budget host now (tm_created m) c p call;
          ev = \<lparr>ev_ts = cl_ts call, ev_tool = cl_tool call, ev_ok = cl_ok call, ev_summary = summarize_call call d\<rparr>;
          mu = record_utility_step (default_to initial_utility (tm_utility m)) (call_signals call);
          l = last (mu_window mu)
      in m\<lparr>tm_phase := Some (normalize_phase (tm_phase m)),
           tm_policy := Some (stored_policy p),
           tm_counters := Some c,
           tm_budget := Some (bd_status d),
           tm_exceeded := (if bd_exceeded d = [] then None else Some (bd_exceeded d)),
           tm_recommended := bd_recommended d,
           tm_recent := Some (last_n 10 (default_to [] (tm_recent m) @ [ev])),
           tm_last_tool := Some (cl_tool call),
           tm_last_activity := Some (cl_ts call),
           tm_cost_curve := Some (last_n 500 (default_to [] (tm_cost_curve m)
               @ [\<lparr>cp_step = sr_step l, cp_p = sr_p l, cp_delta = sr_delta l\<rparr>])),
           tm_utility := Some mu\<rparr>)"

section \<open>The counters against the history\<close>

definition run_calls :: "(string \<Rightarrow> string option) \<Rightarrow> task_meta \<Rightarrow> (int \<times> tool_call) list \<Rightarrow> task_meta" where
  "run_calls host m ops = foldl (\<lambda>m (now, call). apply_tool_call host now m call) m ops"

definition counters_of :: "task_meta \<Rightarrow> task_counters" where
  "counters_of m = default_to initial_counters (tm_counters m)"

definition is_obs :: "tool_call \<Rightarrow> bool" where
  "is_obs c = is_observation_tool (cl_tool c) (cl_args c)"

definition nav_url :: "tool_call \<Rightarrow> string option" where
  "nav_url c = (if cl_tool c = ''navigate'' then extract_url (cl_args c) else None)"

definition same_tool_run :: "tool_call list \<Rightarrow> nat" where
  "same_tool_run cs = length (takeWhile (\<lambda>c. cl_tool c = cl_tool (last cs)) (rev cs))"

text \<open>A task no call has been recorded for.\<close>

definition fresh_task :: "task_meta \<Rightarrow> bool" where
  "fresh_task m \<longleftrightarrow> tm_counters m \<in> {None, Some initial_counters} \<and> tm_last_tool m = None
     \<and> tm_recent m \<in> {None, Some []} \<and> tm_utility m = None \<and> tm_cost_curve m = None"

lemma apply_fields:
  "tm_last_tool (apply_tool_call host now m call) = Some (cl_tool call)"
  "counters_of (apply_tool_call host now m call) = count_call (tm_last_tool m) call (counters_of m)"
  by (simp_all add: apply_tool_call_def Let_def counters_of_def)

lemma run_calls_snoc: "run_calls host m (ops @ [(now, c)]) = apply_tool_call host now (run_calls host m ops) c"
  by (simp add: run_calls_def)

lemma run_last_tool:
  "tm_last_tool m = None \<Longrightarrow> tm_last_tool (run_calls host m ops)
     = (if ops = [] then None else Some (cl_tool (snd (last ops))))"
  by (cases ops rule: rev_cases) (auto simp: run_calls_snoc apply_fields run_calls_def)

lemma same_tool_snoc:
  "same_tool_run (cs @ [c]) = (if cs \<noteq> [] \<and> cl_tool (last cs) = cl_tool c then same_tool_run cs + 1 else 1)"
  by (cases cs rule: rev_cases) (auto simp: same_tool_run_def)

lemma fresh_counters: "fresh_task m \<Longrightarrow> counters_of m = initial_counters"
  by (auto simp: fresh_task_def counters_of_def)

lemma run_counters:
  fixes host :: "string \<Rightarrow> string option"
  assumes "fresh_task m"
  defines "c \<equiv> \<lambda>ops. counters_of (run_calls host m ops)"
  shows "tc_tool_calls (c ops) = length ops"
    and "tc_observations (c ops) = length (filter is_obs (map snd ops))"
    and "tc_actions (c ops) = length (filter (\<lambda>x. \<not> is_obs x) (map snd ops))"
    and "tc_failures (c ops) = length (filter (\<lambda>x. \<not> cl_ok x) (map snd ops))"
    and "tc_same_tool (c ops) = same_tool_run (map snd ops)"
    and "tc_observation_streak (c ops) = length (takeWhile is_obs (rev (map snd ops)))"
    and "tc_failure_streak (c ops) = length (takeWhile (\<lambda>x. \<not> cl_ok x) (rev (map snd ops)))"
    and "default_to 0 (jget (tc_same_url (c ops)) u) = length (filter (\<lambda>x. nav_url x = Some u) (map snd ops))"
proof -
  have l: "tm_last_tool m = None" using assms(1) by (simp add: fresh_task_def)
  have i: "c [] = initial_counters" using fresh_counters [OF assms(1)] by (simp add: c_def run_calls_def)
  have step: "c (xs @ [x]) = count_call (if xs = [] then None else Some (cl_tool (snd (last xs)))) (snd x) (c xs)"
    for xs x
    by (cases x) (simp add: c_def run_calls_snoc apply_fields run_last_tool [OF l])
  show "tc_tool_calls (c ops) = length ops"
    by (induction ops rule: rev_induct) (simp_all add: i step initial_counters_def count_call_def Let_def)
  show "tc_observations (c ops) = length (filter is_obs (map snd ops))"
    by (induction ops rule: rev_induct) (simp_all add: i step initial_counters_def count_call_def Let_def is_obs_def)
  show "tc_actions (c ops) = length (filter (\<lambda>x. \<not> is_obs x) (map snd ops))"
    by (induction ops rule: rev_induct) (simp_all add: i step initial_counters_def count_call_def Let_def is_obs_def)
  show "tc_failures (c ops) = length (filter (\<lambda>x. \<not> cl_ok x) (map snd ops))"
    by (induction ops rule: rev_induct) (simp_all add: i step initial_counters_def count_call_def Let_def)
  show "tc_observation_streak (c ops) = length (takeWhile is_obs (rev (map snd ops)))"
    by (induction ops rule: rev_induct) (simp_all add: i step initial_counters_def count_call_def Let_def is_obs_def)
  show "tc_failure_streak (c ops) = length (takeWhile (\<lambda>x. \<not> cl_ok x) (rev (map snd ops)))"
    by (induction ops rule: rev_induct) (simp_all add: i step initial_counters_def count_call_def Let_def)
  show "tc_same_tool (c ops) = same_tool_run (map snd ops)"
  proof (induction ops rule: rev_induct)
    case Nil
    then show ?case by (simp add: i initial_counters_def same_tool_run_def)
  next
    case (snoc x xs)
    then show ?case
      by (simp add: step count_call_def Let_def same_tool_snoc last_map)
  qed
  show "default_to 0 (jget (tc_same_url (c ops)) u) = length (filter (\<lambda>x. nav_url x = Some u) (map snd ops))"
  proof (induction ops rule: rev_induct)
    case Nil
    then show ?case by (simp add: i initial_counters_def)
  next
    case (snoc x xs)
    then show ?case
      by (auto simp: step count_call_def Let_def nav_url_def jm split: option.splits)
  qed
qed

lemma run_recent:
  assumes "fresh_task m"
  shows "map ev_tool (default_to [] (tm_recent (run_calls host m ops))) = map cl_tool (last_n 10 (map snd ops))"
proof (induction ops rule: rev_induct)
  case Nil
  then show ?case using assms by (auto simp: run_calls_def fresh_task_def last_n_def)
next
  case (snoc x xs)
  have last_snoc: "last_n 10 (last_n 10 ys @ [y]) = last_n 10 (ys @ [y])" for ys :: "'b list" and y
  proof (cases "length ys \<le> 10")
    case False
    then have "Suc (length ys - 10) = length ys - 9" by simp
    with False show ?thesis by (simp add: last_n_def drop_append min_def)
  qed (simp add: last_n_def)
  have map_last: "map f (last_n n ys) = last_n n (map f ys)" for f :: "'b \<Rightarrow> 'c" and n ys
    by (simp add: last_n_def drop_map)
  show ?case using snoc last_snoc [of "map (cl_tool \<circ> snd) xs" "cl_tool (snd x)"]
    by (cases x) (simp add: run_calls_snoc apply_tool_call_def Let_def map_last)
qed

section \<open>The policy is stable\<close>

lemma positive_int_pos: "positive_int v = Some n \<Longrightarrow> 0 < n"
  by (auto simp: positive_int_def split: option.splits jsreal.splits if_splits)

lemma positive_int_stored: "0 < n \<Longrightarrow> positive_int (Some (RealNum (of_nat n))) = Some n"
  by (simp add: positive_int_def)

lemma positive_int_again:
  "positive_int (map_option (\<lambda>n. RealNum (of_nat n)) (positive_int v)) = positive_int v"
  by (cases "positive_int v") (auto dest: positive_int_pos simp: positive_int_stored positive_int_def [of None])

lemma positive_int_default_again:
  "0 < d \<Longrightarrow> coalesce (positive_int (map_option (\<lambda>n. RealNum (of_nat n)) (coalesce (positive_int v) (Some d)))) (Some d)
     = coalesce (positive_int v) (Some d)"
  by (cases "positive_int v") (auto dest: positive_int_pos simp: positive_int_stored)

lemma arg_strings_again: "arg_strings (map ArgStr (arg_strings vs)) = arg_strings vs"
  by (induction vs rule: arg_strings.induct) auto

lemma normalize_stored: "normalize_policy (Some (stored_policy (normalize_policy q))) = normalize_policy q"
  by (simp add: normalize_policy_def stored_policy_def Let_def positive_int_again positive_int_default_again
      option.map_comp o_def arg_strings_again)

lemma run_policy: "normalize_policy (tm_policy (run_calls host m ops)) = normalize_policy (tm_policy m)"
  by (induction ops rule: rev_induct)
    (auto simp: run_calls_snoc apply_tool_call_def Let_def normalize_stored run_calls_def)

lemma run_created: "tm_created (run_calls host m ops) = tm_created m"
  by (induction ops rule: rev_induct) (auto simp: run_calls_snoc apply_tool_call_def Let_def run_calls_def)

lemma run_same_url_wf:
  assumes "fresh_task m"
  shows "jwf (tc_same_url (counters_of (run_calls host m ops)))"
proof (induction ops rule: rev_induct)
  case Nil
  then show ?case using fresh_counters [OF assms] by (simp add: run_calls_def initial_counters_def)
next
  case (snoc x xs)
  then show ?case
    by (cases x) (simp add: run_calls_snoc apply_fields count_call_def Let_def split: option.split)
qed

section \<open>When the budget is exceeded\<close>

definition over :: "int \<Rightarrow> nat option \<Rightarrow> bool" where
  "over v limit = (case limit of None \<Rightarrow> False | Some n \<Rightarrow> 0 < n \<and> int n < v)"

definition off_domain :: "(string \<Rightarrow> string option) \<Rightarrow> string option \<Rightarrow> string list option \<Rightarrow> bool" where
  "off_domain host url domains =
     (case (url, domains) of
        (Some u, Some ds) \<Rightarrow> ds \<noteq> [] \<and>
          (case host u of None \<Rightarrow> True | Some h \<Rightarrow> \<not> list_ex (domain_allows (to_lower h)) ds)
      | _ \<Rightarrow> False)"

lemma check_exceeds:
  "fst (check_limit k v l w) \<noteq> [] \<longleftrightarrow> over v l \<or> fst w \<noteq> []"
  "fst (check_checkpoint n e w) = fst w"
  "fst (check_allowed_domain host u ds w) \<noteq> [] \<longleftrightarrow> off_domain host u ds \<or> fst w \<noteq> []"
  "fst (check_same_url navs l w) \<noteq> [] \<longleftrightarrow>
     (\<exists>(_, c) \<in> set navs. over (int c) l) \<or> fst w \<noteq> []"
proof -
  show "fst (check_limit k v l w) \<noteq> [] \<longleftrightarrow> over v l \<or> fst w \<noteq> []"
    by (cases l) (auto simp: check_limit_def over_def exceed_def warn_def)
  show "fst (check_checkpoint n e w) = fst w"
    by (cases e) (auto simp: check_checkpoint_def warn_def)
  show "fst (check_allowed_domain host u ds w) \<noteq> [] \<longleftrightarrow> off_domain host u ds \<or> fst w \<noteq> []"
    by (auto simp: check_allowed_domain_def off_domain_def exceed_def split: option.split list.split)
  show "fst (check_same_url navs l w) \<noteq> [] \<longleftrightarrow> (\<exists>(_, c) \<in> set navs. over (int c) l) \<or> fst w \<noteq> []"
    by (cases l) (auto simp: check_same_url_def over_def exceed_def warn_def)
qed

lemma verdicts_exceed:
  "fst (budget_verdicts host now created c p call) \<noteq> [] \<longleftrightarrow>
     over (int (tc_tool_calls c)) (tp_max_tool_calls p) \<or> over (int (tc_same_tool c)) (tp_max_same_tool p)
     \<or> over (int (tc_observation_streak c)) (tp_max_observations p)
     \<or> over (int (tc_failure_streak c)) (tp_max_failures p)
     \<or> (\<exists>(_, n) \<in> set (tc_same_url c). over (int n) (tp_max_same_url p))
     \<or> off_domain host (extract_url (cl_args call)) (tp_allowed_domains p)
     \<or> over (now - created) (tp_max_wall_ms p)"
proof -
  have wall: "fst ((case tp_max_wall_ms p of None \<Rightarrow> (\<lambda>v. v)
        | Some n \<Rightarrow> check_limit ''maxWallMs'' (now - created) (Some n)) w) \<noteq> []
      \<longleftrightarrow> over (now - created) (tp_max_wall_ms p) \<or> fst w \<noteq> []" for w
    by (cases "tp_max_wall_ms p") (simp_all add: check_exceeds, simp add: over_def)
  show ?thesis unfolding budget_verdicts_def wall check_exceeds by (simp only: fst_conv) blast
qed

lemma same_url_count:
  assumes "jwf navs" "\<And>u. default_to 0 (jget navs u) = f u"
  shows "(\<exists>(_, n) \<in> set navs. over (int n) l) \<longleftrightarrow> (\<exists>u. over (int (f u)) l)"
proof
  assume "\<exists>(_, n) \<in> set navs. over (int n) l"
  then obtain u n where "(u, n) \<in> set navs" "over (int n) l" by blast
  then show "\<exists>u. over (int (f u)) l"
    using assms(2) [of u] jget_in_set [OF assms(1), of u n] by (metis default_to_simps(2))
next
  assume "\<exists>u. over (int (f u)) l"
  then obtain u where u: "over (int (f u)) l" ..
  then have "0 < f u" by (auto simp: over_def split: option.splits)
  then obtain n where "jget navs u = Some n" "f u = n"
    using assms(2) [of u] by (cases "jget navs u") auto
  then show "\<exists>(_, n) \<in> set navs. over (int n) l"
    using u jget_in_set [OF assms(1), of u n] by blast
qed

section \<open>Properties\<close>

text \<open>The counters are the history. Whatever calls are recorded on a fresh task, in
  whatever order: the totals count the calls, the observation, action and failed ones; each streak is the
  length of the longest suffix of the history with that tool, of observations, of failures; the
  navigation table counts the visits of each URL; and the recent events are the last ten calls.\<close>

theorem counters_are_the_history:
  assumes "fresh_task m" and "cs = map snd ops"
  shows "let c = counters_of (run_calls host m ops) in
      tc_tool_calls c = length cs
      \<and> tc_observations c + tc_actions c = length cs
      \<and> tc_observations c = length (filter is_obs cs)
      \<and> tc_failures c = length (filter (\<lambda>x. \<not> cl_ok x) cs)
      \<and> tc_same_tool c = length (takeWhile (\<lambda>x. cl_tool x = cl_tool (last cs)) (rev cs))
      \<and> tc_observation_streak c = length (takeWhile is_obs (rev cs))
      \<and> tc_failure_streak c = length (takeWhile (\<lambda>x. \<not> cl_ok x) (rev cs))
      \<and> (\<forall>u. default_to 0 (jget (tc_same_url c) u) = length (filter (\<lambda>x. nav_url x = Some u) cs))
      \<and> map ev_tool (default_to [] (tm_recent (run_calls host m ops))) = map cl_tool (last_n 10 cs)"
  unfolding Let_def assms(2) same_tool_run_def [symmetric]
  using run_counters [OF assms(1), of host ops] run_recent [OF assms(1), of host ops]
    sum_length_filter_compl [of is_obs "map snd ops"] by simp

definition demo_task :: task_meta where
  "demo_task = \<lparr>tm_id = ''0'', tm_kind = ''browser_task'', tm_status = RUNNING, tm_pid = 1, tm_created = 0,
     tm_started = Some 0, tm_ended = None, tm_owner = None, tm_result_path = None, tm_error = None,
     tm_cancel_requested = None, tm_objective = None, tm_phase = None, tm_policy = None,
     tm_counters = Some initial_counters, tm_budget = Some BudgetOk, tm_exceeded = None,
     tm_recommended = None, tm_recent = Some [], tm_last_tool = None, tm_last_activity = Some 0,
     tm_cost_curve = None, tm_utility = None\<rparr>"

definition demo_call :: "string \<Rightarrow> bool \<Rightarrow> int \<times> tool_call" where
  "demo_call tool ok = (0, \<lparr>cl_ts = 0, cl_tool = tool, cl_session = ''s'', cl_tenant = None, cl_mode = None,
     cl_args = \<lparr>ca_action = None, ca_url = None, ca_href = None\<rparr>, cl_duration = 5, cl_ok = ok\<rparr>)"

lemma demo_task_fresh: "fresh_task demo_task"
  by (simp add: fresh_task_def demo_task_def)

theorem counters_are_the_history_witness:
  "tc_tool_calls (counters_of (run_calls (\<lambda>_. None) demo_task [demo_call ''find'' True, demo_call ''act'' False]))
     = length (map snd [demo_call ''find'' True, demo_call ''act'' False])"
  using counters_are_the_history [OF demo_task_fresh refl,
      of "\<lambda>_. None" "[demo_call ''find'' True, demo_call ''act'' False]"]
  unfolding Let_def by blast

text \<open>C9 (functional). The budget verdict is about the whole history. After any calls on a fresh task, the
  last of them made at \<open>now\<close>, the stored status is \<open>exceeded\<close> exactly when one of the limits of the
  normalised initial policy is passed: the number of calls, a run of one tool, of observations or of
  failures at the end of the history, the visits of some URL, the elapsed time, or a last call off the
  allowed domains; and it is so exactly when the host is told to change its strategy.\<close>

theorem budget_exceeded_exactly:
  assumes "fresh_task m" and "cs = map snd ops @ [call]" and "p = normalize_policy (tm_policy m)"
    and "m' = run_calls host m (ops @ [(now, call)])"
  shows "(tm_budget m' = Some BudgetExceeded \<longleftrightarrow>
        over (int (length cs)) (tp_max_tool_calls p)
        \<or> over (int (same_tool_run cs)) (tp_max_same_tool p)
        \<or> over (int (length (takeWhile is_obs (rev cs)))) (tp_max_observations p)
        \<or> over (int (length (takeWhile (\<lambda>x. \<not> cl_ok x) (rev cs)))) (tp_max_failures p)
        \<or> (\<exists>u. over (int (length (filter (\<lambda>x. nav_url x = Some u) cs))) (tp_max_same_url p))
        \<or> off_domain host (extract_url (cl_args call)) (tp_allowed_domains p)
        \<or> over (now - tm_created m) (tp_max_wall_ms p))
    \<and> (tm_budget m' = Some BudgetExceeded \<longleftrightarrow> tm_recommended m' = Some ''change_strategy_or_verify'')
    \<and> (tm_budget m' = Some BudgetExceeded \<longleftrightarrow> tm_exceeded m' \<noteq> None)"
proof -
  let ?m = "run_calls host m ops" and ?c = "counters_of m'"
  let ?v = "budget_verdicts host now (tm_created m) ?c p call"
  have cs: "cs = map snd (ops @ [(now, call)])" using assms(2) by simp
  have m': "m' = apply_tool_call host now ?m call" using assms(4) by (simp add: run_calls_snoc)
  have c: "count_call (tm_last_tool ?m) call (counters_of ?m) = ?c" unfolding m' apply_fields ..
  have d: "tm_budget m' = Some (bd_status (evaluate_budget host now (tm_created m) ?c p call))"
    "tm_recommended m' = bd_recommended (evaluate_budget host now (tm_created m) ?c p call)"
    "tm_exceeded m' = (if fst ?v = [] then None else Some (fst ?v))"
    using c unfolding m' apply_tool_call_def Let_def run_policy run_created assms(3) counters_of_def
    by (simp_all add: evaluate_budget_def split_def Let_def)
  have b: "tm_budget m' = Some BudgetExceeded \<longleftrightarrow> fst ?v \<noteq> []"
    by (simp add: d evaluate_budget_def split_def Let_def)
  have r: "tm_recommended m' = Some ''change_strategy_or_verify'' \<longleftrightarrow> fst ?v \<noteq> []"
    by (simp add: d evaluate_budget_def split_def Let_def)
  note h = run_counters [OF assms(1), of host "ops @ [(now, call)]", folded assms(4) cs]
  have u: "(\<exists>(_, n) \<in> set (tc_same_url ?c). over (int n) (tp_max_same_url p)) \<longleftrightarrow>
      (\<exists>u. over (int (length (filter (\<lambda>x. nav_url x = Some u) cs))) (tp_max_same_url p))"
    by (rule same_url_count) (use run_same_url_wf [OF assms(1)] assms(4) h in simp_all)
  have len: "length (ops @ [(now, call)]) = length cs" by (simp add: cs)
  have v: "fst ?v \<noteq> [] \<longleftrightarrow> over (int (length cs)) (tp_max_tool_calls p)
        \<or> over (int (same_tool_run cs)) (tp_max_same_tool p)
        \<or> over (int (length (takeWhile is_obs (rev cs)))) (tp_max_observations p)
        \<or> over (int (length (takeWhile (\<lambda>x. \<not> cl_ok x) (rev cs)))) (tp_max_failures p)
        \<or> (\<exists>u. over (int (length (filter (\<lambda>x. nav_url x = Some u) cs))) (tp_max_same_url p))
        \<or> off_domain host (extract_url (cl_args call)) (tp_allowed_domains p)
        \<or> over (now - tm_created m) (tp_max_wall_ms p)"
    unfolding verdicts_exceed u h len ..
  show ?thesis unfolding b r d(3) v [symmetric] by simp
qed

theorem budget_exceeded_exactly_witness:
  "tm_budget (run_calls (\<lambda>_. None) demo_task ([] @ [(0, snd (demo_call ''find'' True))])) = Some BudgetExceeded
   \<longleftrightarrow> tm_exceeded (run_calls (\<lambda>_. None) demo_task ([] @ [(0, snd (demo_call ''find'' True))])) \<noteq> None"
  using budget_exceeded_exactly [OF demo_task_fresh refl refl refl] by blast

end
