(* ===== verification/Task_Ledger.thy ===== *)
theory Task_Ledger
  imports Task_Budget
begin

text \<open>
  The persistent task ledger: \<open>src/src/core/task-ledger/store.ts\<close> (rows on disk, changed under a
  per-task lock), \<open>src/src/core/task-ledger/runner.ts\<close> (the state machine of a background task),
  \<open>src/src/core/task-ledger/envelope.ts\<close> and the handlers \<open>oc-task-start/cancel/finish/update.ts\<close> under
  \<open>src/src/tools/\<close>. A locked update is one step; between two steps of the runner any other step may
  happen, so the runner has a control point \<open>runner_pc\<close> and the whole is an inductive step relation.
  The id of a new row (a SHA-256 prefix) and the liveness test of a process id are parameters. The
  advisory event log is kept as the sequence of its kinds.
\<close>

section \<open>The store\<close>

datatype event_kind = EkStarted | EkLog | EkCompleted | EkFailed | EkCancelled | EkCancelRequested | EkToolCall

text \<open>What the wrapped tool returns, as far as the runner looks at it.\<close>

datatype tool_result = ToolOk | ToolError string

datatype runner_pc =
    PcNew
  | PcInvoking "int option"
  | PcDecided task_status "(string \<times> string option) option" "int option" tool_result
  | PcEnding task_status "(string \<times> string option) option"

record ledger_store =
  st_tasks :: "(string, task_meta) jmap"
  st_results :: "(string, tool_result) jmap"
  st_events :: "(string \<times> event_kind) list"
  st_runners :: "(string, runner_pc) jmap"

definition empty_store :: ledger_store where
  "empty_store = \<lparr>st_tasks = [], st_results = [], st_events = [], st_runners = []\<rparr>"

datatype store_error = UnsafeId | AlreadyExists | UnknownTask

definition is_hex_digit :: "char \<Rightarrow> bool" where
  "is_hex_digit c \<longleftrightarrow> (let n = of_char c :: nat in (48 \<le> n \<and> n \<le> 57) \<or> (97 \<le> n \<and> n \<le> 102))"

definition safe_task_id :: "string \<Rightarrow> bool" where
  "safe_task_id i \<longleftrightarrow> length i = 16 \<and> list_all is_hex_digit i"

definition read_meta :: "string \<Rightarrow> ledger_store \<Rightarrow> task_meta option" where
  "read_meta i s = (if safe_task_id i then jget (st_tasks s) i else None)"

definition store_create :: "task_meta \<Rightarrow> ledger_store \<Rightarrow> store_error + ledger_store" where
  "store_create m s =
     (if \<not> safe_task_id (tm_id m) then Inl UnsafeId
      else if jget (st_tasks s) (tm_id m) \<noteq> None then Inl AlreadyExists
      else Inr (s\<lparr>st_tasks := jset (tm_id m) m (st_tasks s)\<rparr>))"

definition store_update ::
  "string \<Rightarrow> (task_meta \<Rightarrow> task_meta option) \<Rightarrow> ledger_store \<Rightarrow> store_error + (task_meta option \<times> ledger_store)" where
  "store_update i f s =
     (if \<not> safe_task_id i then Inl UnsafeId
      else case jget (st_tasks s) i of
        None \<Rightarrow> Inl UnknownTask
      | Some cur \<Rightarrow> (case f cur of
            None \<Rightarrow> Inr (None, s)
          | Some next \<Rightarrow> Inr (Some next, s\<lparr>st_tasks := jset i next (st_tasks s)\<rparr>)))"

definition append_event :: "string \<Rightarrow> event_kind \<Rightarrow> ledger_store \<Rightarrow> ledger_store" where
  "append_event i k s = s\<lparr>st_events := st_events s @ [(i, k)]\<rparr>"

definition write_result :: "string \<Rightarrow> tool_result \<Rightarrow> ledger_store \<Rightarrow> ledger_store" where
  "write_result i r s = s\<lparr>st_results := jset i r (st_results s)\<rparr>"

definition terminal :: "task_status \<Rightarrow> bool" where
  "terminal st \<longleftrightarrow> st = COMPLETED \<or> st = FAILED \<or> st = CANCELLED"

record task_filter =
  tf_status :: "task_status list option"
  tf_kind :: "string list option"
  tf_limit :: "nat option"
  tf_since :: "int option"

definition list_tasks :: "task_filter \<Rightarrow> ledger_store \<Rightarrow> task_meta list" where
  "list_tasks f s =
     (let hit = (\<lambda>m. (case tf_since f of None \<Rightarrow> True | Some t \<Rightarrow> t \<le> tm_created m)
                   \<and> (case tf_status f of None \<Rightarrow> True | Some ss \<Rightarrow> tm_status m \<in> set ss)
                   \<and> (case tf_kind f of None \<Rightarrow> True | Some ks \<Rightarrow> tm_kind m \<in> set ks));
          rows = map snd (filter (\<lambda>(i, _). safe_task_id i) (st_tasks s))
      in take (default_to 50 (tf_limit f)) (sort_key (\<lambda>m. - tm_created m) (filter hit rows)))"

text \<open>A step that updates a row, appends an event when it did, and otherwise does nothing.\<close>

definition update_and_log ::
  "string \<Rightarrow> (task_meta \<Rightarrow> task_meta option) \<Rightarrow> (task_meta \<Rightarrow> event_kind) \<Rightarrow> ledger_store \<Rightarrow> bool \<times> ledger_store" where
  "update_and_log i f ev s =
     (case store_update i f s of
        Inr (Some m, s') \<Rightarrow> (True, append_event i (ev m) s')
      | _ \<Rightarrow> (False, s))"

section \<open>Reaping\<close>

definition orphaned :: "(int \<Rightarrow> bool) \<Rightarrow> int \<Rightarrow> task_meta \<Rightarrow> task_meta option" where
  "orphaned alive now m =
     (if tm_status m \<noteq> RUNNING \<and> tm_status m \<noteq> PENDING then None
      else if alive (tm_pid m) then None
      else Some (m\<lparr>tm_status := FAILED, tm_ended := Some now,
             tm_error := Some (''orphaned: pid '' @ int_str (tm_pid m) @ '' no longer alive'', Some ''orphaned'')\<rparr>))"

definition reap_one :: "(int \<Rightarrow> bool) \<Rightarrow> int \<Rightarrow> string \<Rightarrow> ledger_store \<Rightarrow> bool \<times> ledger_store" where
  "reap_one alive now i s = update_and_log i (orphaned alive now) (\<lambda>_. EkFailed) s"

definition reap_orphans :: "(int \<Rightarrow> bool) \<Rightarrow> int \<Rightarrow> ledger_store \<Rightarrow> string list \<times> ledger_store" where
  "reap_orphans alive now s =
     (let open' = \<lparr>tf_status = Some [PENDING, RUNNING], tf_kind = None,
                   tf_limit = Some (length (st_tasks s)), tf_since = None\<rparr>
      in foldl (\<lambda>(reaped, t) m.
           if alive (tm_pid m) then (reaped, t)
           else let (hit, t') = reap_one alive now (tm_id m) t
                in (if hit then reaped @ [tm_id m] else reaped, t'))
         ([], s) (list_tasks open' s))"

section \<open>Ownership\<close>

record principal =
  pr_tenant :: "string option"
  pr_key :: "string option"
  pr_mode :: "string option"

definition keyed_mode :: "string option \<Rightarrow> bool" where
  "keyed_mode mode \<longleftrightarrow> mode = Some ''api-key'' \<or> mode = Some ''jwt''"

definition task_owner_for :: "string \<Rightarrow> principal option \<Rightarrow> task_owner" where
  "task_owner_for session p =
     \<lparr>ow_session = session, ow_tenant = truthy_str (Option.bind p pr_tenant),
      ow_key = truthy_str (Option.bind p pr_key), ow_mode = truthy_str (Option.bind p pr_mode)\<rparr>"

definition can_access_task :: "task_meta \<Rightarrow> string \<Rightarrow> principal option \<Rightarrow> bool" where
  "can_access_task m session p =
     (case tm_owner m of
        None \<Rightarrow> True
      | Some w \<Rightarrow> ow_session w = session
          \<and> \<not> (keyed_mode (Option.bind p pr_mode) \<and> ow_tenant w \<noteq> Option.bind p pr_tenant))"

section \<open>Starting a task\<close>

definition task_ledger_tools :: "string list" where
  "task_ledger_tools = [''oc_task_start'', ''oc_task_get'', ''oc_task_list'', ''oc_task_wait'',
     ''oc_task_cancel'', ''oc_task_update'', ''oc_task_finish'']"

record start_input =
  si_session :: string
  si_principal :: "principal option"
  si_kind :: "arg_value option"
  si_args_object :: bool
  si_objective :: "string option"
  si_phase :: "task_phase option"
  si_policy :: "raw_policy option"
  si_pid :: int
  si_now :: int
  si_id :: string

datatype start_error = BadKind | BadArgs | LedgerTool | UnregisteredTool | StoreError store_error

definition start_kind :: "arg_value option \<Rightarrow> string option" where
  "start_kind k =
     (case k of
        None \<Rightarrow> Some ''browser_task''
      | Some ArgOther \<Rightarrow> None
      | Some (ArgStr x) \<Rightarrow> if trim_ws x = [] then None else Some (trim_ws x))"

definition start_meta :: "string \<Rightarrow> start_input \<Rightarrow> task_meta" where
  "start_meta kind i =
     (let host_driven = (kind = ''browser_task'') in
      \<lparr>tm_id = si_id i, tm_kind = kind, tm_status = (if host_driven then RUNNING else PENDING),
       tm_pid = si_pid i, tm_created = si_now i,
       tm_started = (if host_driven then Some (si_now i) else None), tm_ended = None,
       tm_owner = Some (task_owner_for (si_session i) (si_principal i)), tm_result_path = None,
       tm_error = None, tm_cancel_requested = None, tm_objective = si_objective i,
       tm_phase = Some (normalize_phase (si_phase i)),
       tm_policy = Some (stored_policy (normalize_policy (si_policy i))),
       tm_counters = Some initial_counters, tm_budget = Some BudgetOk, tm_exceeded = None,
       tm_recommended = None, tm_recent = Some [], tm_last_tool = None,
       tm_last_activity = Some (si_now i), tm_cost_curve = None, tm_utility = None\<rparr>)"

text \<open>A tool task is handed to a new runner.\<close>

definition start_task ::
  "(string \<Rightarrow> bool) \<Rightarrow> start_input \<Rightarrow> ledger_store \<Rightarrow> start_error + (task_meta \<times> ledger_store)" where
  "start_task registered i s =
     (case start_kind (si_kind i) of
        None \<Rightarrow> Inl BadKind
      | Some kind \<Rightarrow>
          if kind \<noteq> ''browser_task'' \<and> \<not> si_args_object i then Inl BadArgs
          else if kind \<in> set task_ledger_tools then Inl LedgerTool
          else if kind \<noteq> ''browser_task'' \<and> \<not> registered kind then Inl UnregisteredTool
          else let m = start_meta kind i in
            (case store_create m s of
               Inl e \<Rightarrow> Inl (StoreError e)
             | Inr s1 \<Rightarrow>
                 if kind = ''browser_task'' then Inr (m, append_event (tm_id m) EkStarted s1)
                 else Inr (m, s1\<lparr>st_runners := jset (tm_id m) PcNew (st_runners s1)\<rparr>)))"

section \<open>The runner\<close>

definition set_pc :: "string \<Rightarrow> runner_pc \<Rightarrow> ledger_store \<Rightarrow> ledger_store" where
  "set_pc i pc s = s\<lparr>st_runners := jset i pc (st_runners s)\<rparr>"

definition stop_runner :: "string \<Rightarrow> ledger_store \<Rightarrow> ledger_store" where
  "stop_runner i s = s\<lparr>st_runners := jdel i (st_runners s)\<rparr>"

definition begin_running :: "int \<Rightarrow> int \<Rightarrow> task_meta \<Rightarrow> task_meta option" where
  "begin_running pid now m =
     (if tm_status m \<noteq> PENDING then None
      else Some (m\<lparr>tm_status := RUNNING, tm_started := Some now, tm_pid := pid\<rparr>))"

definition run_begin :: "string \<Rightarrow> int \<Rightarrow> int \<Rightarrow> ledger_store \<Rightarrow> ledger_store" where
  "run_begin i pid now s =
     (case store_update i (begin_running pid now) s of
        Inr (Some _, s') \<Rightarrow> set_pc i (PcInvoking None) (append_event i EkStarted s')
      | _ \<Rightarrow> stop_runner i s)"

definition cancel_flag :: "string \<Rightarrow> ledger_store \<Rightarrow> int option" where
  "cancel_flag i s = truthy_int (Option.bind (read_meta i s) tm_cancel_requested)"

text \<open>One tick of the cancel poll while the tool runs.\<close>

definition run_poll :: "string \<Rightarrow> ledger_store \<Rightarrow> ledger_store" where
  "run_poll i s =
     (case jget (st_runners s) i of
        Some (PcInvoking None) \<Rightarrow> set_pc i (PcInvoking (cancel_flag i s)) s
      | _ \<Rightarrow> s)"

text \<open>The tool returns: the row is read once more and the outcome decided.\<close>

definition run_return :: "string \<Rightarrow> tool_result \<Rightarrow> ledger_store \<Rightarrow> ledger_store" where
  "run_return i r s =
     (case jget (st_runners s) i of
        Some (PcInvoking seen) \<Rightarrow>
          (let detected = coalesce seen (cancel_flag i s)
           in set_pc i
                (if detected \<noteq> None then PcDecided CANCELLED None detected r
                 else case r of
                   ToolError msg \<Rightarrow> PcDecided FAILED (Some (msg, None)) None r
                 | ToolOk \<Rightarrow> PcDecided COMPLETED None None r) s)
      | _ \<Rightarrow> s)"

text \<open>The tool throws, or writing its result does.\<close>

definition run_throw :: "string \<Rightarrow> string \<times> string option \<Rightarrow> ledger_store \<Rightarrow> ledger_store" where
  "run_throw i err s =
     (case jget (st_runners s) i of
        Some (PcInvoking seen) \<Rightarrow> set_pc i (PcEnding (if seen \<noteq> None then CANCELLED else FAILED) (Some err)) s
      | Some (PcDecided _ _ detected _) \<Rightarrow>
          set_pc i (PcEnding (if detected \<noteq> None then CANCELLED else FAILED) (Some err)) s
      | _ \<Rightarrow> s)"

definition run_write :: "string \<Rightarrow> ledger_store \<Rightarrow> ledger_store" where
  "run_write i s =
     (case jget (st_runners s) i of
        Some (PcDecided st err _ r) \<Rightarrow> set_pc i (PcEnding st err) (write_result i r s)
      | _ \<Rightarrow> s)"

definition result_path_of :: "string \<Rightarrow> string" where
  "result_path_of i = i @ ''/result.json''"

definition end_running ::
  "string \<Rightarrow> int \<Rightarrow> task_status \<Rightarrow> (string \<times> string option) option \<Rightarrow> task_meta \<Rightarrow> task_meta option" where
  "end_running i now st err m =
     (if terminal (tm_status m) then None
      else Some (m\<lparr>tm_status := st, tm_ended := Some now,
             tm_result_path := (if st = COMPLETED then Some (result_path_of i) else tm_result_path m),
             tm_error := err\<rparr>))"

definition end_event :: "task_status \<Rightarrow> event_kind" where
  "end_event st = (case st of COMPLETED \<Rightarrow> EkCompleted | CANCELLED \<Rightarrow> EkCancelled | _ \<Rightarrow> EkFailed)"

definition run_end :: "string \<Rightarrow> int \<Rightarrow> ledger_store \<Rightarrow> ledger_store" where
  "run_end i now s =
     (case jget (st_runners s) i of
        Some (PcEnding st err) \<Rightarrow>
          (case store_update i (end_running i now st err) s of
             Inl _ \<Rightarrow> stop_runner i s
           | Inr (_, s') \<Rightarrow> stop_runner i (append_event i (end_event st) s'))
      | _ \<Rightarrow> s)"

section \<open>The other verbs\<close>

definition cancelled :: "int \<Rightarrow> task_meta \<Rightarrow> task_meta option" where
  "cancelled now m =
     (if terminal (tm_status m) then None
      else if tm_status m = PENDING
      then Some (m\<lparr>tm_status := CANCELLED, tm_cancel_requested := Some now, tm_ended := Some now,
                   tm_last_activity := Some now\<rparr>)
      else if tm_kind m = ''browser_task''
      then Some (m\<lparr>tm_status := CANCELLED, tm_phase := Some Done, tm_cancel_requested := Some now,
                   tm_ended := Some now, tm_last_activity := Some now\<rparr>)
      else Some (m\<lparr>tm_cancel_requested := Some now\<rparr>))"

definition cancel_task :: "string \<Rightarrow> principal option \<Rightarrow> string \<Rightarrow> int \<Rightarrow> ledger_store \<Rightarrow> ledger_store" where
  "cancel_task session p i now s =
     (case read_meta i s of
        None \<Rightarrow> s
      | Some m \<Rightarrow> if \<not> can_access_task m session p then s
          else snd (update_and_log i (cancelled now)
                 (\<lambda>m'. if tm_status m' = CANCELLED then EkCancelled else EkCancelRequested) s))"

definition finished_as :: "task_status \<Rightarrow> int \<Rightarrow> task_meta \<Rightarrow> task_meta option" where
  "finished_as st now m =
     (if terminal (tm_status m) then None
      else Some (m\<lparr>tm_status := st, tm_phase := Some Done, tm_ended := Some now, tm_last_activity := Some now\<rparr>))"

definition finish_status :: "arg_value option \<Rightarrow> task_status option" where
  "finish_status v =
     (if v = Some (ArgStr ''completed'') then Some COMPLETED
      else if v = Some (ArgStr ''failed'') then Some FAILED
      else if v = Some (ArgStr ''cancelled'') then Some CANCELLED
      else None)"

definition finish_task ::
  "string \<Rightarrow> principal option \<Rightarrow> string \<Rightarrow> arg_value option \<Rightarrow> int \<Rightarrow> ledger_store \<Rightarrow> ledger_store" where
  "finish_task session p i outcome now s =
     (case (finish_status outcome, read_meta i s) of
        (Some st, Some m) \<Rightarrow>
          if \<not> can_access_task m session p \<or> tm_kind m \<noteq> ''browser_task'' then s
          else snd (update_and_log i (finished_as st now) (\<lambda>_. end_event st) s)
      | _ \<Rightarrow> s)"

definition moved_to :: "task_phase option \<Rightarrow> int \<Rightarrow> task_meta \<Rightarrow> task_meta option" where
  "moved_to ph now m =
     (if terminal (tm_status m) then None
      else Some (m\<lparr>tm_phase := coalesce ph (tm_phase m), tm_last_activity := Some now\<rparr>))"

definition update_task ::
  "string \<Rightarrow> principal option \<Rightarrow> string \<Rightarrow> task_phase option \<Rightarrow> int \<Rightarrow> ledger_store \<Rightarrow> ledger_store" where
  "update_task session p i ph now s =
     (case read_meta i s of
        None \<Rightarrow> s
      | Some m \<Rightarrow> if \<not> can_access_task m session p \<or> tm_kind m \<noteq> ''browser_task'' then s
          else snd (update_and_log i (moved_to ph now) (\<lambda>_. EkLog) s))"

text \<open>The envelope: a tool call that names a task is recorded on its row.\<close>

definition owned_call :: "task_meta \<Rightarrow> tool_call \<Rightarrow> bool" where
  "owned_call m call =
     (case tm_owner m of None \<Rightarrow> True
      | Some w \<Rightarrow> ow_session w = cl_session call
          \<and> \<not> (keyed_mode (cl_mode call) \<and> ow_tenant w \<noteq> cl_tenant call))"

definition record_task_call ::
  "(string \<Rightarrow> string option) \<Rightarrow> string \<Rightarrow> tool_call \<Rightarrow> int \<Rightarrow> ledger_store \<Rightarrow> ledger_store" where
  "record_task_call host i call now s =
     (case read_meta i s of
        None \<Rightarrow> s
      | Some m \<Rightarrow> if \<not> owned_call m call \<or> tm_kind m \<noteq> ''browser_task'' \<or> terminal (tm_status m) then s
          else snd (update_and_log i
                 (\<lambda>cur. if terminal (tm_status cur) then None else Some (apply_tool_call host now cur call))
                 (\<lambda>_. EkToolCall) s))"

text \<open>The lane bookkeeping of \<open>src/src/core/browser-lanes.ts\<close>, as far as the row is concerned: it stamps the
  row's last activity without looking at its status.\<close>

definition touch_lane :: "string \<Rightarrow> int \<Rightarrow> ledger_store \<Rightarrow> ledger_store" where
  "touch_lane i now s =
     (case store_update i (\<lambda>m. Some (m\<lparr>tm_last_activity := Some now\<rparr>)) s of
        Inr (_, s') \<Rightarrow> s' | Inl _ \<Rightarrow> s)"

section \<open>Interleaving\<close>

inductive ledger_trans :: "ledger_store \<Rightarrow> ledger_store \<Rightarrow> bool" where
  start: "start_task registered inp s = Inr (m, s') \<Longrightarrow> ledger_trans s s'"
| begin_run: "jget (st_runners s) i = Some PcNew \<Longrightarrow> ledger_trans s (run_begin i pid now s)"
| poll: "ledger_trans s (run_poll i s)"
| return: "ledger_trans s (run_return i r s)"
| throw: "ledger_trans s (run_throw i err s)"
| write_out: "ledger_trans s (run_write i s)"
| end_run: "ledger_trans s (run_end i now s)"
| crash: "ledger_trans s (stop_runner i s)"
| cancel: "0 < now \<Longrightarrow> ledger_trans s (cancel_task session p i now s)"
| finish: "ledger_trans s (finish_task session p i outcome now s)"
| update: "ledger_trans s (update_task session p i ph now s)"
| record_call: "ledger_trans s (record_task_call host i call now s)"
| lane: "ledger_trans s (touch_lane i now s)"
| reap: "ledger_trans s (snd (reap_one alive now i s))"

inductive_cases ledger_transE: "ledger_trans s s'"

abbreviation ledger_steps :: "ledger_store \<Rightarrow> ledger_store \<Rightarrow> bool" where
  "ledger_steps \<equiv> ledger_trans\<^sup>*\<^sup>*"

section \<open>What a step does to a row\<close>

abbreviation row :: "ledger_store \<Rightarrow> string \<Rightarrow> task_meta option" where
  "row s i \<equiv> jget (st_tasks s) i"

abbreviation pc_of :: "ledger_store \<Rightarrow> string \<Rightarrow> runner_pc option" where
  "pc_of s i \<equiv> jget (st_runners s) i"

definition row_change :: "ledger_store \<Rightarrow> string \<Rightarrow> task_meta \<Rightarrow> task_meta \<Rightarrow> bool" where
  "row_change s i m m' \<longleftrightarrow> m' = m
     \<or> (\<exists>pid now. pc_of s i = Some PcNew \<and> begin_running pid now m = Some m')
     \<or> (\<exists>now st err. pc_of s i = Some (PcEnding st err) \<and> end_running i now st err m = Some m')
     \<or> (\<exists>alive now. orphaned alive now m = Some m')
     \<or> (\<exists>now. 0 < now \<and> cancelled now m = Some m')
     \<or> (\<exists>st now. tm_kind m = ''browser_task'' \<and> finished_as st now m = Some m')
     \<or> (\<exists>ph now. moved_to ph now m = Some m')
     \<or> (\<exists>host now call. \<not> terminal (tm_status m) \<and> m' = apply_tool_call host now m call)
     \<or> (\<exists>now. m' = m\<lparr>tm_last_activity := Some now\<rparr>)"

lemma row_change_refl: "row_change s i m m"
  by (simp add: row_change_def)

lemma row_append [simp]: "st_tasks (append_event i k s) = st_tasks s"
  "st_runners (append_event i k s) = st_runners s" "st_results (append_event i k s) = st_results s"
  by (simp_all add: append_event_def)

lemma row_runner [simp]: "st_tasks (set_pc i pc s) = st_tasks s" "st_tasks (stop_runner i s) = st_tasks s"
  "st_results (set_pc i pc s) = st_results s" "st_results (stop_runner i s) = st_results s"
  "st_runners (set_pc i pc s) = jset i pc (st_runners s)" "st_runners (stop_runner i s) = jdel i (st_runners s)"
  by (simp_all add: set_pc_def stop_runner_def)

lemma store_update_row:
  assumes "store_update j f s = Inr (r, s')"
  shows "st_runners s' = st_runners s \<and> st_results s' = st_results s
    \<and> (row s i = Some m \<longrightarrow> (\<exists>m'. row s' i = Some m' \<and> (m' = m \<or> (i = j \<and> f m = Some m'))))
    \<and> (row s i = None \<longrightarrow> row s' i = None)"
proof -
  obtain cur where c: "row s j = Some cur" "(f cur = None \<and> r = None \<and> s' = s)
      \<or> (\<exists>n. f cur = Some n \<and> s' = s\<lparr>st_tasks := jset j n (st_tasks s)\<rparr>)"
    using assms by (auto simp: store_update_def split: if_splits option.splits)
  then show ?thesis by (elim disjE exE conjE) (auto simp: jm)
qed

lemma update_and_log_row:
  "st_runners (snd (update_and_log j f ev s)) = st_runners s
   \<and> st_results (snd (update_and_log j f ev s)) = st_results s
   \<and> (row s i = Some m \<longrightarrow> (\<exists>m'. row (snd (update_and_log j f ev s)) i = Some m'
        \<and> (m' = m \<or> (i = j \<and> f m = Some m'))))
   \<and> (row s i = None \<longrightarrow> row (snd (update_and_log j f ev s)) i = None)"
proof (cases "store_update j f s")
  case (Inr x)
  obtain r s' where x: "x = (r, s')" by (cases x)
  show ?thesis
    using store_update_row [OF Inr [unfolded x], of i m] Inr x
    by (cases r) (auto simp: update_and_log_def)
qed (simp add: update_and_log_def)

lemma start_task_row:
  assumes "start_task registered inp s = Inr (n, s')"
  shows "row s' i = (if i = tm_id n then Some n else row s i) \<and> row s (tm_id n) = None
    \<and> st_results s' = st_results s \<and> pc_of s' i \<in> {pc_of s i, Some PcNew}
    \<and> tm_result_path n = None \<and> \<not> terminal (tm_status n)"
proof -
  have "tm_result_path (start_meta k inp) = None \<and> \<not> terminal (tm_status (start_meta k inp))" for k
    by (simp add: start_meta_def terminal_def Let_def)
  then show ?thesis using assms
    by (auto simp: start_task_def store_create_def Let_def jm split: option.splits if_splits sum.splits)
qed

lemma row_changeI:
  "pc_of s i = Some PcNew \<Longrightarrow> begin_running pid now m = Some m' \<Longrightarrow> row_change s i m m'"
  "pc_of s i = Some (PcEnding st err) \<Longrightarrow> end_running i now st err m = Some m' \<Longrightarrow> row_change s i m m'"
  "orphaned alive now m = Some m' \<Longrightarrow> row_change s i m m'"
  "0 < now \<Longrightarrow> cancelled now m = Some m' \<Longrightarrow> row_change s i m m'"
  "tm_kind m = ''browser_task'' \<Longrightarrow> finished_as st now m = Some m' \<Longrightarrow> row_change s i m m'"
  "moved_to ph now m = Some m' \<Longrightarrow> row_change s i m m'"
  "\<not> terminal (tm_status m) \<Longrightarrow> row_change s i m (apply_tool_call host now m call)"
  "row_change s i m (m\<lparr>tm_last_activity := Some now\<rparr>)"
  unfolding row_change_def by blast+

lemma update_and_log_change:
  assumes "row s i = Some m" "\<And>m'. i = j \<Longrightarrow> f m = Some m' \<Longrightarrow> row_change s i m m'"
  shows "\<exists>m'. row (snd (update_and_log j f ev s)) i = Some m' \<and> row_change s i m m'"
  using update_and_log_row [of j f ev s i m] assms row_change_refl by blast

lemma store_update_change:
  assumes "store_update j f s = Inr (r, s')" "row s i = Some m"
    "\<And>m'. i = j \<Longrightarrow> f m = Some m' \<Longrightarrow> row_change s i m m'"
  shows "\<exists>m'. row s' i = Some m' \<and> row_change s i m m'"
  using store_update_row [OF assms(1), of i m] assms(2,3) row_change_refl by blast

lemma same_row: "row s i = Some m \<Longrightarrow> st_tasks s' = st_tasks s \<Longrightarrow> \<exists>m'. row s' i = Some m' \<and> row_change s i m m'"
  by (simp add: row_change_refl)

lemma run_begin_change:
  assumes "row s i = Some m" "pc_of s j = Some PcNew"
  shows "\<exists>m'. row (run_begin j pid now s) i = Some m' \<and> row_change s i m m'"
proof (cases "store_update j (begin_running pid now) s")
  case (Inr x)
  obtain r s' where x: "x = (r, s')" by (cases x)
  have c: "\<exists>m'. row s' i = Some m' \<and> row_change s i m m'"
    by (rule store_update_change [OF Inr [unfolded x] assms(1)]) (use assms(2) row_changeI(1) in blast)
  show ?thesis
  proof (cases r)
    case None
    with Inr x assms(1) show ?thesis by (intro same_row) (simp_all add: run_begin_def)
  next
    case (Some n)
    with Inr x have "run_begin j pid now s = set_pc j (PcInvoking None) (append_event j EkStarted s')"
      by (simp add: run_begin_def)
    with c show ?thesis by simp
  qed
qed (use assms(1) in \<open>simp add: run_begin_def row_change_refl\<close>)

lemma run_end_change:
  assumes "row s i = Some m"
  shows "\<exists>m'. row (run_end j now s) i = Some m' \<and> row_change s i m m'"
proof (cases "\<exists>st err. pc_of s j = Some (PcEnding st err)")
  case True
  then obtain st err where pc: "pc_of s j = Some (PcEnding st err)" by blast
  show ?thesis
  proof (cases "store_update j (end_running j now st err) s")
    case (Inr x)
    obtain r s' where x: "x = (r, s')" by (cases x)
    have "\<exists>m'. row s' i = Some m' \<and> row_change s i m m'"
      by (rule store_update_change [OF Inr [unfolded x] assms]) (use pc row_changeI(2) in blast)
    with Inr x pc show ?thesis by (simp add: run_end_def)
  qed (use assms pc in \<open>simp add: run_end_def row_change_refl\<close>)
next
  case False
  then have "run_end j now s = s" by (auto simp: run_end_def split: option.split runner_pc.split)
  with assms show ?thesis by (simp add: row_change_refl)
qed

lemma verbs_change:
  assumes "row s i = Some m"
  shows "0 < now \<Longrightarrow> \<exists>m'. row (cancel_task session p j now s) i = Some m' \<and> row_change s i m m'"
    and "\<exists>m'. row (finish_task session p j outcome now s) i = Some m' \<and> row_change s i m m'"
    and "\<exists>m'. row (update_task session p j ph now s) i = Some m' \<and> row_change s i m m'"
    and "\<exists>m'. row (record_task_call host j call now s) i = Some m' \<and> row_change s i m m'"
    and "\<exists>m'. row (touch_lane j now s) i = Some m' \<and> row_change s i m m'"
    and "\<exists>m'. row (snd (reap_one alive now j s)) i = Some m' \<and> row_change s i m m'"
proof -
  have read: "read_meta j s = Some n \<Longrightarrow> i = j \<Longrightarrow> n = m" for n
    using assms by (auto simp: read_meta_def split: if_splits)
  note same = same_row [OF assms refl]
  show "0 < now \<Longrightarrow> \<exists>m'. row (cancel_task session p j now s) i = Some m' \<and> row_change s i m m'"
    unfolding cancel_task_def
    by (auto split: option.split intro!: same update_and_log_change [OF assms] row_changeI(4))
  show "\<exists>m'. row (update_task session p j ph now s) i = Some m' \<and> row_change s i m m'"
    unfolding update_task_def
    by (auto split: option.split intro!: same update_and_log_change [OF assms] row_changeI(6))
  show "\<exists>m'. row (snd (reap_one alive now j s)) i = Some m' \<and> row_change s i m m'"
    unfolding reap_one_def by (rule update_and_log_change [OF assms]) (rule row_changeI(3))
  show "\<exists>m'. row (finish_task session p j outcome now s) i = Some m' \<and> row_change s i m m'"
    unfolding finish_task_def
    by (auto split: option.split intro!: same update_and_log_change [OF assms] row_changeI(5) dest: read)
  show "\<exists>m'. row (record_task_call host j call now s) i = Some m' \<and> row_change s i m m'"
    unfolding record_task_call_def
    by (auto split: option.split if_splits intro!: same update_and_log_change [OF assms] row_changeI(7) dest: read)
  show "\<exists>m'. row (touch_lane j now s) i = Some m' \<and> row_change s i m m'"
  proof (cases "store_update j (\<lambda>m. Some (m\<lparr>tm_last_activity := Some now\<rparr>)) s")
    case (Inr x)
    obtain r s' where x: "x = (r, s')" by (cases x)
    have "\<exists>m'. row s' i = Some m' \<and> row_change s i m m'"
      by (rule store_update_change [OF Inr [unfolded x] assms]) (auto intro: row_changeI(8))
    with Inr x show ?thesis by (simp add: touch_lane_def)
  qed (use same in \<open>simp add: touch_lane_def\<close>)
qed

lemma runner_steps_rows [simp]:
  "st_tasks (run_poll i s) = st_tasks s" "st_tasks (run_return i r s) = st_tasks s"
  "st_tasks (run_throw i err s) = st_tasks s" "st_tasks (run_write i s) = st_tasks s"
  by (auto simp: run_poll_def run_return_def run_throw_def run_write_def write_result_def Let_def
      split: option.split runner_pc.split)

lemma ledger_trans_row:
  assumes "ledger_trans s s'" "row s i = Some m"
  shows "\<exists>m'. row s' i = Some m' \<and> row_change s i m m'"
  using assms(1)
proof cases
  case (start registered inp n)
  then show ?thesis using start_task_row [of registered inp s n s' i] assms(2) row_change_refl by auto
qed (use verbs_change [OF assms(2)] run_begin_change [OF assms(2)] run_end_change [OF assms(2)] assms(2)
    row_change_refl in auto)

lemma new_row:
  assumes "ledger_trans s s'" "row s i = None" "row s' i = Some n"
  shows "tm_result_path n = None \<and> \<not> terminal (tm_status n)"
proof -
  have log: "row (snd (update_and_log j f ev s)) i = None" for j f ev
    using update_and_log_row [of j f ev s i] assms(2) by simp
  have upd: "row t i = None" if "store_update j f s = Inr (r, t)" for j f r t
    using store_update_row [OF that, of i] assms(2) by simp
  show ?thesis using assms(1)
  proof cases
    case (start registered inp n')
    then show ?thesis using start_task_row [of registered inp s n' s' i] assms(2,3) by (auto split: if_splits)
  next
    case (begin_run j pid now)
    then show ?thesis using assms(2,3) upd [of j "begin_running pid now"]
      by (cases "store_update j (begin_running pid now) s")
        (auto simp: run_begin_def split: option.splits prod.splits)
  next
    case (end_run j now)
    then show ?thesis using assms(2,3) upd [of j]
      by (auto simp: run_end_def split: option.splits runner_pc.splits sum.splits prod.splits)
  next
    case (lane j now)
    then show ?thesis using assms(2,3) upd [of j]
      by (auto simp: touch_lane_def split: sum.splits prod.splits)
  qed (use assms(2,3) log in \<open>auto simp: cancel_task_def finish_task_def update_task_def
      record_task_call_def reap_one_def split: option.splits if_splits\<close>)
qed

section \<open>Terminal rows\<close>

definition same_but_activity :: "task_meta \<Rightarrow> task_meta \<Rightarrow> bool" where
  "same_but_activity m m' \<longleftrightarrow> m'\<lparr>tm_last_activity := None\<rparr> = m\<lparr>tm_last_activity := None\<rparr>"

lemma terminal_change:
  assumes "row_change s i m m'" "terminal (tm_status m)"
  shows "same_but_activity m m'"
proof -
  have "begin_running pid now m = None" "end_running i now st err m = None" "orphaned alive now m = None"
    "cancelled now m = None" "finished_as st now m = None" "moved_to ph now m = None" for pid now st err alive ph
    using assms(2)
    by (auto simp: terminal_def begin_running_def end_running_def orphaned_def cancelled_def
        finished_as_def moved_to_def)
  with assms show ?thesis by (auto simp: row_change_def same_but_activity_def)
qed

lemma same_but_activity_status:
  assumes "same_but_activity m m'" shows "tm_status m' = tm_status m"
proof -
  have "tm_status (m'\<lparr>tm_last_activity := None\<rparr>) = tm_status (m\<lparr>tm_last_activity := None\<rparr>)"
    using assms by (simp only: same_but_activity_def)
  then show ?thesis by simp
qed

section \<open>Properties\<close>


definition demo_id :: string where "demo_id = ''0123456789abcdef''"

definition demo_store :: "task_status \<Rightarrow> string \<Rightarrow> runner_pc option \<Rightarrow> ledger_store" where
  "demo_store st kind pc =
     empty_store\<lparr>st_tasks := [(demo_id, demo_task\<lparr>tm_id := demo_id, tm_status := st, tm_kind := kind,
                                       tm_cancel_requested := Some 7\<rparr>)],
                 st_runners := (case pc of None \<Rightarrow> [] | Some c \<Rightarrow> [(demo_id, c)])\<rparr>"

lemma demo_row: "row (demo_store st kind pc) demo_id
    = Some (demo_task\<lparr>tm_id := demo_id, tm_status := st, tm_kind := kind, tm_cancel_requested := Some 7\<rparr>)"
  by (simp add: demo_store_def empty_store_def split: option.split)

lemma demo_safe: "safe_task_id demo_id"
  by (simp add: safe_task_id_def demo_id_def is_hex_digit_def)


section \<open>Cancellation\<close>

text \<open>Everything that keeps a row from completing: its flag is set and its runner has not decided to.\<close>

definition doomed :: "string \<Rightarrow> ledger_store \<Rightarrow> bool" where
  "doomed i s \<longleftrightarrow> safe_task_id i
     \<and> (\<exists>m c. row s i = Some m \<and> tm_kind m \<noteq> ''browser_task'' \<and> tm_status m \<noteq> COMPLETED
          \<and> tm_cancel_requested m = Some c \<and> c \<noteq> 0)
     \<and> (\<forall>err. pc_of s i \<noteq> Some (PcEnding COMPLETED err))
     \<and> (\<forall>err d r. pc_of s i \<noteq> Some (PcDecided COMPLETED err d r))"

lemma doomed_row:
  assumes "row_change s i m m'" "tm_kind m \<noteq> ''browser_task''" "tm_status m \<noteq> COMPLETED"
    "tm_cancel_requested m = Some c" "c \<noteq> 0" "\<forall>err. pc_of s i \<noteq> Some (PcEnding COMPLETED err)"
  shows "tm_kind m' \<noteq> ''browser_task'' \<and> tm_status m' \<noteq> COMPLETED
    \<and> (\<exists>c. tm_cancel_requested m' = Some c \<and> c \<noteq> 0)"
  using assms(1) unfolding row_change_def
proof (elim disjE exE conjE)
  fix now :: int assume "0 < now" "cancelled now m = Some m'"
  with assms show ?thesis by (auto simp: cancelled_def split: if_splits)
qed (use assms(2-6) in \<open>auto simp: begin_running_def end_running_def orphaned_def finished_as_def
    moved_to_def apply_tool_call_def Let_def split: if_splits\<close>)

lemma log_runners [simp]:
  "st_runners (snd (update_and_log j f ev s)) = st_runners s"
  "st_results (snd (update_and_log j f ev s)) = st_results s"
  using update_and_log_row [of j f ev s] by blast+

lemma verb_runners [simp]:
  "st_runners (cancel_task session p j now s) = st_runners s"
  "st_runners (finish_task session p j outcome now s) = st_runners s"
  "st_runners (update_task session p j ph now s) = st_runners s"
  "st_runners (record_task_call host j call now s) = st_runners s"
  "st_runners (touch_lane j now s) = st_runners s"
  "st_runners (snd (reap_one alive now j s)) = st_runners s"
  "st_results (cancel_task session p j now s) = st_results s"
  "st_results (finish_task session p j outcome now s) = st_results s"
  "st_results (update_task session p j ph now s) = st_results s"
  "st_results (record_task_call host j call now s) = st_results s"
  "st_results (touch_lane j now s) = st_results s"
  "st_results (snd (reap_one alive now j s)) = st_results s"
  by (simp_all add: cancel_task_def finish_task_def update_task_def record_task_call_def reap_one_def
      split: option.split)
    (auto simp: touch_lane_def store_update_def split: sum.splits option.splits if_splits)

lemma run_begin_runners:
  "pc_of (run_begin j pid now s) i \<in> {pc_of s i, None, Some (PcInvoking None)}"
  "st_results (run_begin j pid now s) = st_results s"
proof -
  have "st_runners t = st_runners s \<and> st_results t = st_results s"
    if "store_update j (begin_running pid now) s = Inr (r, t)" for r t
    using store_update_row [OF that] by simp
  then show "pc_of (run_begin j pid now s) i \<in> {pc_of s i, None, Some (PcInvoking None)}"
    "st_results (run_begin j pid now s) = st_results s"
    by (auto simp: run_begin_def jm split: sum.split prod.split option.split)
qed

lemma run_end_runners:
  "pc_of (run_end j now s) i \<in> {pc_of s i, None}" "st_results (run_end j now s) = st_results s"
proof -
  have "st_runners t = st_runners s \<and> st_results t = st_results s"
    if "store_update j (end_running j now st err) s = Inr (r, t)" for r t st err
    using store_update_row [OF that] by simp
  then show "pc_of (run_end j now s) i \<in> {pc_of s i, None}" "st_results (run_end j now s) = st_results s"
    by (auto simp: run_end_def jm split: sum.split prod.split option.split runner_pc.split)
qed

text \<open>Where a runner that is about to complete its row comes from, and where its result is.\<close>

lemma trans_ending:
  assumes "ledger_trans s s'" "pc_of s' i = Some (PcEnding COMPLETED err)"
  shows "pc_of s i = Some (PcEnding COMPLETED err)
    \<or> ((\<exists>d r. pc_of s i = Some (PcDecided COMPLETED err d r)) \<and> jget (st_results s') i \<noteq> None)"
  using assms(1)
proof cases
  case (start registered inp n)
  then show ?thesis using start_task_row [of registered inp s n s' i] assms(2) by auto
next
  case (begin_run j pid now)
  then show ?thesis using run_begin_runners(1) [of j pid now s i] assms(2) by auto
next
  case (end_run j now)
  then show ?thesis using run_end_runners(1) [of j now s i] assms(2) by auto
next
  case (write_out j)
  then show ?thesis using assms(2)
    by (auto simp: run_write_def write_result_def jm split: option.splits runner_pc.splits if_splits)
qed (use assms(2) in \<open>auto simp: run_poll_def run_return_def run_throw_def Let_def jm
    split: option.splits runner_pc.splits if_splits tool_result.splits\<close>)

lemma trans_decided:
  assumes "ledger_trans s s'" "pc_of s' i = Some (PcDecided COMPLETED err d r)"
  shows "pc_of s i = Some (PcDecided COMPLETED err d r) \<or> cancel_flag i s = None"
  using assms(1)
proof cases
  case (start registered inp n)
  then show ?thesis using start_task_row [of registered inp s n s' i] assms(2) by auto
next
  case (begin_run j pid now)
  then show ?thesis using run_begin_runners(1) [of j pid now s i] assms(2) by auto
next
  case (end_run j now)
  then show ?thesis using run_end_runners(1) [of j now s i] assms(2) by auto
next
  case (return j r')
  then show ?thesis using assms(2)
    by (auto simp: run_return_def Let_def jm coalesce_def split: option.splits runner_pc.splits if_splits tool_result.splits)
qed (use assms(2) in \<open>auto simp: run_poll_def run_write_def write_result_def run_throw_def Let_def jm
    split: option.splits runner_pc.splits if_splits tool_result.splits\<close>)

lemma doomed_step:
  assumes "ledger_trans s s'" "doomed i s"
  shows "doomed i s'"
proof -
  obtain m c where m: "row s i = Some m" "tm_kind m \<noteq> ''browser_task''" "tm_status m \<noteq> COMPLETED"
    "tm_cancel_requested m = Some c" "c \<noteq> 0" and safe: "safe_task_id i"
    using assms(2) by (auto simp: doomed_def)
  have pcs: "\<forall>err. pc_of s i \<noteq> Some (PcEnding COMPLETED err)"
    "\<forall>err d r. pc_of s i \<noteq> Some (PcDecided COMPLETED err d r)"
    using assms(2) by (simp_all add: doomed_def)
  obtain m' where m': "row s' i = Some m'" "row_change s i m m'"
    using ledger_trans_row [OF assms(1) m(1)] by blast
  note r = doomed_row [OF m'(2) m(2-5) pcs(1)]
  have "cancel_flag i s \<noteq> None" using m safe by (simp add: cancel_flag_def read_meta_def truthy_int_def)
  then have "pc_of s' i \<noteq> Some (PcDecided COMPLETED err d r)" for err d r
    using trans_decided [OF assms(1), of i err d r] pcs(2) by auto
  moreover have "pc_of s' i \<noteq> Some (PcEnding COMPLETED err)" for err
    using trans_ending [OF assms(1), of i err] pcs by auto
  ultimately show ?thesis using r m'(1) safe by (auto simp: doomed_def)
qed

text \<open>C11 (safety). A cancellation recorded while the tool is still running is never lost. If the row of a
  background task carries a cancel request and its runner has not yet seen the tool return, then in no
  later state, under any interleaving of polls, returns, throws, failed writes, reapers and further
  requests, is the task COMPLETED.\<close>

theorem cancel_request_is_honoured:
  assumes "ledger_steps s s'" and "safe_task_id i" and "row s i = Some m"
    and "tm_kind m \<noteq> ''browser_task''" "tm_status m = RUNNING" "tm_cancel_requested m = Some c" "c \<noteq> 0"
    and "pc_of s i = Some (PcInvoking seen)"
  shows "\<exists>m'. row s' i = Some m' \<and> tm_status m' \<noteq> COMPLETED"
proof -
  have "doomed i s" using assms by (auto simp: doomed_def)
  with assms(1) have "doomed i s'" by (induction rule: rtranclp_induct) (auto intro: doomed_step)
  then show ?thesis by (auto simp: doomed_def)
qed

theorem cancel_request_is_honoured_witness:
  "\<exists>m'. row (run_return demo_id ToolOk (demo_store RUNNING ''crawl'' (Some (PcInvoking None)))) demo_id = Some m'
     \<and> tm_status m' \<noteq> COMPLETED"
proof (rule cancel_request_is_honoured [OF _ demo_safe demo_row, where c = 7])
  show "ledger_steps (demo_store RUNNING ''crawl'' (Some (PcInvoking None)))
      (run_return demo_id ToolOk (demo_store RUNNING ''crawl'' (Some (PcInvoking None))))"
    by (intro r_into_rtranclp ledger_trans.return)
qed (simp_all add: demo_store_def)

section \<open>Results\<close>

definition row_result_ok :: "string \<Rightarrow> bool \<Rightarrow> task_meta \<Rightarrow> bool" where
  "row_result_ok i written m \<longleftrightarrow>
     (case tm_result_path m of
        None \<Rightarrow> tm_status m = COMPLETED \<longrightarrow> tm_kind m = ''browser_task''
      | Some path \<Rightarrow> path = result_path_of i \<and> tm_status m = COMPLETED \<and> written)"

definition written :: "ledger_store \<Rightarrow> string \<Rightarrow> bool" where
  "written s i \<longleftrightarrow> jget (st_results s) i \<noteq> None"

definition results_ok :: "ledger_store \<Rightarrow> bool" where
  "results_ok s \<longleftrightarrow>
     (\<forall>i err. pc_of s i = Some (PcEnding COMPLETED err) \<longrightarrow> written s i)
     \<and> (\<forall>i m. row s i = Some m \<longrightarrow> row_result_ok i (written s i) m)"

lemma results_kept:
  assumes "ledger_trans s s'" "jget (st_results s) i \<noteq> None"
  shows "jget (st_results s') i \<noteq> None"
  using assms(1)
proof cases
  case (start registered inp n)
  then show ?thesis using start_task_row [of registered inp s n s' i] assms(2) by auto
qed (use assms(2) run_begin_runners(2) run_end_runners(2) in \<open>auto simp: run_poll_def run_return_def run_throw_def
    run_write_def write_result_def Let_def jm split: option.split runner_pc.split\<close>)

lemma row_result_kept: "row_result_ok i w m \<Longrightarrow> (w \<Longrightarrow> w') \<Longrightarrow> row_result_ok i w' m"
  by (auto simp: row_result_ok_def split: option.splits)

lemma result_row:
  assumes "row_change s i m m'" "row_result_ok i (written s i) m"
    "\<And>err. pc_of s i = Some (PcEnding COMPLETED err) \<Longrightarrow> written s i"
  shows "row_result_ok i (written s i) m'"
proof -
  have none: "tm_result_path m = None" if "\<not> terminal (tm_status m)"
    using that assms(2) by (auto simp: terminal_def row_result_ok_def split: option.splits)
  from assms(1) show ?thesis unfolding row_change_def
  proof (elim disjE exE conjE)
    assume "m' = m"
    then show ?thesis using assms(2) by simp
  next
    fix now st err assume pc: "pc_of s i = Some (PcEnding st err)" and e: "end_running i now st err m = Some m'"
    have nt: "\<not> terminal (tm_status m)" and m': "m' = m\<lparr>tm_status := st, tm_ended := Some now,
        tm_result_path := (if st = COMPLETED then Some (result_path_of i) else tm_result_path m), tm_error := err\<rparr>"
      using e by (simp_all add: end_running_def split: if_splits)
    have "st = COMPLETED \<Longrightarrow> written s i" using assms(3) pc by blast
    then show ?thesis using none [OF nt] by (simp add: m' row_result_ok_def)
  next
    fix pid now assume "begin_running pid now m = Some m'"
    then show ?thesis using none by (auto simp: begin_running_def terminal_def row_result_ok_def split: if_splits)
  next
    fix alive now assume "orphaned alive now m = Some m'"
    then show ?thesis using none by (auto simp: orphaned_def terminal_def row_result_ok_def split: if_splits)
  next
    fix now assume "cancelled now m = Some m'"
    then show ?thesis using none by (auto simp: cancelled_def terminal_def row_result_ok_def split: if_splits)
  next
    fix st now assume "tm_kind m = ''browser_task''" "finished_as st now m = Some m'"
    then show ?thesis using none by (auto simp: finished_as_def row_result_ok_def split: if_splits)
  next
    fix ph now assume "moved_to ph now m = Some m'"
    then show ?thesis using none by (auto simp: moved_to_def terminal_def row_result_ok_def split: if_splits)
  next
    fix host now call assume "\<not> terminal (tm_status m)" "m' = apply_tool_call host now m call"
    then show ?thesis using none by (simp add: apply_tool_call_def Let_def terminal_def row_result_ok_def)
  next
    fix now assume "m' = m\<lparr>tm_last_activity := Some now\<rparr>"
    then show ?thesis using assms(2) by (auto simp: row_result_ok_def split: option.splits)
  qed
qed

lemma results_okD:
  assumes "results_ok s"
  shows "pc_of s i = Some (PcEnding COMPLETED err) \<Longrightarrow> written s i"
    and "row s i = Some m \<Longrightarrow> row_result_ok i (written s i) m"
  by (rule conjunct1 [OF assms [unfolded results_ok_def], rule_format],
      assumption, rule conjunct2 [OF assms [unfolded results_ok_def], rule_format])

lemma results_step:
  assumes "ledger_trans s s'" "results_ok s"
  shows "results_ok s'"
proof -
  note pc = results_okD(1) [OF assms(2)] and rows = results_okD(2) [OF assms(2)]
  have kept: "written s i \<Longrightarrow> written s' i" for i
    unfolding written_def by (rule results_kept [OF assms(1)])
  have "written s' i" if "pc_of s' i = Some (PcEnding COMPLETED err)" for i err
    using trans_ending [OF assms(1) that] pc [of i err] kept [of i] unfolding written_def by blast
  moreover have "row_result_ok i (written s' i) m'" if "row s' i = Some m'" for i m'
  proof (cases "row s i")
    case None
    show ?thesis using new_row [OF assms(1) None that] by (auto simp: row_result_ok_def terminal_def)
  next
    case (Some m)
    then have "row_change s i m m'" using ledger_trans_row [OF assms(1) Some] that by simp
    then have "row_result_ok i (written s i) m'" using rows [OF Some] pc by (rule result_row)
    then show ?thesis using kept by (rule row_result_kept)
  qed
  ultimately show ?thesis unfolding results_ok_def by blast
qed

text \<open>The result pointer is sound. In every state reachable from an empty ledger, a row
  with a result path is COMPLETED, the path is its own, and the result has been written; and every
  COMPLETED row of a tool task has one.\<close>

theorem result_path_sound:
  assumes "ledger_steps empty_store s" and "row s i = Some m"
  shows "case tm_result_path m of
      None \<Rightarrow> tm_status m \<noteq> COMPLETED \<or> tm_kind m = ''browser_task''
    | Some path \<Rightarrow> path = result_path_of i \<and> tm_status m = COMPLETED \<and> jget (st_results s) i \<noteq> None"
proof -
  have "results_ok s" using assms(1)
  proof (induction rule: rtranclp_induct)
    case base
    show ?case by (simp add: results_ok_def empty_store_def)
  next
    case (step t u)
    show ?case using step.hyps(2) step.IH by (rule results_step)
  qed
  then have "row_result_ok i (written s i) m" using assms(2) by (rule results_okD)
  then show ?thesis by (auto simp: row_result_ok_def written_def split: option.split)
qed

definition demo_start :: start_input where
  "demo_start = \<lparr>si_session = ''s'', si_principal = None, si_kind = Some (ArgStr ''crawl''), si_args_object = True,
     si_objective = None, si_phase = None, si_policy = None, si_pid = 1, si_now = 1, si_id = demo_id\<rparr>"

theorem result_path_sound_witness:
  "\<exists>m s. start_task (\<lambda>_. True) demo_start empty_store = Inr (m, s)
     \<and> (case tm_result_path m of
          None \<Rightarrow> tm_status m \<noteq> COMPLETED \<or> tm_kind m = ''browser_task''
        | Some path \<Rightarrow> path = result_path_of demo_id \<and> tm_status m = COMPLETED \<and> jget (st_results s) demo_id \<noteq> None)"
proof -
  have k: "start_kind (Some (ArgStr ''crawl'')) = Some ''crawl''"
    by (simp add: start_kind_def trim_ws_def is_space_def)
  obtain m s where ms: "start_task (\<lambda>_. True) demo_start empty_store = Inr (m, s)" "row s demo_id = Some m"
    using demo_safe by (auto simp: start_task_def k demo_start_def store_create_def empty_store_def
        start_meta_def Let_def task_ledger_tools_def)
  have "ledger_steps empty_store s" using ms(1) by (intro r_into_rtranclp ledger_trans.start)
  from result_path_sound [OF this ms(2)] ms(1) show ?thesis by blast
qed

text \<open>A result file does not mean completion: it is written for a tool that reports an error, too.\<close>

lemma failed_task_has_result:
  "let s = run_end demo_id 9 (run_write demo_id (run_return demo_id (ToolError ''boom'')
       (run_begin demo_id 1 2 (demo_store PENDING ''crawl'' (Some PcNew))
         \<lparr>st_tasks := [(demo_id, demo_task\<lparr>tm_id := demo_id, tm_kind := ''crawl''\<rparr>)]\<rparr>)))
   in map_option tm_status (row s demo_id) = Some FAILED \<and> jget (st_results s) demo_id = Some (ToolError ''boom'')"
  by code_simp

end
