(* ===== verification/Contracts.thy ===== *)
theory Contracts
  imports Js_Strings Complex_Main
begin

text \<open>
  Outcome contracts: the assertion language (\<open>src/src/contracts/types.ts\<close>), its evaluators
  (\<open>src/src/contracts/evaluators/\<close>), the dispatcher with its catch-all
  (\<open>src/src/contracts/evaluate.ts\<close>) and the pattern guard (\<open>src/src/contracts/safe-regex.ts\<close>). The
  page is seen through the record \<open>eval_context\<close>: what each asynchronous hook yields, \<open>Inl\<close> being a
  rejection with its message. \<open>engine\<close> is the platform's RegExp constructor (\<open>None\<close> when it throws).
  Of the evidence, the fields the combinators read are kept (\<open>error\<close>, \<open>error_code\<close>, \<open>reason\<close>), and
  the shape of the tree. The facts a performance or console assertion selects (\<open>contract-facts.ts\<close>) and
  the distance of a screenshot to a class (\<open>phash.ts\<close>, \<open>screenshot-class.ts\<close>) are hooks of the context.
\<close>

section \<open>The pattern guard\<close>

definition max_pattern_length :: nat where "max_pattern_length = 512"

definition is_quantifier :: "char \<Rightarrow> bool" where
  "is_quantifier c \<longleftrightarrow> c = CHR ''+'' \<or> c = CHR ''*''"

fun doubled_quantifier :: "string \<Rightarrow> bool" where
  "doubled_quantifier (a # b # cs) = ((is_quantifier a \<and> a = b) \<or> doubled_quantifier (b # cs))"
| "doubled_quantifier _ = False"

definition not_close :: "char \<Rightarrow> bool" where
  "not_close c \<longleftrightarrow> c \<noteq> CHR '')''"

text \<open>\<open>\)\s*[+*]\<close> at the head of the rest.\<close>

definition quantified_close :: "string \<Rightarrow> bool" where
  "quantified_close s =
     (case s of
        [] \<Rightarrow> False
      | c # cs \<Rightarrow> c = CHR '')'' \<and> (case dropWhile is_space cs of [] \<Rightarrow> False | q # _ \<Rightarrow> is_quantifier q))"

definition group_at :: "string \<Rightarrow> bool" where
  "group_at s =
     (case s of
        [] \<Rightarrow> False
      | c # cs \<Rightarrow> c = CHR ''('' \<and> list_ex is_quantifier (takeWhile not_close cs)
          \<and> quantified_close (dropWhile not_close cs))"

definition nested_group_at :: "string \<Rightarrow> bool" where
  "nested_group_at s =
     (case s of
        [] \<Rightarrow> False
      | c # cs \<Rightarrow> c = CHR ''(''
          \<and> list_ex is_quantifier (dropWhile (\<lambda>x. x \<noteq> CHR ''('') (takeWhile not_close cs))
          \<and> (case dropWhile not_close cs of [] \<Rightarrow> False
             | _ # rest \<Rightarrow> quantified_close (dropWhile not_close rest)))"

fun suffixes' :: "'a list \<Rightarrow> 'a list list" where
  "suffixes' [] = [[]]"
| "suffixes' (x # xs) = (x # xs) # suffixes' xs"

datatype regex_rejection = PatternTooLong | NestedQuantifier | InvalidRegex

type_synonym regex_engine = "string \<Rightarrow> (string \<Rightarrow> bool) option"

definition validate_regex :: "regex_engine \<Rightarrow> string \<Rightarrow> regex_rejection option" where
  "validate_regex engine p =
     (if max_pattern_length < length p then Some PatternTooLong
      else if doubled_quantifier p \<or> list_ex group_at (suffixes' p) \<or> list_ex nested_group_at (suffixes' p)
      then Some NestedQuantifier
      else if engine p = None then Some InvalidRegex
      else None)"

text \<open>The engine's own message after \<open>invalid regex\<close> is left out.\<close>

definition rejection_reason :: "regex_rejection \<Rightarrow> string" where
  "rejection_reason r =
     (case r of PatternTooLong \<Rightarrow> ''pattern exceeds 512 chars''
      | NestedQuantifier \<Rightarrow> ''nested-quantifier shape (ReDoS risk)'' | InvalidRegex \<Rightarrow> ''invalid regex'')"

definition rejection_message :: "regex_rejection \<Rightarrow> string" where
  "rejection_message r = ''unsafe regex pattern: '' @ rejection_reason r"

definition compile_safe_regex :: "regex_engine \<Rightarrow> string \<Rightarrow> string + (string \<Rightarrow> bool)" where
  "compile_safe_regex engine p =
     (case validate_regex engine p of
        Some r \<Rightarrow> Inl (rejection_message r)
      | None \<Rightarrow> (case engine p of None \<Rightarrow> Inl (rejection_message InvalidRegex) | Some t \<Rightarrow> Inr t))"

section \<open>Assertions and evidence\<close>

datatype comparison = CmpEq | CmpGte | CmpLte
datatype since_marker = ContractEnter | LastToolCall

datatype leaf =
    Url string
  | DomText "string option" string
  | DomCount string comparison int
  | Network string "int list" since_marker
  | ScreenshotClass string int
  | NoDialog
  | ImageQa string string
  | Performance string string comparison rat int
  | Console "string option" "string option" "bool option" comparison int int

datatype assertion = Leaf leaf | And "assertion list" | Or "assertion list" | Not assertion

record details =
  d_error :: "string option"
  d_code :: "string option"
  d_reason :: "string option"

text \<open>The evidence of a leaf, or of a combinator with the evidence of the children it evaluated.\<close>

datatype evidence =
    LeafEvidence bool leaf details
  | NodeEvidence bool assertion details "evidence list"

definition no_error :: details where
  "no_error = \<lparr>d_error = None, d_code = None, d_reason = None\<rparr>"

definition error_details :: "string \<Rightarrow> details" where
  "error_details e = \<lparr>d_error = Some e, d_code = None, d_reason = None\<rparr>"

fun ev_passed :: "evidence \<Rightarrow> bool" where
  "ev_passed (LeafEvidence b _ _) = b"
| "ev_passed (NodeEvidence b _ _ _) = b"

fun ev_details :: "evidence \<Rightarrow> details" where
  "ev_details (LeafEvidence _ _ d) = d"
| "ev_details (NodeEvidence _ _ d _) = d"

definition inconclusive_details :: "evidence \<Rightarrow> details option" where
  "inconclusive_details e =
     (case d_error (ev_details e) of None \<Rightarrow> None | Some _ \<Rightarrow> Some (ev_details e))"

section \<open>Leaves\<close>

record console_entry =
  ce_type :: string
  ce_uncaught :: bool
  ce_message :: "string option"
  ce_count :: int

record console_fact =
  cf_captured :: "string list option"
  cf_entries :: "console_entry list"

record fact_failure =
  ff_code :: string
  ff_reason :: string

datatype qa_reply = QaAnswer string | QaUnsupported string

record eval_context =
  cx_url :: "string + string"
  cx_dom_text :: "string option \<Rightarrow> string + string option"
  cx_dom_count :: "string \<Rightarrow> string + int"
  cx_network :: "since_marker \<Rightarrow> string + (string \<times> int) list"
  cx_screenshot :: "string + string option"
  cx_dialog :: "string + bool"
  cx_class_distance :: "string \<Rightarrow> string \<Rightarrow> string + int"
  cx_image_qa :: "(string \<Rightarrow> string \<Rightarrow> string + qa_reply) option"
  cx_fact_scope :: bool
  cx_performance :: "string \<Rightarrow> string \<Rightarrow> int \<Rightarrow> string + (fact_failure + rat)"
  cx_console :: "int \<Rightarrow> string + (fact_failure + console_fact)"

fun compare_op :: "comparison \<Rightarrow> 'a :: linorder \<Rightarrow> 'a \<Rightarrow> bool" where
  "compare_op CmpEq x t = (x = t)"
| "compare_op CmpGte x t = (t \<le> x)"
| "compare_op CmpLte x t = (x \<le> t)"

definition contains_sub :: "string \<Rightarrow> string \<Rightarrow> bool" where
  "contains_sub part s \<longleftrightarrow> list_ex (starts_with part) (suffixes' s)"

text \<open>A verdict without an error, and one that could not be reached.\<close>

definition decided :: "leaf \<Rightarrow> bool \<Rightarrow> string + evidence" where
  "decided l b = Inr (LeafEvidence b l no_error)"

definition undecided :: "leaf \<Rightarrow> details \<Rightarrow> string + evidence" where
  "undecided l d = Inr (LeafEvidence False l d)"

definition try_hook :: "string + 'a \<Rightarrow> ('a \<Rightarrow> string + 'b) \<Rightarrow> string + 'b" where
  "try_hook x f = (case x of Inl e \<Rightarrow> Inl e | Inr v \<Rightarrow> f v)"

definition failure_details :: "fact_failure \<Rightarrow> details" where
  "failure_details f = \<lparr>d_error = Some (ff_code f), d_code = Some (ff_code f), d_reason = Some (ff_reason f)\<rparr>"

definition scope_missing :: fact_failure where
  "scope_missing = \<lparr>ff_code = ''CONTRACT_FACT_SCOPE_MISSING'',
     ff_reason = ''contract fact verifier scope is unavailable''\<rparr>"

definition reasoned_error :: "string \<Rightarrow> details" where
  "reasoned_error e = \<lparr>d_error = Some e, d_code = None, d_reason = Some e\<rparr>"

definition network_matcher :: "regex_engine \<Rightarrow> string \<Rightarrow> string \<Rightarrow> bool" where
  "network_matcher engine p =
     (case compile_safe_regex engine p of Inr t \<Rightarrow> t | Inl _ \<Rightarrow> contains_sub p)"

definition evaluate_network ::
  "regex_engine \<Rightarrow> eval_context \<Rightarrow> leaf \<Rightarrow> string \<Rightarrow> int list \<Rightarrow> since_marker \<Rightarrow> string + evidence" where
  "evaluate_network engine cx l p statuses since =
     try_hook (cx_network cx since) (\<lambda>entries.
       decided l (filter (\<lambda>(u, st). network_matcher engine p u \<and> st \<in> set statuses) entries \<noteq> []))"

definition evaluate_screenshot_class :: "eval_context \<Rightarrow> leaf \<Rightarrow> string \<Rightarrow> int \<Rightarrow> string + evidence" where
  "evaluate_screenshot_class cx l cls dmax =
     try_hook (cx_screenshot cx) (\<lambda>png.
       case png of
         None \<Rightarrow> undecided l \<lparr>d_error = None, d_code = None, d_reason = Some ''no screenshot available''\<rparr>
       | Some bytes \<Rightarrow> try_hook (cx_class_distance cx cls bytes) (\<lambda>d. decided l (d \<le> dmax)))"

definition evaluate_image_qa ::
  "regex_engine \<Rightarrow> eval_context \<Rightarrow> leaf \<Rightarrow> string \<Rightarrow> string \<Rightarrow> string + evidence" where
  "evaluate_image_qa engine cx l question expected =
     (case cx_image_qa cx of
        None \<Rightarrow> undecided l (reasoned_error ''host_runtime_did_not_wire_imageQaSample'')
      | Some sample \<Rightarrow>
          try_hook (cx_screenshot cx) (\<lambda>png.
            case png of
              None \<Rightarrow> undecided l (reasoned_error ''no_screenshot_available'')
            | Some bytes \<Rightarrow>
                try_hook (sample question bytes) (\<lambda>reply.
                  case reply of
                    QaUnsupported why \<Rightarrow> undecided l (reasoned_error ''unsupported_by_host'')
                  | QaAnswer a \<Rightarrow>
                      (case compile_safe_regex engine expected of
                         Inl msg \<Rightarrow> undecided l (reasoned_error ''invalid_expected_pattern'')
                       | Inr t \<Rightarrow> decided l (t a)))))"

definition evaluate_performance ::
  "eval_context \<Rightarrow> leaf \<Rightarrow> string \<Rightarrow> string \<Rightarrow> comparison \<Rightarrow> rat \<Rightarrow> int \<Rightarrow> string + evidence" where
  "evaluate_performance cx l metric unit op value max_age =
     (if \<not> cx_fact_scope cx then undecided l (failure_details scope_missing)
      else try_hook (cx_performance cx metric unit max_age) (\<lambda>sel.
        case sel of
          Inl f \<Rightarrow> undecided l (failure_details f)
        | Inr observed \<Rightarrow> decided l (compare_op op observed value)))"

definition matches_entry ::
  "string option \<Rightarrow> (string \<Rightarrow> bool) option \<Rightarrow> bool option \<Rightarrow> console_entry \<Rightarrow> bool" where
  "matches_entry type pattern uncaught e =
     ((type = None \<or> type = Some (ce_type e)) \<and> (uncaught = None \<or> uncaught = Some (ce_uncaught e))
      \<and> (case ce_message e of
           None \<Rightarrow> False
         | Some msg \<Rightarrow> (case pattern of None \<Rightarrow> True | Some t \<Rightarrow> t msg)))"

definition evaluate_console ::
  "regex_engine \<Rightarrow> eval_context \<Rightarrow> leaf \<Rightarrow> string option \<Rightarrow> string option \<Rightarrow> bool option \<Rightarrow> comparison
    \<Rightarrow> int \<Rightarrow> int \<Rightarrow> string + evidence" where
  "evaluate_console engine cx l type pattern uncaught op value max_age =
     (if \<not> cx_fact_scope cx then undecided l (failure_details scope_missing)
      else try_hook (cx_console cx max_age) (\<lambda>sel.
        case sel of
          Inl f \<Rightarrow> undecided l (failure_details f)
        | Inr cfact \<Rightarrow>
            (let covered = (case cf_captured cfact of None \<Rightarrow> True
                 | Some types \<Rightarrow> (case type of None \<Rightarrow> False | Some t \<Rightarrow> t \<in> set types));
                 count = (\<lambda>p. sum_list (map ce_count (filter (matches_entry type p uncaught) (cf_entries cfact))))
             in if \<not> covered
                then undecided l (failure_details \<lparr>ff_code = ''CONTRACT_FACT_CAPTURE_FILTERED'',
                       ff_reason = ''console capture filters do not cover the requested assertion type''\<rparr>)
                else case pattern of
                  None \<Rightarrow> decided l (compare_op op (count None) value)
                | Some p \<Rightarrow>
                    (case compile_safe_regex engine p of
                       Inl msg \<Rightarrow> undecided l (failure_details \<lparr>ff_code = ''CONTRACT_FACT_MALFORMED'', ff_reason = msg\<rparr>)
                     | Inr t \<Rightarrow> decided l (compare_op op (count (Some t)) value)))))"

definition evaluate_url :: "regex_engine \<Rightarrow> eval_context \<Rightarrow> leaf \<Rightarrow> string \<Rightarrow> string + evidence" where
  "evaluate_url engine cx l pattern =
     try_hook (cx_url cx) (\<lambda>u. try_hook (compile_safe_regex engine pattern) (\<lambda>t. decided l (t u)))"

definition evaluate_dom_text :: "eval_context \<Rightarrow> leaf \<Rightarrow> string option \<Rightarrow> string \<Rightarrow> string + evidence" where
  "evaluate_dom_text cx l sel part =
     try_hook (cx_dom_text cx sel) (\<lambda>x. decided l (case x of None \<Rightarrow> False | Some text \<Rightarrow> contains_sub part text))"

definition evaluate_dom_count :: "eval_context \<Rightarrow> leaf \<Rightarrow> string \<Rightarrow> comparison \<Rightarrow> int \<Rightarrow> string + evidence" where
  "evaluate_dom_count cx l sel op n = try_hook (cx_dom_count cx sel) (\<lambda>x. decided l (compare_op op x n))"

definition evaluate_no_dialog :: "eval_context \<Rightarrow> leaf \<Rightarrow> string + evidence" where
  "evaluate_no_dialog cx l = try_hook (cx_dialog cx) (\<lambda>opened. decided l (\<not> opened))"

fun evaluate_leaf :: "regex_engine \<Rightarrow> eval_context \<Rightarrow> leaf \<Rightarrow> string + evidence" where
  "evaluate_leaf engine cx (Url p) = evaluate_url engine cx (Url p) p"
| "evaluate_leaf engine cx (DomText sel part) = evaluate_dom_text cx (DomText sel part) sel part"
| "evaluate_leaf engine cx (DomCount sel op n) = evaluate_dom_count cx (DomCount sel op n) sel op n"
| "evaluate_leaf engine cx (Network p sts since) = evaluate_network engine cx (Network p sts since) p sts since"
| "evaluate_leaf engine cx (ScreenshotClass cls dmax) =
     evaluate_screenshot_class cx (ScreenshotClass cls dmax) cls dmax"
| "evaluate_leaf engine cx NoDialog = evaluate_no_dialog cx NoDialog"
| "evaluate_leaf engine cx (ImageQa q e) = evaluate_image_qa engine cx (ImageQa q e) q e"
| "evaluate_leaf engine cx (Performance m u op v age) =
     evaluate_performance cx (Performance m u op v age) m u op v age"
| "evaluate_leaf engine cx (Console ty p unc op v age) =
     evaluate_console engine cx (Console ty p unc op v age) ty p unc op v age"

section \<open>The dispatcher and the combinators\<close>

text \<open>\<open>try ... catch\<close> around the switch.\<close>

definition guard_errors :: "leaf \<Rightarrow> string + evidence \<Rightarrow> evidence" where
  "guard_errors l r = (case r of Inr e \<Rightarrow> e | Inl msg \<Rightarrow> LeafEvidence False l (error_details msg))"

fun evaluate :: "regex_engine \<Rightarrow> eval_context \<Rightarrow> assertion \<Rightarrow> evidence"
  and evaluate_and :: "regex_engine \<Rightarrow> eval_context \<Rightarrow> assertion list \<Rightarrow> assertion list \<Rightarrow> evidence list \<Rightarrow> evidence"
  and evaluate_or ::
    "regex_engine \<Rightarrow> eval_context \<Rightarrow> assertion list \<Rightarrow> assertion list \<Rightarrow> evidence list \<Rightarrow> details option \<Rightarrow> evidence"
  where
  "evaluate engine cx (Leaf l) = guard_errors l (evaluate_leaf engine cx l)"
| "evaluate engine cx (And cs) = evaluate_and engine cx cs cs []"
| "evaluate engine cx (Or cs) = evaluate_or engine cx cs cs [] None"
| "evaluate engine cx (Not a) =
     (let inner = evaluate engine cx a in
      case inconclusive_details inner of
        Some d \<Rightarrow> NodeEvidence False (Not a) d [inner]
      | None \<Rightarrow> NodeEvidence (\<not> ev_passed inner) (Not a) no_error [inner])"
| "evaluate_and engine cx all [] done' = NodeEvidence True (And all) no_error done'"
| "evaluate_and engine cx all (c # cs) done' =
     (let r = evaluate engine cx c; seen = done' @ [r] in
      if \<not> ev_passed r
      then NodeEvidence False (And all) (default_to no_error (inconclusive_details r)) seen
      else evaluate_and engine cx all cs seen)"
| "evaluate_or engine cx all [] done' first = NodeEvidence False (Or all) (default_to no_error first) done'"
| "evaluate_or engine cx all (c # cs) done' first =
     (let r = evaluate engine cx c; seen = done' @ [r] in
      if ev_passed r then NodeEvidence True (Or all) no_error seen
      else evaluate_or engine cx all cs seen (coalesce first (inconclusive_details r)))"

section \<open>Meaning\<close>

text \<open>The truth of an assertion when the leaves that could not be decided are given the truth values
  \<open>v\<close>.\<close>

definition leaf_truth :: "regex_engine \<Rightarrow> eval_context \<Rightarrow> (leaf \<Rightarrow> bool) \<Rightarrow> leaf \<Rightarrow> bool" where
  "leaf_truth engine cx v l =
     (let e = evaluate engine cx (Leaf l) in
      if inconclusive_details e \<noteq> None then v l else ev_passed e)"

fun truth :: "regex_engine \<Rightarrow> eval_context \<Rightarrow> (leaf \<Rightarrow> bool) \<Rightarrow> assertion \<Rightarrow> bool" where
  "truth engine cx v (Leaf l) = leaf_truth engine cx v l"
| "truth engine cx v (And cs) = list_all (truth engine cx v) cs"
| "truth engine cx v (Or cs) = list_ex (truth engine cx v) cs"
| "truth engine cx v (Not a) = (\<not> truth engine cx v a)"

lemma inconclusive_iff: "inconclusive_details e = None \<longleftrightarrow> d_error (ev_details e) = None"
  by (simp add: inconclusive_details_def split: option.split)

text \<open>A passing verdict never carries an error.\<close>

definition clean_pass :: "evidence \<Rightarrow> bool" where
  "clean_pass e \<longleftrightarrow> (ev_passed e \<longrightarrow> inconclusive_details e = None)"

lemma leaf_clean: "clean_pass (guard_errors l (evaluate_leaf engine cx l))"
  by (cases l)
    (auto simp: clean_pass_def guard_errors_def inconclusive_iff try_hook_def decided_def undecided_def
      evaluate_network_def evaluate_screenshot_class_def evaluate_image_qa_def evaluate_performance_def evaluate_url_def evaluate_dom_text_def evaluate_dom_count_def evaluate_no_dialog_def
      evaluate_console_def no_error_def Let_def
      split: sum.split option.split qa_reply.split)

definition sound_verdict :: "regex_engine \<Rightarrow> eval_context \<Rightarrow> assertion \<Rightarrow> evidence \<Rightarrow> bool" where
  "sound_verdict engine cx a e \<longleftrightarrow> clean_pass e
     \<and> (ev_passed e \<longrightarrow> (\<forall>v. truth engine cx v a))
     \<and> (\<not> ev_passed e \<longrightarrow> inconclusive_details e = None \<longrightarrow> (\<forall>v. \<not> truth engine cx v a))"

lemma default_no_error: "d_error (default_to no_error d) = None \<longleftrightarrow> (case d of None \<Rightarrow> True | Some x \<Rightarrow> d_error x = None)"
  by (simp add: default_to_def no_error_def split: option.split)

lemma inconclusive_error: "inconclusive_details e = Some d \<Longrightarrow> d_error d \<noteq> None"
  by (auto simp: inconclusive_details_def split: option.splits)

lemma clean_pass_node:
  "clean_pass (NodeEvidence b a d es) \<longleftrightarrow> (b \<longrightarrow> d_error d = None)"
  "inconclusive_details (NodeEvidence b a d es) = None \<longleftrightarrow> d_error d = None"
  "d_error no_error = None"
  by (simp_all add: clean_pass_def inconclusive_iff no_error_def)

lemma evaluate_sound_all:
  "sound_verdict engine cx a (evaluate engine cx a)"
  "sound_verdict engine cx (And cs) (evaluate_and engine cx all cs done')"
  "\<forall>d. first = Some d \<longrightarrow> d_error d \<noteq> None \<Longrightarrow>
     sound_verdict engine cx (Or cs) (evaluate_or engine cx all cs done' first)
     \<and> (first \<noteq> None \<longrightarrow> ev_passed (evaluate_or engine cx all cs done' first)
          \<or> inconclusive_details (evaluate_or engine cx all cs done' first) \<noteq> None)"
proof (induction engine cx a and engine cx all cs done' and engine cx all cs done' first
    rule: evaluate_evaluate_and_evaluate_or.induct)
  case (1 engine cx l)
  show ?case using leaf_clean [of l engine cx]
    by (auto simp: sound_verdict_def clean_pass_def leaf_truth_def Let_def)
next
  case (2 engine cx cs)
  then show ?case by simp
next
  case (3 engine cx cs)
  then show ?case by simp
next
  case (4 engine cx a)
  show ?case
  proof (cases "inconclusive_details (evaluate engine cx a)")
    case None
    then have "evaluate engine cx (Not a)
        = NodeEvidence (\<not> ev_passed (evaluate engine cx a)) (Not a) no_error [evaluate engine cx a]"
      by (simp add: Let_def)
    then show ?thesis using 4 None by (auto simp: sound_verdict_def clean_pass_node)
  next
    case (Some d)
    then have "evaluate engine cx (Not a) = NodeEvidence False (Not a) d [evaluate engine cx a]"
      by (simp add: Let_def)
    then show ?thesis using inconclusive_error [OF Some] by (auto simp: sound_verdict_def clean_pass_node)
  qed
next
  case (5 engine cx all done')
  then show ?case by (simp add: sound_verdict_def clean_pass_def inconclusive_iff no_error_def)
next
  case (6 engine cx all c cs done')
  show ?case
  proof (cases "ev_passed (evaluate engine cx c)")
    case True
    with 6 show ?thesis by (auto simp: sound_verdict_def Let_def)
  next
    case False
    with 6 show ?thesis
      by (cases "inconclusive_details (evaluate engine cx c)")
        (auto simp: sound_verdict_def clean_pass_def Let_def inconclusive_iff no_error_def dest: inconclusive_error)
  qed
next
  case (7 engine cx all done' first)
  then show ?case
    by (cases first) (auto simp: sound_verdict_def clean_pass_def inconclusive_iff no_error_def)
next
  case (8 engine cx all c cs done' first)
  let ?r = "evaluate engine cx c"
  show ?case
  proof (cases "ev_passed ?r")
    case True
    with 8(1) show ?thesis
      by (auto simp: sound_verdict_def clean_pass_def Let_def inconclusive_iff no_error_def)
  next
    case False
    let ?first = "coalesce first (inconclusive_details ?r)"
    have f: "\<forall>d. ?first = Some d \<longrightarrow> d_error d \<noteq> None"
      using 8(3) by (cases first) (auto dest: inconclusive_error)
    note ih = 8(2) [OF refl refl False f]
    have e: "evaluate_or engine cx all (c # cs) done' first = evaluate_or engine cx all cs (done' @ [?r]) ?first"
      using False by (simp add: Let_def)
    have "first \<noteq> None \<Longrightarrow> ?first \<noteq> None" by (cases first) simp_all
    moreover have "?first = None \<Longrightarrow> inconclusive_details ?r = None" by (cases first) simp_all
    ultimately show ?thesis using ih 8(1) False unfolding e sound_verdict_def
      by (simp, blast)
  qed
qed

section \<open>Properties\<close>


text \<open>A missing screenshot is not recorded as an error by the screenshot-class leaf, so its negation
  passes without any screenshot; the image question with the same cause is inconclusive.\<close>

lemma blind_negation_passes:
  assumes "cx_screenshot cx = Inr None" "cx_image_qa cx = Some sample"
  shows "ev_passed (evaluate engine cx (Not (Leaf (ScreenshotClass cls dmax))))"
    and "\<not> ev_passed (evaluate engine cx (Not (Leaf (ImageQa q e))))"
  using assms
  by (simp_all add: guard_errors_def evaluate_screenshot_class_def evaluate_image_qa_def try_hook_def
      undecided_def inconclusive_details_def reasoned_error_def Let_def)

text \<open>The back reference of the first probe catches a doubled quantifier only, not \<open>+*\<close>.\<close>

lemma mixed_quantifiers_not_probed:
  "doubled_quantifier ''a++'' \<and> \<not> doubled_quantifier ''a+*'' \<and> \<not> doubled_quantifier ''a*+''"
  by (simp add: is_quantifier_def)

end
