(* ===== verification/Handoff.thy ===== *)
theory Handoff
  imports Js_Strings
begin

text \<open>
  Session handoff: \<open>src/src/pilot/handoff/manager.ts\<close> and the token rules of
  \<open>src/src/pilot/handoff/token.ts\<close>. Two maps, session to record and token to session, and an optional
  at-rest store behind a promise interface. The minted token (random bytes) is an argument; so is the
  clock. The synchronous operations are functions; \<open>redeemAsync\<close> is split at its awaits, with the
  control point \<open>redeem_pc\<close>. The at-rest store is a map from tokens to records: its encryption
  (\<open>persistence.ts\<close>) is not modelled, and a failing adapter call changes nothing.
\<close>

section \<open>Tokens\<close>

definition handoff_token_bytes :: nat where "handoff_token_bytes = 32"

definition handoff_token_length :: nat where
  "handoff_token_length = (handoff_token_bytes * 4 + 2) div 3"

definition default_token_ttl :: int where "default_token_ttl = 5 * 60 * 1000"

definition token_char :: "char \<Rightarrow> bool" where
  "token_char c \<longleftrightarrow> (let n = of_char c :: nat in
     (65 \<le> n \<and> n \<le> 90) \<or> (97 \<le> n \<and> n \<le> 122) \<or> (48 \<le> n \<and> n \<le> 57) \<or> n = 95 \<or> n = 45)"

definition normalize_ttl :: "jsnum option \<Rightarrow> int" where
  "normalize_ttl ms =
     (case ms of Some (Fin n) \<Rightarrow> if n \<le> 0 then default_token_ttl else n | _ \<Rightarrow> default_token_ttl)"

definition token_wellformed :: "string \<Rightarrow> bool" where
  "token_wellformed t \<longleftrightarrow> length t = handoff_token_length \<and> list_all token_char t"

definition verify_handoff_token :: "string \<Rightarrow> string \<Rightarrow> bool" where
  "verify_handoff_token candidate expected =
     (if length candidate \<noteq> length expected then False
      else if length candidate \<noteq> handoff_token_length then False
      else if \<not> list_all token_char candidate \<or> \<not> list_all token_char expected then False
      else candidate = expected)"

section \<open>The manager\<close>

record handoff_payload =
  hp_session :: string
  hp_scope :: string
  hp_ttl :: "jsnum option"

record handoff_record =
  hr_session :: string
  hr_scope :: string
  hr_token :: string
  hr_expires :: int
  hr_created :: int

record redemption =
  rd_session :: string
  rd_scope :: string
  rd_expires :: int
  rd_created :: int
  rd_redeemed :: int

record handoff_state =
  hm_by_session :: "(string, handoff_record) jmap"
  hm_by_token :: "(string, string) jmap"
  hm_store :: "(string, handoff_record) jmap option"

definition new_manager :: "bool \<Rightarrow> handoff_state" where
  "new_manager persistent = \<lparr>hm_by_session = [], hm_by_token = [], hm_store = (if persistent then Some [] else None)\<rparr>"

definition persist_delete :: "string \<Rightarrow> handoff_state \<Rightarrow> handoff_state" where
  "persist_delete t s = s\<lparr>hm_store := map_option (jdel t) (hm_store s)\<rparr>"

definition persist_put :: "string \<Rightarrow> handoff_record \<Rightarrow> handoff_state \<Rightarrow> handoff_state" where
  "persist_put t r s = s\<lparr>hm_store := map_option (jset t r) (hm_store s)\<rparr>"

definition forget :: "string \<Rightarrow> string \<Rightarrow> handoff_state \<Rightarrow> handoff_state" where
  "forget t session s = s\<lparr>hm_by_token := jdel t (hm_by_token s), hm_by_session := jdel session (hm_by_session s)\<rparr>"

datatype handoff_error = MissingSession | MissingScope

definition register_handoff ::
  "handoff_payload \<Rightarrow> string \<Rightarrow> int \<Rightarrow> handoff_state \<Rightarrow> handoff_error + ((string \<times> int) \<times> handoff_state)" where
  "register_handoff p tok now s =
     (if hp_session p = [] then Inl MissingSession
      else if hp_scope p = [] then Inl MissingScope
      else let s1 = (case jget (hm_by_session s) (hp_session p) of
                       None \<Rightarrow> s
                     | Some prior \<Rightarrow> persist_delete (hr_token prior) (forget (hr_token prior) (hr_session prior) s));
               r = \<lparr>hr_session = hp_session p, hr_scope = hp_scope p, hr_token = tok,
                    hr_expires = now + normalize_ttl (hp_ttl p), hr_created = now\<rparr>;
               s2 = s1\<lparr>hm_by_session := jset (hp_session p) r (hm_by_session s1),
                       hm_by_token := jset tok (hp_session p) (hm_by_token s1)\<rparr>
           in Inr ((tok, hr_expires r), persist_put tok r s2))"

definition redemption_of :: "handoff_record \<Rightarrow> int \<Rightarrow> redemption" where
  "redemption_of r now = \<lparr>rd_session = hr_session r, rd_scope = hr_scope r, rd_expires = hr_expires r,
     rd_created = hr_created r, rd_redeemed = now\<rparr>"

definition redeem :: "string \<Rightarrow> int \<Rightarrow> handoff_state \<Rightarrow> redemption option \<times> handoff_state" where
  "redeem t now s =
     (if t = [] then (None, s)
      else case jget (hm_by_token s) t of
        None \<Rightarrow> (None, s)
      | Some session \<Rightarrow>
          (case jget (hm_by_session s) session of
             None \<Rightarrow> (None, s\<lparr>hm_by_token := jdel t (hm_by_token s)\<rparr>)
           | Some r \<Rightarrow>
               (let s' = persist_delete t (forget t session s)
                in if hr_expires r \<le> now then (None, s') else (Some (redemption_of r now), s'))))"

definition revoke :: "string \<Rightarrow> handoff_state \<Rightarrow> bool \<times> handoff_state" where
  "revoke t s =
     (if t = [] then (False, s)
      else case jget (hm_by_token s) t of
        None \<Rightarrow> (False, s)
      | Some session \<Rightarrow> (True, persist_delete t (forget t session s)))"

definition prune_expired :: "int \<Rightarrow> handoff_state \<Rightarrow> nat \<times> handoff_state" where
  "prune_expired now s =
     (let gone = filter (\<lambda>(_, r). hr_expires r \<le> now) (hm_by_session s)
      in (length gone, foldl (\<lambda>t (k, r). forget (hr_token r) k t) s gone))"

definition list_handoffs :: "handoff_state \<Rightarrow> handoff_record list" where
  "list_handoffs s = map snd (hm_by_session s)"

definition dispose_handoffs :: "handoff_state \<Rightarrow> handoff_state" where
  "dispose_handoffs s = s\<lparr>hm_by_session := [], hm_by_token := []\<rparr>"

text \<open>A new process: memory is gone, the at-rest store is not.\<close>

definition restart :: "handoff_state \<Rightarrow> handoff_state" where
  "restart s = s\<lparr>hm_by_session := [], hm_by_token := []\<rparr>"

section \<open>The asynchronous redemption\<close>

text \<open>Up to the read, after the read, and after the delete.\<close>

datatype redeem_pc =
    AskStore
  | GotRecord handoff_record
  | Redeemed "redemption option"

definition redeem_async_start :: "string \<Rightarrow> int \<Rightarrow> handoff_state \<Rightarrow> redeem_pc \<times> handoff_state" where
  "redeem_async_start t now s =
     (case redeem t now s of
        (Some r, s') \<Rightarrow> (Redeemed (Some r), s')
      | (None, s') \<Rightarrow> if hm_store s' = None then (Redeemed None, s') else (AskStore, s'))"

definition redeem_async_get :: "string \<Rightarrow> handoff_state \<Rightarrow> redeem_pc" where
  "redeem_async_get t s =
     (case hm_store s of
        None \<Rightarrow> Redeemed None
      | Some m \<Rightarrow> (case jget m t of None \<Rightarrow> Redeemed None | Some r \<Rightarrow> GotRecord r))"

definition redeem_async_finish ::
  "string \<Rightarrow> handoff_record \<Rightarrow> int \<Rightarrow> handoff_state \<Rightarrow> redemption option \<times> handoff_state" where
  "redeem_async_finish t r now s =
     (if hr_expires r \<le> now then (None, persist_delete t s)
      else (Some (redemption_of r now), persist_delete t s))"

definition redeem_async :: "string \<Rightarrow> int \<Rightarrow> handoff_state \<Rightarrow> redemption option \<times> handoff_state" where
  "redeem_async t now s =
     (case redeem_async_start t now s of
        (Redeemed r, s') \<Rightarrow> (r, s')
      | (_, s') \<Rightarrow> (case redeem_async_get t s' of
            GotRecord r \<Rightarrow> redeem_async_finish t r now s'
          | _ \<Rightarrow> (None, s')))"

section \<open>Runs\<close>

datatype handoff_op =
    HRegister handoff_payload string int
  | HRedeem string int
  | HRedeemAsync string int
  | HRevoke string
  | HPrune int
  | HDispose
  | HRestart

fun handoff_step :: "handoff_state \<Rightarrow> handoff_op \<Rightarrow> handoff_state" where
  "handoff_step s (HRegister p tok now) = (case register_handoff p tok now s of Inl _ \<Rightarrow> s | Inr (_, s') \<Rightarrow> s')"
| "handoff_step s (HRedeem t now) = snd (redeem t now s)"
| "handoff_step s (HRedeemAsync t now) = snd (redeem_async t now s)"
| "handoff_step s (HRevoke t) = snd (revoke t s)"
| "handoff_step s (HPrune now) = snd (prune_expired now s)"
| "handoff_step s HDispose = dispose_handoffs s"
| "handoff_step s HRestart = restart s"

section \<open>Invariant\<close>

text \<open>The token index and the session map are inverse to each other.\<close>

definition handoff_wf :: "handoff_state \<Rightarrow> bool" where
  "handoff_wf s \<longleftrightarrow> jwf (hm_by_session s)
     \<and> (\<forall>k r. jget (hm_by_session s) k = Some r \<longrightarrow> hr_session r = k \<and> jget (hm_by_token s) (hr_token r) = Some k)
     \<and> (\<forall>t k. jget (hm_by_token s) t = Some k \<longrightarrow>
          (\<exists>r. jget (hm_by_session s) k = Some r \<and> hr_token r = t))"

lemma persist_memory [simp]:
  "hm_by_session (persist_delete t s) = hm_by_session s" "hm_by_token (persist_delete t s) = hm_by_token s"
  "hm_by_session (persist_put t r s) = hm_by_session s" "hm_by_token (persist_put t r s) = hm_by_token s"
  "hm_store (persist_delete t s) = map_option (jdel t) (hm_store s)"
  "hm_store (persist_put t r s) = map_option (jset t r) (hm_store s)"
  by (simp_all add: persist_delete_def persist_put_def)

lemma forget_memory [simp]:
  "hm_by_session (forget t k s) = jdel k (hm_by_session s)" "hm_by_token (forget t k s) = jdel t (hm_by_token s)"
  "hm_store (forget t k s) = hm_store s"
  by (simp_all add: forget_def)

lemma wf_persist [simp]: "handoff_wf (persist_delete t s) = handoff_wf s" "handoff_wf (persist_put t r s) = handoff_wf s"
  by (simp_all add: handoff_wf_def)

lemma wf_forget:
  assumes "handoff_wf s" "jget (hm_by_session s) k = Some r" "hr_token r = t"
  shows "handoff_wf (forget t k s)"
  using assms unfolding handoff_wf_def by (auto simp: jm) (metis option.inject)+

lemma wf_prune:
  "handoff_wf s \<Longrightarrow> distinct (map fst gone) \<Longrightarrow> (\<And>k r. (k, r) \<in> set gone \<Longrightarrow> jget (hm_by_session s) k = Some r) \<Longrightarrow>
    handoff_wf (foldl (\<lambda>t (k, r). forget (hr_token r) k t) s gone)"
proof (induction gone arbitrary: s)
  case (Cons g gone)
  obtain k r where g [simp]: "g = (k, r)" by (cases g)
  have "jget (hm_by_session s) k = Some r" using Cons.prems(3) by simp
  then have w: "handoff_wf (forget (hr_token r) k s)" using Cons.prems(1) by (intro wf_forget) simp_all
  have "jget (hm_by_session (forget (hr_token r) k s)) k' = Some r'" if "(k', r') \<in> set gone" for k' r'
  proof -
    have "k' \<noteq> k" using that Cons.prems(2) by force
    then show ?thesis using Cons.prems(3) that by (simp add: jm)
  qed
  then show ?case using Cons.IH [OF w] Cons.prems(2) by simp
qed simp

lemma prune_tokens:
  "jget (hm_by_token (foldl (\<lambda>t (k, r). forget (hr_token r) k t) s gone)) t = Some k \<Longrightarrow>
    jget (hm_by_token s) t = Some k"
proof (induction gone arbitrary: s)
  case (Cons g gone)
  then show ?case
    using Cons.IH [of "forget (hr_token (snd g)) (fst g) s"] by (cases g) (simp add: jm split: if_splits)
qed simp

lemma prune_store [simp]: "hm_store (foldl (\<lambda>t (k, r). forget (hr_token r) k t) s gone) = hm_store s"
  by (induction gone arbitrary: s) auto

lemma wf_prune_expired: "handoff_wf s \<Longrightarrow> handoff_wf (snd (prune_expired now s))"
proof -
  assume w: "handoff_wf s"
  then have j: "jwf (hm_by_session s)" by (simp add: handoff_wf_def)
  have "distinct (map fst (filter (\<lambda>(_, r). hr_expires r \<le> now) (hm_by_session s)))"
    using j by (auto simp: jwf_def intro: distinct_map_filter)
  then show ?thesis
    using wf_prune [OF w, of "filter (\<lambda>(_, r). hr_expires r \<le> now) (hm_by_session s)"] jget_in_set [OF j]
    by (auto simp: prune_expired_def Let_def)
qed

text \<open>The memory after a redemption or a revocation: the token's pair is gone, or nothing changed.\<close>

lemma redeem_memory:
  assumes "handoff_wf s"
  shows "snd (redeem t now s) = s
    \<or> (\<exists>k r. jget (hm_by_token s) t = Some k \<and> jget (hm_by_session s) k = Some r \<and> hr_token r = t
          \<and> snd (redeem t now s) = persist_delete t (forget t k s))"
proof (cases "t = [] \<or> jget (hm_by_token s) t = None")
  case False
  then obtain k where k: "t \<noteq> []" "jget (hm_by_token s) t = Some k" by auto
  then obtain r where "jget (hm_by_session s) k = Some r" "hr_token r = t"
    using assms unfolding handoff_wf_def by blast
  with k show ?thesis by (simp add: redeem_def Let_def)
qed (auto simp: redeem_def)

lemma revoke_memory:
  assumes "handoff_wf s"
  shows "snd (revoke t s) = s
    \<or> (\<exists>k r. jget (hm_by_token s) t = Some k \<and> jget (hm_by_session s) k = Some r \<and> hr_token r = t
          \<and> snd (revoke t s) = persist_delete t (forget t k s))"
proof (cases "t = [] \<or> jget (hm_by_token s) t = None")
  case False
  then obtain k where k: "t \<noteq> []" "jget (hm_by_token s) t = Some k" by auto
  then obtain r where "jget (hm_by_session s) k = Some r" "hr_token r = t"
    using assms unfolding handoff_wf_def by blast
  with k show ?thesis by (simp add: revoke_def)
qed (auto simp: revoke_def)

lemma redeem_async_memory:
  "hm_by_session (snd (redeem_async t now s)) = hm_by_session (snd (redeem t now s))
   \<and> hm_by_token (snd (redeem_async t now s)) = hm_by_token (snd (redeem t now s))"
proof -
  obtain o' s' where r: "redeem t now s = (o', s')" by (cases "redeem t now s")
  show ?thesis
    by (cases o')
      (auto simp: r redeem_async_def redeem_async_start_def redeem_async_get_def redeem_async_finish_def
        split: redeem_pc.split option.split)
qed

lemma wf_memory:
  "hm_by_session s' = hm_by_session s \<Longrightarrow> hm_by_token s' = hm_by_token s \<Longrightarrow> handoff_wf s' = handoff_wf s"
  by (simp add: handoff_wf_def)

lemma wf_register:
  assumes "handoff_wf s" "jget (hm_by_token s) tok = None" "register_handoff p tok now s = Inr (x, s')"
  shows "handoff_wf s'"
proof -
  let ?k = "hp_session p"
  define s1 where "s1 = (case jget (hm_by_session s) ?k of None \<Rightarrow> s
    | Some prior \<Rightarrow> persist_delete (hr_token prior) (forget (hr_token prior) (hr_session prior) s))"
  have one: "handoff_wf s1 \<and> jget (hm_by_session s1) ?k = None \<and> jget (hm_by_token s1) tok = None"
  proof (cases "jget (hm_by_session s) ?k")
    case None
    then show ?thesis using assms(1,2) by (simp add: s1_def)
  next
    case (Some prior)
    then have "hr_session prior = ?k" using assms(1) by (simp add: handoff_wf_def)
    then show ?thesis
      using Some assms(1,2) wf_forget [OF assms(1) Some refl] by (simp add: s1_def jm)
  qed
  define r where "r = \<lparr>hr_session = ?k, hr_scope = hp_scope p, hr_token = tok,
    hr_expires = now + normalize_ttl (hp_ttl p), hr_created = now\<rparr>"
  have "s' = persist_put tok r (s1\<lparr>hm_by_session := jset ?k r (hm_by_session s1),
      hm_by_token := jset tok ?k (hm_by_token s1)\<rparr>)"
    using assms(3) unfolding register_handoff_def s1_def [symmetric] r_def [symmetric] Let_def
    by (simp split: if_splits)
  then have r: "hr_session r = ?k" "hr_token r = tok"
    "hm_by_session s' = jset ?k r (hm_by_session s1)" "hm_by_token s' = jset tok ?k (hm_by_token s1)"
    by (simp_all add: r_def)
  have sess: "jget (hm_by_session s1) k = Some q \<Longrightarrow> hr_session q = k \<and> jget (hm_by_token s1) (hr_token q) = Some k"
    for k q using one unfolding handoff_wf_def by blast
  have tokn: "jget (hm_by_token s1) t = Some k \<Longrightarrow> \<exists>q. jget (hm_by_session s1) k = Some q \<and> hr_token q = t"
    for t k using one unfolding handoff_wf_def by blast
  show ?thesis unfolding handoff_wf_def
  proof (intro conjI allI impI)
    show "jwf (hm_by_session s')" using one by (simp add: r handoff_wf_def)
  next
    fix k q assume "jget (hm_by_session s') k = Some q"
    then show "hr_session q = k" "jget (hm_by_token s') (hr_token q) = Some k"
      using sess [of k q] one r by (auto simp: jm split: if_splits)
  next
    fix t k assume "jget (hm_by_token s') t = Some k"
    then show "\<exists>q. jget (hm_by_session s') k = Some q \<and> hr_token q = t"
      using tokn [of t k] one r by (auto simp: jm split: if_splits)
  qed
qed

section \<open>Histories\<close>

fun minted :: "handoff_op \<Rightarrow> string list" where
  "minted (HRegister p tok now) = [tok]"
| "minted _ = []"

definition handoffs :: "bool \<Rightarrow> handoff_op list \<Rightarrow> handoff_state" where
  "handoffs persistent ops = foldl handoff_step (new_manager persistent) ops"

lemma handoffs_snoc: "handoffs b (ops @ [op]) = handoff_step (handoffs b ops) op"
  by (simp add: handoffs_def)

lemma register_tokens:
  assumes "register_handoff p tok now s = Inr (x, s')" "jget (hm_by_token s') t = Some k"
  shows "t = tok \<or> jget (hm_by_token s) t = Some k"
  using assms by (auto simp: register_handoff_def Let_def jm split: if_splits option.splits)

lemma step_tokens:
  assumes "handoff_wf s" "jget (hm_by_token (handoff_step s op)) t = Some k"
  shows "t \<in> set (minted op) \<or> jget (hm_by_token s) t = Some k"
proof (cases op)
  case (HRegister p tok now)
  then show ?thesis using assms(2) register_tokens [of p tok now s _ _ t k] by (auto split: sum.splits)
next
  case (HRedeem u now)
  then show ?thesis using assms(2) redeem_memory [OF assms(1), of u now] by (auto simp: jm split: if_splits)
next
  case (HRedeemAsync u now)
  then show ?thesis
    using assms(2) redeem_memory [OF assms(1), of u now] redeem_async_memory [of u now s]
    by (auto simp: jm split: if_splits)
next
  case (HRevoke u)
  then show ?thesis using assms(2) revoke_memory [OF assms(1), of u] by (auto simp: jm split: if_splits)
next
  case (HPrune now)
  then show ?thesis using assms(2) prune_tokens by (auto simp: prune_expired_def Let_def)
qed (use assms(2) in \<open>simp_all add: dispose_handoffs_def restart_def\<close>)

lemma step_wf:
  assumes "handoff_wf s" "\<forall>t \<in> set (minted op). jget (hm_by_token s) t = None"
  shows "handoff_wf (handoff_step s op)"
proof (cases op)
  case (HRegister p tok now)
  then show ?thesis using assms wf_register [OF assms(1), of tok p now] by (auto split: sum.splits)
next
  case (HRedeem t now)
  then show ?thesis using redeem_memory [OF assms(1), of t now] assms(1) wf_forget [OF assms(1)] by auto
next
  case (HRedeemAsync t now)
  have "handoff_wf (snd (redeem t now s))"
    using redeem_memory [OF assms(1), of t now] assms(1) wf_forget [OF assms(1)] by auto
  then have "handoff_wf (snd (redeem_async t now s))"
    by (subst wf_memory [OF conjunct1 [OF redeem_async_memory] conjunct2 [OF redeem_async_memory]])
  with HRedeemAsync show ?thesis by simp
next
  case (HRevoke t)
  then show ?thesis using revoke_memory [OF assms(1), of t] assms(1) wf_forget [OF assms(1)] by auto
next
  case (HPrune now)
  then show ?thesis using wf_prune_expired [OF assms(1)] by simp
qed (simp_all add: handoff_wf_def dispose_handoffs_def restart_def)

definition minted_by :: "handoff_op list \<Rightarrow> string list" where
  "minted_by ops = concat (map minted ops)"

lemma minted_by_simps [simp]:
  "minted_by [] = []" "minted_by (op # ops) = minted op @ minted_by ops" "minted_by (ops @ ps) = minted_by ops @ minted_by ps"
  by (simp_all add: minted_by_def)

lemma handoffs_wf:
  "distinct (minted_by ops) \<Longrightarrow>
    handoff_wf (handoffs b ops) \<and> (\<forall>t k. jget (hm_by_token (handoffs b ops)) t = Some k \<longrightarrow> t \<in> set (minted_by ops))"
proof (induction ops rule: rev_induct)
  case Nil
  then show ?case by (simp add: handoffs_def new_manager_def handoff_wf_def)
next
  case (snoc op ops)
  have "distinct (minted_by ops)" and apart: "set (minted_by ops) \<inter> set (minted op) = {}"
    using snoc.prems by simp_all
  note both = snoc.IH [OF this(1)]
  note ih = conjunct1 [OF both] conjunct2 [OF both, rule_format]
  have "jget (hm_by_token (handoffs b ops)) t = None" if "t \<in> set (minted op)" for t
  proof (rule ccontr)
    assume "jget (hm_by_token (handoffs b ops)) t \<noteq> None"
    then obtain k where "jget (hm_by_token (handoffs b ops)) t = Some k" by blast
    then have "t \<in> set (minted_by ops)" by (rule ih(2))
    with that apart show False by (simp add: disjoint_iff)
  qed
  then have "handoff_wf (handoffs b (ops @ [op]))" unfolding handoffs_snoc by (intro step_wf [OF ih(1)] ballI)
  moreover have "t \<in> set (minted_by (ops @ [op]))"
    if "jget (hm_by_token (handoffs b (ops @ [op]))) t = Some k" for t k
  proof -
    have "t \<in> set (minted op) \<or> jget (hm_by_token (handoffs b ops)) t = Some k"
      by (rule step_tokens [OF ih(1)]) (use that in \<open>simp add: handoffs_snoc\<close>)
    then show ?thesis
    proof
      assume "jget (hm_by_token (handoffs b ops)) t = Some k"
      then have "t \<in> set (minted_by ops)" by (rule ih(2))
      then show ?thesis by simp
    qed simp
  qed
  ultimately show ?case by blast
qed

section \<open>What the history says is live\<close>

text \<open>A handoff is live from the registration that minted it until an operation that ends it.\<close>

fun mints :: "handoff_op \<Rightarrow> handoff_record \<Rightarrow> bool" where
  "mints (HRegister p tok now) r \<longleftrightarrow> hp_session p \<noteq> [] \<and> hp_scope p \<noteq> []
     \<and> r = \<lparr>hr_session = hp_session p, hr_scope = hp_scope p, hr_token = tok,
            hr_expires = now + normalize_ttl (hp_ttl p), hr_created = now\<rparr>"
| "mints _ r \<longleftrightarrow> False"

fun ends :: "handoff_record \<Rightarrow> handoff_op \<Rightarrow> bool" where
  "ends r (HRegister p tok now) \<longleftrightarrow> hp_session p = hr_session r \<and> hp_session p \<noteq> [] \<and> hp_scope p \<noteq> []"
| "ends r (HRedeem t now) \<longleftrightarrow> t = hr_token r \<and> t \<noteq> []"
| "ends r (HRedeemAsync t now) \<longleftrightarrow> t = hr_token r \<and> t \<noteq> []"
| "ends r (HRevoke t) \<longleftrightarrow> t = hr_token r \<and> t \<noteq> []"
| "ends r (HPrune now) \<longleftrightarrow> hr_expires r \<le> now"
| "ends r HDispose \<longleftrightarrow> True"
| "ends r HRestart \<longleftrightarrow> True"

definition live_handoff :: "handoff_op list \<Rightarrow> handoff_record \<Rightarrow> bool" where
  "live_handoff ops r = foldl (\<lambda>live op. mints op r \<or> (live \<and> \<not> ends r op)) False ops"

lemma live_snoc: "live_handoff (ops @ [op]) r \<longleftrightarrow> mints op r \<or> (live_handoff ops r \<and> \<not> ends r op)"
  by (simp add: live_handoff_def)

lemma prune_session:
  "jget (hm_by_session (foldl (\<lambda>t (k, r). forget (hr_token r) k t) s gone)) k =
    (if k \<in> fst ` set gone then None else jget (hm_by_session s) k)"
proof (induction gone arbitrary: s)
  case (Cons g gone)
  then show ?case by (cases g) (simp add: jm)
qed simp

lemma prune_expired_session:
  assumes "jwf (hm_by_session s)"
  shows "jget (hm_by_session (snd (prune_expired now s))) k = Some r \<longleftrightarrow>
    jget (hm_by_session s) k = Some r \<and> now < hr_expires r"
proof -
  let ?gone = "filter (\<lambda>(_, r). hr_expires r \<le> now) (hm_by_session s)"
  have "k \<in> fst ` set ?gone \<longleftrightarrow> (\<exists>q. jget (hm_by_session s) k = Some q \<and> hr_expires q \<le> now)"
    using jget_in_set [OF assms] by force
  then show ?thesis by (auto simp: prune_expired_def Let_def prune_session)
qed

lemma forget_session:
  assumes "jget (hm_by_session s) j = Some q" "hr_token q = t" "handoff_wf s"
  shows "jget (hm_by_session (persist_delete t (forget t j s))) k = Some r \<longleftrightarrow>
    jget (hm_by_session s) k = Some r \<and> hr_token r \<noteq> t"
proof -
  have "jget (hm_by_session s) k = Some r \<Longrightarrow> hr_token r = t \<Longrightarrow> k = j"
    using assms unfolding handoff_wf_def by (metis option.inject)
  then show ?thesis using assms(1,2) by (auto simp: jm)
qed

lemma redeem_session:
  assumes "handoff_wf s"
  shows "jget (hm_by_session (snd (redeem t now s))) k = Some r \<longleftrightarrow>
    jget (hm_by_session s) k = Some r \<and> \<not> (t = hr_token r \<and> t \<noteq> [])"
proof (cases "t = [] \<or> jget (hm_by_token s) t = None")
  case True
  have "t \<noteq> hr_token r" if "jget (hm_by_session s) k = Some r" "t \<noteq> []"
    using assms that True unfolding handoff_wf_def by force
  then show ?thesis using True by (auto simp: redeem_def)
next
  case False
  then obtain j q where j: "jget (hm_by_token s) t = Some j" "jget (hm_by_session s) j = Some q" "hr_token q = t"
    using assms unfolding handoff_wf_def by blast
  then have "snd (redeem t now s) = persist_delete t (forget t j s)"
    using False by (simp add: redeem_def Let_def)
  then show ?thesis using forget_session [OF j(2,3) assms, of k r] False by auto
qed

lemma revoke_session:
  assumes "handoff_wf s"
  shows "jget (hm_by_session (snd (revoke t s))) k = Some r \<longleftrightarrow>
    jget (hm_by_session s) k = Some r \<and> \<not> (t = hr_token r \<and> t \<noteq> [])"
proof -
  have "jget (hm_by_token s) t = Some j \<Longrightarrow> jget (hm_by_session s) j \<noteq> None" for j
    using assms unfolding handoff_wf_def by blast
  then have "snd (revoke t s) = snd (redeem t 0 s)"
    by (auto simp: redeem_def revoke_def Let_def split: option.split)
  then show ?thesis using redeem_session [OF assms] by simp
qed

lemma register_session:
  assumes w: "handoff_wf s" and fresh: "jget (hm_by_token s) tok = None"
    and reg: "register_handoff p tok now s = Inr (x, s')"
  shows "jget (hm_by_session s') k = Some r \<longleftrightarrow>
    (if k = hp_session p then mints (HRegister p tok now) r else jget (hm_by_session s) k = Some r)"
proof (cases "jget (hm_by_session s) (hp_session p)")
  case None
  then show ?thesis using reg by (auto simp: register_handoff_def Let_def jm split: if_splits)
next
  case (Some prior)
  then have "hr_session prior = hp_session p" using w by (simp add: handoff_wf_def)
  then show ?thesis using reg Some by (auto simp: register_handoff_def Let_def jm split: if_splits)
qed

lemma step_session:
  assumes w: "handoff_wf s" and fresh: "\<And>t. t \<in> set (minted op) \<Longrightarrow> jget (hm_by_token s) t = None"
  shows "jget (hm_by_session (handoff_step s op)) k = Some r \<longleftrightarrow>
    (hr_session r = k \<and> mints op r) \<or> (jget (hm_by_session s) k = Some r \<and> \<not> ends r op)"
proof -
  have own: "jget (hm_by_session s) k = Some r \<Longrightarrow> hr_session r = k" using w by (simp add: handoff_wf_def)
  show ?thesis
  proof (cases op)
    case (HRegister p tok now)
    show ?thesis
    proof (cases "register_handoff p tok now s")
      case (Inl e)
      then show ?thesis using HRegister by (auto simp: register_handoff_def Let_def split: if_splits)
    next
      case (Inr xs)
      obtain x s' where xs: "xs = (x, s')" by (cases xs)
      have "hp_session p \<noteq> [] \<and> hp_scope p \<noteq> []"
        using Inr by (auto simp: register_handoff_def split: if_splits)
      then show ?thesis
        using HRegister Inr xs own register_session [OF w fresh [of tok] Inr [unfolded xs], of k r] by auto
    qed
  next
    case (HRedeem t now)
    then show ?thesis using redeem_session [OF w, of t now k r] by auto
  next
    case (HRedeemAsync t now)
    then show ?thesis using redeem_session [OF w, of t now k r] by (auto simp: redeem_async_memory)
  next
    case (HRevoke t)
    then show ?thesis using revoke_session [OF w, of t k r] by auto
  next
    case (HPrune now)
    have "jwf (hm_by_session s)" using w by (simp add: handoff_wf_def)
    then show ?thesis using HPrune prune_expired_session [of s now k r] by auto
  qed (simp_all add: dispose_handoffs_def restart_def)
qed

lemma fresh_tokens:
  assumes "distinct (minted_by (ops @ [op]))" "t \<in> set (minted op)"
  shows "jget (hm_by_token (handoffs b ops)) t = None"
proof (rule ccontr)
  assume "jget (hm_by_token (handoffs b ops)) t \<noteq> None"
  then obtain k where k: "jget (hm_by_token (handoffs b ops)) t = Some k" by blast
  have d: "distinct (minted_by ops)" and apart: "set (minted_by ops) \<inter> set (minted op) = {}"
    using assms(1) by simp_all
  have "t \<in> set (minted_by ops)" using conjunct2 [OF handoffs_wf [OF d], rule_format, OF k] .
  with assms(2) apart show False by (simp add: disjoint_iff)
qed

lemma session_map_is_live:
  "distinct (minted_by ops) \<Longrightarrow>
    jget (hm_by_session (handoffs b ops)) k = Some r \<longleftrightarrow> hr_session r = k \<and> live_handoff ops r"
proof (induction ops rule: rev_induct)
  case Nil
  then show ?case by (simp add: handoffs_def new_manager_def live_handoff_def)
next
  case (snoc op ops)
  have d: "distinct (minted_by ops)" using snoc.prems by simp
  show ?case unfolding handoffs_snoc live_snoc
    using step_session [OF conjunct1 [OF handoffs_wf [OF d, of b]] fresh_tokens [OF snoc.prems], where k = k and r = r]
      snoc.IH [OF d] by blast
qed

text \<open>C14 (refinement). A token handed to \<open>redeem\<close> yields a redemption exactly when the history of
  operations says that some registration minted it, that no later operation ended that handoff (another
  registration of the same session, a redemption or a revocation of the token, a prune past its expiry, a
  disposal, a restart) and that it has not expired; the redemption then carries that registration's
  session, scope, creation and expiry times. Minted tokens are assumed never to repeat.\<close>

theorem redeem_follows_history:
  assumes "distinct (minted_by ops)"
  shows "fst (redeem t now (handoffs persistent ops)) = Some rd \<longleftrightarrow>
    (\<exists>r. live_handoff ops r \<and> hr_token r = t \<and> t \<noteq> [] \<and> now < hr_expires r \<and> rd = redemption_of r now)"
proof -
  let ?s = "handoffs persistent ops"
  have w: "handoff_wf ?s" by (rule conjunct1 [OF handoffs_wf [OF assms]])
  have tok: "jget (hm_by_token ?s) t = Some k \<longleftrightarrow> (\<exists>r. jget (hm_by_session ?s) k = Some r \<and> hr_token r = t)" for k
    using w unfolding handoff_wf_def by blast
  have "fst (redeem t now ?s) = Some rd \<longleftrightarrow> (\<exists>k r. t \<noteq> [] \<and> jget (hm_by_token ?s) t = Some k
      \<and> jget (hm_by_session ?s) k = Some r \<and> now < hr_expires r \<and> rd = redemption_of r now)"
    by (auto simp: redeem_def Let_def split: option.split)
  also have "\<dots> \<longleftrightarrow> (\<exists>k r. t \<noteq> [] \<and> hr_token r = t
      \<and> jget (hm_by_session ?s) k = Some r \<and> now < hr_expires r \<and> rd = redemption_of r now)"
    unfolding tok by (metis option.inject)
  finally show ?thesis unfolding session_map_is_live [OF assms] by auto
qed

theorem redeem_follows_history_witness:
  "fst (redeem ''tA'' 20 (handoffs False [HRegister \<lparr>hp_session = ''s1'', hp_scope = ''all'', hp_ttl = Some (Fin 50)\<rparr> ''tA'' 10]))
    = Some \<lparr>rd_session = ''s1'', rd_scope = ''all'', rd_expires = 60, rd_created = 10, rd_redeemed = 20\<rparr>"
proof -
  have d: "distinct (minted_by [HRegister \<lparr>hp_session = ''s1'', hp_scope = ''all'', hp_ttl = Some (Fin 50)\<rparr> ''tA'' 10])"
    by simp
  show ?thesis
    by (rule redeem_follows_history [OF d, THEN iffD2],
        rule exI [of _ "\<lparr>hr_session = ''s1'', hr_scope = ''all'', hr_token = ''tA'', hr_expires = 60, hr_created = 10\<rparr>"])
      (simp add: live_handoff_def normalize_ttl_def redemption_of_def)
qed

section \<open>Single use\<close>

definition redeem_by :: "bool \<Rightarrow> string \<Rightarrow> int \<Rightarrow> handoff_state \<Rightarrow> redemption option \<times> handoff_state" where
  "redeem_by async t now s = (if async then redeem_async t now s else redeem t now s)"

definition dead_token :: "string \<Rightarrow> handoff_state \<Rightarrow> bool" where
  "dead_token t s \<longleftrightarrow> (t = [] \<or> jget (hm_by_token s) t = None)
     \<and> (case hm_store s of None \<Rightarrow> True | Some m \<Rightarrow> jget m t = None)"

lemma redeem_tokens: "jget (hm_by_token s) t = None \<Longrightarrow> jget (hm_by_token (snd (redeem u now s))) t = None"
  by (auto simp: redeem_def Let_def jm split: option.split)

lemma redeem_store:
  "case hm_store s of None \<Rightarrow> True | Some m \<Rightarrow> jget m t = None \<Longrightarrow>
    case hm_store (snd (redeem u now s)) of None \<Rightarrow> True | Some m \<Rightarrow> jget m t = None"
  by (auto simp: redeem_def Let_def jm split: option.split option.split_asm)

lemma dead_redeem:
  assumes "dead_token t s"
  shows "dead_token t (snd (redeem u now s))"
proof -
  have "t = [] \<or> jget (hm_by_token (snd (redeem u now s))) t = None"
    using assms redeem_tokens [of s t u now] by (auto simp: dead_token_def)
  moreover have "case hm_store s of None \<Rightarrow> True | Some m \<Rightarrow> jget m t = None" using assms by (simp add: dead_token_def)
  note redeem_store [OF this]
  ultimately show ?thesis unfolding dead_token_def by (rule conjI)
qed

lemma dead_persist_delete [simp]: "dead_token t s \<Longrightarrow> dead_token t (persist_delete u s)"
  by (auto simp: dead_token_def jm split: option.split option.split_asm)

lemma redeem_async_cases:
  "snd (redeem_async t now s) = snd (redeem t now s)
    \<or> snd (redeem_async t now s) = persist_delete t (snd (redeem t now s))"
proof -
  obtain o' s' where r: "redeem t now s = (o', s')" by (cases "redeem t now s")
  show ?thesis
    by (cases o')
      (auto simp: r redeem_async_def redeem_async_start_def redeem_async_get_def redeem_async_finish_def
        split: redeem_pc.split option.split)
qed

lemma dead_register:
  assumes "dead_token t s" "t \<noteq> tok" "register_handoff p tok now s = Inr (x, s')"
  shows "dead_token t s'"
  using assms
  by (auto simp: dead_token_def register_handoff_def Let_def jm split: if_splits option.split option.split_asm)

lemma dead_prune: "dead_token t s \<Longrightarrow> dead_token t (snd (prune_expired now s))"
proof -
  assume d: "dead_token t s"
  have "jget (hm_by_token (snd (prune_expired now s))) t = Some k \<Longrightarrow> jget (hm_by_token s) t = Some k" for k
    using prune_tokens by (simp add: prune_expired_def Let_def)
  then have "jget (hm_by_token s) t = None \<Longrightarrow> jget (hm_by_token (snd (prune_expired now s))) t = None"
    by (cases "jget (hm_by_token (snd (prune_expired now s))) t") auto
  moreover have "hm_store (snd (prune_expired now s)) = hm_store s" by (simp add: prune_expired_def Let_def)
  ultimately show ?thesis using d unfolding dead_token_def by auto
qed

lemma dead_step:
  assumes "dead_token t s" "t \<notin> set (minted op)"
  shows "dead_token t (handoff_step s op)"
proof (cases op)
  case (HRegister p tok now)
  then show ?thesis using assms dead_register [OF assms(1), of tok p now] by (auto split: sum.split)
next
  case (HRedeem u now)
  then show ?thesis using dead_redeem [OF assms(1)] by simp
next
  case (HRedeemAsync u now)
  then show ?thesis
    using redeem_async_cases [of u now s] dead_redeem [OF assms(1), of u now] dead_persist_delete by auto
next
  case (HRevoke u)
  then show ?thesis using assms(1)
    by (auto simp: revoke_def dead_token_def jm split: option.split option.split_asm)
next
  case (HPrune now)
  then show ?thesis using dead_prune [OF assms(1)] by simp
qed (use assms(1) in \<open>simp_all add: dead_token_def dispose_handoffs_def restart_def\<close>)

lemma dead_run: "dead_token t s \<Longrightarrow> t \<notin> set (minted_by ops) \<Longrightarrow> dead_token t (foldl handoff_step s ops)"
  by (induction ops arbitrary: s) (simp_all add: dead_step)

lemma dead_refused: "dead_token t s \<Longrightarrow> fst (redeem_by async t now s) = None"
proof -
  assume d: "dead_token t s"
  have r: "redeem t now s = (None, s)" using d by (auto simp: dead_token_def redeem_def)
  show ?thesis using d
    by (auto simp: redeem_by_def r redeem_async_def redeem_async_start_def redeem_async_get_def dead_token_def
      split: option.split option.split_asm redeem_pc.split)
qed

lemma redeemed_is_dead:
  assumes "fst (redeem t now s) = Some rd"
  shows "dead_token t (snd (redeem t now s))"
  using assms by (auto simp: redeem_def Let_def dead_token_def jm split: option.split_asm if_splits option.split)

lemma async_redeemed_is_dead:
  assumes "fst (redeem_async t now s) = Some rd"
  shows "dead_token t (snd (redeem_async t now s))"
proof (cases "fst (redeem t now s)")
  case (Some q)
  then have "redeem_async t now s = redeem t now s"
    by (cases "redeem t now s") (simp add: redeem_async_def redeem_async_start_def)
  then show ?thesis using redeemed_is_dead [OF Some] by simp
next
  case None
  obtain s' where r: "redeem t now s = (None, s')" using None by (cases "redeem t now s") simp
  have "t = [] \<or> jget (hm_by_token s') t = None"
    using r by (auto simp: redeem_def Let_def jm split: option.split_asm if_splits)
  moreover have "snd (redeem_async t now s) = persist_delete t s'"
    using assms r
    by (auto simp: redeem_async_def redeem_async_start_def redeem_async_get_def redeem_async_finish_def
      split: option.split_asm if_splits)
  ultimately show ?thesis by (auto simp: dead_token_def jm split: option.split)
qed


definition sample_registration :: handoff_op where
  "sample_registration = HRegister \<lparr>hp_session = ''s1'', hp_scope = ''all'', hp_ttl = Some (Fin 50)\<rparr> ''tA'' 10"


section \<open>Where single use stops\<close>

text \<open>The consumption in \<open>redeemAsync\<close> follows an await: two overlapping calls both read the persisted
  record, and both return a redemption.\<close>

lemma overlapping_redemptions:
  "let s = handoffs True [sample_registration, HRestart];
       (_, s1) = redeem_async_start ''tA'' 20 s;
       (_, s2) = redeem_async_start ''tA'' 20 s1;
       r1 = redeem_async_get ''tA'' s2;
       r2 = redeem_async_get ''tA'' s2
   in (case (r1, r2) of
         (GotRecord q1, GotRecord q2) \<Rightarrow>
            (let (a, s3) = redeem_async_finish ''tA'' q1 20 s2; (b, _) = redeem_async_finish ''tA'' q2 20 s3
             in a \<noteq> None \<and> b \<noteq> None)
       | _ \<Rightarrow> False)"
  by code_simp

text \<open>After a restart the token of the previous process is only in the store: revoking it returns false and
  leaves it redeemable.\<close>

lemma revoke_misses_persisted_token:
  "let s = handoffs True [sample_registration, HRestart, HRevoke ''tA'']
   in fst (redeem_by True ''tA'' 20 s) \<noteq> None"
  by code_simp

text \<open>So is registering the same session again: two tokens of one session are then redeemable.\<close>

lemma rotation_misses_persisted_token:
  "let s = handoffs True [sample_registration, HRestart,
             HRegister \<lparr>hp_session = ''s1'', hp_scope = ''all'', hp_ttl = None\<rparr> ''tB'' 15]
   in fst (redeem_by True ''tA'' 20 s) \<noteq> None \<and> fst (redeem_by True ''tB'' 20 s) \<noteq> None"
  by code_simp

text \<open>The comparison accepts a candidate exactly when it is the expected token and well-formed.\<close>

lemma verify_accepts: "verify_handoff_token c e \<longleftrightarrow> c = e \<and> token_wellformed e"
  by (auto simp: verify_handoff_token_def token_wellformed_def)

end
