(* ===== verification/Rate_Limiter.thy ===== *)
theory Rate_Limiter
  imports Oc_Prelude Complex_Main
begin

text \<open>
  Request throttling, \<open>src/src/mcp/rate-limiter.ts\<close>: a token bucket per key (a session or a tenant) that
  refills continuously. Token counts are rational numbers, so floating-point rounding is not modelled.
  The clock readings \<open>Date.now()\<close> of one synchronous call coincide and are its argument \<open>now\<close>.
\<close>

section \<open>The bucket\<close>

record limits =
  rl_max :: rat
  rl_rate :: rat

record bucket =
  tb_tokens :: rat
  tb_refilled :: int
  tb_used :: int

definition new_bucket :: "limits \<Rightarrow> int \<Rightarrow> bucket" where
  "new_bucket l now = \<lparr>tb_tokens = rl_max l, tb_refilled = now, tb_used = now\<rparr>"

definition refill :: "limits \<Rightarrow> int \<Rightarrow> bucket \<Rightarrow> bucket" where
  "refill l now b =
     (let elapsed = of_int (now - tb_refilled b) / 1000
      in b\<lparr>tb_tokens := min (rl_max l) (tb_tokens b + elapsed * rl_rate l), tb_refilled := now\<rparr>)"

definition consume :: "limits \<Rightarrow> int \<Rightarrow> bucket \<Rightarrow> bool \<times> bucket" where
  "consume l now b =
     (let b' = refill l now (b\<lparr>tb_used := now\<rparr>)
      in if 1 \<le> tb_tokens b' then (True, b'\<lparr>tb_tokens := tb_tokens b' - 1\<rparr>) else (False, b'))"

text \<open>Seconds; \<open>None\<close> is \<open>Infinity\<close>, the quotient by a rate of zero.\<close>

definition retry_after :: "limits \<Rightarrow> int \<Rightarrow> bucket \<Rightarrow> int option \<times> bucket" where
  "retry_after l now b =
     (let b' = refill l now b
      in (if 1 \<le> tb_tokens b' then Some 0
          else if rl_rate l = 0 then None
          else Some \<lceil>(1 - tb_tokens b') / rl_rate l\<rceil>, b'))"

definition available_tokens :: "limits \<Rightarrow> int \<Rightarrow> bucket \<Rightarrow> int \<times> bucket" where
  "available_tokens l now b = (let b' = refill l now b in (\<lfloor>tb_tokens b'\<rfloor>, b'))"

section \<open>The limiter\<close>

record limiter =
  lm_limits :: limits
  lm_buckets :: "(string, bucket) jmap"

definition new_limiter :: "rat \<Rightarrow> limiter" where
  "new_limiter per_minute = \<lparr>lm_limits = \<lparr>rl_max = per_minute, rl_rate = per_minute / 60\<rparr>, lm_buckets = []\<rparr>"

datatype rate_verdict = Allowed | Refused "int option"

definition check_rate :: "string \<Rightarrow> int \<Rightarrow> limiter \<Rightarrow> rate_verdict \<times> limiter" where
  "check_rate key now s =
     (let l = lm_limits s;
          b = (case jget (lm_buckets s) key of Some b \<Rightarrow> b | None \<Rightarrow> new_bucket l now);
          (ok, b') = consume l now b
      in if ok then (Allowed, s\<lparr>lm_buckets := jset key b' (lm_buckets s)\<rparr>)
         else (let (sec, b'') = retry_after l now b'
               in (Refused sec, s\<lparr>lm_buckets := jset key b'' (lm_buckets s)\<rparr>)))"

definition remove_key :: "string \<Rightarrow> limiter \<Rightarrow> limiter" where
  "remove_key key s = s\<lparr>lm_buckets := jdel key (lm_buckets s)\<rparr>"

definition tenant_key :: "string \<Rightarrow> string" where "tenant_key t = ''tenant:'' @ t"

definition sweep :: "int \<Rightarrow> int \<Rightarrow> limiter \<Rightarrow> nat \<times> limiter" where
  "sweep max_idle now s =
     (let cutoff = now - max_idle;
          kept = jkeep (\<lambda>_ b. \<not> tb_used b < cutoff) (lm_buckets s)
      in (length (lm_buckets s) - length kept, s\<lparr>lm_buckets := kept\<rparr>))"

section \<open>Runs\<close>

datatype limiter_op = Check string int | Sweep int int | Remove string int

fun limiter_time :: "limiter_op \<Rightarrow> int" where
  "limiter_time (Check _ now) = now"
| "limiter_time (Sweep _ now) = now"
| "limiter_time (Remove _ now) = now"

fun limiter_step :: "limiter \<Rightarrow> limiter_op \<Rightarrow> limiter" where
  "limiter_step s (Check key now) = snd (check_rate key now s)"
| "limiter_step s (Sweep idle now) = snd (sweep idle now s)"
| "limiter_step s (Remove key now) = remove_key key s"

fun admits :: "string \<Rightarrow> limiter \<Rightarrow> limiter_op \<Rightarrow> nat" where
  "admits key s (Check k now) = (if k = key \<and> fst (check_rate k now s) = Allowed then 1 else 0)"
| "admits key s _ = 0"

text \<open>How many checks of the key are allowed in a run.\<close>

fun admitted :: "string \<Rightarrow> limiter \<Rightarrow> limiter_op list \<Rightarrow> nat" where
  "admitted key s [] = 0"
| "admitted key s (op # ops) = admits key s op + admitted key (limiter_step s op) ops"

text \<open>A run that keeps the key's bucket unless it has been idle for a minute.\<close>

fun keeps_bucket :: "string \<Rightarrow> limiter_op \<Rightarrow> bool" where
  "keeps_bucket key (Check _ _) = True"
| "keeps_bucket key (Sweep idle _) = (60000 \<le> idle)"
| "keeps_bucket key (Remove k _) = (k \<noteq> key)"

section \<open>Invariant and level\<close>

definition bucket_ok :: "limits \<Rightarrow> int \<Rightarrow> bucket \<Rightarrow> bool" where
  "bucket_ok l now b \<longleftrightarrow> 0 \<le> tb_tokens b \<and> tb_tokens b \<le> rl_max l \<and> tb_refilled b = tb_used b \<and> tb_used b \<le> now"

definition limiter_wf :: "int \<Rightarrow> limiter \<Rightarrow> bool" where
  "limiter_wf now s \<longleftrightarrow> 0 \<le> rl_max (lm_limits s) \<and> rl_rate (lm_limits s) = rl_max (lm_limits s) / 60
     \<and> jwf (lm_buckets s) \<and> (\<forall>k b. jget (lm_buckets s) k = Some b \<longrightarrow> bucket_ok (lm_limits s) now b)"

text \<open>What the bucket of a key holds at a time; a key without a bucket has a full one.\<close>

definition level :: "string \<Rightarrow> int \<Rightarrow> limiter \<Rightarrow> rat" where
  "level key now s =
     (case jget (lm_buckets s) key of
        None \<Rightarrow> rl_max (lm_limits s)
      | Some b \<Rightarrow> tb_tokens (refill (lm_limits s) now b))"

lemma wf_later: "limiter_wf t s \<Longrightarrow> t \<le> now \<Longrightarrow> limiter_wf now s"
  by (fastforce simp: limiter_wf_def bucket_ok_def)

lemma refill_ok:
  "0 \<le> rl_rate l \<Longrightarrow> 0 \<le> rl_max l \<Longrightarrow> bucket_ok l now b \<Longrightarrow>
    0 \<le> tb_tokens (refill l now b) \<and> tb_tokens (refill l now b) \<le> rl_max l"
  by (auto simp: bucket_ok_def refill_def Let_def)

lemma refill_again [simp]: "tb_tokens b \<le> rl_max l \<Longrightarrow> tb_refilled b = now \<Longrightarrow> tb_tokens (refill l now b) = tb_tokens b"
  by (simp add: refill_def)

lemma refill_fields [simp]: "tb_refilled (refill l now b) = now" "tb_used (refill l now b) = tb_used b"
  by (simp_all add: refill_def Let_def)

lemma refill_used [simp]: "refill l now (b\<lparr>tb_used := u\<rparr>) = (refill l now b)\<lparr>tb_used := u\<rparr>"
  by (simp add: refill_def Let_def)

lemma refill_new [simp]: "refill l now (new_bucket l now) = new_bucket l now"
  by (simp add: refill_def new_bucket_def)

lemma new_bucket_fields [simp]: "tb_tokens (new_bucket l now) = rl_max l"
  by (simp add: new_bucket_def)

definition bucket_of :: "string \<Rightarrow> int \<Rightarrow> limiter \<Rightarrow> bucket" where
  "bucket_of key now s = refill (lm_limits s) now
     (case jget (lm_buckets s) key of Some b \<Rightarrow> b | None \<Rightarrow> new_bucket (lm_limits s) now)"

lemma level_bucket: "level key now s = tb_tokens (bucket_of key now s)"
  by (simp add: level_def bucket_of_def split: option.split)

lemma level_bounds:
  assumes "limiter_wf t s" "t \<le> now"
  shows "0 \<le> level key now s" "level key now s \<le> rl_max (lm_limits s)"
proof -
  have w: "limiter_wf now s" using assms by (rule wf_later)
  have "0 \<le> level key now s \<and> level key now s \<le> rl_max (lm_limits s)"
  proof (cases "jget (lm_buckets s) key")
    case (Some b)
    then have "bucket_ok (lm_limits s) now b" using w by (simp add: limiter_wf_def)
    then show ?thesis using Some w refill_ok [of "lm_limits s" now b] by (simp add: level_def limiter_wf_def)
  qed (use w in \<open>simp add: level_def limiter_wf_def\<close>)
  then show "0 \<le> level key now s" "level key now s \<le> rl_max (lm_limits s)" by simp_all
qed

text \<open>A check is decided by the level and takes one token from it when it passes.\<close>

lemma check_state:
  assumes "limiter_wf t s" "t \<le> now"
  shows "snd (check_rate key now s) = s\<lparr>lm_buckets := jset key
     (\<lparr>tb_tokens = level key now s - (if 1 \<le> level key now s then 1 else 0), tb_refilled = now, tb_used = now\<rparr>)
     (lm_buckets s)\<rparr>"
    and "fst (check_rate key now s) = Allowed \<longleftrightarrow> 1 \<le> level key now s"
    and "level key now s < 1 \<Longrightarrow> fst (check_rate key now s) =
       Refused (if rl_rate (lm_limits s) = 0 then None else Some \<lceil>(1 - level key now s) / rl_rate (lm_limits s)\<rceil>)"
proof -
  let ?l = "lm_limits s"
  define b where "b = (case jget (lm_buckets s) key of Some b \<Rightarrow> b | None \<Rightarrow> new_bucket ?l now)"
  have L: "level key now s = tb_tokens (refill ?l now b)" by (simp add: level_bucket bucket_of_def b_def)
  have le: "tb_tokens (refill ?l now b) \<le> rl_max ?l" by (simp add: refill_def Let_def)
  have again: "refill ?l now ((refill ?l now b)\<lparr>tb_used := now\<rparr>) = (refill ?l now b)\<lparr>tb_used := now\<rparr>"
    using le by (simp add: refill_def Let_def min_def)
  have rec: "(refill ?l now b)\<lparr>tb_used := now, tb_tokens := x\<rparr> = \<lparr>tb_tokens = x, tb_refilled = now, tb_used = now\<rparr>" for x
    by (cases "refill ?l now b") (metis bucket.select_convs(2) bucket.update_convs(1,3) refill_fields(1))
  have c: "check_rate key now s = (let (ok, b') = consume ?l now b
      in if ok then (Allowed, s\<lparr>lm_buckets := jset key b' (lm_buckets s)\<rparr>)
         else (let (sec, b'') = retry_after ?l now b'
               in (Refused sec, s\<lparr>lm_buckets := jset key b'' (lm_buckets s)\<rparr>)))"
    by (simp add: check_rate_def b_def Let_def)
  have cons: "consume ?l now b = (1 \<le> level key now s,
      \<lparr>tb_tokens = level key now s - (if 1 \<le> level key now s then 1 else 0), tb_refilled = now, tb_used = now\<rparr>)"
    using rec [of "level key now s - 1"] rec [of "level key now s"]
    by (auto simp: consume_def Let_def L)
  show "snd (check_rate key now s) = s\<lparr>lm_buckets := jset key
     (\<lparr>tb_tokens = level key now s - (if 1 \<le> level key now s then 1 else 0), tb_refilled = now, tb_used = now\<rparr>)
     (lm_buckets s)\<rparr>"
    "fst (check_rate key now s) = Allowed \<longleftrightarrow> 1 \<le> level key now s"
    "level key now s < 1 \<Longrightarrow> fst (check_rate key now s) =
       Refused (if rl_rate ?l = 0 then None else Some \<lceil>(1 - level key now s) / rl_rate ?l\<rceil>)"
    using le unfolding c cons L [symmetric] by (auto simp: retry_after_def refill_def Let_def)
qed

lemma rate_check_wf:
  assumes "limiter_wf t s" "t \<le> now"
  shows "limiter_wf now (snd (check_rate key now s))"
proof -
  have w: "limiter_wf now s" using assms by (rule wf_later)
  have b: "0 \<le> level key now s" "level key now s \<le> rl_max (lm_limits s)" using level_bounds [OF assms] by simp_all
  show ?thesis unfolding check_state(1) [OF assms] using w b
    by (auto simp: limiter_wf_def bucket_ok_def jm)
qed

lemma sweep_wf: "limiter_wf t s \<Longrightarrow> t \<le> now \<Longrightarrow> limiter_wf now (snd (sweep idle now s))"
  using wf_later [of t s now] by (auto simp: sweep_def Let_def limiter_wf_def jm split: option.splits if_splits)

lemma remove_wf: "limiter_wf t s \<Longrightarrow> t \<le> now \<Longrightarrow> limiter_wf now (remove_key key s)"
  using wf_later [of t s now] by (auto simp: remove_key_def limiter_wf_def jm split: if_splits)

lemma limiter_step_wf: "limiter_wf t s \<Longrightarrow> t \<le> limiter_time op \<Longrightarrow> limiter_wf (limiter_time op) (limiter_step s op)"
  by (cases op) (simp_all add: rate_check_wf sweep_wf remove_wf)

lemma step_limits [simp]: "lm_limits (limiter_step s op) = lm_limits s"
  by (cases op) (auto simp: check_rate_def sweep_def remove_key_def Let_def split: prod.splits)

text \<open>A removed idle bucket was full again, so a sweep that spares the last minute changes no level.\<close>

lemma sweep_level:
  assumes "limiter_wf t s" "t \<le> now" "60000 \<le> idle"
  shows "level key now (snd (sweep idle now s)) = level key now s"
proof (cases "jget (lm_buckets s) key")
  case (Some b)
  let ?l = "lm_limits s"
  have w: "limiter_wf now s" using assms(1,2) by (rule wf_later)
  then have ok: "bucket_ok ?l now b" and m: "0 \<le> rl_max ?l" "rl_rate ?l = rl_max ?l / 60" "jwf (lm_buckets s)"
    using Some by (simp_all add: limiter_wf_def)
  show ?thesis
  proof (cases "tb_used b < now - idle")
    case True
    define e where "e = (of_int (now - tb_refilled b) :: rat) / 1000"
    have "60 \<le> e" using True ok assms(3) by (simp add: bucket_ok_def e_def)
    then have "60 * (rl_max ?l / 60) \<le> e * (rl_max ?l / 60)" using m(1) by (intro mult_right_mono) simp_all
    then have "rl_max ?l \<le> tb_tokens b + e * rl_rate ?l"
      using ok unfolding m(2) bucket_ok_def by linarith
    then have "rl_max ?l \<le> tb_tokens b + of_int (now - tb_refilled b) / 1000 * rl_rate ?l"
      by (simp only: e_def)
    then have "level key now s = rl_max ?l" using Some by (simp add: level_def refill_def Let_def)
    moreover have "jget (lm_buckets (snd (sweep idle now s))) key = None"
      using Some True m(3) by (simp add: sweep_def Let_def jm)
    ultimately show ?thesis by (simp add: level_def sweep_def Let_def)
  next
    case False
    then have "jget (lm_buckets (snd (sweep idle now s))) key = Some b"
      using Some m(3) by (simp add: sweep_def Let_def jm)
    then show ?thesis using Some by (simp add: level_def sweep_def Let_def)
  qed
next
  case None
  have "jget (lm_buckets (snd (sweep idle now s))) key = None"
    using None assms(1) by (simp add: sweep_def Let_def jm limiter_wf_def)
  then show ?thesis using None by (simp add: level_def sweep_def Let_def)
qed

lemma sweep_level_ge:
  assumes "limiter_wf t s" "t \<le> now"
  shows "level key now s \<le> level key now (snd (sweep idle now s))"
proof (cases "jget (lm_buckets (snd (sweep idle now s))) key")
  case None
  then show ?thesis using level_bounds(2) [OF assms] by (simp add: level_def sweep_def Let_def)
next
  case (Some b)
  then have "jget (lm_buckets s) key = Some b"
    using assms(1) by (auto simp: sweep_def Let_def jm limiter_wf_def split: option.splits if_splits)
  then show ?thesis using Some by (simp add: level_def sweep_def Let_def)
qed

lemma check_level:
  assumes "limiter_wf t s" "t \<le> now"
  shows "level key now (snd (check_rate k now s)) = level key now s - of_nat (admits key s (Check k now))"
proof (cases "k = key")
  case True
  have "level key now (snd (check_rate k now s)) = level key now s - (if 1 \<le> level key now s then 1 else 0)"
    unfolding check_state(1) [OF assms] using True level_bounds [OF assms, of key]
    by (subst level_def) (simp add: jm refill_def)
  then show ?thesis using True by (simp add: check_state(2) [OF assms])
next
  case False
  then show ?thesis unfolding check_state(1) [OF assms]
    by (cases "jget (lm_buckets s) key") (simp_all add: level_def jm)
qed

lemma step_level:
  assumes "limiter_wf t s" "t \<le> limiter_time op" "keeps_bucket key op"
  shows "level key (limiter_time op) (limiter_step s op) = level key (limiter_time op) s - of_nat (admits key s op)"
proof (cases op)
  case (Check k now)
  then show ?thesis using check_level [OF assms(1)] assms(2) by simp
next
  case (Sweep idle now)
  then show ?thesis using sweep_level [OF assms(1)] assms(2,3) by simp
next
  case (Remove k now)
  then show ?thesis using assms(3)
    by (cases "jget (lm_buckets s) key") (simp_all add: level_def remove_key_def jm)
qed

lemma level_some:
  "jget (lm_buckets s) key = Some b \<Longrightarrow> level key now s =
    min (rl_max (lm_limits s)) (tb_tokens b + of_int (now - tb_refilled b) / 1000 * rl_rate (lm_limits s))"
  by (simp add: level_def refill_def Let_def)

lemma level_grows:
  assumes "limiter_wf t s" "t \<le> now"
  shows "level key now s = min (rl_max (lm_limits s)) (level key t s + of_int (now - t) / 1000 * rl_rate (lm_limits s))"
proof -
  have r: "0 \<le> of_int (now - t) / 1000 * rl_rate (lm_limits s)" using assms by (simp add: limiter_wf_def)
  show ?thesis
  proof (cases "jget (lm_buckets s) key")
    case None
    then show ?thesis using r by (simp add: level_def)
  next
    case (Some b)
    define x y where "x = of_int (t - tb_refilled b) / 1000 * rl_rate (lm_limits s)"
      and "y = of_int (now - t) / 1000 * rl_rate (lm_limits s)"
    have "of_int (now - tb_refilled b) / 1000 * rl_rate (lm_limits s) = x + y"
      by (simp add: x_def y_def field_simps)
    then have "level key now s = min (rl_max (lm_limits s)) (tb_tokens b + (x + y))"
      using level_some [OF Some, of now] by (simp only:)
    moreover have "level key t s = min (rl_max (lm_limits s)) (tb_tokens b + x)"
      using level_some [OF Some, of t] by (simp only: x_def)
    moreover have "0 \<le> y" using r by (simp only: y_def)
    ultimately show ?thesis unfolding y_def [symmetric] by (simp add: min_def)
  qed
qed

section \<open>Reachable limiters\<close>

definition limiter_run :: "rat \<Rightarrow> limiter_op list \<Rightarrow> limiter" where
  "limiter_run per_minute ops = foldl limiter_step (new_limiter per_minute) ops"

lemma wf_new: "0 \<le> m \<Longrightarrow> limiter_wf t (new_limiter m)"
  by (simp add: limiter_wf_def new_limiter_def)

lemma run_limits [simp]: "lm_limits (foldl limiter_step s ops) = lm_limits s"
  by (induction ops arbitrary: s) simp_all

lemma run_wf:
  "limiter_wf t s \<Longrightarrow> sorted (t # map limiter_time ops @ [u]) \<Longrightarrow> limiter_wf u (foldl limiter_step s ops)"
proof (induction ops arbitrary: s t)
  case Nil
  then show ?case using wf_later by simp
next
  case (Cons op ops)
  then have "limiter_wf (limiter_time op) (limiter_step s op)" by (intro limiter_step_wf [of t]) simp_all
  then show ?case using Cons by simp
qed

lemma reached_wf:
  assumes "0 \<le> m" "sorted (map limiter_time ops @ [u])"
  shows "limiter_wf u (limiter_run m ops)"
proof (cases ops)
  case Nil
  then show ?thesis using wf_new [OF assms(1)] by (simp add: limiter_run_def)
next
  case (Cons op ops')
  then have "sorted (limiter_time op # map limiter_time ops @ [u])" using assms(2) by simp
  then show ?thesis unfolding limiter_run_def by (rule run_wf [OF wf_new [OF assms(1)]])
qed

lemma admitted_bound:
  "limiter_wf t s \<Longrightarrow> sorted (t # map limiter_time ops @ [u]) \<Longrightarrow> list_all (keeps_bucket key) ops \<Longrightarrow>
    of_nat (admitted key s ops) \<le> level key t s + of_int (u - t) / 1000 * rl_rate (lm_limits s)"
proof (induction ops arbitrary: s t)
  case Nil
  then have "0 \<le> of_int (u - t) / 1000 * rl_rate (lm_limits s)" by (simp add: limiter_wf_def)
  then show ?case using level_bounds(1) [OF Nil(1) order_refl, of key] by simp
next
  case (Cons op ops)
  let ?n = "limiter_time op" and ?r = "rl_rate (lm_limits s)"
  have t: "t \<le> ?n" and rest: "sorted (?n # map limiter_time ops @ [u])" using Cons.prems(2) by simp_all
  have "of_nat (admitted key (limiter_step s op) ops) \<le>
      level key ?n (limiter_step s op) + of_int (u - ?n) / 1000 * rl_rate (lm_limits (limiter_step s op))"
    using Cons.prems by (intro Cons.IH limiter_step_wf [OF Cons.prems(1) t] rest) simp
  moreover have "level key ?n (limiter_step s op) = level key ?n s - of_nat (admits key s op)"
    using Cons.prems(3) by (intro step_level [OF Cons.prems(1) t]) simp
  moreover have "level key ?n s \<le> level key t s + of_int (?n - t) / 1000 * ?r"
    unfolding level_grows [OF Cons.prems(1) t, of key] by simp
  moreover have "of_int (u - t) / 1000 * ?r = of_int (?n - t) / 1000 * ?r + of_int (u - ?n) / 1000 * ?r"
    by (simp add: field_simps)
  ultimately show ?case by (simp only: admitted.simps of_nat_add step_limits)
qed

section \<open>Properties\<close>



fun other_key :: "string \<Rightarrow> limiter_op \<Rightarrow> bool" where
  "other_key key (Check k _) = (k \<noteq> key)"
| "other_key key _ = True"

lemma other_level:
  assumes "limiter_wf t s" "t \<le> limiter_time op" "other_key key op"
  shows "level key (limiter_time op) s \<le> level key (limiter_time op) (limiter_step s op)"
proof (cases op)
  case (Check k now)
  then show ?thesis using check_level [OF assms(1), of now key k] assms(2,3) by simp
next
  case (Sweep idle now)
  then show ?thesis using sweep_level_ge [OF assms(1)] assms(2) by simp
next
  case (Remove k now)
  then show ?thesis using level_bounds(2) [OF assms(1,2), of key]
    by (cases "k = key"; cases "jget (lm_buckets s) key") (simp_all add: level_def remove_key_def jm)
qed

lemma level_waits:
  "limiter_wf t s \<Longrightarrow> sorted (t # map limiter_time ops @ [u]) \<Longrightarrow> list_all (other_key key) ops \<Longrightarrow>
    min (rl_max (lm_limits s)) (level key t s + of_int (u - t) / 1000 * rl_rate (lm_limits s))
      \<le> level key u (foldl limiter_step s ops)"
proof (induction ops arbitrary: s t)
  case Nil
  then show ?case using level_grows [of t s u key] by simp
next
  case (Cons op ops)
  let ?n = "limiter_time op" and ?r = "rl_rate (lm_limits s)" and ?m = "rl_max (lm_limits s)"
  have t: "t \<le> ?n" and rest: "sorted (?n # map limiter_time ops @ [u])" and un: "?n \<le> u"
    using Cons.prems(2) by simp_all
  define x where "x = of_int (?n - t) / 1000 * ?r"
  define y where "y = of_int (u - ?n) / 1000 * ?r"
  have "of_int (u - t) / 1000 * ?r = x + y" by (simp add: x_def y_def field_simps)
  moreover have "0 \<le> y" using Cons.prems(1) un by (simp add: y_def limiter_wf_def)
  moreover have "level key ?n s = min ?m (level key t s + x)"
    using level_grows [OF Cons.prems(1) t, of key] by (simp only: x_def)
  moreover have "level key ?n s \<le> level key ?n (limiter_step s op)"
    using Cons.prems(3) by (intro other_level [OF Cons.prems(1) t]) simp
  moreover have "min ?m (level key ?n (limiter_step s op) + y) \<le> level key u (foldl limiter_step (limiter_step s op) ops)"
    using Cons.IH [OF limiter_step_wf [OF Cons.prems(1) t] rest] Cons.prems(3)
    by (simp only: y_def step_limits list.pred_inject)
  ultimately show ?case by (simp only: foldl_Cons)
qed

lemma le_thousandth: "q \<le> c \<Longrightarrow> 1000 * c \<le> d \<Longrightarrow> q \<le> d / (1000 :: rat)"
  by simp

text \<open>The waiting time a refusal announces is enough: when a request of a key is refused with
  \<open>r\<close> seconds, that is a finite number, and the key's next request \<open>r\<close> seconds later or later still is
  admitted, whatever other requests, removals and sweeps happen in between (for a limit of at least one request
  per minute).\<close>

theorem retry_after_suffices:
  assumes "1 \<le> m" "s = limiter_run m before" "sorted (map limiter_time before @ [now])"
    and "fst (check_rate key now s) = Refused wait"
    and "list_all (other_key key) between" "sorted (now # map limiter_time between @ [later])"
  shows "case wait of None \<Rightarrow> False
    | Some r \<Rightarrow> if now + 1000 * r \<le> later
        then fst (check_rate key later (foldl limiter_step (snd (check_rate key now s)) between)) = Allowed else True"
proof -
  have m0: "0 \<le> m" using assms(1) by simp
  have w: "limiter_wf now s" unfolding assms(2) by (rule reached_wf [OF m0 assms(3)])
  have l: "rl_max (lm_limits s) = m" "rl_rate (lm_limits s) = m / 60"
    by (simp_all add: assms(2) limiter_run_def new_limiter_def)
  define L where "L = level key now s"
  have L1: "L < 1" using assms(4) check_state(2) [OF w order_refl, of key] by (auto simp: L_def)
  have wait: "wait = Some \<lceil>(1 - L) / (m / 60)\<rceil>"
    using check_state(3) [OF w order_refl, of key] L1 assms(1,4) by (simp add: L_def l)
  show ?thesis unfolding wait option.case
  proof (cases "now + 1000 * \<lceil>(1 - L) / (m / 60)\<rceil> \<le> later")
    case True
    let ?s' = "snd (check_rate key now s)"
    have w': "limiter_wf now ?s'" by (rule rate_check_wf [OF w order_refl])
    have lim: "lm_limits ?s' = lm_limits s" by (simp add: check_state(1) [OF w order_refl])
    have L': "level key now ?s' = L"
      using check_level [OF w order_refl, of key key] assms(4) by (simp add: L_def)
    have "(1 - L) / (m / 60) \<le> of_int \<lceil>(1 - L) / (m / 60)\<rceil>" by (rule le_of_int_ceiling)
    moreover have "of_int (1000 * \<lceil>(1 - L) / (m / 60)\<rceil>) \<le> (of_int (later - now) :: rat)"
      unfolding of_int_le_iff using True by simp
    ultimately have "(1 - L) / (m / 60) \<le> of_int (later - now) / 1000"
      unfolding of_int_mult of_int_numeral by (rule le_thousandth)
    then have "(1 - L) / (m / 60) * (m / 60) \<le> of_int (later - now) / 1000 * (m / 60)"
      using assms(1) by (intro mult_right_mono) simp_all
    moreover have "(1 - L) / (m / 60) * (m / 60) = 1 - L" using assms(1) by simp
    ultimately have "1 \<le> L + of_int (later - now) / 1000 * (m / 60)" by linarith
    then have "1 \<le> min (rl_max (lm_limits ?s')) (level key now ?s' + of_int (later - now) / 1000 * rl_rate (lm_limits ?s'))"
      unfolding lim l L' using assms(1) by simp
    then have "1 \<le> level key later (foldl limiter_step ?s' between)"
      using level_waits [OF w' assms(6,5)] by (rule order_trans)
    moreover have "limiter_wf later (foldl limiter_step ?s' between)" by (rule run_wf [OF w' assms(6)])
    ultimately show "if now + 1000 * \<lceil>(1 - L) / (m / 60)\<rceil> \<le> later
        then fst (check_rate key later (foldl limiter_step ?s' between)) = Allowed else True"
      using check_state(2) [OF _ order_refl] by simp
  qed simp
qed

theorem retry_after_suffices_witness:
  "fst (check_rate ''c'' 0 (limiter_run 1 [Check ''c'' 0])) = Refused (Some 60)
   \<and> fst (check_rate ''c'' 60000 (foldl limiter_step (snd (check_rate ''c'' 0 (limiter_run 1 [Check ''c'' 0])))
        [Check ''d'' 10, Sweep 1000 2000])) = Allowed"
proof -
  have r: "fst (check_rate ''c'' 0 (limiter_run 1 [Check ''c'' 0])) = Refused (Some 60)"
    by (simp add: limiter_run_def new_limiter_def check_rate_def consume_def retry_after_def refill_def new_bucket_def Let_def)
  show ?thesis
    using retry_after_suffices [OF order_refl refl _ r, of "[Check ''d'' 10, Sweep 1000 2000]" 60000] r by simp
qed

end
