(* ===== verification/Tenant_Manager.thy ===== *)
theory Tenant_Manager
  imports Oc_Prelude "HOL-Library.Multiset"
begin

text \<open>
  Tenant isolation, \<open>src/src/tenant/manager.ts\<close>: one browser context per tenant, created on demand and
  shared by concurrent callers, released explicitly, by an idle sweep, or all at once. Every method is
  split at its awaits; a step runs from one await to the next. A browser context is named by the number of
  its creation. A call of \<open>release\<close> is a numbered process with the control point \<open>release_pc\<close>, and
  \<open>closeAll\<close> and a sweep wait for such processes. \<open>tn_handed\<close> records the contexts passed to \<open>closeContext\<close>,
  in order. The clock is an argument; timers (\<open>startIdleSweep\<close>) only call \<open>sweepIdle\<close>.
\<close>

section \<open>Data\<close>

definition default_tenant :: string where "default_tenant = ''default''"
definition default_idle_timeout :: int where "default_idle_timeout = 10 * 60 * 1000"
definition default_max_tenants :: nat where "default_max_tenants = 500"

record tenant_context =
  te_id :: string
  te_context :: nat
  te_created :: int
  te_last :: int

text \<open>Where a call of \<open>release\<close> stands: at the creation (with its outcome once settled), at the close, or returned.\<close>

datatype release_pc = AwaitCreation string "bool option" | AwaitClose nat | Returned bool

text \<open>Where \<open>closeAll\<close> stands: at the pending creations it saw, or at the releases it called.\<close>

datatype close_phase = Draining "string list" | Closing "nat list"

record idle_sweep =
  sw_cutoff :: int
  sw_left :: "string list"
  sw_wait :: "(string \<times> nat) option"
  sw_evicted :: "string list"

record tenants =
  tn_idle_timeout :: int
  tn_max :: nat
  tn_tenants :: "(string, tenant_context) jmap"
  tn_pending :: "string list"
  tn_created :: nat
  tn_closed :: nat
  tn_evictions :: nat
  tn_closing :: "close_phase option"
  tn_calls :: "release_pc list"
  tn_sweeps :: "idle_sweep list"
  tn_handed :: "nat list"

definition new_tenants :: "int option \<Rightarrow> nat option \<Rightarrow> tenants" where
  "new_tenants idle max_tenants =
     \<lparr>tn_idle_timeout = default_to default_idle_timeout idle, tn_max = default_to default_max_tenants max_tenants,
      tn_tenants = [], tn_pending = [], tn_created = 0, tn_closed = 0, tn_evictions = 0,
      tn_closing = None, tn_calls = [], tn_sweeps = [], tn_handed = []\<rparr>"

section \<open>Creation\<close>

datatype get_result = ClosingRefused | Existing tenant_context | InFlight | TooMany | Started

definition get_or_create :: "string \<Rightarrow> int \<Rightarrow> tenants \<Rightarrow> get_result \<times> tenants" where
  "get_or_create tid now s =
     (if tn_closing s \<noteq> None then (ClosingRefused, s)
      else case jget (tn_tenants s) tid of
        Some e \<Rightarrow> (let e' = e\<lparr>te_last := now\<rparr> in (Existing e', s\<lparr>tn_tenants := jset tid e' (tn_tenants s)\<rparr>))
      | None \<Rightarrow>
          if tid \<in> set (tn_pending s) then (InFlight, s)
          else if tn_max s \<le> length (tn_tenants s) + length (tn_pending s) then (TooMany, s)
          else (Started, s\<lparr>tn_pending := tn_pending s @ [tid]\<rparr>))"

text \<open>The creation of a pending tenant settles; releases waiting for it will resume.\<close>

fun wake :: "string \<Rightarrow> bool \<Rightarrow> release_pc \<Rightarrow> release_pc" where
  "wake tid ok (AwaitCreation i None) = AwaitCreation i (if i = tid then Some ok else None)"
| "wake tid ok pc = pc"

definition creation_done :: "string \<Rightarrow> int \<Rightarrow> tenants \<Rightarrow> tenants" where
  "creation_done tid now s =
     s\<lparr>tn_tenants := jset tid \<lparr>te_id = tid, te_context = tn_created s, te_created = now, te_last = now\<rparr> (tn_tenants s),
       tn_created := tn_created s + 1, tn_pending := remove1 tid (tn_pending s),
       tn_calls := map (wake tid True) (tn_calls s)\<rparr>"

definition creation_failed :: "string \<Rightarrow> tenants \<Rightarrow> tenants" where
  "creation_failed tid s =
     s\<lparr>tn_pending := remove1 tid (tn_pending s), tn_calls := map (wake tid False) (tn_calls s)\<rparr>"

definition touch_tenant :: "string \<Rightarrow> int \<Rightarrow> tenants \<Rightarrow> tenants" where
  "touch_tenant tid now s =
     (case jget (tn_tenants s) tid of
        None \<Rightarrow> s | Some e \<Rightarrow> s\<lparr>tn_tenants := jset tid (e\<lparr>te_last := now\<rparr>) (tn_tenants s)\<rparr>)"

definition has_tenant :: "string \<Rightarrow> tenants \<Rightarrow> bool" where "has_tenant tid s = jhas (tn_tenants s) tid"

definition list_tenants :: "tenants \<Rightarrow> tenant_context list" where "list_tenants s = map snd (tn_tenants s)"

section \<open>Release\<close>

text \<open>From the lookup to the close.\<close>

definition take_out :: "string \<Rightarrow> tenants \<Rightarrow> release_pc \<times> tenants" where
  "take_out tid s =
     (case jget (tn_tenants s) tid of
        None \<Rightarrow> (Returned False, s)
      | Some e \<Rightarrow> (AwaitClose (te_context e),
           s\<lparr>tn_tenants := jdel tid (tn_tenants s), tn_handed := tn_handed s @ [te_context e]\<rparr>))"

definition release_tenant :: "string \<Rightarrow> tenants \<Rightarrow> release_pc \<times> tenants" where
  "release_tenant tid s = (if tid \<in> set (tn_pending s) then (AwaitCreation tid None, s) else take_out tid s)"

text \<open>A new call, and its number.\<close>

definition call_release :: "string \<Rightarrow> tenants \<Rightarrow> nat \<times> tenants" where
  "call_release tid s = (let (pc, s') = release_tenant tid s in (length (tn_calls s'), s'\<lparr>tn_calls := tn_calls s' @ [pc]\<rparr>))"

definition set_call :: "nat \<Rightarrow> release_pc \<Rightarrow> tenants \<Rightarrow> tenants" where
  "set_call i pc s = s\<lparr>tn_calls := (tn_calls s)[i := pc]\<rparr>"

definition release_resume :: "nat \<Rightarrow> string \<Rightarrow> bool \<Rightarrow> tenants \<Rightarrow> tenants" where
  "release_resume i tid ok s =
     (if \<not> ok then set_call i (Returned False) s else (let (pc, s') = take_out tid s in set_call i pc s'))"

text \<open>The close settles, with or without an error.\<close>

definition close_settled :: "nat \<Rightarrow> tenants \<Rightarrow> tenants" where
  "close_settled i s = set_call i (Returned True) (s\<lparr>tn_closed := tn_closed s + 1\<rparr>)"

section \<open>Closing everything\<close>

fun release_each :: "string list \<Rightarrow> tenants \<Rightarrow> nat list \<times> tenants" where
  "release_each [] s = ([], s)"
| "release_each (tid # ids) s =
     (let (i, s') = call_release tid s; (ixs, s'') = release_each ids s' in (i # ixs, s''))"

definition close_all_release :: "tenants \<Rightarrow> tenants" where
  "close_all_release s = (let (ixs, s') = release_each (jkeys (tn_tenants s)) s in s'\<lparr>tn_closing := Some (Closing ixs)\<rparr>)"

definition close_all :: "tenants \<Rightarrow> tenants" where
  "close_all s =
     (if tn_closing s \<noteq> None then s
      else if tn_pending s \<noteq> [] then s\<lparr>tn_closing := Some (Draining (tn_pending s))\<rparr>
      else close_all_release s)"

definition returned :: "tenants \<Rightarrow> nat \<Rightarrow> bool" where
  "returned s i \<longleftrightarrow> (case tn_calls s ! i of Returned _ \<Rightarrow> True | _ \<Rightarrow> False)"

section \<open>The idle sweep\<close>

text \<open>The loop, up to its next await or its end.\<close>

fun sweep_loop :: "int \<Rightarrow> string list \<Rightarrow> tenants \<Rightarrow> (string list \<times> (string \<times> nat) option) \<times> tenants" where
  "sweep_loop cutoff [] s = (([], None), s)"
| "sweep_loop cutoff (tid # ids) s =
     (case jget (tn_tenants s) tid of
        None \<Rightarrow> sweep_loop cutoff ids s
      | Some e \<Rightarrow>
          if cutoff < te_last e then sweep_loop cutoff ids s
          else (let (i, s') = call_release tid s in ((ids, Some (tid, i)), s')))"

definition sweep_idle :: "int \<Rightarrow> tenants \<Rightarrow> tenants" where
  "sweep_idle now s =
     (let cutoff = now - tn_idle_timeout s;
          candidates = map (\<lambda>(_, e). te_id e)
            (filter (\<lambda>(_, e). te_id e \<noteq> default_tenant \<and> te_last e \<le> cutoff) (tn_tenants s));
          ((ids, wait), s') = sweep_loop cutoff candidates s
      in s'\<lparr>tn_sweeps := tn_sweeps s' @ [\<lparr>sw_cutoff = cutoff, sw_left = ids, sw_wait = wait, sw_evicted = []\<rparr>]\<rparr>)"

definition sweep_resume :: "nat \<Rightarrow> string \<Rightarrow> bool \<Rightarrow> tenants \<Rightarrow> tenants" where
  "sweep_resume k tid removed s =
     (let w = tn_sweeps s ! k;
          s1 = (if removed then s\<lparr>tn_evictions := tn_evictions s + 1\<rparr> else s);
          gone = (if removed then sw_evicted w @ [tid] else sw_evicted w);
          ((ids, wait), s2) = sweep_loop (sw_cutoff w) (sw_left w) s1
      in s2\<lparr>tn_sweeps := (tn_sweeps s2)[k := \<lparr>sw_cutoff = sw_cutoff w, sw_left = ids, sw_wait = wait, sw_evicted = gone\<rparr>]\<rparr>)"

section \<open>Interleavings\<close>

text \<open>One stretch of a sweep, with its cutoff.\<close>

inductive sweep_moves :: "tenants \<Rightarrow> int \<Rightarrow> tenants \<Rightarrow> bool" where
  sweep_called: "sweep_moves s (now - tn_idle_timeout s) (sweep_idle now s)"
| sweep_resumed: "k < length (tn_sweeps s) \<Longrightarrow> sw_wait (tn_sweeps s ! k) = Some (tid, i) \<Longrightarrow>
    i < length (tn_calls s) \<Longrightarrow> tn_calls s ! i = Returned removed \<Longrightarrow>
    sweep_moves s (sw_cutoff (tn_sweeps s ! k)) (sweep_resume k tid removed s)"

inductive tenant_trans :: "tenants \<Rightarrow> tenants \<Rightarrow> bool" where
  get: "tenant_trans s (snd (get_or_create tid now s))"
| created: "tid \<in> set (tn_pending s) \<Longrightarrow> tenant_trans s (creation_done tid now s)"
| failed: "tid \<in> set (tn_pending s) \<Longrightarrow> tenant_trans s (creation_failed tid s)"
| touch: "tenant_trans s (touch_tenant tid now s)"
| release_called: "tenant_trans s (snd (call_release tid s))"
| release_resumed: "i < length (tn_calls s) \<Longrightarrow> tn_calls s ! i = AwaitCreation tid (Some ok) \<Longrightarrow>
    tenant_trans s (release_resume i tid ok s)"
| close_settles: "i < length (tn_calls s) \<Longrightarrow> tn_calls s ! i = AwaitClose c \<Longrightarrow> tenant_trans s (close_settled i s)"
| close_all_called: "tenant_trans s (close_all s)"
| drained: "tn_closing s = Some (Draining ids) \<Longrightarrow> set ids \<inter> set (tn_pending s) = {} \<Longrightarrow>
    tenant_trans s (close_all_release s)"
| closed: "tn_closing s = Some (Closing ixs) \<Longrightarrow> list_all (returned s) ixs \<Longrightarrow> tenant_trans s (s\<lparr>tn_closing := None\<rparr>)"
| sweep: "sweep_moves s cutoff s' \<Longrightarrow> tenant_trans s s'"

abbreviation tenant_steps :: "tenants \<Rightarrow> tenants \<Rightarrow> bool" where
  "tenant_steps \<equiv> tenant_trans\<^sup>*\<^sup>*"

section \<open>Invariant\<close>

definition contexts :: "(string, tenant_context) jmap \<Rightarrow> nat multiset" where
  "contexts m = mset (map (\<lambda>(_, e). te_context e) m)"

lemma contexts_Nil [simp]: "contexts [] = {#}"
  by (simp add: contexts_def)

lemma contexts_new: "jget m k = None \<Longrightarrow> contexts (jset k e m) = add_mset (te_context e) (contexts m)"
  by (induction m) (auto simp: contexts_def split: if_splits)

lemma contexts_same: "jget m k = Some e \<Longrightarrow> te_context e' = te_context e \<Longrightarrow> contexts (jset k e' m) = contexts m"
  by (induction m) (auto simp: contexts_def split: if_splits)

lemma contexts_del:
  "jwf m \<Longrightarrow> jget m k = Some e \<Longrightarrow> contexts m = add_mset (te_context e) (contexts (jdel k m))"
proof (induction m)
  case (Cons p m)
  obtain j v where p [simp]: "p = (j, v)" by (cases p)
  show ?case
  proof (cases "j = k")
    case True
    then have "jget m k = None" using Cons.prems(1) by (auto simp: jwf_def map_of_eq_None_iff)
    then show ?thesis using True Cons.prems(2) by (simp add: contexts_def jdel_notin)
  next
    case False
    then show ?thesis using Cons by (simp add: contexts_def jwf_def)
  qed
qed simp

text \<open>Tenants and pending creations are disjoint and together within the cap; every context created belongs
  to one tenant or was handed to the closer, once.\<close>

definition tenant_core :: "tenants \<Rightarrow> bool" where
  "tenant_core s \<longleftrightarrow> jwf (tn_tenants s) \<and> distinct (tn_pending s)
     \<and> (\<forall>tid \<in> set (tn_pending s). jget (tn_tenants s) tid = None)
     \<and> length (tn_tenants s) + length (tn_pending s) \<le> tn_max s
     \<and> (\<forall>k e. jget (tn_tenants s) k = Some e \<longrightarrow> te_id e = k)
     \<and> contexts (tn_tenants s) + mset (tn_handed s) = mset [0..<tn_created s]"

definition closing_ok :: "tenants \<Rightarrow> bool" where
  "closing_ok s \<longleftrightarrow> (case tn_closing s of
       None \<Rightarrow> True
     | Some (Draining ids) \<Rightarrow> set (tn_pending s) \<subseteq> set ids
     | Some (Closing _) \<Rightarrow> tn_pending s = [] \<and> tn_tenants s = [])"

definition sweeps_ok :: "tenants \<Rightarrow> bool" where
  "sweeps_ok s \<longleftrightarrow> list_all (\<lambda>w. default_tenant \<notin> set (sw_left w)) (tn_sweeps s)"

lemma core_jwf [simp]: "tenant_core s \<Longrightarrow> jwf (tn_tenants s)"
  by (simp add: tenant_core_def)

lemma core_upd [simp]:
  "tenant_core (s\<lparr>tn_calls := x\<rparr>) = tenant_core s" "tenant_core (s\<lparr>tn_sweeps := y\<rparr>) = tenant_core s"
  "tenant_core (s\<lparr>tn_closing := z\<rparr>) = tenant_core s" "tenant_core (s\<lparr>tn_closed := n\<rparr>) = tenant_core s"
  "tenant_core (s\<lparr>tn_evictions := n\<rparr>) = tenant_core s"
  by (simp_all add: tenant_core_def)

lemma core_refresh:
  assumes "tenant_core s" "jget (tn_tenants s) tid = Some e"
  shows "tenant_core (s\<lparr>tn_tenants := jset tid (e\<lparr>te_last := now\<rparr>) (tn_tenants s)\<rparr>)"
proof -
  have "jhas (tn_tenants s) tid" using assms(2) by (simp add: jhas_def)
  moreover have "contexts (jset tid (e\<lparr>te_last := now\<rparr>) (tn_tenants s)) = contexts (tn_tenants s)"
    by (rule contexts_same [OF assms(2)]) simp
  ultimately show ?thesis using assms by (auto simp: tenant_core_def jm length_jset)
qed

lemma core_get: "tenant_core s \<Longrightarrow> tenant_core (snd (get_or_create tid now s))"
proof -
  assume w: "tenant_core s"
  show ?thesis
  proof (cases "tn_closing s \<noteq> None \<or> jget (tn_tenants s) tid \<noteq> None")
    case True
    then show ?thesis using w core_refresh [OF w] by (auto simp: get_or_create_def Let_def)
  next
    case False
    then show ?thesis using w by (auto simp: get_or_create_def tenant_core_def)
  qed
qed

lemma core_created:
  assumes "tenant_core s" "tid \<in> set (tn_pending s)"
  shows "tenant_core (creation_done tid now s)"
proof -
  have n: "jget (tn_tenants s) tid = None" using assms by (simp add: tenant_core_def)
  then have h: "\<not> jhas (tn_tenants s) tid" by (simp add: jhas_def)
  have p: "0 < length (tn_pending s)" using assms(2) by (rule length_pos_if_in_set)
  have "length (tn_tenants s) + length (tn_pending s) \<le> tn_max s" using assms(1) by (simp add: tenant_core_def)
  with p have "Suc (length (tn_tenants s) + (length (tn_pending s) - Suc 0)) \<le> tn_max s" by linarith
  then show ?thesis using assms n h
    by (auto simp: tenant_core_def creation_done_def jm length_jset contexts_new length_remove1)
qed

lemma core_failed:
  assumes "tenant_core s"
  shows "tenant_core (creation_failed tid s)"
proof -
  have "length (remove1 tid (tn_pending s)) \<le> length (tn_pending s)" by (simp add: length_remove1)
  then show ?thesis using assms by (auto simp: tenant_core_def creation_failed_def)
qed

lemma core_take_out: "tenant_core s \<Longrightarrow> tenant_core (snd (take_out tid s))"
proof -
  assume w: "tenant_core s"
  show ?thesis
  proof (cases "jget (tn_tenants s) tid")
    case None
    then show ?thesis using w by (simp add: take_out_def)
  next
    case (Some e)
    have "length (jdel tid (tn_tenants s)) < length (tn_tenants s)" by (rule length_jdel_less [OF Some])
    moreover have "contexts (tn_tenants s) = add_mset (te_context e) (contexts (jdel tid (tn_tenants s)))"
      using w Some by (intro contexts_del) simp_all
    ultimately show ?thesis using w Some by (auto simp: tenant_core_def take_out_def jm)
  qed
qed

lemma core_release: "tenant_core s \<Longrightarrow> tenant_core (snd (release_tenant tid s))"
  by (simp add: release_tenant_def core_take_out)

lemma core_call: "tenant_core s \<Longrightarrow> tenant_core (snd (call_release tid s))"
proof -
  assume "tenant_core s"
  then have "tenant_core (snd (release_tenant tid s))" by (rule core_release)
  then show ?thesis by (cases "release_tenant tid s") (simp add: call_release_def)
qed

lemma core_set_call [simp]: "tenant_core (set_call i pc s) = tenant_core s"
  by (simp add: set_call_def)

lemma core_resume: "tenant_core s \<Longrightarrow> tenant_core (release_resume i tid ok s)"
  using core_take_out [of s tid] by (cases "take_out tid s") (simp add: release_resume_def)

lemma core_release_each: "tenant_core s \<Longrightarrow> tenant_core (snd (release_each ids s))"
proof (induction ids arbitrary: s)
  case (Cons tid ids)
  obtain i s' where c: "call_release tid s = (i, s')" by (cases "call_release tid s")
  have "tenant_core s'" using core_call [OF Cons.prems, of tid] c by simp
  then show ?case using Cons.IH [of s'] c by (cases "release_each ids s'") simp
qed simp

lemma core_close_all_release: "tenant_core s \<Longrightarrow> tenant_core (close_all_release s)"
  using core_release_each [of s "jkeys (tn_tenants s)"]
  by (cases "release_each (jkeys (tn_tenants s)) s") (simp add: close_all_release_def)

lemma core_loop: "tenant_core s \<Longrightarrow> tenant_core (snd (sweep_loop cutoff ids s))"
proof (induction cutoff ids s rule: sweep_loop.induct)
  case (2 cutoff tid ids s)
  then show ?case using core_call [OF 2(3), of tid]
    by (cases "call_release tid s") (auto split: option.split)
qed simp

text \<open>What a release leaves alone, and what it does to the map.\<close>

lemma take_out_fields [simp]:
  "tn_pending (snd (take_out tid s)) = tn_pending s" "tn_closing (snd (take_out tid s)) = tn_closing s"
  "tn_sweeps (snd (take_out tid s)) = tn_sweeps s" "tn_max (snd (take_out tid s)) = tn_max s"
  by (simp_all add: take_out_def split: option.split)

lemma take_out_get: "jget (tn_tenants (snd (take_out tid s))) k = (if k = tid then None else jget (tn_tenants s) k)"
  by (auto simp: take_out_def jm split: option.split)

lemma call_fields [simp]:
  "tn_pending (snd (call_release tid s)) = tn_pending s" "tn_closing (snd (call_release tid s)) = tn_closing s"
  "tn_sweeps (snd (call_release tid s)) = tn_sweeps s" "tn_max (snd (call_release tid s)) = tn_max s"
  "tn_tenants (snd (call_release tid s)) = tn_tenants (snd (release_tenant tid s))"
  using take_out_fields [of tid s]
  by (simp_all add: call_release_def release_tenant_def Let_def case_prod_beta)

lemma release_get:
  "jget (tn_tenants (snd (release_tenant tid s))) k =
    (if k = tid \<and> tid \<notin> set (tn_pending s) then None else jget (tn_tenants s) k)"
  by (simp add: release_tenant_def take_out_get)

lemma empty_map: "tn_tenants s = [] \<longleftrightarrow> (\<forall>k. jget (tn_tenants s) k = None)"
proof
  assume none: "\<forall>k. jget (tn_tenants s) k = None"
  show "tn_tenants s = []"
  proof (rule ccontr)
    assume "tn_tenants s \<noteq> []"
    then obtain k e m where "tn_tenants s = (k, e) # m" by (cases "tn_tenants s") auto
    then have "jget (tn_tenants s) k = Some e" by simp
    then show False using none by simp
  qed
qed simp

lemma release_empty: "tn_tenants s = [] \<Longrightarrow> tn_tenants (snd (release_tenant tid s)) = []"
  by (simp add: release_tenant_def take_out_def)

lemma release_each_fields:
  "tn_pending (snd (release_each ids s)) = tn_pending s" "tn_sweeps (snd (release_each ids s)) = tn_sweeps s"
  "tn_max (snd (release_each ids s)) = tn_max s"
  by (induction ids arbitrary: s) (simp_all add: case_prod_beta)

lemma release_each_get:
  "tn_pending s = [] \<Longrightarrow>
    jget (tn_tenants (snd (release_each ids s))) k = (if k \<in> set ids then None else jget (tn_tenants s) k)"
  by (induction ids arbitrary: s) (simp_all add: case_prod_beta release_get)

lemma loop_fields [simp]:
  "tn_pending (snd (sweep_loop c ids s)) = tn_pending s" "tn_closing (snd (sweep_loop c ids s)) = tn_closing s"
  "tn_sweeps (snd (sweep_loop c ids s)) = tn_sweeps s" "tn_max (snd (sweep_loop c ids s)) = tn_max s"
  by (induction c ids s rule: sweep_loop.induct) (simp_all add: case_prod_beta split: option.split)

lemma closing_mono:
  "closing_ok s \<Longrightarrow> tn_closing s' = tn_closing s \<Longrightarrow> set (tn_pending s') \<subseteq> set (tn_pending s) \<Longrightarrow>
    (tn_tenants s = [] \<Longrightarrow> tn_tenants s' = []) \<Longrightarrow> closing_ok s'"
  by (auto simp: closing_ok_def split: option.splits close_phase.splits)

lemma closing_upd [simp]:
  "closing_ok (s\<lparr>tn_calls := x\<rparr>) = closing_ok s" "closing_ok (s\<lparr>tn_sweeps := y\<rparr>) = closing_ok s"
  "closing_ok (s\<lparr>tn_evictions := n\<rparr>) = closing_ok s"
  by (simp_all add: closing_ok_def split: option.split close_phase.split)

lemma call_empty: "tn_tenants s = [] \<Longrightarrow> tn_tenants (snd (call_release tid s)) = []"
  by (simp add: release_empty)

lemma loop_empty: "tn_tenants s = [] \<Longrightarrow> tn_tenants (snd (sweep_loop c ids s)) = []"
  by (induction c ids s rule: sweep_loop.induct) simp_all

lemma close_all_release_ok:
  assumes "tn_pending s = []"
  shows "closing_ok (close_all_release s)"
proof -
  let ?r = "release_each (jkeys (tn_tenants s)) s"
  have "jget (tn_tenants (snd ?r)) k = None" for k
    using release_each_get [OF assms, of "jkeys (tn_tenants s)" k] by (auto simp: jkeys_def map_of_eq_None_iff)
  then have "tn_tenants (snd ?r) = []" by (simp add: empty_map)
  then show ?thesis using assms release_each_fields(1) [of "jkeys (tn_tenants s)" s]
    by (simp add: closing_ok_def close_all_release_def case_prod_beta)
qed

lemma loop_subset: "set (fst (fst (sweep_loop c ids s))) \<subseteq> set ids"
proof (induction c ids s rule: sweep_loop.induct)
  case (2 c tid ids s)
  then show ?case by (auto simp: case_prod_beta split: option.split)
qed simp

definition tenants_inv :: "tenants \<Rightarrow> bool" where
  "tenants_inv s \<longleftrightarrow> tenant_core s \<and> closing_ok s \<and> sweeps_ok s"

lemma inv_sweep_idle:
  assumes "tenants_inv s"
  shows "tenants_inv (sweep_idle now s)"
proof -
  let ?cut = "now - tn_idle_timeout s"
  let ?ids = "map (\<lambda>(_, e). te_id e)
    (filter (\<lambda>(_, e). te_id e \<noteq> default_tenant \<and> te_last e \<le> ?cut) (tn_tenants s))"
  let ?r = "sweep_loop ?cut ?ids s"
  have core: "tenant_core (snd ?r)" using assms by (intro core_loop) (simp add: tenants_inv_def)
  have cl: "closing_ok (snd ?r)"
    by (rule closing_mono [of s]) (use assms loop_empty in \<open>simp_all add: tenants_inv_def\<close>)
  have "default_tenant \<notin> set ?ids" by auto
  then have no: "default_tenant \<notin> set (fst (fst ?r))" using loop_subset [of ?cut ?ids s] by blast
  have e: "sweep_idle now s = (snd ?r)\<lparr>tn_sweeps := tn_sweeps s @ [\<lparr>sw_cutoff = ?cut, sw_left = fst (fst ?r),
      sw_wait = snd (fst ?r), sw_evicted = []\<rparr>]\<rparr>"
    by (simp add: sweep_idle_def Let_def case_prod_beta)
  show ?thesis unfolding e using core cl no assms
    by (simp add: tenants_inv_def sweeps_ok_def)
qed

lemma inv_sweep_resume:
  assumes "tenants_inv s" "k < length (tn_sweeps s)"
  shows "tenants_inv (sweep_resume k tid removed s)"
proof -
  let ?w = "tn_sweeps s ! k"
  let ?s1 = "if removed then s\<lparr>tn_evictions := tn_evictions s + 1\<rparr> else s"
  let ?r = "sweep_loop (sw_cutoff ?w) (sw_left ?w) ?s1"
  have core: "tenant_core (snd ?r)" using assms(1) by (intro core_loop) (simp add: tenants_inv_def)
  have cl: "closing_ok (snd ?r)"
    by (rule closing_mono [of ?s1]) (use assms(1) loop_empty in \<open>simp_all add: tenants_inv_def\<close>)
  have "default_tenant \<notin> set (sw_left ?w)"
    using assms by (auto simp: tenants_inv_def sweeps_ok_def list_all_length)
  then have no: "default_tenant \<notin> set (fst (fst ?r))" using loop_subset by blast
  have e: "sweep_resume k tid removed s = (snd ?r)\<lparr>tn_sweeps := (tn_sweeps s)[k := \<lparr>sw_cutoff = sw_cutoff ?w,
      sw_left = fst (fst ?r), sw_wait = snd (fst ?r),
      sw_evicted = (if removed then sw_evicted ?w @ [tid] else sw_evicted ?w)\<rparr>]\<rparr>"
    by (simp add: sweep_resume_def Let_def case_prod_beta)
  have "sweeps_ok (sweep_resume k tid removed s)"
    unfolding e sweeps_ok_def list_all_length
  proof (intro allI impI)
    fix j assume "j < length (tn_sweeps (snd ?r\<lparr>tn_sweeps := (tn_sweeps s)[k := \<lparr>sw_cutoff = sw_cutoff ?w,
      sw_left = fst (fst ?r), sw_wait = snd (fst ?r),
      sw_evicted = (if removed then sw_evicted ?w @ [tid] else sw_evicted ?w)\<rparr>]\<rparr>))"
    then show "default_tenant \<notin> set (sw_left (tn_sweeps (snd ?r\<lparr>tn_sweeps := (tn_sweeps s)[k := \<lparr>sw_cutoff = sw_cutoff ?w,
      sw_left = fst (fst ?r), sw_wait = snd (fst ?r),
      sw_evicted = (if removed then sw_evicted ?w @ [tid] else sw_evicted ?w)\<rparr>]\<rparr>) ! j))"
      using no assms by (auto simp: nth_list_update tenants_inv_def sweeps_ok_def list_all_length)
  qed
  moreover have "tenant_core (sweep_resume k tid removed s)" "closing_ok (sweep_resume k tid removed s)"
    unfolding e using core cl by simp_all
  ultimately show ?thesis by (simp add: tenants_inv_def)
qed

lemma inv_same:
  "tenants_inv s \<Longrightarrow> tenant_core s' \<Longrightarrow> tn_closing s' = tn_closing s \<Longrightarrow> set (tn_pending s') \<subseteq> set (tn_pending s) \<Longrightarrow>
    (tn_tenants s = [] \<Longrightarrow> tn_tenants s' = []) \<Longrightarrow> tn_sweeps s' = tn_sweeps s \<Longrightarrow> tenants_inv s'"
  using closing_mono [of s s'] by (simp add: tenants_inv_def sweeps_ok_def)

lemma inv_get: "tenants_inv s \<Longrightarrow> tenants_inv (snd (get_or_create tid now s))"
proof -
  assume i: "tenants_inv s"
  then have "tenant_core (snd (get_or_create tid now s))" by (intro core_get) (simp add: tenants_inv_def)
  moreover have "closing_ok (snd (get_or_create tid now s)) \<and> sweeps_ok (snd (get_or_create tid now s))"
    using i
    by (cases "tn_closing s") (auto simp: get_or_create_def tenants_inv_def closing_ok_def sweeps_ok_def Let_def
      split: option.split close_phase.split close_phase.split_asm)
  ultimately show ?thesis by (simp add: tenants_inv_def)
qed

lemma inv_created:
  assumes "tenants_inv s" "tid \<in> set (tn_pending s)"
  shows "tenants_inv (creation_done tid now s)"
proof -
  have "tenant_core (creation_done tid now s)" using assms by (intro core_created) (simp_all add: tenants_inv_def)
  moreover have "closing_ok (creation_done tid now s)"
    using assms set_remove1_subset [of tid "tn_pending s"]
    by (auto simp: tenants_inv_def closing_ok_def creation_done_def split: option.splits close_phase.splits)
  ultimately show ?thesis using assms(1) by (simp add: tenants_inv_def sweeps_ok_def creation_done_def)
qed

lemma inv_step: "tenant_trans s s' \<Longrightarrow> tenants_inv s \<Longrightarrow> tenants_inv s'"
proof (induction rule: tenant_trans.induct)
  case (get s tid now)
  then show ?case by (rule inv_get)
next
  case (created tid s now)
  then show ?case by (intro inv_created)
next
  case (failed tid s)
  then have "tenant_core (creation_failed tid s)" by (intro core_failed) (simp add: tenants_inv_def)
  then show ?case using failed set_remove1_subset [of tid "tn_pending s"]
    by (intro inv_same [OF failed(2)]) (simp_all add: creation_failed_def)
next
  case (touch s tid now)
  show ?case
    by (rule inv_same [OF touch])
      (use touch core_refresh [of s tid] in \<open>auto simp: touch_tenant_def tenants_inv_def split: option.split\<close>)
next
  case (release_called s tid)
  show ?case
    by (rule inv_same [OF release_called]) (use release_called core_call call_empty in \<open>simp_all add: tenants_inv_def release_empty\<close>)
next
  case (release_resumed i s tid ok)
  have "tn_tenants s = [] \<Longrightarrow> tn_tenants (snd (take_out tid s)) = []" by (simp add: take_out_def)
  then show ?case
    by (intro inv_same [OF release_resumed(3)])
      (use release_resumed core_resume [of s] in \<open>simp_all add: tenants_inv_def release_resume_def set_call_def case_prod_beta\<close>)
next
  case (close_settles i s c)
  then show ?case
    by (intro inv_same [OF close_settles(3)]) (simp_all add: tenants_inv_def close_settled_def set_call_def)
next
  case (close_all_called s)
  have r: "tn_pending s = [] \<Longrightarrow> tenants_inv (close_all_release s)"
    using close_all_called close_all_release_ok [of s] core_close_all_release [of s] release_each_fields(2)
    by (simp add: tenants_inv_def sweeps_ok_def close_all_release_def case_prod_beta)
  then show ?case using close_all_called by (simp add: close_all_def tenants_inv_def closing_ok_def sweeps_ok_def)
next
  case (drained s ids)
  have "set (tn_pending s) \<subseteq> set ids" using drained by (simp add: tenants_inv_def closing_ok_def)
  then have "set (tn_pending s) = {}" using drained(2) by (simp add: Int_absorb1 Int_commute)
  then have "tn_pending s = []" by simp
  then show ?case
    using drained close_all_release_ok [of s] core_close_all_release [of s] release_each_fields(2)
    by (simp add: tenants_inv_def sweeps_ok_def close_all_release_def case_prod_beta)
next
  case (closed s ixs)
  then show ?case by (simp add: tenants_inv_def closing_ok_def sweeps_ok_def)
next
  case (sweep s cutoff s')
  from sweep(1) show ?case
    by cases (use sweep(2) inv_sweep_idle inv_sweep_resume in auto)
qed

lemma inv_new: "tenants_inv (new_tenants idle max_tenants)"
  by (simp add: tenants_inv_def tenant_core_def closing_ok_def sweeps_ok_def new_tenants_def)

lemma inv_reached: "tenant_steps (new_tenants idle max_tenants) s \<Longrightarrow> tenants_inv s"
  by (induction rule: rtranclp_induct) (auto intro: inv_new inv_step)

lemma max_step: "tenant_trans s s' \<Longrightarrow> tn_max s' = tn_max s"
proof (induction rule: tenant_trans.induct)
  case (sweep s cutoff s')
  then show ?case by cases (simp_all add: sweep_idle_def sweep_resume_def Let_def case_prod_beta)
qed (simp_all add: get_or_create_def creation_done_def creation_failed_def touch_tenant_def release_resume_def set_call_def
  close_settled_def close_all_def close_all_release_def release_each_fields Let_def case_prod_beta split: option.split)

lemma max_reached: "tenant_steps (new_tenants idle cap) s \<Longrightarrow> tn_max s = default_to default_max_tenants cap"
  by (induction rule: rtranclp_induct) (simp_all add: max_step new_tenants_def)

text \<open>A sweep takes out exactly what its loop releases, at once.\<close>

lemma loop_takes:
  assumes "tenant_core s"
  shows "jget (tn_tenants s) k = Some e \<Longrightarrow>
    jget (tn_tenants (snd (sweep_loop c ids s))) k = Some e
    \<or> (jget (tn_tenants (snd (sweep_loop c ids s))) k = None \<and> k \<in> set ids \<and> te_last e \<le> c)"
  using assms
proof (induction c ids s rule: sweep_loop.induct)
  case (2 c tid ids s)
  show ?case
  proof (cases "jget (tn_tenants s) tid")
    case None
    then show ?thesis using 2(1) [OF None] 2(3,4) by auto
  next
    case (Some f)
    show ?thesis
    proof (cases "c < te_last f")
      case True
      then show ?thesis using 2(2) [OF Some True] 2(3,4) Some by auto
    next
      case False
      then show ?thesis using 2(3) Some by (cases "k = tid") (simp_all add: case_prod_beta release_get)
    qed
  qed
qed simp

section \<open>Properties\<close>

text \<open>C16 (invariant). In every reachable state of the manager, under any interleaving of callers: the open tenants
  and the creations in flight stay within the cap, no tenant has both an entry and a creation in
  flight, and every browser context ever created is either held by exactly one tenant or has been handed to
  the closer, exactly once.\<close>

theorem tenants_accounted:
  assumes "tenant_steps (new_tenants idle (Some cap)) s"
  shows "length (tn_tenants s) + length (tn_pending s) \<le> cap
    \<and> (\<forall>tid. if tid \<in> set (tn_pending s) then jget (tn_tenants s) tid = None else True)
    \<and> mset (map (\<lambda>(_, e). te_context e) (tn_tenants s)) + mset (tn_handed s) = mset [0..<tn_created s]"
  using inv_reached [OF assms] max_reached [OF assms] by (simp add: tenants_inv_def tenant_core_def contexts_def)

text \<open>When \<open>closeAll\<close> has finished waiting, no context is left behind: no tenant and no
  creation in flight remain, and every context created so far has been handed to the closer, whatever calls
  were in flight when it started or were made while it ran.\<close>

theorem close_all_leaves_nothing:
  assumes "tenant_steps (new_tenants idle cap) s" "tn_closing s = Some (Closing ixs)"
  shows "tn_tenants s = [] \<and> tn_pending s = [] \<and> distinct (tn_handed s) \<and> set (tn_handed s) = {0..<tn_created s}"
proof -
  have i: "tenants_inv s" by (rule inv_reached [OF assms(1)])
  then have e: "tn_tenants s = []" "tn_pending s = []" using assms(2) by (simp_all add: tenants_inv_def closing_ok_def)
  then have m: "mset (tn_handed s) = mset [0..<tn_created s]" using i by (simp add: tenants_inv_def tenant_core_def)
  then have "set (tn_handed s) = set [0..<tn_created s]" by (rule mset_eq_setD)
  moreover have "distinct (tn_handed s)" using mset_eq_imp_distinct_iff [OF m] by simp
  ultimately show ?thesis using e by simp
qed

text \<open>A stretch of an idle sweep only removes tenants that are not the default one and
  whose last activity, as it is at the moment of the removal, is not after the sweep's cutoff; every other
  tenant keeps its entry. So activity while the sweep waited for an earlier close saves a tenant.\<close>

theorem sweep_spares_active:
  assumes "tenant_steps (new_tenants idle cap) s" "sweep_moves s cutoff s'" "jget (tn_tenants s) tid = Some e"
  shows "case jget (tn_tenants s') tid of
      Some e' \<Rightarrow> e' = e
    | None \<Rightarrow> tid \<noteq> default_tenant \<and> te_last e \<le> cutoff"
proof -
  have i: "tenants_inv s" by (rule inv_reached [OF assms(1)])
  then have core: "tenant_core s" by (simp add: tenants_inv_def)
  from assms(2) show ?thesis
  proof cases
    case (sweep_called now)
    let ?ids = "map (\<lambda>(_, e). te_id e)
      (filter (\<lambda>(_, e). te_id e \<noteq> default_tenant \<and> te_last e \<le> cutoff) (tn_tenants s))"
    have "tn_tenants s' = tn_tenants (snd (sweep_loop cutoff ?ids s))"
      by (simp add: sweep_called sweep_idle_def Let_def case_prod_beta)
    moreover have "default_tenant \<notin> set ?ids" by auto
    ultimately show ?thesis using loop_takes [OF core assms(3), of cutoff ?ids] by auto
  next
    case (sweep_resumed k u i removed)
    let ?s1 = "if removed then s\<lparr>tn_evictions := tn_evictions s + 1\<rparr> else s"
    let ?r = "sweep_loop (sw_cutoff (tn_sweeps s ! k)) (sw_left (tn_sweeps s ! k)) ?s1"
    have t: "tn_tenants s' = tn_tenants (snd ?r)"
      by (simp add: sweep_resumed sweep_resume_def Let_def case_prod_beta)
    have "tenant_core ?s1" "jget (tn_tenants ?s1) tid = Some e" using core assms(3) by simp_all
    note loop_takes [OF this, of "sw_cutoff (tn_sweeps s ! k)" "sw_left (tn_sweeps s ! k)"]
    moreover have "default_tenant \<notin> set (sw_left (tn_sweeps s ! k))"
      using \<open>tenants_inv s\<close> sweep_resumed by (auto simp: tenants_inv_def sweeps_ok_def list_all_length)
    ultimately show ?thesis unfolding t using sweep_resumed(1) by auto
  qed
qed

text \<open>A sample run: one tenant opened.\<close>

definition one_tenant :: tenants where
  "one_tenant = creation_done ''a'' 1 (snd (get_or_create ''a'' 0 (new_tenants None (Some 2))))"

lemma one_tenant_reached: "tenant_steps (new_tenants None (Some 2)) one_tenant"
proof -
  let ?s = "snd (get_or_create ''a'' 0 (new_tenants None (Some 2)))"
  have "tenant_trans (new_tenants None (Some 2)) ?s" by (rule tenant_trans.get)
  moreover have "tenant_trans ?s one_tenant"
    unfolding one_tenant_def by (rule tenant_trans.created) (simp add: get_or_create_def new_tenants_def)
  ultimately show ?thesis by (meson rtranclp.rtrancl_into_rtrancl rtranclp.rtrancl_refl)
qed

theorem tenants_accounted_witness:
  "length (tn_tenants one_tenant) + length (tn_pending one_tenant) \<le> 2
    \<and> (\<forall>tid. if tid \<in> set (tn_pending one_tenant) then jget (tn_tenants one_tenant) tid = None else True)
    \<and> mset (map (\<lambda>(_, e). te_context e) (tn_tenants one_tenant)) + mset (tn_handed one_tenant) = mset [0..<tn_created one_tenant]"
  by (rule tenants_accounted [OF one_tenant_reached])

theorem close_all_leaves_nothing_witness:
  "tn_tenants (close_all one_tenant) = [] \<and> tn_pending (close_all one_tenant) = []
    \<and> distinct (tn_handed (close_all one_tenant)) \<and> set (tn_handed (close_all one_tenant)) = {0..<tn_created (close_all one_tenant)}"
proof -
  have "tenant_steps (new_tenants None (Some 2)) (close_all one_tenant)"
    by (rule rtranclp.rtrancl_into_rtrancl [OF one_tenant_reached tenant_trans.close_all_called])
  moreover have "tn_closing (close_all one_tenant) = Some (Closing [0])" by code_simp
  ultimately show ?thesis by (rule close_all_leaves_nothing)
qed

theorem sweep_spares_active_witness:
  "case jget (tn_tenants (sweep_idle 700000 one_tenant)) ''a'' of
      Some e' \<Rightarrow> e' = \<lparr>te_id = ''a'', te_context = 0, te_created = 1, te_last = 1\<rparr>
    | None \<Rightarrow> ''a'' \<noteq> default_tenant \<and> te_last \<lparr>te_id = ''a'', te_context = 0, te_created = 1, te_last = 1\<rparr> \<le> 100000"
proof -
  have m: "sweep_moves one_tenant 100000 (sweep_idle 700000 one_tenant)"
    using sweep_called [of one_tenant 700000]
    by (simp add: one_tenant_def creation_done_def get_or_create_def new_tenants_def default_idle_timeout_def)
  have "jget (tn_tenants one_tenant) ''a'' = Some \<lparr>te_id = ''a'', te_context = 0, te_created = 1, te_last = 1\<rparr>"
    by (simp add: one_tenant_def creation_done_def get_or_create_def new_tenants_def)
  then show ?thesis by (rule sweep_spares_active [OF one_tenant_reached m])
qed

end
