(* ===== verification/Js_Value.thy ===== *)
theory Js_Value
  imports Js_Strings Complex_Main
begin

text \<open>
  Values of the language as parsed JSON yields them, and the tests that validators make on them:
  \<open>typeof\<close>, \<open>Array.isArray\<close>, \<open>Number.isInteger\<close>, \<open>Number.isSafeInteger\<close>, the value of a field (\<open>undefined\<close>
  when it is missing). Finite numbers are rational; the argument of \<open>JInfinity\<close> says whether it is the positive one. An object
  is the list of its own fields.
\<close>

datatype jsvalue =
    JUndefined
  | JNull
  | JBool bool
  | JNum rat
  | JNaN
  | JInfinity bool
  | JStr string
  | JArr "jsvalue list"
  | JObj "(string \<times> jsvalue) list"

definition field :: "(string \<times> jsvalue) list \<Rightarrow> string \<Rightarrow> jsvalue" where
  "field obj f = default_to JUndefined (map_of obj f)"

lemma field_simps [simp]:
  "field [] f = JUndefined" "field ((g, v) # obj) f = (if f = g then v else field obj f)"
  by (simp_all add: field_def)

lemma field_size: "field obj f = v \<Longrightarrow> v \<noteq> JUndefined \<Longrightarrow> size v < Suc (size_list (size_prod (\<lambda>_. 0) size) obj)"
proof (induction obj)
  case (Cons p obj)
  obtain g w where p: "p = (g, w)" by (cases p)
  show ?case
  proof (cases "f = g")
    case True
    then show ?thesis using Cons.prems p by simp
  next
    case False
    then show ?thesis using Cons p by force
  qed
qed simp

definition as_string :: "jsvalue \<Rightarrow> string option" where
  "as_string v = (case v of JStr s \<Rightarrow> Some s | _ \<Rightarrow> None)"

definition as_number :: "jsvalue \<Rightarrow> rat option" where
  "as_number v = (case v of JNum q \<Rightarrow> Some q | _ \<Rightarrow> None)"

definition as_integer :: "jsvalue \<Rightarrow> int option" where
  "as_integer v = (case v of JNum q \<Rightarrow> if of_int \<lfloor>q\<rfloor> = q then Some \<lfloor>q\<rfloor> else None | _ \<Rightarrow> None)"

definition max_safe_integer :: int where "max_safe_integer = 2 ^ 53 - 1"

definition as_safe_integer :: "jsvalue \<Rightarrow> int option" where
  "as_safe_integer v =
     (case as_integer v of Some n \<Rightarrow> if \<bar>n\<bar> \<le> max_safe_integer then Some n else None | None \<Rightarrow> None)"

lemma as_simps [simp]:
  "as_string (JStr s) = Some s" "as_number (JNum q) = Some q" "as_integer (JNum (of_int n)) = Some n"
  by (simp_all add: as_string_def as_number_def as_integer_def)

lemma as_string_iff: "as_string v = Some s \<longleftrightarrow> v = JStr s"
  by (cases v) (auto simp: as_string_def)

lemma as_integer_iff: "as_integer v = Some n \<longleftrightarrow> v = JNum (of_int n)"
  by (cases v) (auto simp: as_integer_def)

lemma as_number_iff: "as_number v = Some q \<longleftrightarrow> v = JNum q"
  by (cases v) (auto simp: as_number_def)

lemma as_safe_integer_iff: "as_safe_integer v = Some n \<longleftrightarrow> v = JNum (of_int n) \<and> \<bar>n\<bar> \<le> max_safe_integer"
  by (cases v) (auto simp: as_safe_integer_def as_integer_def)

end
