(* ===== verification/Contract_Validator.thy ===== *)
theory Contract_Validator
  imports Contracts Js_Value
begin

text \<open>
  The validator of the contract language, \<open>src/src/contracts/validator.ts\<close>: from an untrusted JSON value
  to an assertion of \<open>Contracts\<close>, or the list of all its errors with their paths. Each function of
  the source returns an assertion or null and pushes errors on a shared array; here it returns the pair
  of the result and the errors it pushed, and the caller appends them in the order of the calls. The
  numbers of an assertion are integers where the source requires them to be.
\<close>

section \<open>Errors and field tests\<close>

record verror =
  ve_path :: string
  ve_message :: string

type_synonym 'a checked = "'a option \<times> verror list"

definition err_at :: "string \<Rightarrow> string \<Rightarrow> string \<Rightarrow> verror" where
  "err_at path f message = \<lparr>ve_path = path @ ''.'' @ f, ve_message = message\<rparr>"

definition reject :: "verror list \<Rightarrow> verror \<Rightarrow> 'a checked" where
  "reject es e = (None, es @ [e])"

type_synonym fields = "(string \<times> jsvalue) list"

definition require_string :: "fields \<Rightarrow> string \<Rightarrow> string \<Rightarrow> string checked" where
  "require_string obj f path =
     (case as_string (field obj f) of None \<Rightarrow> reject [] (err_at path f ''expected string'') | Some s \<Rightarrow> (Some s, []))"

definition comparison_of :: "jsvalue \<Rightarrow> comparison option" where
  "comparison_of v =
     (if v = JStr ''eq'' then Some CmpEq else if v = JStr ''gte'' then Some CmpGte
      else if v = JStr ''lte'' then Some CmpLte else None)"

definition since_of :: "jsvalue \<Rightarrow> since_marker option" where
  "since_of v =
     (if v = JStr ''contract_enter'' then Some ContractEnter
      else if v = JStr ''last_tool_call'' then Some LastToolCall else None)"

definition performance_units :: "string list" where
  "performance_units = [''ms'', ''seconds'', ''bytes'', ''count'']"

definition known_kinds :: "string list" where
  "known_kinds = [''url'', ''dom_text'', ''dom_count'', ''network'', ''screenshot_class'', ''no_dialog'', ''image_qa'',
     ''performance'', ''console'', ''and'', ''or'', ''not'']"

definition max_contract_fact_age :: int where "max_contract_fact_age = 300000"

definition is_alnum :: "char \<Rightarrow> bool" where
  "is_alnum c \<longleftrightarrow> (let n = of_char c :: nat in
     (48 \<le> n \<and> n \<le> 57) \<or> (65 \<le> n \<and> n \<le> 90) \<or> (97 \<le> n \<and> n \<le> 122))"

definition is_name_char :: "char \<Rightarrow> bool" where
  "is_name_char c \<longleftrightarrow> is_alnum c \<or> c = CHR ''.'' \<or> c = CHR ''_'' \<or> c = CHR ''-''"

definition class_id_ok :: "string \<Rightarrow> bool" where
  "class_id_ok s \<longleftrightarrow> s \<noteq> [] \<and> list_all is_name_char s \<and> s \<noteq> ''.'' \<and> s \<noteq> ''..''"

definition metric_name_ok :: "string \<Rightarrow> bool" where
  "metric_name_ok s \<longleftrightarrow> s \<noteq> [] \<and> is_alnum (hd s) \<and> list_all is_name_char (tl s) \<and> length s \<le> 128"

section \<open>Leaves\<close>

definition validate_url :: "regex_engine \<Rightarrow> fields \<Rightarrow> string \<Rightarrow> assertion checked" where
  "validate_url engine obj path =
     (case require_string obj ''pattern'' path of
        (None, es) \<Rightarrow> (None, es)
      | (Some p, es) \<Rightarrow>
          (case validate_regex engine p of
             Some r \<Rightarrow> reject es (err_at path ''pattern'' (rejection_reason r))
           | None \<Rightarrow> (Some (Leaf (Url p)), es)))"

definition validate_dom_text :: "fields \<Rightarrow> string \<Rightarrow> assertion checked" where
  "validate_dom_text obj path =
     (case require_string obj ''contains'' path of
        (None, es) \<Rightarrow> (None, es)
      | (Some c, es) \<Rightarrow>
          (case field obj ''selector'' of
             JUndefined \<Rightarrow> (Some (Leaf (DomText None c)), es)
           | JStr s \<Rightarrow> (Some (Leaf (DomText (Some s) c)), es)
           | _ \<Rightarrow> reject es (err_at path ''selector'' ''expected string'')))"

definition validate_dom_count :: "fields \<Rightarrow> string \<Rightarrow> assertion checked" where
  "validate_dom_count obj path =
     (let (sel, es) = require_string obj ''selector'' path in
      case comparison_of (field obj ''op'') of
        None \<Rightarrow> reject es (err_at path ''op'' ''expected one of eq|gte|lte'')
      | Some op \<Rightarrow>
          (case as_integer (field obj ''value'') of
             None \<Rightarrow> reject es (err_at path ''value'' ''expected non-negative integer'')
           | Some n \<Rightarrow>
               if n < 0 then reject es (err_at path ''value'' ''value must be >= 0'')
               else (case sel of None \<Rightarrow> (None, es) | Some s \<Rightarrow> (Some (Leaf (DomCount s op n)), es))))"

definition url_pattern_errors :: "regex_engine \<Rightarrow> string option \<Rightarrow> string \<Rightarrow> verror list" where
  "url_pattern_errors engine pattern path =
     (case pattern of
        None \<Rightarrow> []
      | Some p \<Rightarrow>
          if engine p \<noteq> None
          then (case validate_regex engine p of
                  Some r \<Rightarrow> [err_at path ''url_pattern'' (rejection_reason r)] | None \<Rightarrow> [])
          else if max_pattern_length < length p then [err_at path ''url_pattern'' ''pattern exceeds 512 chars''] else [])"

definition http_status :: "jsvalue \<Rightarrow> int option" where
  "http_status v = (case as_integer v of Some n \<Rightarrow> if 100 \<le> n \<and> n < 600 then Some n else None | None \<Rightarrow> None)"

text \<open>The loop over \<open>status_in\<close>, from index \<open>i\<close>, up to the first bad element.\<close>

fun validate_statuses :: "jsvalue list \<Rightarrow> nat \<Rightarrow> string \<Rightarrow> int list checked" where
  "validate_statuses [] i path = (Some [], [])"
| "validate_statuses (v # vs) i path =
     (case http_status v of
        None \<Rightarrow> reject [] (err_at path (''status_in.'' @ dec i) ''expected HTTP status integer in [100,599]'')
      | Some n \<Rightarrow> (case validate_statuses vs (i + 1) path of (ns, es) \<Rightarrow> (map_option ((#) n) ns, es)))"

definition validate_network :: "regex_engine \<Rightarrow> fields \<Rightarrow> string \<Rightarrow> assertion checked" where
  "validate_network engine obj path =
     (let (pattern, es) = require_string obj ''url_pattern'' path; bad = url_pattern_errors engine pattern path in
      if bad \<noteq> [] then (None, es @ bad)
      else case since_of (field obj ''since'') of
        None \<Rightarrow> reject es (err_at path ''since'' ''expected one of contract_enter|last_tool_call'')
      | Some since \<Rightarrow>
          (case field obj ''status_in'' of
             JArr (v # vs) \<Rightarrow>
               (case validate_statuses (v # vs) 0 path of
                  (None, es') \<Rightarrow> (None, es @ es')
                | (Some ns, es') \<Rightarrow>
                    (case pattern of None \<Rightarrow> (None, es @ es')
                     | Some p \<Rightarrow> (Some (Leaf (Network p ns since)), es @ es')))
           | _ \<Rightarrow> reject es (err_at path ''status_in'' ''expected non-empty array'')))"

definition validate_screenshot_class :: "fields \<Rightarrow> string \<Rightarrow> assertion checked" where
  "validate_screenshot_class obj path =
     (let (cls, es) = require_string obj ''class_id'' path in
      case as_integer (field obj ''distance_max'') of
        None \<Rightarrow> reject es (err_at path ''distance_max'' ''expected integer in [0,64]'')
      | Some d \<Rightarrow>
          if d < 0 \<or> 64 < d then reject es (err_at path ''distance_max'' ''expected integer in [0,64]'')
          else (case cls of
                  None \<Rightarrow> (None, es)
                | Some c \<Rightarrow>
                    if \<not> class_id_ok c
                    then reject es (err_at path ''class_id'' (''class_id may only contain alphanumerics, dot, underscore, hyphen and must not be '.' or '..'' @ [CHR 0x27]))
                    else (Some (Leaf (ScreenshotClass c d)), es)))"

definition validate_image_qa :: "regex_engine \<Rightarrow> fields \<Rightarrow> string \<Rightarrow> assertion checked" where
  "validate_image_qa engine obj path =
     (let (q, es) = require_string obj ''question'' path; (p, es') = require_string obj ''expected_pattern'' path in
      case (q, p) of
        (Some question, Some pattern) \<Rightarrow>
          (case validate_regex engine pattern of
             Some r \<Rightarrow> reject (es @ es') (err_at path ''expected_pattern'' (rejection_reason r))
           | None \<Rightarrow> (Some (Leaf (ImageQa question pattern)), es @ es'))
      | _ \<Rightarrow> (None, es @ es'))"

definition version_errors :: "fields \<Rightarrow> string \<Rightarrow> verror list" where
  "version_errors obj path =
     (if field obj ''schema_version'' = JNum 1 then [] else [err_at path ''schema_version'' ''expected schema_version 1''])"

definition validate_op :: "jsvalue \<Rightarrow> string \<Rightarrow> comparison checked" where
  "validate_op v path =
     (case comparison_of v of
        None \<Rightarrow> reject [] (err_at path ''op'' ''expected one of eq|gte|lte'') | Some op \<Rightarrow> (Some op, []))"

definition validate_max_age :: "jsvalue \<Rightarrow> string \<Rightarrow> int checked" where
  "validate_max_age v path =
     (case as_safe_integer v of
        Some n \<Rightarrow> if 0 \<le> n \<and> n \<le> max_contract_fact_age then (Some n, [])
          else reject [] (err_at path ''max_age_ms'' ''expected integer in [0,300000]'')
      | None \<Rightarrow> reject [] (err_at path ''max_age_ms'' ''expected integer in [0,300000]''))"

definition validate_performance :: "fields \<Rightarrow> string \<Rightarrow> assertion checked" where
  "validate_performance obj path =
     (let e1 = version_errors obj path;
          (metric, e2) = require_string obj ''metric'' path;
          e3 = (case metric of None \<Rightarrow> [] | Some s \<Rightarrow>
                  if metric_name_ok s then [] else [err_at path ''metric''
                    ''expected 1-128 chars: alphanumeric followed by alphanumeric/dot/underscore/hyphen'']);
          unit = as_string (field obj ''unit'');
          unit_ok = (case unit of None \<Rightarrow> False | Some u \<Rightarrow> u \<in> set performance_units);
          e4 = (if unit_ok then [] else [err_at path ''unit'' ''expected one of ms|seconds|bytes|count'']);
          (op, e5) = validate_op (field obj ''op'') path;
          val = as_number (field obj ''value'');
          e6 = (if val = None then [err_at path ''value'' ''expected finite number''] else []);
          (age, e7) = validate_max_age (field obj ''max_age_ms'') path;
          es = e1 @ e2 @ e3 @ e4 @ e5 @ e6 @ e7
      in if e1 = [] \<and> metric \<noteq> None \<and> e3 = [] \<and> unit_ok \<and> op \<noteq> None \<and> val \<noteq> None \<and> age \<noteq> None
         then (Some (Leaf (Performance (the metric) (the unit) (the op) (the val) (the age))), es)
         else (None, es))"

definition bounded_string :: "nat \<Rightarrow> string \<Rightarrow> bool" where
  "bounded_string n s \<longleftrightarrow> s \<noteq> [] \<and> length s \<le> n"

text \<open>An optional field: absent, or a value that passes a test, or an error.\<close>

definition optional_field :: "jsvalue \<Rightarrow> (jsvalue \<Rightarrow> 'a + verror) \<Rightarrow> 'a option \<times> verror list" where
  "optional_field v test =
     (case v of JUndefined \<Rightarrow> (None, []) | _ \<Rightarrow> (case test v of Inl x \<Rightarrow> (Some x, []) | Inr e \<Rightarrow> (None, [e])))"

definition console_type_test :: "string \<Rightarrow> jsvalue \<Rightarrow> string + verror" where
  "console_type_test path v =
     (case as_string v of
        Some s \<Rightarrow> if bounded_string 64 s then Inl s else Inr (err_at path ''type'' ''expected non-empty string up to 64 chars'')
      | None \<Rightarrow> Inr (err_at path ''type'' ''expected non-empty string up to 64 chars''))"

definition pattern_test :: "regex_engine \<Rightarrow> string \<Rightarrow> jsvalue \<Rightarrow> string + verror" where
  "pattern_test engine path v =
     (case as_string v of
        None \<Rightarrow> Inr (err_at path ''message_pattern'' ''expected string'')
      | Some s \<Rightarrow> (case validate_regex engine s of
                     Some r \<Rightarrow> Inr (err_at path ''message_pattern'' (rejection_reason r)) | None \<Rightarrow> Inl s))"

definition uncaught_test :: "string \<Rightarrow> jsvalue \<Rightarrow> bool + verror" where
  "uncaught_test path v = (case v of JBool b \<Rightarrow> Inl b | _ \<Rightarrow> Inr (err_at path ''uncaught'' ''expected boolean''))"

definition validate_console :: "regex_engine \<Rightarrow> fields \<Rightarrow> string \<Rightarrow> assertion checked" where
  "validate_console engine obj path =
     (let e1 = version_errors obj path;
          (ty, e2) = optional_field (field obj ''type'') (console_type_test path);
          (pat, e3) = optional_field (field obj ''message_pattern'') (pattern_test engine path);
          (unc, e4) = optional_field (field obj ''uncaught'') (uncaught_test path);
          (op, e5) = validate_op (field obj ''op'') path;
          val = (case as_safe_integer (field obj ''value'') of Some n \<Rightarrow> if 0 \<le> n then Some n else None | None \<Rightarrow> None);
          e6 = (if val = None then [err_at path ''value'' ''expected non-negative safe integer''] else []);
          (age, e7) = validate_max_age (field obj ''max_age_ms'') path;
          es = e1 @ e2 @ e3 @ e4 @ e5 @ e6 @ e7
      in if e1 = [] \<and> e2 = [] \<and> e3 = [] \<and> e4 = [] \<and> op \<noteq> None \<and> val \<noteq> None \<and> age \<noteq> None
         then (Some (Leaf (Console ty pat unc (the op) (the val) (the age))), es)
         else (None, es))"

section \<open>The tree\<close>

definition has_field :: "fields \<Rightarrow> string \<Rightarrow> bool" where
  "has_field obj f \<longleftrightarrow> map_of obj f \<noteq> None"

definition kind_errors :: "fields \<Rightarrow> string \<Rightarrow> verror list" where
  "kind_errors obj path =
     (case as_string (field obj ''kind'') of
        None \<Rightarrow> [err_at path ''kind'' ''missing or non-string `kind`'']
      | Some k \<Rightarrow> if k \<in> set known_kinds then [] else [err_at path ''kind'' (''unknown kind '' @ [CHR 0x27] @ k @ [CHR 0x27])])"

text \<open>The validator of a leaf kind.\<close>

definition validate_leaf :: "regex_engine \<Rightarrow> string \<Rightarrow> fields \<Rightarrow> string \<Rightarrow> assertion checked" where
  "validate_leaf engine k obj path =
     (if k = ''url'' then validate_url engine obj path
      else if k = ''dom_text'' then validate_dom_text obj path
      else if k = ''dom_count'' then validate_dom_count obj path
      else if k = ''network'' then validate_network engine obj path
      else if k = ''screenshot_class'' then validate_screenshot_class obj path
      else if k = ''image_qa'' then validate_image_qa engine obj path
      else if k = ''performance'' then validate_performance obj path
      else if k = ''console'' then validate_console engine obj path
      else (Some (Leaf NoDialog), []))"

function walk :: "regex_engine \<Rightarrow> jsvalue \<Rightarrow> string \<Rightarrow> assertion checked"
  and walk_children :: "regex_engine \<Rightarrow> jsvalue list \<Rightarrow> nat \<Rightarrow> string \<Rightarrow> assertion list checked"
  where
  "walk engine v path =
     (case v of
        JObj obj \<Rightarrow>
          if kind_errors obj path \<noteq> [] then (None, kind_errors obj path)
          else if field obj ''kind'' = JStr ''and'' \<or> field obj ''kind'' = JStr ''or'' then
            (case field obj ''children'' of
               JArr (c # cs) \<Rightarrow>
                 (case walk_children engine (c # cs) 0 path of
                    (None, es) \<Rightarrow> (None, es)
                  | (Some as, es) \<Rightarrow> (Some (if field obj ''kind'' = JStr ''and'' then And as else Or as), es))
             | _ \<Rightarrow> reject [] (err_at path ''children'' ''expected non-empty array''))
          else if field obj ''kind'' = JStr ''not'' then
            (if field obj ''child'' = JUndefined then reject [] (err_at path ''child'' ''missing required field'')
             else if has_field obj ''children''
             then reject [] (err_at path ''children'' ''`not` takes a single `child`, not `children`'')
             else (case walk engine (field obj ''child'') (path @ ''.child'') of
                     (None, es) \<Rightarrow> (None, es) | (Some a, es) \<Rightarrow> (Some (Not a), es)))
          else validate_leaf engine (the (as_string (field obj ''kind''))) obj path
      | _ \<Rightarrow> reject [] \<lparr>ve_path = path, ve_message = ''expected object''\<rparr>)"
| "walk_children engine [] i path = (Some [], [])"
| "walk_children engine (v # vs) i path =
     (case walk engine v (path @ ''.children.'' @ dec i) of
        (a, es) \<Rightarrow>
          (case walk_children engine vs (i + 1) path of
             (rest, es') \<Rightarrow>
               (case (a, rest) of (Some x, Some xs) \<Rightarrow> (Some (x # xs), es @ es') | _ \<Rightarrow> (None, es @ es'))))"
  by pat_completeness auto
termination
  by (relation "measure (case_sum (\<lambda>(_, v, _). size v) (\<lambda>(_, vs, _). size_list size vs))")
    (auto dest: field_size intro: field_size [OF refl])

declare walk.simps [simp del]

definition validate_assertion :: "regex_engine \<Rightarrow> jsvalue \<Rightarrow> verror list + assertion" where
  "validate_assertion engine v =
     (case walk engine v ''$'' of (a, es) \<Rightarrow> if es \<noteq> [] then Inl es else Inr (the a))"

section \<open>Well-formed assertions\<close>

text \<open>What a contract may say: the specification the validator implements.\<close>

definition safe_pattern :: "regex_engine \<Rightarrow> string \<Rightarrow> bool" where
  "safe_pattern engine p \<longleftrightarrow> validate_regex engine p = None"

fun leaf_ok :: "regex_engine \<Rightarrow> leaf \<Rightarrow> bool" where
  "leaf_ok engine (Url p) = safe_pattern engine p"
| "leaf_ok engine (DomText sel part) = True"
| "leaf_ok engine (DomCount sel op n) = (0 \<le> n)"
| "leaf_ok engine (Network p sts since) = (sts \<noteq> [] \<and> list_all (\<lambda>n. 100 \<le> n \<and> n < 600) sts
     \<and> (if engine p \<noteq> None then safe_pattern engine p else length p \<le> max_pattern_length))"
| "leaf_ok engine (ScreenshotClass cls d) = (class_id_ok cls \<and> 0 \<le> d \<and> d \<le> 64)"
| "leaf_ok engine NoDialog = True"
| "leaf_ok engine (ImageQa q p) = safe_pattern engine p"
| "leaf_ok engine (Performance m u op v age) =
     (metric_name_ok m \<and> u \<in> set performance_units \<and> 0 \<le> age \<and> age \<le> max_contract_fact_age)"
| "leaf_ok engine (Console ty p unc op v age) =
     ((case ty of None \<Rightarrow> True | Some s \<Rightarrow> bounded_string 64 s) \<and> (case p of None \<Rightarrow> True | Some s \<Rightarrow> safe_pattern engine s)
      \<and> 0 \<le> v \<and> v \<le> max_safe_integer \<and> 0 \<le> age \<and> age \<le> max_contract_fact_age)"

fun assertion_ok :: "regex_engine \<Rightarrow> assertion \<Rightarrow> bool" where
  "assertion_ok engine (Leaf l) = leaf_ok engine l"
| "assertion_ok engine (And cs) = (cs \<noteq> [] \<and> list_all (assertion_ok engine) cs)"
| "assertion_ok engine (Or cs) = (cs \<noteq> [] \<and> list_all (assertion_ok engine) cs)"
| "assertion_ok engine (Not a) = assertion_ok engine a"

text \<open>The object that \<open>JSON.stringify\<close> writes and \<open>JSON.parse\<close> reads back for an assertion.\<close>

fun op_value :: "comparison \<Rightarrow> jsvalue" where
  "op_value CmpEq = JStr ''eq''" | "op_value CmpGte = JStr ''gte''" | "op_value CmpLte = JStr ''lte''"

fun since_value :: "since_marker \<Rightarrow> jsvalue" where
  "since_value ContractEnter = JStr ''contract_enter''" | "since_value LastToolCall = JStr ''last_tool_call''"

definition int_value :: "int \<Rightarrow> jsvalue" where "int_value n = JNum (of_int n)"

definition opt_field :: "string \<Rightarrow> ('a \<Rightarrow> jsvalue) \<Rightarrow> 'a option \<Rightarrow> fields" where
  "opt_field f g x = (case x of None \<Rightarrow> [] | Some v \<Rightarrow> [(f, g v)])"

fun leaf_value :: "leaf \<Rightarrow> fields" where
  "leaf_value (Url p) = [(''kind'', JStr ''url''), (''pattern'', JStr p)]"
| "leaf_value (DomText sel part) = [(''kind'', JStr ''dom_text'')] @ opt_field ''selector'' JStr sel @ [(''contains'', JStr part)]"
| "leaf_value (DomCount sel op n) =
     [(''kind'', JStr ''dom_count''), (''selector'', JStr sel), (''op'', op_value op), (''value'', int_value n)]"
| "leaf_value (Network p sts since) = [(''kind'', JStr ''network''), (''url_pattern'', JStr p),
     (''status_in'', JArr (map int_value sts)), (''since'', since_value since)]"
| "leaf_value (ScreenshotClass cls d) =
     [(''kind'', JStr ''screenshot_class''), (''class_id'', JStr cls), (''distance_max'', int_value d)]"
| "leaf_value NoDialog = [(''kind'', JStr ''no_dialog'')]"
| "leaf_value (ImageQa q p) = [(''kind'', JStr ''image_qa''), (''question'', JStr q), (''expected_pattern'', JStr p)]"
| "leaf_value (Performance m u op v age) = [(''kind'', JStr ''performance''), (''schema_version'', JNum 1),
     (''metric'', JStr m), (''unit'', JStr u), (''op'', op_value op), (''value'', JNum v), (''max_age_ms'', int_value age)]"
| "leaf_value (Console ty p unc op v age) = [(''kind'', JStr ''console''), (''schema_version'', JNum 1)]
     @ opt_field ''type'' JStr ty @ opt_field ''message_pattern'' JStr p @ opt_field ''uncaught'' JBool unc
     @ [(''op'', op_value op), (''value'', int_value v), (''max_age_ms'', int_value age)]"

fun json_of :: "assertion \<Rightarrow> jsvalue" where
  "json_of (Leaf l) = JObj (leaf_value l)"
| "json_of (And cs) = JObj [(''kind'', JStr ''and''), (''children'', JArr (map json_of cs))]"
| "json_of (Or cs) = JObj [(''kind'', JStr ''or''), (''children'', JArr (map json_of cs))]"
| "json_of (Not a) = JObj [(''kind'', JStr ''not''), (''child'', json_of a)]"

section \<open>Every refusal has an error, every acceptance is well-formed\<close>

text \<open>A check is honest when it refuses exactly if it reports something.\<close>

definition honest :: "'a checked \<Rightarrow> bool" where
  "honest c \<longleftrightarrow> (fst c = None \<longleftrightarrow> snd c \<noteq> [])"

named_theorems validators \<open>definitions of the leaf validators\<close>

lemmas [validators] = validate_url_def validate_dom_text_def validate_dom_count_def validate_network_def
  validate_screenshot_class_def validate_image_qa_def url_pattern_errors_def

lemma honest_reject [simp]: "honest (reject es e)"
  by (simp add: honest_def reject_def)

lemma reject_fields [simp]: "fst (reject es e) = None" "snd (reject es e) = es @ [e]"
  by (simp_all add: reject_def)

lemma honest_require: "honest (require_string obj f path)"
  by (simp add: require_string_def honest_def split: option.split)

lemma honest_require_cases:
  obtains (missing) es where "require_string obj f path = (None, es)" "es \<noteq> []"
  | (present) s where "require_string obj f path = (Some s, [])" "field obj f = JStr s"
proof (cases "as_string (field obj f)")
  case None
  then show ?thesis using missing by (simp add: require_string_def reject_def)
next
  case (Some s)
  then show ?thesis by (intro present [of s]) (auto simp: require_string_def as_string_iff)
qed

lemma honest_op: "honest (validate_op v path)"
  by (simp add: validate_op_def honest_def split: option.split)

lemma honest_age: "honest (validate_max_age v path)"
  by (simp add: validate_max_age_def honest_def split: option.split)

lemma honest_statuses: "honest (validate_statuses vs i path)"
  by (induction vs i path rule: validate_statuses.induct)
    (auto simp: honest_def case_prod_beta split: option.split)

lemma statuses_ok: "fst (validate_statuses vs i path) = Some ns \<Longrightarrow>
    length ns = length vs \<and> list_all (\<lambda>n. 100 \<le> n \<and> n < 600) ns"
  by (induction vs i path arbitrary: ns rule: validate_statuses.induct)
    (auto simp: http_status_def case_prod_beta split: option.splits if_splits)

text \<open>A leaf validator is sound when it is honest and accepts well-formed leaves only.\<close>

definition sound_check :: "regex_engine \<Rightarrow> assertion checked \<Rightarrow> bool" where
  "sound_check engine c \<longleftrightarrow> honest c \<and> (case fst c of None \<Rightarrow> True | Some a \<Rightarrow> assertion_ok engine a)"

lemma sound_reject [simp]: "sound_check engine (reject es e)"
  by (simp add: sound_check_def)

lemma sound_none [simp]: "sound_check engine (None, es) \<longleftrightarrow> es \<noteq> []"
  by (simp add: sound_check_def honest_def)

lemma sound_some [simp]: "sound_check engine (Some a, es) \<longleftrightarrow> es = [] \<and> assertion_ok engine a"
  by (auto simp: sound_check_def honest_def)

lemma sound_url: "sound_check engine (validate_url engine obj path)"
  by (cases rule: honest_require_cases [of obj "''pattern''" path])
    (auto simp: validate_url_def safe_pattern_def split: option.split)

lemma sound_dom_text: "sound_check engine (validate_dom_text obj path)"
  by (cases rule: honest_require_cases [of obj "''contains''" path])
    (auto simp: validate_dom_text_def split: jsvalue.split)

lemma sound_dom_count: "sound_check engine (validate_dom_count obj path)"
  by (cases rule: honest_require_cases [of obj "''selector''" path])
    (auto simp: validate_dom_count_def Let_def split: option.split)

lemma sound_network: "sound_check engine (validate_network engine obj path)"
proof (cases rule: honest_require_cases [of obj "''url_pattern''" path])
  case (missing es)
  then show ?thesis
    by (auto simp: validate_network_def Let_def url_pattern_errors_def case_prod_beta
        split: option.split jsvalue.split list.split)
next
  case (present p)
  have bad: "url_pattern_errors engine (Some p) path = [] \<Longrightarrow>
      (if engine p \<noteq> None then safe_pattern engine p else length p \<le> max_pattern_length)"
    by (auto simp: url_pattern_errors_def safe_pattern_def split: if_splits option.splits)
  show ?thesis
  proof (cases "url_pattern_errors engine (Some p) path = []")
    case True
    have "sound_check engine
      (case validate_statuses (v # vs) 0 path of
          (None, es') \<Rightarrow> (None, [] @ es')
        | (Some ns, es') \<Rightarrow> (case Some p of None \<Rightarrow> (None, [] @ es')
             | Some p \<Rightarrow> (Some (Leaf (Network p ns since)), [] @ es')))" for v vs since
      using honest_statuses [of "v # vs" 0 path] statuses_ok [of "v # vs" 0 path] bad [OF True]
      by (cases "validate_statuses (v # vs) 0 path") (auto simp: honest_def simp del: validate_statuses.simps split: option.split)
    then show ?thesis using True present
      by (auto simp: validate_network_def Let_def simp del: validate_statuses.simps split: option.split jsvalue.split list.split)
  next
    case False
    then show ?thesis using present by (simp add: validate_network_def Let_def)
  qed
qed

lemma sound_screenshot_class: "sound_check engine (validate_screenshot_class obj path)"
  by (cases rule: honest_require_cases [of obj "''class_id''" path])
    (auto simp: validate_screenshot_class_def Let_def split: option.split)

lemma sound_image_qa: "sound_check engine (validate_image_qa engine obj path)"
  by (cases rule: honest_require_cases [of obj "''question''" path];
      cases rule: honest_require_cases [of obj "''expected_pattern''" path])
    (auto simp: validate_image_qa_def Let_def safe_pattern_def split: option.split)

lemma op_check: "snd (validate_op v path) = [] \<longleftrightarrow> fst (validate_op v path) \<noteq> None"
  using honest_op [of v path] by (auto simp: honest_def)

lemma age_check:
  "snd (validate_max_age v path) = [] \<longleftrightarrow> fst (validate_max_age v path) \<noteq> None"
  "fst (validate_max_age v path) = Some n \<Longrightarrow> 0 \<le> n \<and> n \<le> max_contract_fact_age"
  using honest_age [of v path] by (auto simp: honest_def validate_max_age_def split: option.splits if_splits)

lemma sound_performance: "sound_check engine (validate_performance obj path)"
proof -
  obtain op e5 where op: "validate_op (field obj ''op'') path = (op, e5)" by fastforce
  obtain age e7 where age: "validate_max_age (field obj ''max_age_ms'') path = (age, e7)" by fastforce
  have "e5 = [] \<longleftrightarrow> op \<noteq> None" using op_check [of "field obj ''op''" path] op by simp
  moreover have "e7 = [] \<longleftrightarrow> age \<noteq> None" "\<And>n. age = Some n \<Longrightarrow> 0 \<le> n \<and> n \<le> max_contract_fact_age"
    using age_check [of "field obj ''max_age_ms''" path] age by simp_all
  ultimately show ?thesis
    by (cases rule: honest_require_cases [of obj "''metric''" path])
      (auto simp: validate_performance_def Let_def op age split: option.split)
qed

lemma optional_check:
  assumes "\<And>x. test v = Inl x \<Longrightarrow> good x"
  shows "snd (optional_field v test) = [] \<Longrightarrow> (case fst (optional_field v test) of None \<Rightarrow> True | Some x \<Rightarrow> good x)"
  using assms by (cases v) (auto simp: optional_field_def split: sum.splits)

lemma console_tests:
  "console_type_test path v = Inl s \<Longrightarrow> bounded_string 64 s"
  "pattern_test engine path v = Inl s \<Longrightarrow> safe_pattern engine s"
  by (auto simp: console_type_test_def pattern_test_def safe_pattern_def split: option.splits if_splits)

lemma sound_console: "sound_check engine (validate_console engine obj path)"
proof -
  obtain op e5 where op: "validate_op (field obj ''op'') path = (op, e5)" by fastforce
  obtain age e7 where age: "validate_max_age (field obj ''max_age_ms'') path = (age, e7)" by fastforce
  obtain ty e2 where ty: "optional_field (field obj ''type'') (console_type_test path) = (ty, e2)" by fastforce
  obtain pat e3 where pat: "optional_field (field obj ''message_pattern'') (pattern_test engine path) = (pat, e3)" by fastforce
  obtain unc e4 where unc: "optional_field (field obj ''uncaught'') (uncaught_test path) = (unc, e4)" by fastforce
  define val where "val = (case as_safe_integer (field obj ''value'') of Some n \<Rightarrow> if 0 \<le> n then Some n else None | None \<Rightarrow> None)"
  have "e5 = [] \<longleftrightarrow> op \<noteq> None" using op_check [of "field obj ''op''" path] op by simp
  moreover have "e7 = [] \<longleftrightarrow> age \<noteq> None" "\<And>n. age = Some n \<Longrightarrow> 0 \<le> n \<and> n \<le> max_contract_fact_age"
    using age_check [of "field obj ''max_age_ms''" path] age by simp_all
  moreover have "e2 = [] \<Longrightarrow> (case ty of None \<Rightarrow> True | Some s \<Rightarrow> bounded_string 64 s)"
    using optional_check [of "console_type_test path" "field obj ''type''" "bounded_string 64"] console_tests(1) ty by simp
  moreover have "e3 = [] \<Longrightarrow> (case pat of None \<Rightarrow> True | Some s \<Rightarrow> safe_pattern engine s)"
    using optional_check [of "pattern_test engine path" "field obj ''message_pattern''" "safe_pattern engine"]
      console_tests(2) pat by simp
  moreover have "\<And>n. val = Some n \<Longrightarrow> 0 \<le> n \<and> n \<le> max_safe_integer"
    by (auto simp: val_def as_safe_integer_iff split: option.splits if_splits)
  moreover have "validate_console engine obj path =
      (if version_errors obj path = [] \<and> e2 = [] \<and> e3 = [] \<and> e4 = [] \<and> op \<noteq> None \<and> val \<noteq> None \<and> age \<noteq> None
       then (Some (Leaf (Console ty pat unc (the op) (the val) (the age))),
         version_errors obj path @ e2 @ e3 @ e4 @ e5 @
           (if val = None then [err_at path ''value'' ''expected non-negative safe integer''] else []) @ e7)
       else (None, version_errors obj path @ e2 @ e3 @ e4 @ e5 @
           (if val = None then [err_at path ''value'' ''expected non-negative safe integer''] else []) @ e7))"
    unfolding validate_console_def Let_def ty pat unc op age val_def [symmetric] case_prod_conv by (rule refl)
  ultimately show ?thesis by auto
qed

lemma sound_leaf: "sound_check engine (validate_leaf engine k obj path)"
  by (simp add: validate_leaf_def sound_url sound_dom_text sound_dom_count sound_network sound_screenshot_class
      sound_image_qa sound_performance sound_console)

definition sound_checks :: "regex_engine \<Rightarrow> assertion list checked \<Rightarrow> nat \<Rightarrow> bool" where
  "sound_checks engine c n \<longleftrightarrow> honest c
     \<and> (case fst c of None \<Rightarrow> True | Some as \<Rightarrow> length as = n \<and> list_all (assertion_ok engine) as)"

lemma sound_cases:
  assumes "sound_check engine c"
  obtains es where "c = (None, es)" "es \<noteq> []" | a where "c = (Some a, [])" "assertion_ok engine a"
  using assms by (cases c; cases "fst c") auto

lemma sound_children:
  "sound_checks engine c (Suc n) \<Longrightarrow>
    sound_check engine (case c of (None, es) \<Rightarrow> (None, es) | (Some as, es) \<Rightarrow> (Some (if b then And as else Or as), es))"
  by (cases c; cases "fst c") (auto simp: sound_checks_def honest_def)

lemma sound_walk:
  "sound_check engine (walk engine v path)"
  "sound_checks engine (walk_children engine vs i path) (length vs)"
proof (induction engine v path and engine vs i path rule: walk_walk_children.induct)
  case (1 engine v path)
  show ?case
  proof (cases v)
    case (JObj obj)
    show ?thesis
    proof (cases "kind_errors obj path = []")
      case False
      then show ?thesis using JObj by (simp add: walk.simps)
    next
      case True
      show ?thesis
      proof (cases "field obj ''kind'' = JStr ''and'' \<or> field obj ''kind'' = JStr ''or''")
        case logical: True
        have "sound_checks engine (walk_children engine (c # cs) 0 path) (length (c # cs))"
          if "field obj ''children'' = JArr (c # cs)" for c cs
          using "1.IH"(1) [OF JObj _ logical that refl] True by simp
        moreover have "walk engine v path = (case field obj ''children'' of
             JArr (c # cs) \<Rightarrow>
               (case walk_children engine (c # cs) 0 path of
                  (None, es) \<Rightarrow> (None, es)
                | (Some as, es) \<Rightarrow> (Some (if field obj ''kind'' = JStr ''and'' then And as else Or as), es))
           | _ \<Rightarrow> reject [] (err_at path ''children'' ''expected non-empty array''))"
          unfolding JObj walk.simps [of engine "JObj obj"] using True logical
          by (simp only: jsvalue.case if_True if_False simp_thms)
        ultimately show ?thesis by (auto intro: sound_children split: jsvalue.split list.split)
      next
        case leaf: False
        have "sound_check engine (walk engine (field obj ''child'') (path @ ''.child''))"
          if "field obj ''kind'' = JStr ''not''" "field obj ''child'' \<noteq> JUndefined" "\<not> has_field obj ''children''"
          using "1.IH"(2) [OF JObj _ leaf that] True by simp
        then show ?thesis using JObj True leaf sound_leaf
          by (auto simp: walk.simps split: prod.split option.split elim: sound_cases)
      qed
    qed
  qed (simp_all add: walk.simps)
next
  case (2 engine i path)
  then show ?case by (simp add: sound_checks_def honest_def)
next
  case (3 engine v vs i path)
  have a: "sound_check engine (walk engine v (path @ ''.children.'' @ dec i))" by (rule "3.IH"(1))
  have b: "sound_checks engine (walk_children engine vs (i + 1) path) (length vs)" by (rule "3.IH"(2) [OF prod.collapse])
  obtain ra es where wa: "walk engine v (path @ ''.children.'' @ dec i) = (ra, es)" by fastforce
  obtain rb es' where wb: "walk_children engine vs (i + 1) path = (rb, es')" by fastforce
  show ?case using a b unfolding walk_children.simps wa wb
    by (cases ra; cases rb) (auto simp: sound_checks_def honest_def)
qed

lemma validate_cases:
  "case validate_assertion engine v of Inl es \<Rightarrow> es \<noteq> [] | Inr a \<Rightarrow> assertion_ok engine a"
  using sound_walk(1) [of engine v "''$''"]
  by (cases "walk engine v ''$''") (auto simp: validate_assertion_def sound_check_def honest_def split: option.splits)

section \<open>Reading back what was written\<close>

lemma comparison_of_value [simp]: "comparison_of (op_value op) = Some op"
  by (cases op) (simp_all add: comparison_of_def)

lemma since_of_value [simp]: "since_of (since_value s) = Some s"
  by (cases s) (simp_all add: since_of_def)

lemma int_values [simp]:
  "as_integer (int_value n) = Some n" "\<bar>n\<bar> \<le> max_safe_integer \<Longrightarrow> as_safe_integer (int_value n) = Some n"
  by (simp_all add: int_value_def as_safe_integer_def)

lemma age_value [simp]: "0 \<le> n \<Longrightarrow> n \<le> max_contract_fact_age \<Longrightarrow> validate_max_age (int_value n) path = (Some n, [])"
  by (simp add: validate_max_age_def max_contract_fact_age_def max_safe_integer_def)

lemma statuses_value:
  "list_all (\<lambda>n. 100 \<le> n \<and> n < 600) ns \<Longrightarrow> validate_statuses (map int_value ns) i path = (Some ns, [])"
  by (induction ns arbitrary: i) (simp_all add: http_status_def)

lemma walk_leaf:
  assumes "field obj ''kind'' = JStr k" "k \<in> set known_kinds" "k \<notin> {''and'', ''or'', ''not''}"
  shows "walk engine (JObj obj) path = validate_leaf engine k obj path"
  using assms by (simp add: walk.simps kind_errors_def)

lemma walk_leaf_value:
  assumes "leaf_ok engine l"
  shows "walk engine (JObj (leaf_value l)) path = (Some (Leaf l), [])"
proof (cases l)
  case (Url p)
  then show ?thesis using assms
    by (subst walk_leaf [of _ "''url''"])
      (simp_all add: known_kinds_def validate_leaf_def validate_url_def require_string_def safe_pattern_def)
next
  case (DomText sel part)
  then show ?thesis
    by (subst walk_leaf [of _ "''dom_text''"])
      (cases sel; simp add: known_kinds_def validate_leaf_def validate_dom_text_def require_string_def opt_field_def)+
next
  case (DomCount sel op n)
  then show ?thesis using assms
    by (subst walk_leaf [of _ "''dom_count''"])
      (simp_all add: known_kinds_def validate_leaf_def validate_dom_count_def require_string_def)
next
  case (Network p sts since)
  then obtain st sts' where sts: "sts = st # sts'" using assms by (cases sts) simp_all
  have "validate_statuses (int_value st # map int_value sts') 0 path = (Some sts, [])"
    using statuses_value [of sts 0 path] assms Network by (simp add: sts)
  moreover have "url_pattern_errors engine (Some p) path = []"
    using assms Network by (auto simp: url_pattern_errors_def safe_pattern_def split: if_splits)
  ultimately show ?thesis using Network sts
    by (subst walk_leaf [of _ "''network''"])
      (simp_all add: known_kinds_def validate_leaf_def validate_network_def require_string_def del: validate_statuses.simps)
next
  case (ScreenshotClass cls d)
  then show ?thesis using assms
    by (subst walk_leaf [of _ "''screenshot_class''"])
      (simp_all add: known_kinds_def validate_leaf_def validate_screenshot_class_def require_string_def)
next
  case NoDialog
  then show ?thesis by (subst walk_leaf [of _ "''no_dialog''"]) (simp_all add: known_kinds_def validate_leaf_def)
next
  case (ImageQa q p)
  then show ?thesis using assms
    by (subst walk_leaf [of _ "''image_qa''"])
      (simp_all add: known_kinds_def validate_leaf_def validate_image_qa_def require_string_def safe_pattern_def)
next
  case (Performance m u op v age)
  then show ?thesis using assms
    by (subst walk_leaf [of _ "''performance''"])
      (simp_all add: known_kinds_def validate_leaf_def validate_performance_def require_string_def version_errors_def
        validate_op_def)
next
  case (Console ty p unc op v age)
  have "field (leaf_value l) ''type'' = (case ty of None \<Rightarrow> JUndefined | Some s \<Rightarrow> JStr s)"
    "field (leaf_value l) ''message_pattern'' = (case p of None \<Rightarrow> JUndefined | Some s \<Rightarrow> JStr s)"
    "field (leaf_value l) ''uncaught'' = (case unc of None \<Rightarrow> JUndefined | Some b \<Rightarrow> JBool b)"
    "field (leaf_value l) ''kind'' = JStr ''console''" "field (leaf_value l) ''schema_version'' = JNum 1"
    "field (leaf_value l) ''op'' = op_value op" "field (leaf_value l) ''value'' = int_value v"
    "field (leaf_value l) ''max_age_ms'' = int_value age"
    using Console by (simp_all add: opt_field_def split: option.split)
  moreover have "optional_field (case ty of None \<Rightarrow> JUndefined | Some s \<Rightarrow> JStr s) (console_type_test path) = (ty, [])"
    "optional_field (case p of None \<Rightarrow> JUndefined | Some s \<Rightarrow> JStr s) (pattern_test engine path) = (p, [])"
    "optional_field (case unc of None \<Rightarrow> JUndefined | Some b \<Rightarrow> JBool b) (uncaught_test path) = (unc, [])"
    using assms Console
    by (auto simp: optional_field_def console_type_test_def pattern_test_def uncaught_test_def safe_pattern_def split: option.splits)
  ultimately show ?thesis using assms Console
    by (subst walk_leaf [of _ "''console''"])
      (simp_all add: known_kinds_def validate_leaf_def validate_console_def version_errors_def validate_op_def Let_def
        max_safe_integer_def del: leaf_value.simps)
qed

lemma walk_json:
  "assertion_ok engine a \<Longrightarrow> walk engine (json_of a) path = (Some a, [])"
proof (induction a arbitrary: path)
  case (Leaf l)
  then show ?case by (simp add: walk_leaf_value)
next
  case (And cs)
  have "list_all (assertion_ok engine) ds \<Longrightarrow> set ds \<subseteq> set cs \<Longrightarrow>
      walk_children engine (map json_of ds) i p = (Some ds, [])" for ds i p
    using And.IH by (induction ds arbitrary: i) auto
  then have "walk_children engine (map json_of cs) 0 path = (Some cs, [])" using And.prems by simp
  then show ?case using And.prems by (cases cs) (simp_all add: walk.simps kind_errors_def known_kinds_def del: walk_children.simps)
next
  case (Or cs)
  have "list_all (assertion_ok engine) ds \<Longrightarrow> set ds \<subseteq> set cs \<Longrightarrow>
      walk_children engine (map json_of ds) i p = (Some ds, [])" for ds i p
    using Or.IH by (induction ds arbitrary: i) auto
  then have "walk_children engine (map json_of cs) 0 path = (Some cs, [])" using Or.prems by simp
  then show ?case using Or.prems by (cases cs) (simp_all add: walk.simps kind_errors_def known_kinds_def del: walk_children.simps)
next
  case (Not a)
  have "json_of a \<noteq> JUndefined" by (cases a) simp_all
  then show ?case using Not by (simp add: walk.simps [of _ "JObj _"] kind_errors_def known_kinds_def has_field_def)
qed

section \<open>Properties\<close>

text \<open>The validator never accepts a partially valid contract and never refuses in silence: whatever
  JSON value it is given, it either returns a non-empty list of errors, or an assertion that is well-formed
  throughout (every pattern passes the safety guard or is a bounded substring, every number and name is in range,
  no combinator is empty).\<close>

theorem validator_accepts_only_contracts:
  "case validate_assertion engine v of Inl es \<Rightarrow> es \<noteq> [] | Inr a \<Rightarrow> assertion_ok engine a"
  by (rule validate_cases)

text \<open>C17 (roundtrip). A contract that is written as a JSON object and validated again comes back
  unchanged exactly when it is well-formed.\<close>

theorem validated_contract_roundtrip:
  "validate_assertion engine (json_of a) = Inr a \<longleftrightarrow> assertion_ok engine a"
proof
  assume "validate_assertion engine (json_of a) = Inr a"
  then show "assertion_ok engine a" using validate_cases [of engine "json_of a"] by simp
next
  assume "assertion_ok engine a"
  then show "validate_assertion engine (json_of a) = Inr a" by (simp add: validate_assertion_def walk_json)
qed

section \<open>Validated contracts are decided by the page\<close>

fun leaves :: "assertion \<Rightarrow> leaf list" where
  "leaves (Leaf l) = [l]"
| "leaves (And cs) = concat (map leaves cs)"
| "leaves (Or cs) = concat (map leaves cs)"
| "leaves (Not a) = leaves a"

definition yields :: "string + 'a \<Rightarrow> ('a \<Rightarrow> bool) \<Rightarrow> bool" where
  "yields x P \<longleftrightarrow> (case x of Inl _ \<Rightarrow> False | Inr v \<Rightarrow> P v)"

text \<open>The page and the host answer what a leaf asks of them.\<close>

fun answered :: "eval_context \<Rightarrow> leaf \<Rightarrow> bool" where
  "answered cx (Url p) = yields (cx_url cx) (\<lambda>_. True)"
| "answered cx (DomText sel part) = yields (cx_dom_text cx sel) (\<lambda>_. True)"
| "answered cx (DomCount sel op n) = yields (cx_dom_count cx sel) (\<lambda>_. True)"
| "answered cx (Network p sts since) = yields (cx_network cx since) (\<lambda>_. True)"
| "answered cx (ScreenshotClass cls d) =
     yields (cx_screenshot cx) (\<lambda>s. case s of None \<Rightarrow> True | Some b \<Rightarrow> yields (cx_class_distance cx cls b) (\<lambda>_. True))"
| "answered cx NoDialog = yields (cx_dialog cx) (\<lambda>_. True)"
| "answered cx (ImageQa q p) =
     (case cx_image_qa cx of
        None \<Rightarrow> False
      | Some ask \<Rightarrow> yields (cx_screenshot cx) (\<lambda>s. case s of None \<Rightarrow> False
          | Some b \<Rightarrow> yields (ask q b) (\<lambda>r. case r of QaAnswer _ \<Rightarrow> True | QaUnsupported _ \<Rightarrow> False)))"
| "answered cx (Performance m u op v age) =
     (cx_fact_scope cx \<and> yields (cx_performance cx m u age) (\<lambda>f. case f of Inl _ \<Rightarrow> False | Inr _ \<Rightarrow> True))"
| "answered cx (Console ty p unc op v age) =
     (cx_fact_scope cx \<and> yields (cx_console cx age) (\<lambda>f. case f of Inl _ \<Rightarrow> False
        | Inr c \<Rightarrow> (case cf_captured c of None \<Rightarrow> True
            | Some types \<Rightarrow> (case ty of None \<Rightarrow> False | Some t \<Rightarrow> t \<in> set types))))"

lemma safe_compiles: "safe_pattern engine p \<Longrightarrow> \<exists>t. compile_safe_regex engine p = Inr t"
  by (auto simp: safe_pattern_def compile_safe_regex_def validate_regex_def split: option.split if_splits)

lemma yieldsE: "yields x P \<Longrightarrow> (\<And>v. x = Inr v \<Longrightarrow> P v \<Longrightarrow> thesis) \<Longrightarrow> thesis"
  by (auto simp: yields_def split: sum.splits)

definition conclusive :: "evidence \<Rightarrow> bool" where
  "conclusive e \<longleftrightarrow> d_error (ev_details e) = None"

lemma conclusive_node [simp]: "conclusive (NodeEvidence b a no_error es)"
  by (simp add: conclusive_def no_error_def)

lemma leaf_conclusive:
  assumes "leaf_ok engine l" "answered cx l"
  shows "conclusive (guard_errors l (evaluate_leaf engine cx l))"
proof (cases l)
  case (Url p)
  then show ?thesis using assms safe_compiles [of engine p]
    by (auto simp: evaluate_url_def try_hook_def guard_errors_def decided_def conclusive_def no_error_def elim!: yieldsE)
next
  case (ImageQa q p)
  then show ?thesis using assms safe_compiles [of engine p]
    by (auto simp: evaluate_image_qa_def try_hook_def guard_errors_def decided_def conclusive_def no_error_def
        elim!: yieldsE split: option.splits qa_reply.splits)
next
  case (Console ty p unc op v age)
  then show ?thesis using assms safe_compiles [of engine "the p"]
    by (auto simp: evaluate_console_def try_hook_def guard_errors_def decided_def conclusive_def no_error_def Let_def
        elim!: yieldsE split: option.splits sum.splits)
next
  case (Performance m u op v age)
  then show ?thesis using assms
    by (auto simp: evaluate_performance_def try_hook_def guard_errors_def decided_def conclusive_def no_error_def
        elim!: yieldsE split: sum.splits)
next
  case (ScreenshotClass cls d)
  then show ?thesis using assms
    by (auto simp: evaluate_screenshot_class_def try_hook_def guard_errors_def decided_def undecided_def conclusive_def
        no_error_def elim!: yieldsE split: option.splits)
qed (use assms in \<open>auto simp: evaluate_dom_text_def evaluate_dom_count_def evaluate_network_def evaluate_no_dialog_def
      try_hook_def guard_errors_def decided_def conclusive_def no_error_def elim!: yieldsE\<close>)

lemma conclusive_details: "conclusive e \<Longrightarrow> inconclusive_details e = None"
  by (simp add: conclusive_def inconclusive_iff)

lemma evaluate_conclusive:
  "assertion_ok engine a \<Longrightarrow> list_all (answered cx) (leaves a) \<Longrightarrow> conclusive (evaluate engine cx a)"
  "list_all (assertion_ok engine) cs \<Longrightarrow> list_all (answered cx) (concat (map leaves cs)) \<Longrightarrow>
    conclusive (evaluate_and engine cx all cs seen)"
  "list_all (assertion_ok engine) cs \<Longrightarrow> list_all (answered cx) (concat (map leaves cs)) \<Longrightarrow> first = None \<Longrightarrow>
    conclusive (evaluate_or engine cx all cs seen first)"
proof (induction engine cx a and engine cx all cs seen and engine cx all cs seen first
    rule: evaluate_evaluate_and_evaluate_or.induct)
  case (1 engine cx l)
  then show ?case by (simp add: leaf_conclusive)
next
  case (4 engine cx a)
  then show ?case by (simp add: Let_def conclusive_details)
next
  case (6 engine cx all c cs seen)
  then show ?case by (simp add: Let_def conclusive_details)
next
  case (8 engine cx all c cs seen first)
  then show ?case by (simp add: Let_def conclusive_details)
qed simp_all

text \<open>C18 (functional). Composition of the validator and the evaluator: if a contract passed the validator and the
  page and the host answer every question its leaves ask, then its verdict is never inconclusive, and it is a pass
  exactly when the contract is true of the page. So with a validated contract only a missing observation can make
  a verdict inconclusive, never a pattern, a number or the shape of the contract.\<close>

theorem validated_contract_is_decided:
  assumes "validate_assertion engine v = Inr a" "list_all (answered cx) (leaves a)"
  shows "d_error (ev_details (evaluate engine cx a)) = None
    \<and> (ev_passed (evaluate engine cx a) \<longleftrightarrow> truth engine cx (\<lambda>_. False) a)"
proof -
  have "assertion_ok engine a" using validate_cases [of engine v] assms(1) by simp
  then have c: "conclusive (evaluate engine cx a)" using assms(2) by (rule evaluate_conclusive(1))
  have "sound_verdict engine cx a (evaluate engine cx a)" by (rule evaluate_sound_all(1))
  then show ?thesis using c conclusive_details [OF c]
    by (auto simp: sound_verdict_def conclusive_def)
qed

definition sample_context :: eval_context where
  "sample_context = \<lparr>cx_url = Inr ''http://a/cart'', cx_dom_text = (\<lambda>_. Inr (Some ''Total'')), cx_dom_count = (\<lambda>_. Inr 1),
     cx_network = (\<lambda>_. Inr []), cx_screenshot = Inr None, cx_dialog = Inr False, cx_class_distance = (\<lambda>_ _. Inr 0),
     cx_image_qa = None, cx_fact_scope = False, cx_performance = (\<lambda>_ _ _. Inl []), cx_console = (\<lambda>_. Inl [])\<rparr>"

definition sample_contract :: assertion where
  "sample_contract = And [Leaf (DomText None ''Total''), Not (Leaf (DomCount ''.error'' CmpGte 2))]"

theorem validated_contract_is_decided_witness:
  "d_error (ev_details (evaluate (\<lambda>_. None) sample_context sample_contract)) = None
    \<and> (ev_passed (evaluate (\<lambda>_. None) sample_context sample_contract)
        \<longleftrightarrow> truth (\<lambda>_. None) sample_context (\<lambda>_. False) sample_contract)"
proof (rule validated_contract_is_decided)
  show "validate_assertion (\<lambda>_. None) (json_of sample_contract) = Inr sample_contract"
    using walk_json [of "\<lambda>_. None" sample_contract "''$''"]
    by (simp add: validate_assertion_def) (simp add: sample_contract_def)
  show "list_all (answered sample_context) (leaves sample_contract)"
    by (simp add: sample_contract_def sample_context_def yields_def)
qed

end
