(* ===== verification/Boundary_Markers.thy ===== *)
theory Boundary_Markers
  imports Js_Strings
begin

text \<open>
  The markers around text that comes from a page, \<open>src/src/core/perception/boundary-markers.ts\<close>. A marker in the
  text itself is defused by a zero-width space, which the unescaping takes out again. The zero-width
  space is outside the characters of the model, so it is the argument \<open>zw\<close>, of which a theorem assumes what
  is true of it: it is not white space and does not occur in a marker (\<open>defuser\<close>). A regular-expression
  replacement is a scan here: no match contains a second start of a match.
\<close>

section \<open>Escaping\<close>

definition marker_char :: "char \<Rightarrow> bool" where
  "marker_char c \<longleftrightarrow> (let n = of_char c :: nat in
     (48 \<le> n \<and> n \<le> 57) \<or> (65 \<le> n \<and> n \<le> 90) \<or> (97 \<le> n \<and> n \<le> 122) \<or> n = 95 \<or> n = 45)"

definition zw_double :: "char \<Rightarrow> string \<Rightarrow> string" where
  "zw_double zw s = concat (map (\<lambda>c. if c = zw then [zw, zw] else [c]) s)"

text \<open>\<open>oc:[A-Za-z0-9_-]+\<close> at the head of the text.\<close>

definition opens_marker :: "string \<Rightarrow> bool" where
  "opens_marker s \<longleftrightarrow> starts_with ''oc:'' s \<and> takeWhile marker_char (drop 3 s) \<noteq> []"

definition closes_marker :: "string \<Rightarrow> bool" where
  "closes_marker s \<longleftrightarrow> starts_with ''/'' s \<and> opens_marker (drop 1 s)"

definition opens_tag :: "string \<Rightarrow> bool" where
  "opens_tag s \<longleftrightarrow> opens_marker s \<and>
     (case dropWhile marker_char (drop 3 s) of [] \<Rightarrow> False | c # _ \<Rightarrow> is_space c \<or> c = CHR ''>'')"

text \<open>A zero-width space after each \<open><\<close> whose rest passes the test.\<close>

fun defuse :: "char \<Rightarrow> (string \<Rightarrow> bool) \<Rightarrow> string \<Rightarrow> string" where
  "defuse zw test [] = []"
| "defuse zw test (c # cs) =
     (if c = CHR ''<'' \<and> test cs then c # zw # defuse zw test cs else c # defuse zw test cs)"

definition escape_boundary :: "char \<Rightarrow> string \<Rightarrow> string" where
  "escape_boundary zw text = defuse zw opens_tag (defuse zw closes_marker (zw_double zw text))"

section \<open>Unescaping\<close>

fun rearm :: "char \<Rightarrow> string \<Rightarrow> string" where
  "rearm zw (c # d # cs) =
     (if c = CHR ''<'' \<and> d = zw \<and> (opens_marker cs \<or> closes_marker cs) then c # rearm zw cs else c # rearm zw (d # cs))"
| "rearm zw s = s"

fun zw_halve :: "char \<Rightarrow> string \<Rightarrow> string" where
  "zw_halve zw (c # d # cs) = (if c = zw \<and> d = zw then zw # zw_halve zw cs else c # zw_halve zw (d # cs))"
| "zw_halve zw s = s"

definition unescape_boundary :: "char \<Rightarrow> string \<Rightarrow> string" where
  "unescape_boundary zw text = zw_halve zw (rearm zw text)"

section \<open>Wrapping\<close>

fun escape_attr :: "string \<Rightarrow> string" where
  "escape_attr [] = []"
| "escape_attr (c # cs) =
     (if c = CHR ''&'' then ''&amp;'' else if c = CHR 0x22 then ''&quot;'' else if c = CHR ''<'' then ''&lt;'' else [c])
     @ escape_attr cs"

definition wrap_boundary :: "char \<Rightarrow> string \<Rightarrow> (string \<times> string option) list \<Rightarrow> string \<Rightarrow> string" where
  "wrap_boundary zw marker attrs body =
     (let attr_text = concat (map (\<lambda>(k, v). case v of None \<Rightarrow> []
            | Some t \<Rightarrow> '' '' @ k @ ''='' @ [CHR 0x22] @ escape_attr t @ [CHR 0x22]) attrs)
      in ''<oc:'' @ marker @ attr_text @ ''>'' @ escape_boundary zw body @ ''</oc:'' @ marker @ ''>'')"

section \<open>The round trip\<close>

definition defuser :: "char \<Rightarrow> bool" where
  "defuser zw \<longleftrightarrow> \<not> is_space zw \<and> \<not> marker_char zw \<and> zw \<notin> set ''<>/:''"

lemma zw_double_simps [simp]:
  "zw_double zw [] = []" "zw_double zw (c # cs) = (if c = zw then [zw, zw] else [c]) @ zw_double zw cs"
  by (simp_all add: zw_double_def)

text \<open>A text is armed when no zero-width space stands between \<open><\<close> and a marker, and every run has even length.\<close>

lemma zw_halve_double: "zw_halve zw (zw_double zw s) = s"
proof (induction s)
  case (Cons c s)
  show ?case
  proof (cases "c = zw")
    case False
    then show ?thesis using Cons by (cases "zw_double zw s") simp_all
  qed (simp add: Cons)
qed simp

text \<open>The marker tests look no further than the next \<open><\<close>.\<close>

definition until_lt :: "string \<Rightarrow> string" where
  "until_lt s = takeWhile (\<lambda>c. c \<noteq> CHR ''<'') s"

lemma until_lt_split: "\<exists>r. s = until_lt s @ r \<and> (r = [] \<or> hd r = CHR ''<'')"
proof -
  have "s = until_lt s @ dropWhile (\<lambda>c. c \<noteq> CHR ''<'') s" by (simp add: until_lt_def)
  moreover have "dropWhile (\<lambda>c. c \<noteq> CHR ''<'') s = [] \<or> hd (dropWhile (\<lambda>c. c \<noteq> CHR ''<'') s) = CHR ''<''"
    using hd_dropWhile [of "\<lambda>c. c \<noteq> CHR ''<''" s] by blast
  ultimately show ?thesis by blast
qed

lemma not_marker_lt [simp]: "\<not> marker_char CHR ''<''" "\<not> is_space CHR ''<''"
  by (simp_all add: marker_char_def is_space_def)

lemma take_short: "length u < length p \<Longrightarrow> r = [] \<or> hd r \<notin> set p \<Longrightarrow> take (length p) (u @ r) \<noteq> p"
proof
  assume a: "length u < length p" "r = [] \<or> hd r \<notin> set p" "take (length p) (u @ r) = p"
  then show False
  proof (cases r)
    case Nil
    then show False using a(1) arg_cong [OF a(3), of length] by simp
  next
    case (Cons x xs)
    have "p ! length u = take (length p) (u @ r) ! length u" using a(3) by simp
    also have "\<dots> = x" using a(1) Cons by (simp add: nth_append)
    finally have "x \<in> set p" using a(1) nth_mem [of "length u" p] by simp
    then show False using a(2) Cons by simp
  qed
qed

lemma starts_local:
  assumes "r = [] \<or> hd r = CHR ''<''" "CHR ''<'' \<notin> set p"
  shows "starts_with p (u @ r) \<longleftrightarrow> starts_with p u"
proof (cases "length u < length p")
  case True
  have "take (length p) (u @ r) \<noteq> p" by (rule take_short [OF True]) (use assms in auto)
  moreover have "take (length p) (u @ []) \<noteq> p" by (rule take_short [OF True]) simp
  ultimately show ?thesis by (simp add: starts_with_def)
qed (simp add: starts_with_def)

lemma run_local:
  assumes "r = [] \<or> hd r = CHR ''<''"
  shows "takeWhile marker_char (u @ r) = takeWhile marker_char u"
    and "(case dropWhile marker_char (u @ r) of [] \<Rightarrow> False | c # _ \<Rightarrow> is_space c \<or> c = CHR ''>'')
      = (case dropWhile marker_char u of [] \<Rightarrow> False | c # _ \<Rightarrow> is_space c \<or> c = CHR ''>'')"
proof -
  have r: "takeWhile marker_char r = []" "dropWhile marker_char r = r" using assms by (cases r; auto)+
  have c: "(case r of [] \<Rightarrow> False | c # _ \<Rightarrow> is_space c \<or> c = CHR ''>'') = False" using assms by (cases r) auto
  have "takeWhile marker_char (u @ r) = takeWhile marker_char u \<and>
    (case dropWhile marker_char (u @ r) of [] \<Rightarrow> False | c # _ \<Rightarrow> is_space c \<or> c = CHR ''>'')
      = (case dropWhile marker_char u of [] \<Rightarrow> False | c # _ \<Rightarrow> is_space c \<or> c = CHR ''>'')"
    by (induction u) (auto simp: r c)
  then show "takeWhile marker_char (u @ r) = takeWhile marker_char u"
    "(case dropWhile marker_char (u @ r) of [] \<Rightarrow> False | c # _ \<Rightarrow> is_space c \<or> c = CHR ''>'')
      = (case dropWhile marker_char u of [] \<Rightarrow> False | c # _ \<Rightarrow> is_space c \<or> c = CHR ''>'')" by simp_all
qed

lemma tests_local:
  assumes "r = [] \<or> hd r = CHR ''<''"
  shows "opens_marker (u @ r) = opens_marker u" "opens_tag (u @ r) = opens_tag u" "closes_marker (u @ r) = closes_marker u"
proof -
  have o: "starts_with ''oc:'' (v @ r) = starts_with ''oc:'' v" for v by (rule starts_local [OF assms]) simp
  have m: "opens_marker (v @ r) = opens_marker v" for v
  proof (cases "starts_with ''oc:'' v")
    case True
    then obtain w where "v = ''oc:'' @ w" using starts_with_split by blast
    then show ?thesis using o [of v] run_local(1) [OF assms, of w] by (simp add: opens_marker_def)
  qed (use o [of v] in \<open>simp add: opens_marker_def\<close>)
  show "opens_marker (u @ r) = opens_marker u" by (rule m)
  show "opens_tag (u @ r) = opens_tag u"
  proof (cases "starts_with ''oc:'' u")
    case True
    then obtain w where "u = ''oc:'' @ w" using starts_with_split by blast
    then show ?thesis using m [of u] run_local(2) [OF assms, of w] by (simp add: opens_tag_def)
  qed (use m [of u] in \<open>auto simp: opens_tag_def opens_marker_def\<close>)
  have s: "starts_with ''/'' (u @ r) = starts_with ''/'' u" by (rule starts_local [OF assms]) simp
  show "closes_marker (u @ r) = closes_marker u"
  proof (cases "starts_with ''/'' u")
    case True
    then obtain w where "u = ''/'' @ w" using starts_with_split by blast
    then show ?thesis using m [of w] s by (simp add: closes_marker_def)
  qed (use s in \<open>simp add: closes_marker_def\<close>)
qed

lemma tests_until:
  "opens_marker s = opens_marker (until_lt s)" "opens_tag s = opens_tag (until_lt s)"
  "closes_marker s = closes_marker (until_lt s)"
  using until_lt_split [of s] tests_local [of _ "until_lt s"] by metis+

lemma until_defuse: "until_lt (defuse zw test s) = until_lt s"
  by (induction s) (auto simp: until_lt_def)

lemma tests_defuse [simp]:
  "opens_marker (defuse zw test s) = opens_marker s" "opens_tag (defuse zw test s) = opens_tag s"
  "closes_marker (defuse zw test s) = closes_marker s"
  by (simp_all add: tests_until [of "defuse zw test s"] tests_until [of s] until_defuse)

lemma tests_zw:
  assumes "defuser zw"
  shows "\<not> opens_marker (zw # s)" "\<not> closes_marker (zw # s)" "\<not> opens_tag (zw # s)"
proof -
  have "zw \<noteq> CHR ''o''" using assms by (auto simp: defuser_def marker_char_def)
  then show "\<not> opens_marker (zw # s)" by (simp add: opens_marker_def starts_with_def)
  then show "\<not> opens_tag (zw # s)" by (simp add: opens_tag_def)
  show "\<not> closes_marker (zw # s)" using assms by (auto simp: closes_marker_def starts_with_def defuser_def)
qed

text \<open>Both replacements of the escaping in one scan.\<close>

definition armour :: "char \<Rightarrow> string \<Rightarrow> string" where
  "armour zw s = defuse zw opens_tag (defuse zw closes_marker s)"

lemma armour_simps:
  assumes "defuser zw"
  shows "armour zw [] = []"
    and "armour zw (c # cs) = (if c = CHR ''<'' \<and> (closes_marker cs \<or> opens_tag cs) then c # zw # armour zw cs else c # armour zw cs)"
proof -
  have "zw \<noteq> CHR ''<''" using assms by (auto simp: defuser_def)
  then show "armour zw [] = []"
    "armour zw (c # cs) = (if c = CHR ''<'' \<and> (closes_marker cs \<or> opens_tag cs) then c # zw # armour zw cs else c # armour zw cs)"
    using tests_zw [OF assms] by (auto simp: armour_def)
qed

lemma tests_armour: "opens_marker (armour zw s) = opens_marker s" "closes_marker (armour zw s) = closes_marker s"
  by (simp_all add: armour_def)

lemma rearm_Cons: "c \<noteq> CHR ''<'' \<Longrightarrow> rearm zw (c # s) = c # rearm zw s"
  by (cases s) simp_all

lemma rearm_lt: "\<not> (\<exists>t. s = zw # t \<and> (opens_marker t \<or> closes_marker t)) \<Longrightarrow> rearm zw (CHR ''<'' # s) = CHR ''<'' # rearm zw s"
  by (cases s) auto

lemma rearm_armour:
  assumes zw: "defuser zw"
  shows "rearm zw (armour zw (zw_double zw s)) = zw_double zw s"
proof (induction s)
  case Nil
  show ?case by (simp add: armour_simps [OF zw])
next
  case (Cons c s)
  have lt: "zw \<noteq> CHR ''<''" using zw by (auto simp: defuser_def)
  let ?t = "zw_double zw s"
  show ?case
  proof (cases "c = zw")
    case True
    then show ?thesis using lt Cons by (simp add: armour_simps [OF zw] rearm_Cons)
  next
    case False
    show ?thesis
    proof (cases "c = CHR ''<''")
      case other: False
      then show ?thesis using False Cons by (simp add: armour_simps [OF zw] rearm_Cons)
    next
      case less: True
      show ?thesis
      proof (cases "closes_marker ?t \<or> opens_tag ?t")
        case True
        then have "opens_marker (armour zw ?t) \<or> closes_marker (armour zw ?t)"
          by (auto simp: tests_armour opens_tag_def)
        then show ?thesis using True False less Cons by (simp add: armour_simps [OF zw])
      next
        case no: False
        have "\<not> (\<exists>u. armour zw ?t = zw # u \<and> (opens_marker u \<or> closes_marker u))"
        proof (cases s)
          case Nil
          then show ?thesis by (simp add: armour_simps [OF zw])
        next
          case (Cons d s')
          then show ?thesis using lt tests_zw [OF zw] by (auto simp: armour_simps [OF zw])
        qed
        then show ?thesis using no False less Cons by (simp add: armour_simps [OF zw] rearm_lt)
      qed
    qed
  qed
qed

lemma unescape_escape: "defuser zw \<Longrightarrow> unescape_boundary zw (escape_boundary zw body) = body"
  using rearm_armour [of zw body] by (simp add: unescape_boundary_def escape_boundary_def armour_def zw_halve_double)

lemma armoured_unmarked:
  assumes zw: "defuser zw"
  shows "armour zw s = pre @ CHR ''<'' # rest \<Longrightarrow> \<not> closes_marker rest \<and> \<not> opens_tag rest"
proof (induction s arbitrary: pre)
  case Nil
  then show ?case by (simp add: armour_simps [OF zw])
next
  case (Cons c s)
  have tag: "opens_tag (armour zw s) = opens_tag s" by (simp add: armour_def)
  have lt: "zw \<noteq> CHR ''<''" using zw by (auto simp: defuser_def)
  show ?case
  proof (cases pre)
    case Nil
    then show ?thesis
      using Cons.prems tests_zw [OF zw] tag tests_armour [of zw s] by (auto simp: armour_simps [OF zw] split: if_splits)
  next
    case (Cons d pre')
    then have "armour zw s = pre' @ CHR ''<'' # rest \<or> zw # armour zw s = pre' @ CHR ''<'' # rest"
      using Cons.prems by (auto simp: armour_simps [OF zw] split: if_splits)
    then show ?thesis using Cons.IH lt by (cases pre') auto
  qed
qed

text \<open>C19 (safety). No \<open><\<close> of an escaped text opens a marker tag or closes a marker: what a page writes cannot end
  the boundary around it or start another.\<close>

theorem escaped_text_has_no_marker:
  assumes "defuser zw" "escape_boundary zw body = pre @ CHR ''<'' # rest"
  shows "\<not> closes_marker rest \<and> \<not> opens_tag rest"
  using armoured_unmarked [OF assms(1), of "zw_double zw body" pre rest] assms(2) by (simp add: escape_boundary_def armour_def)

theorem escaped_text_has_no_marker_witness:
  "escape_boundary (CHR 0x01) ''x</oc:page>'' = ''x<'' @ CHR 0x01 # ''/oc:page>'' \<and>
   \<not> closes_marker (CHR 0x01 # ''/oc:page>'')"
proof -
  have d: "defuser (CHR 0x01)" by code_simp
  have e: "escape_boundary (CHR 0x01) ''x</oc:page>'' = ''x'' @ CHR ''<'' # CHR 0x01 # ''/oc:page>''" by code_simp
  show ?thesis using e escaped_text_has_no_marker [OF d e] by simp
qed

end
