(* ===== verification/Contract_Facts.thy ===== *)
theory Contract_Facts
  imports Contract_Validator Boundary_Markers
begin

text \<open>
  The facts behind performance and console assertions, \<open>src/src/contracts/contract-facts.ts\<close>: how a
  capture tool builds them, how an untrusted list of them is parsed, and how the one fact that may decide an
  assertion is selected. A parsed capture time is kept in milliseconds instead of the ISO string the code
  writes for it, the details of a failure are left out, and so are metric names inherited from \<open>Object.prototype\<close>. The order of \<open>localeCompare\<close> is the argument
  \<open>before\<close>, the zero-width space of the marker encoding the argument \<open>zw\<close> (see \<open>Boundary_Markers\<close>).
\<close>

section \<open>Limits and failures\<close>

definition max_contract_facts :: nat where "max_contract_facts = 256"
definition max_console_entries :: nat where "max_console_entries = 200"
definition max_console_message :: nat where "max_console_message = 1024"
definition max_capture_types :: nat where "max_capture_types = 64"

definition fact_error :: "string \<Rightarrow> string \<Rightarrow> fact_failure" where
  "fact_error code reason = \<lparr>ff_code = code, ff_reason = reason\<rparr>"

definition malformed :: "string \<Rightarrow> fact_failure" where
  "malformed reason = fact_error ''CONTRACT_FACT_MALFORMED'' reason"

section \<open>Timestamps\<close>

definition leap_year :: "int \<Rightarrow> bool" where
  "leap_year y \<longleftrightarrow> y mod 4 = 0 \<and> (y mod 100 \<noteq> 0 \<or> y mod 400 = 0)"

definition days_in_month :: "int \<Rightarrow> int \<Rightarrow> int" where
  "days_in_month y m = (if m = 2 then (if leap_year y then 29 else 28) else if m \<in> {4, 6, 9, 11} then 30 else 31)"

text \<open>The day number of \<open>Date.UTC\<close>, counted from 1970-01-01, for years from 0 on.\<close>

definition utc_days :: "int \<Rightarrow> int \<Rightarrow> int \<Rightarrow> int" where
  "utc_days y m d =
     365 * y + (y + 3) div 4 - (y + 99) div 100 + (y + 399) div 400
     + sum_list (map (days_in_month y) [1..m - 1]) + (d - 1) - 719528"

definition digits :: "nat \<Rightarrow> nat \<Rightarrow> string \<Rightarrow> int option" where
  "digits i n s =
     (let d = take n (drop i s) in if length d = n \<and> list_all is_digit d then Some (int (undec d)) else None)"

definition char_at :: "nat \<Rightarrow> char \<Rightarrow> string \<Rightarrow> bool" where
  "char_at i c s \<longleftrightarrow> take 1 (drop i s) = [c]"

text \<open>The fraction of the seconds, in milliseconds, and the rest of the text.\<close>

definition fraction :: "string \<Rightarrow> (int \<times> string) option" where
  "fraction s =
     (case s of
        [] \<Rightarrow> Some (0, s)
      | c # cs \<Rightarrow>
          if c = CHR ''.'' then
            (let ds = takeWhile is_digit cs
             in if ds = [] \<or> 9 < length ds then None
                else Some (int (undec (take 3 (ds @ ''000''))), dropWhile is_digit cs))
          else Some (0, s))"

text \<open>\<open>Z\<close> or an offset \<open>+hh:mm\<close>, in minutes.\<close>

definition zone :: "string \<Rightarrow> int option" where
  "zone s =
     (if s = ''Z'' then Some 0
      else if length s = 6 \<and> (char_at 0 CHR ''+'' s \<or> char_at 0 CHR ''-'' s) \<and> char_at 3 CHR '':'' s then
        (case (digits 1 2 s, digits 4 2 s) of
           (Some h, Some m) \<Rightarrow>
             if 23 < h \<or> 59 < m then None else Some ((if char_at 0 CHR ''+'' s then 1 else -1) * (h * 60 + m))
         | _ \<Rightarrow> None)
      else None)"

definition timestamp_of_string :: "string \<Rightarrow> int option" where
  "timestamp_of_string s =
     (case (digits 0 4 s, digits 5 2 s, digits 8 2 s, digits 11 2 s, digits 14 2 s, digits 17 2 s) of
        (Some y, Some mo, Some d, Some h, Some mi, Some sec) \<Rightarrow>
          if char_at 4 CHR ''-'' s \<and> char_at 7 CHR ''-'' s \<and> char_at 10 CHR ''T'' s \<and> char_at 13 CHR '':'' s
             \<and> char_at 16 CHR '':'' s then
            (case fraction (drop 19 s) of
               None \<Rightarrow> None
             | Some (ms, rest) \<Rightarrow>
                 (case zone rest of
                    None \<Rightarrow> None
                  | Some offset \<Rightarrow>
                      if mo < 1 \<or> 12 < mo \<or> d < 1 \<or> days_in_month y mo < d \<or> 23 < h \<or> 59 < mi \<or> 59 < sec then None
                      else (let t = (((utc_days y mo d * 24 + h) * 60 + mi) * 60 + sec) * 1000 + ms - offset * 60000
                            in if -62167219200000 \<le> t \<and> t < 253402300800000 then Some t else None)))
          else None
      | _ \<Rightarrow> None)"

definition parse_timestamp :: "jsvalue \<Rightarrow> int option" where
  "parse_timestamp v = (case as_string v of None \<Rightarrow> None | Some s \<Rightarrow> timestamp_of_string s)"

section \<open>Parsing facts\<close>

record base_fact =
  bf_session :: string
  bf_target :: string
  bf_captured :: int

record performance_fact = base_fact +
  pf_metric :: string
  pf_unit :: string
  pf_value :: rat

datatype message_encoding = Plain | OcBoundary

record console_fact_entry =
  fe_type :: string
  fe_message :: string
  fe_count :: int
  fe_uncaught :: bool

record console_contract_fact = base_fact +
  kf_entries :: "console_fact_entry list"
  kf_captured_types :: "string list option"
  kf_encoding :: message_encoding
  kf_truncated :: bool

definition bounded_field :: "nat \<Rightarrow> jsvalue \<Rightarrow> string option" where
  "bounded_field n v = (case as_string v of Some s \<Rightarrow> if bounded_string n s then Some s else None | None \<Rightarrow> None)"

definition parse_base :: "jsvalue \<Rightarrow> string \<Rightarrow> string \<Rightarrow> fact_failure + base_fact" where
  "parse_base v kind source =
     (case v of
        JObj obj \<Rightarrow>
          if field obj ''schema_version'' \<noteq> JNum 1
          then Inl (fact_error ''CONTRACT_FACT_SCHEMA_UNSUPPORTED'' ''unsupported contract fact schema version'')
          else if field obj ''kind'' \<noteq> JStr kind \<or> field obj ''source_tool'' \<noteq> JStr source
          then Inl (malformed ''contract fact kind/source_tool pair is malformed'')
          else (case (bounded_field 256 (field obj ''session_id''), bounded_field 256 (field obj ''target_id'')) of
                  (Some s, Some t) \<Rightarrow>
                    (case parse_timestamp (field obj ''captured_at'') of
                       None \<Rightarrow> Inl (malformed ''contract fact captured_at is malformed'')
                     | Some ms \<Rightarrow> Inr \<lparr>bf_session = s, bf_target = t, bf_captured = ms\<rparr>)
                | _ \<Rightarrow> Inl (malformed ''contract fact session_id/target_id is malformed''))
      | _ \<Rightarrow> Inl (malformed ''contract fact must be an object''))"

definition object_fields :: "jsvalue \<Rightarrow> fields" where
  "object_fields v = (case v of JObj obj \<Rightarrow> obj | _ \<Rightarrow> [])"

definition parse_performance_fact :: "jsvalue \<Rightarrow> fact_failure + performance_fact" where
  "parse_performance_fact v =
     (case parse_base v ''performance'' ''performance_metrics'' of
        Inl e \<Rightarrow> Inl e
      | Inr b \<Rightarrow>
          (let obj = object_fields v in
           case as_string (field obj ''metric'') of
             None \<Rightarrow> Inl (malformed ''performance fact metric is malformed'')
           | Some m \<Rightarrow>
               if \<not> metric_name_ok m then Inl (malformed ''performance fact metric is malformed'')
               else (case as_string (field obj ''unit'') of
                       None \<Rightarrow> Inl (malformed ''performance fact unit is malformed'')
                     | Some u \<Rightarrow>
                         if u \<notin> set performance_units then Inl (malformed ''performance fact unit is malformed'')
                         else (case as_number (field obj ''value'') of
                                 None \<Rightarrow> Inl (malformed ''performance fact value must be finite'')
                               | Some x \<Rightarrow> Inr \<lparr>bf_session = bf_session b, bf_target = bf_target b,
                                   bf_captured = bf_captured b, pf_metric = m, pf_unit = u, pf_value = x\<rparr>))))"

section \<open>Console messages\<close>

definition console_prefix :: string where "console_prefix = ''<oc:console>''"
definition console_suffix :: string where "console_suffix = ''</oc:console>''"

definition ends_with_str :: "string \<Rightarrow> string \<Rightarrow> bool" where
  "ends_with_str suffix s \<longleftrightarrow> starts_with (rev suffix) (rev s)"

definition decode_message :: "char \<Rightarrow> string \<Rightarrow> message_encoding \<Rightarrow> string option" where
  "decode_message zw message enc =
     (case enc of
        Plain \<Rightarrow> Some message
      | OcBoundary \<Rightarrow>
          if \<not> starts_with console_prefix message \<or> \<not> ends_with_str console_suffix message then None
          else Some (unescape_boundary zw
                 (take (length message - length console_suffix - length console_prefix)
                    (drop (length console_prefix) message))))"

definition encode_message :: "char \<Rightarrow> string \<Rightarrow> message_encoding \<Rightarrow> string \<times> bool" where
  "encode_message zw message enc =
     (case enc of
        Plain \<Rightarrow> (message, False)
      | OcBoundary \<Rightarrow>
          (let wrapped = wrap_boundary zw ''console'' [] message;
               body = take (length wrapped - length console_suffix - length console_prefix)
                        (drop (length console_prefix) wrapped)
           in if length body \<le> max_console_message then (wrapped, False)
              else (console_prefix @ take max_console_message body @ console_suffix, True)))"

text \<open>The types an entry filter captures, without repetitions; whether some were dropped.\<close>

definition add_type :: "string list \<times> bool \<Rightarrow> string \<Rightarrow> string list \<times> bool" where
  "add_type st t =
     (let (tys, dropped) = st in
      if \<not> bounded_string 64 t then (tys, True)
      else if t \<in> set tys then st
      else if max_capture_types \<le> length tys then (tys, True)
      else (tys @ [t], dropped))"

definition normalize_captured_types :: "string list option \<Rightarrow> string list option \<times> bool" where
  "normalize_captured_types input =
     (case input of
        None \<Rightarrow> (None, False)
      | Some ts \<Rightarrow> (let (tys, dropped) = foldl add_type ([], False) ts in (Some tys, dropped)))"


text \<open>The code's \<open>seen\<close> also holds the types it dropped; a second one is dropped again, with the same outcome.\<close>

section \<open>Parsing console facts\<close>

fun parse_types :: "jsvalue list \<Rightarrow> string list option" where
  "parse_types [] = Some []"
| "parse_types (v # vs) =
     (case (bounded_field 64 v, parse_types vs) of
        (Some t, Some ts) \<Rightarrow> if t \<in> set ts then None else Some (t # ts)
      | _ \<Rightarrow> None)"

definition parse_captured_types :: "jsvalue \<Rightarrow> string list option option" where
  "parse_captured_types v =
     (case v of
        JNull \<Rightarrow> Some None
      | JArr vs \<Rightarrow>
          if max_capture_types < length vs then None
          else (case parse_types vs of None \<Rightarrow> None | Some ts \<Rightarrow> Some (Some ts))
      | _ \<Rightarrow> None)"

definition encoding_of_string :: "string \<Rightarrow> message_encoding option" where
  "encoding_of_string s =
     (if s = ''plain'' then Some Plain else if s = ''oc_boundary_v1'' then Some OcBoundary else None)"

definition as_bool :: "jsvalue \<Rightarrow> bool option" where
  "as_bool v = (case v of JBool b \<Rightarrow> Some b | _ \<Rightarrow> None)"

definition encoded_too_long :: "string \<Rightarrow> message_encoding \<Rightarrow> bool" where
  "encoded_too_long message enc \<longleftrightarrow> enc = OcBoundary \<and>
     length console_prefix + max_console_message + length console_suffix < length message"

definition message_ok :: "char \<Rightarrow> string \<Rightarrow> message_encoding \<Rightarrow> bool" where
  "message_ok zw message enc \<longleftrightarrow>
     (case decode_message zw message enc of
        None \<Rightarrow> False
      | Some plain \<Rightarrow> \<not> encoded_too_long message enc \<and> length plain \<le> max_console_message)"

text \<open>One entry, and the total count with it.\<close>

definition parse_entry :: "char \<Rightarrow> message_encoding \<Rightarrow> int \<Rightarrow> jsvalue \<Rightarrow> fact_failure + (console_fact_entry \<times> int)" where
  "parse_entry zw enc sofar v =
     (case v of
        JObj obj \<Rightarrow>
          (case bounded_field 64 (field obj ''type'') of
             None \<Rightarrow> Inl (malformed ''console fact entry type is malformed'')
           | Some ty \<Rightarrow>
          (case as_string (field obj ''message'') of
             None \<Rightarrow> Inl (malformed ''console fact entry message is malformed'')
           | Some message \<Rightarrow>
               if \<not> message_ok zw message enc then Inl (malformed ''console fact entry message encoding is malformed'') else
          (case as_safe_integer (field obj ''count'') of
             None \<Rightarrow> Inl (malformed ''console fact entry count is malformed'')
           | Some n \<Rightarrow>
               if n \<le> 0 then Inl (malformed ''console fact entry count is malformed'')
               else if max_safe_integer < sofar + n
               then Inl (malformed ''console fact total count exceeds the safe integer range'') else
          (case as_bool (field obj ''uncaught'') of
             None \<Rightarrow> Inl (malformed ''console fact entry uncaught flag is malformed'')
           | Some u \<Rightarrow> Inr (\<lparr>fe_type = ty, fe_message = message, fe_count = n, fe_uncaught = u\<rparr>, sofar + n)))))
      | _ \<Rightarrow> Inl (malformed ''console fact entry must be an object''))"

fun parse_entries :: "char \<Rightarrow> message_encoding \<Rightarrow> int \<Rightarrow> jsvalue list \<Rightarrow> fact_failure + console_fact_entry list" where
  "parse_entries zw enc sofar [] = Inr []"
| "parse_entries zw enc sofar (v # vs) =
     (case parse_entry zw enc sofar v of
        Inl e \<Rightarrow> Inl e
      | Inr (entry, sofar') \<Rightarrow>
          (case parse_entries zw enc sofar' vs of Inl e \<Rightarrow> Inl e | Inr es \<Rightarrow> Inr (entry # es)))"

definition parse_console_fact :: "char \<Rightarrow> jsvalue \<Rightarrow> fact_failure + console_contract_fact" where
  "parse_console_fact zw v =
     (case parse_base v ''console'' ''console_capture'' of
        Inl e \<Rightarrow> Inl e
      | Inr b \<Rightarrow>
          (let obj = object_fields v in
           case field obj ''entries'' of
             JArr vs \<Rightarrow>
               if max_console_entries < length vs then Inl (malformed ''console fact entries are malformed'') else
               (case as_bool (field obj ''truncated'') of
                  None \<Rightarrow> Inl (malformed ''console fact truncated flag is malformed'')
                | Some trunc \<Rightarrow>
               (case parse_captured_types (field obj ''captured_types'') of
                  None \<Rightarrow> Inl (malformed ''console fact captured_types is malformed'')
                | Some ts \<Rightarrow>
               (case as_string (field obj ''message_encoding'') of
                  None \<Rightarrow> Inl (malformed ''console fact message_encoding is malformed'')
                | Some e \<Rightarrow>
               (case encoding_of_string e of
                  None \<Rightarrow> Inl (malformed ''console fact message_encoding is malformed'')
                | Some enc \<Rightarrow>
               (case parse_entries zw enc 0 vs of
                  Inl err \<Rightarrow> Inl err
                | Inr es \<Rightarrow> Inr \<lparr>bf_session = bf_session b, bf_target = bf_target b, bf_captured = bf_captured b,
                    kf_entries = es, kf_captured_types = ts, kf_encoding = enc, kf_truncated = trunc\<rparr>)))))
           | _ \<Rightarrow> Inl (malformed ''console fact entries are malformed'')))"

definition is_contract_fact :: "char \<Rightarrow> jsvalue \<Rightarrow> bool" where
  "is_contract_fact zw v =
     (let kind = field (object_fields v) ''kind'' in
      if kind = JStr ''performance'' then (case parse_performance_fact v of Inr _ \<Rightarrow> True | Inl _ \<Rightarrow> False)
      else if kind = JStr ''console'' then (case parse_console_fact zw v of Inr _ \<Rightarrow> True | Inl _ \<Rightarrow> False)
      else False)"

section \<open>Selection\<close>

definition read_fact_array :: "jsvalue \<Rightarrow> fact_failure + jsvalue list" where
  "read_fact_array v =
     (case v of
        JUndefined \<Rightarrow> Inl (fact_error ''CONTRACT_FACTS_MISSING'' ''evidence.snapshot.contract_facts is missing'')
      | JNull \<Rightarrow> Inl (fact_error ''CONTRACT_FACTS_MISSING'' ''evidence.snapshot.contract_facts is missing'')
      | JArr vs \<Rightarrow>
          if vs = [] then Inl (fact_error ''CONTRACT_FACTS_MISSING'' ''contract_facts is empty'')
          else if max_contract_facts < length vs
          then Inl (malformed (''contract_facts exceeds the '' @ dec max_contract_facts @ ''-fact limit''))
          else Inr vs
      | _ \<Rightarrow> Inl (malformed ''contract_facts must be an array''))"

text \<open>The facts that parse, and the failure to report: the first one, unless a schema failure follows it.\<close>

definition note_candidate ::
    "(jsvalue \<Rightarrow> fact_failure + 'f) \<Rightarrow> 'f list \<times> fact_failure option \<Rightarrow> jsvalue \<Rightarrow> 'f list \<times> fact_failure option" where
  "note_candidate parse acc v =
     (case parse v of
        Inr f \<Rightarrow> (fst acc @ [f], snd acc)
      | Inl e \<Rightarrow> (fst acc,
          if snd acc = None \<or> ff_code e = ''CONTRACT_FACT_SCHEMA_UNSUPPORTED'' then Some e else snd acc))"

definition parse_candidates :: "(jsvalue \<Rightarrow> fact_failure + 'f) \<Rightarrow> jsvalue list \<Rightarrow> 'f list \<times> fact_failure option" where
  "parse_candidates parse vs = foldl (note_candidate parse) ([], None) vs"

record fact_scope =
  fs_session :: string
  fs_target :: "string option"
  fs_now :: int
  fs_max_age :: int

definition candidate_window :: "jsvalue list \<Rightarrow> fact_failure option \<Rightarrow> fact_failure + jsvalue list \<times> fact_failure option" where
  "candidate_window vs temporal =
     (if 1 < length vs then Inl (malformed ''multiple matching contract facts share the selected captured_at'')
      else Inr (vs, temporal))"

definition is_record :: "jsvalue \<Rightarrow> bool" where
  "is_record v = (case v of JObj _ \<Rightarrow> True | _ \<Rightarrow> False)"

definition prop_of :: "jsvalue \<Rightarrow> string \<Rightarrow> jsvalue" where
  "prop_of v f = field (object_fields v) f"

definition in_scope :: "string \<Rightarrow> string \<Rightarrow> jsvalue \<Rightarrow> bool" where
  "in_scope session target v \<longleftrightarrow>
     is_record v \<and> prop_of v ''session_id'' = JStr session \<and> prop_of v ''target_id'' = JStr target"

definition captured_ms :: "jsvalue \<Rightarrow> int option" where
  "captured_ms v = parse_timestamp (prop_of v ''captured_at'')"

definition captured_in :: "(int \<Rightarrow> bool) \<Rightarrow> jsvalue list \<Rightarrow> jsvalue list" where
  "captured_in p vs = filter (\<lambda>v. case captured_ms v of Some t \<Rightarrow> p t | None \<Rightarrow> False) vs"

text \<open>The candidates captured last (or first), as \<open>Math.max\<close> (\<open>Math.min\<close>) over their times finds them.\<close>

definition captured_at_extreme :: "(int set \<Rightarrow> int) \<Rightarrow> jsvalue list \<Rightarrow> jsvalue list" where
  "captured_at_extreme extreme vs = captured_in (\<lambda>t. t = extreme (set (List.map_filter captured_ms vs))) vs"

definition select_window ::
    "jsvalue list \<Rightarrow> fact_scope \<Rightarrow> bool \<Rightarrow> fact_failure option \<Rightarrow> fact_failure + jsvalue list \<times> fact_failure option" where
  "select_window vs sc parsed_any parse_failure =
     (if fs_target sc = None \<or> fs_target sc = Some []
      then Inl (fact_error ''CONTRACT_FACT_SCOPE_MISSING'' ''evidence.provenance.target_id is required for contract facts'')
      else let scoped = filter (in_scope (fs_session sc) (default_to [] (fs_target sc))) vs in
      if scoped = [] then
        Inl (if parsed_any then fact_error ''CONTRACT_FACT_SCOPE_MISMATCH''
                 ''contract facts do not belong to the current MCP session and target''
             else default_to (malformed ''contract fact is malformed'') parse_failure)
      else let untimed = filter (\<lambda>v. captured_ms v = None) scoped in
      if untimed \<noteq> [] then
        (if 1 < length untimed
         then Inl (malformed ''multiple matching contract facts have malformed captured_at values'')
         else candidate_window untimed (Some (malformed ''contract fact captured_at is malformed'')))
      else let current = captured_in (\<lambda>t. t \<le> fs_now sc) scoped in
      if current = [] then
        candidate_window (captured_at_extreme Min scoped)
          (Some (malformed ''matching contract facts are captured in the future''))
      else let fresh = captured_in (\<lambda>t. fs_now sc - t \<le> fs_max_age sc) current in
      if fresh = [] then
        candidate_window (captured_at_extreme Max current)
          (Some (fact_error ''CONTRACT_FACT_STALE'' ''matching contract facts are older than max_age_ms''))
      else candidate_window (captured_at_extreme Max fresh) None)"

text \<open>The steps both selections share: the window of the candidates, and its facts.\<close>

definition read_window ::
    "(jsvalue \<Rightarrow> fact_failure + 'f) \<Rightarrow> jsvalue list \<Rightarrow> fact_scope \<Rightarrow> fact_failure + 'f list \<times> fact_failure option" where
  "read_window parse candidates sc =
     (let (all, all_failure) = parse_candidates parse candidates in
      case select_window candidates sc (all \<noteq> []) all_failure of
        Inl e \<Rightarrow> Inl e
      | Inr (selected, temporal) \<Rightarrow>
          (case parse_candidates parse selected of
             (parsed, Some e) \<Rightarrow> Inl e
           | (parsed, None) \<Rightarrow>
               if parsed = [] then Inl (malformed ''contract fact is malformed'') else Inr (parsed, temporal)))"

definition select_performance_fact ::
    "jsvalue \<Rightarrow> fact_scope \<Rightarrow> string \<Rightarrow> string \<Rightarrow> fact_failure + performance_fact" where
  "select_performance_fact input sc metric unit =
     (case read_fact_array input of
        Inl e \<Rightarrow> Inl e
      | Inr facts \<Rightarrow>
          (let candidates = filter (\<lambda>v. is_record v \<and> prop_of v ''kind'' = JStr ''performance''
                                        \<and> prop_of v ''metric'' = JStr metric) facts in
           if candidates = [] then
             Inl (fact_error ''CONTRACT_FACT_NOT_FOUND'' (''no performance contract fact found for metric '' @ metric))
           else
             (case read_window parse_performance_fact candidates sc of
                Inl e \<Rightarrow> Inl e
              | Inr (parsed, temporal) \<Rightarrow>
                  (case filter (\<lambda>f. pf_unit f = unit) parsed of
                     [] \<Rightarrow> Inl (fact_error ''CONTRACT_FACT_UNIT_MISMATCH'' (''performance fact unit does not match '' @ unit))
                   | f # _ \<Rightarrow> (case temporal of Some e \<Rightarrow> Inl e | None \<Rightarrow> Inr f)))))"

definition select_console_fact :: "char \<Rightarrow> jsvalue \<Rightarrow> fact_scope \<Rightarrow> fact_failure + console_contract_fact" where
  "select_console_fact zw input sc =
     (case read_fact_array input of
        Inl e \<Rightarrow> Inl e
      | Inr facts \<Rightarrow>
          (let candidates = filter (\<lambda>v. is_record v \<and> prop_of v ''kind'' = JStr ''console'') facts in
           if candidates = [] then Inl (fact_error ''CONTRACT_FACT_NOT_FOUND'' ''no console contract fact found'')
           else
             (case read_window (parse_console_fact zw) candidates sc of
                Inl e \<Rightarrow> Inl e
              | Inr (parsed, Some e) \<Rightarrow> Inl e
              | Inr (parsed, None) \<Rightarrow>
                  if kf_truncated (hd parsed) then
                    Inl (fact_error ''CONTRACT_FACT_TRUNCATED''
                      ''console contract fact is truncated and cannot prove the assertion'')
                  else Inr (hd parsed))))"

section \<open>Building facts\<close>

record source_entry =
  se_type :: string
  se_text :: string
  se_count :: jsvalue
  se_uncaught :: "bool option"
  se_cut_from :: "nat option"

definition encoding_string :: "message_encoding \<Rightarrow> string" where
  "encoding_string enc = (case enc of Plain \<Rightarrow> ''plain'' | OcBoundary \<Rightarrow> ''oc_boundary_v1'')"

definition raw_type :: "source_entry \<Rightarrow> string" where
  "raw_type entry = (if se_type entry = [] then ''log'' else se_type entry)"

definition entry_count :: "jsvalue \<Rightarrow> int" where
  "entry_count v = (case as_integer v of Some n \<Rightarrow> if 0 < n then min n max_safe_integer else 1 | None \<Rightarrow> 1)"

definition entry_cut :: "char \<Rightarrow> message_encoding \<Rightarrow> source_entry \<Rightarrow> bool" where
  "entry_cut zw enc entry \<longleftrightarrow>
     max_console_message < length (se_text entry) \<or> 64 < length (raw_type entry)
     \<or> snd (encode_message zw (take max_console_message (se_text entry)) enc) \<or> se_cut_from entry \<noteq> None"

definition entry_json :: "char \<Rightarrow> message_encoding \<Rightarrow> source_entry \<Rightarrow> jsvalue" where
  "entry_json zw enc entry = JObj [
     (''type'', JStr (take 64 (raw_type entry))),
     (''message'', JStr (fst (encode_message zw (take max_console_message (se_text entry)) enc))),
     (''count'', JNum (of_int (entry_count (se_count entry)))),
     (''uncaught'', JBool (se_uncaught entry = Some True))]"

definition last_entries :: "'a list \<Rightarrow> 'a list" where
  "last_entries es = drop (length es - max_console_entries) es"

definition build_console_fact ::
    "char \<Rightarrow> string \<Rightarrow> string \<Rightarrow> string \<Rightarrow> source_entry list \<Rightarrow> string list option \<Rightarrow> message_encoding option \<Rightarrow> bool \<Rightarrow> jsvalue" where
  "build_console_fact zw session target captured_at entries captured encoding lossy =
     (let (tys, tys_cut) = normalize_captured_types captured;
          enc = default_to Plain encoding;
          selected = last_entries entries
      in JObj [
        (''schema_version'', JNum 1),
        (''kind'', JStr ''console''),
        (''source_tool'', JStr ''console_capture''),
        (''session_id'', JStr session),
        (''target_id'', JStr target),
        (''captured_at'', JStr captured_at),
        (''entries'', JArr (map (entry_json zw enc) selected)),
        (''captured_types'', case tys of None \<Rightarrow> JNull | Some ts \<Rightarrow> JArr (map JStr ts)),
        (''message_encoding'', JStr (encoding_string enc)),
        (''truncated'', JBool (lossy \<or> max_console_entries < length entries \<or> tys_cut
                               \<or> list_ex (entry_cut zw enc) selected))])"

definition puppeteer_units :: "(string \<times> string) list" where
  "puppeteer_units = [
     (''Timestamp'', ''seconds''), (''Documents'', ''count''), (''Frames'', ''count''), (''JSEventListeners'', ''count''),
     (''Nodes'', ''count''), (''LayoutCount'', ''count''), (''RecalcStyleCount'', ''count''),
     (''LayoutDuration'', ''seconds''), (''RecalcStyleDuration'', ''seconds''), (''ScriptDuration'', ''seconds''),
     (''TaskDuration'', ''seconds''), (''JSHeapUsedSize'', ''bytes''), (''JSHeapTotalSize'', ''bytes'')]"

record resource_summary =
  rs_count :: jsvalue
  rs_total :: jsvalue
  rs_largest :: jsvalue
  rs_longest :: jsvalue

record fact_metrics =
  fm_puppeteer :: fields
  fm_navigation :: "fields option"
  fm_paint :: fields
  fm_summary :: "resource_summary option"

definition measured :: "(rat \<Rightarrow> bool) \<Rightarrow> jsvalue \<Rightarrow> bool" where
  "measured p v = (case as_number v of Some q \<Rightarrow> p q | None \<Rightarrow> False)"

definition performance_json :: "string \<Rightarrow> string \<Rightarrow> string \<Rightarrow> string \<times> string \<times> rat \<Rightarrow> jsvalue" where
  "performance_json session target captured_at mt =
     (let (m, u, x) = mt in JObj [
        (''schema_version'', JNum 1),
        (''kind'', JStr ''performance''),
        (''source_tool'', JStr ''performance_metrics''),
        (''session_id'', JStr session),
        (''target_id'', JStr target),
        (''captured_at'', JStr captured_at),
        (''metric'', JStr m),
        (''unit'', JStr u),
        (''value'', JNum x)])"

definition add_metric :: "string \<Rightarrow> string \<Rightarrow> jsvalue \<Rightarrow> (string \<times> string \<times> rat) list" where
  "add_metric m u v =
     (if \<not> metric_name_ok m then [] else case as_number v of None \<Rightarrow> [] | Some x \<Rightarrow> [(m, u, x)])"

definition navigation_metrics :: "fields option \<Rightarrow> (string \<times> string \<times> rat) list" where
  "navigation_metrics nav =
     (case nav of
        None \<Rightarrow> []
      | Some obj \<Rightarrow>
          if measured (\<lambda>q. 0 < q) (field obj ''duration'') \<and> measured (\<lambda>q. 0 < q) (field obj ''loadEventEnd'')
          then concat (map (\<lambda>(n, v). if measured (\<lambda>q. 0 \<le> q) v then add_metric (''navigation.'' @ n) ''ms'' v else []) obj)
          else [])"

definition summary_metrics :: "resource_summary option \<Rightarrow> (string \<times> string \<times> rat) list" where
  "summary_metrics summary =
     (case summary of
        None \<Rightarrow> []
      | Some s \<Rightarrow>
          if (case as_safe_integer (rs_count s) of Some n \<Rightarrow> 0 \<le> n | None \<Rightarrow> False)
             \<and> measured (\<lambda>q. 0 \<le> q) (rs_total s) \<and> measured (\<lambda>q. 0 \<le> q) (rs_largest s)
             \<and> measured (\<lambda>q. 0 \<le> q) (rs_longest s)
          then add_metric ''resource.count'' ''count'' (rs_count s)
               @ add_metric ''resource.totalTransferSize'' ''bytes'' (rs_total s)
               @ add_metric ''resource.largestTransferSize'' ''bytes'' (rs_largest s)
               @ add_metric ''resource.maxDuration'' ''ms'' (rs_longest s)
          else [])"

text \<open>A stable sort: an element goes before the first one that is not before it.\<close>

fun insert_before :: "(string \<Rightarrow> string \<Rightarrow> bool) \<Rightarrow> string \<times> 'b \<Rightarrow> (string \<times> 'b) list \<Rightarrow> (string \<times> 'b) list" where
  "insert_before before x [] = [x]"
| "insert_before before x (y # ys) =
     (if before (fst y) (fst x) then y # insert_before before x ys else x # y # ys)"

definition build_performance_facts ::
    "(string \<Rightarrow> string \<Rightarrow> bool) \<Rightarrow> string \<Rightarrow> string \<Rightarrow> string \<Rightarrow> fact_metrics \<Rightarrow> jsvalue list" where
  "build_performance_facts before session target captured_at metrics =
     (let found = navigation_metrics (fm_navigation metrics)
            @ concat (map (\<lambda>(n, v). add_metric (''paint.'' @ n) ''ms'' v) (fm_paint metrics))
            @ concat (map (\<lambda>(n, v). case map_of puppeteer_units n of
                              None \<Rightarrow> [] | Some u \<Rightarrow> add_metric (''puppeteer.'' @ n) u v) (fm_puppeteer metrics))
            @ summary_metrics (fm_summary metrics)
      in map (performance_json session target captured_at) (foldr (insert_before before) found []))"

section \<open>Selecting a fact\<close>

lemma failure_stays: "snd acc \<noteq> None \<Longrightarrow> snd (foldl (note_candidate parse) acc vs) \<noteq> None"
proof (induction vs arbitrary: acc)
  case (Cons v vs)
  have "snd (note_candidate parse acc v) \<noteq> None"
    using Cons.prems by (cases "parse v") (simp_all add: note_candidate_def)
  then show ?case using Cons.IH by simp
qed simp

lemma parse_candidates_ok:
  assumes "parse_candidates parse vs = (fs, None)"
  shows "map (\<lambda>f. Inr f) fs = map parse vs"
proof -
  have "snd (foldl (note_candidate parse) acc vs) = None \<Longrightarrow>
    map (\<lambda>f. Inr f) (fst (foldl (note_candidate parse) acc vs)) = map (\<lambda>f. Inr f) (fst acc) @ map parse vs" for acc
  proof (induction vs arbitrary: acc)
    case (Cons v vs)
    have "snd (note_candidate parse acc v) = None"
      using Cons.prems failure_stays [of "note_candidate parse acc v" parse vs] by (simp only: foldl_Cons) blast
    then obtain f where f: "parse v = Inr f" by (cases "parse v") (auto simp: note_candidate_def split: if_splits)
    show ?case using Cons.IH [of "note_candidate parse acc v"] Cons.prems by (simp add: note_candidate_def f)
  qed simp
  from this [of "([], None)"] show ?thesis using assms by (simp add: parse_candidates_def)
qed

lemma set_captured_in: "v \<in> set (captured_in p vs) \<longleftrightarrow> v \<in> set vs \<and> (\<exists>t. captured_ms v = Some t \<and> p t)"
  by (cases "captured_ms v") (simp_all add: captured_in_def)

lemma set_captured_times: "set (List.map_filter captured_ms vs) = {t. \<exists>v\<in>set vs. captured_ms v = Some t}"
  by (induction vs) (auto simp: map_filter_simps split: option.splits)

lemma captured_in_twice: "captured_in p (captured_in q vs) = captured_in (\<lambda>t. q t \<and> p t) vs"
  by (induction vs) (auto simp: captured_in_def split: option.splits)

lemma captured_in_append: "captured_in p (vs @ us) = captured_in p vs @ captured_in p us"
  by (simp add: captured_in_def)

lemma captured_in_single [simp]:
  "captured_ms v = Some t \<Longrightarrow> captured_in p (v # vs) = (if p t then v # captured_in p vs else captured_in p vs)"
  by (simp add: captured_in_def)

lemma captured_in_none: "(\<And>u t. u \<in> set vs \<Longrightarrow> captured_ms u = Some t \<Longrightarrow> \<not> p t) \<Longrightarrow> captured_in p vs = []"
  by (auto simp: captured_in_def filter_empty_conv split: option.splits)

text \<open>A candidate is decisive when it is in scope and fresh, and every other candidate in scope was captured at
  another time, earlier or in the future.\<close>

definition decisive :: "fact_scope \<Rightarrow> jsvalue list \<Rightarrow> jsvalue \<Rightarrow> bool" where
  "decisive sc vs v \<longleftrightarrow>
     (\<exists>target t pre post. fs_target sc = Some target \<and> target \<noteq> [] \<and>
        filter (in_scope (fs_session sc) target) vs = pre @ v # post \<and>
        captured_ms v = Some t \<and> t \<le> fs_now sc \<and> fs_now sc - t \<le> fs_max_age sc \<and>
        (\<forall>u\<in>set (pre @ post). \<exists>t'. captured_ms u = Some t' \<and> (t' < t \<or> fs_now sc < t')))"

lemma decisive_selected:
  assumes "decisive sc vs v"
  shows "select_window vs sc any failure = Inr ([v], None)"
proof -
  obtain target t pre post where d: "fs_target sc = Some target" "target \<noteq> []"
    and sc: "filter (in_scope (fs_session sc) target) vs = pre @ v # post"
    and t: "captured_ms v = Some t" "t \<le> fs_now sc" "fs_now sc - t \<le> fs_max_age sc"
    and others: "\<forall>u\<in>set (pre @ post). \<exists>t'. captured_ms u = Some t' \<and> (t' < t \<or> fs_now sc < t')"
    using assms unfolding decisive_def by blast
  define current where "current = captured_in (\<lambda>t. t \<le> fs_now sc) (pre @ v # post)"
  define fresh where "fresh = captured_in (\<lambda>t. fs_now sc - t \<le> fs_max_age sc) current"
  have timed: "filter (\<lambda>v. captured_ms v = None) (pre @ v # post) = []"
    using others t(1) by (fastforce simp: filter_empty_conv)
  have cur: "v \<in> set current" using t by (auto simp: current_def set_captured_in)
  have fr: "v \<in> set fresh" using cur t by (auto simp: fresh_def set_captured_in)
  have "Max (set (List.map_filter captured_ms fresh)) = t"
  proof (rule Max_eqI)
    show "t \<in> set (List.map_filter captured_ms fresh)" using fr t by (auto simp: set_captured_times)
    show "y \<le> t" if "y \<in> set (List.map_filter captured_ms fresh)" for y
    proof -
      have "\<exists>u\<in>set (pre @ v # post). captured_ms u = Some y \<and> y \<le> fs_now sc"
        using that unfolding set_captured_times fresh_def current_def by (fastforce simp: set_captured_in)
      then obtain u where "u \<in> set (pre @ v # post)" "captured_ms u = Some y" "y \<le> fs_now sc" by blast
      then show ?thesis
      proof (cases "u = v")
        case False
        then have "u \<in> set (pre @ post)" using \<open>u \<in> set (pre @ v # post)\<close> by auto
        then obtain t' where "captured_ms u = Some t'" "t' < t \<or> fs_now sc < t'" using others by blast
        then show ?thesis using \<open>captured_ms u = Some y\<close> \<open>y \<le> fs_now sc\<close> by auto
      qed (use t(1) in simp)
    qed
  qed simp
  moreover have "captured_in (\<lambda>t'. (t' \<le> fs_now sc \<and> fs_now sc - t' \<le> fs_max_age sc) \<and> t' = t) us = []"
    if "set us \<subseteq> set (pre @ post)" for us
    by (rule captured_in_none) (use others that in fastforce)
  ultimately have ws: "captured_at_extreme Max fresh = [v]"
    using t by (simp add: captured_at_extreme_def fresh_def current_def captured_in_twice captured_in_append)
  have "current \<noteq> []" "fresh \<noteq> []" using cur fr by auto
  then show ?thesis
    using timed ws by (simp add: select_window_def d sc default_to_def current_def [symmetric] fresh_def [symmetric]
      candidate_window_def Let_def)
qed

lemma selected_decisive:
  assumes w: "select_window vs sc any failure = Inr (ws, None)"
  shows "\<exists>v. ws = [v] \<and> decisive sc vs v"
proof -
  have "fs_target sc \<noteq> None" "fs_target sc \<noteq> Some []" using w by (simp_all add: select_window_def split: if_splits)
  then obtain target where tg: "fs_target sc = Some target" "target \<noteq> []" by (cases "fs_target sc") auto
  define scoped where "scoped = filter (in_scope (fs_session sc) target) vs"
  define current where "current = captured_in (\<lambda>t. t \<le> fs_now sc) scoped"
  define fresh where "fresh = captured_in (\<lambda>t. fs_now sc - t \<le> fs_max_age sc) current"
  define m where "m = Max (set (List.map_filter captured_ms fresh))"
  define P where "P = (\<lambda>t. (t \<le> fs_now sc \<and> fs_now sc - t \<le> fs_max_age sc) \<and> t = m)"
  have timed: "filter (\<lambda>v. captured_ms v = None) scoped = []" and ws: "ws = captured_at_extreme Max fresh"
    and len: "length ws \<le> 1" and ne: "fresh \<noteq> []"
    using w tg unfolding select_window_def candidate_window_def Let_def
    by (auto simp: default_to_def scoped_def [symmetric] current_def [symmetric] fresh_def [symmetric] split: if_splits)
  have wP: "ws = captured_in P scoped"
    by (simp add: ws captured_at_extreme_def m_def [symmetric] P_def) (simp add: fresh_def current_def captured_in_twice)
  have freshI: "u \<in> set fresh \<longleftrightarrow> u \<in> set scoped \<and> (\<exists>t. captured_ms u = Some t \<and> t \<le> fs_now sc \<and> fs_now sc - t \<le> fs_max_age sc)" for u
    by (auto simp: fresh_def current_def set_captured_in)
  have hd: "hd fresh \<in> set fresh" using ne by simp
  then have "set (List.map_filter captured_ms fresh) \<noteq> {}"
    unfolding set_captured_times using freshI [of "hd fresh"] by blast
  then have "m \<in> set (List.map_filter captured_ms fresh)" unfolding m_def by (intro Max_in) simp_all
  then obtain u where "u \<in> set fresh" "captured_ms u = Some m" by (auto simp: set_captured_times)
  then have "u \<in> set ws" using freshI [of u] by (auto simp: wP P_def set_captured_in)
  then obtain v where v: "ws = [v]" using len by (cases ws) auto
  obtain pre post where s: "scoped = pre @ v # post" and out: "captured_in P pre = []" "captured_in P post = []"
  proof -
    have "filter (\<lambda>v. case captured_ms v of Some t \<Rightarrow> P t | None \<Rightarrow> False) scoped = v # []"
      using v wP by (simp add: captured_in_def)
    then obtain pre post where "scoped = pre @ v # post"
        "\<forall>u\<in>set pre. \<not> (case captured_ms u of Some t \<Rightarrow> P t | None \<Rightarrow> False)"
        "[] = filter (\<lambda>v. case captured_ms v of Some t \<Rightarrow> P t | None \<Rightarrow> False) post"
      unfolding filter_eq_Cons_iff by blast
    then show ?thesis using that [of pre post] unfolding captured_in_def filter_False by simp
  qed
  have "v \<in> set ws" using v by simp
  then have t: "captured_ms v = Some m" "m \<le> fs_now sc" "fs_now sc - m \<le> fs_max_age sc"
    by (auto simp: wP P_def set_captured_in)
  have "\<exists>t'. captured_ms u = Some t' \<and> (t' < m \<or> fs_now sc < t')" if u: "u \<in> set (pre @ post)" for u
  proof -
    have us: "u \<in> set scoped" using u s by auto
    then obtain t' where t': "captured_ms u = Some t'" using timed by (auto simp: filter_empty_conv)
    have "\<not> P t'" using out u t' by (auto simp: captured_in_def filter_empty_conv)
    moreover have "t' \<le> m" if "t' \<le> fs_now sc" "fs_now sc - t' \<le> fs_max_age sc"
    proof -
      have "u \<in> set fresh" using that us t' freshI [of u] by blast
      then have "t' \<in> set (List.map_filter captured_ms fresh)" unfolding set_captured_times using t' by blast
      then show ?thesis unfolding m_def by simp
    qed
    ultimately show ?thesis using t' t by (force simp: P_def)
  qed
  then show ?thesis using tg s t v by (auto simp: decisive_def scoped_def)
qed

lemma window_iff: "select_window vs sc any failure = Inr (ws, None) \<longleftrightarrow> (\<exists>v. ws = [v] \<and> decisive sc vs v)"
  using selected_decisive decisive_selected by blast


lemma candidates_single: "parse_candidates parse [v] = (case parse v of Inr f \<Rightarrow> ([f], None) | Inl e \<Rightarrow> ([], Some e))"
  by (simp add: parse_candidates_def note_candidate_def split: sum.split)

lemma read_window_iff:
  "read_window parse vs sc = Inr (fs, None) \<longleftrightarrow> (\<exists>v f. fs = [f] \<and> decisive sc vs v \<and> parse v = Inr f)"
  (is "?L \<longleftrightarrow> ?R")
proof
  assume ?L
  then obtain ws where "select_window vs sc (fst (parse_candidates parse vs) \<noteq> []) (snd (parse_candidates parse vs)) = Inr (ws, None)"
    and p: "parse_candidates parse ws = (fs, None)" "fs \<noteq> []"
    by (auto simp: read_window_def case_prod_beta prod_eq_iff split: sum.splits option.splits if_splits)
  then obtain v where "ws = [v]" "decisive sc vs v" unfolding window_iff by blast
  then show ?R using p by (auto simp: candidates_single split: sum.splits)
next
  assume ?R
  then obtain v f where "fs = [f]" "decisive sc vs v" "parse v = Inr f" by blast
  then show ?L by (simp add: read_window_def case_prod_beta decisive_selected candidates_single)
qed

lemma decisive_Nil [simp]: "\<not> decisive sc [] v"
  by (simp add: decisive_def)

text \<open>A performance fact is selected exactly when the list is readable, and among the facts of
  the metric there is a decisive one (in the scope's session and target, not from the future, not too old, newest
  and alone with its time) which parses as this fact and has the unit asked for.\<close>

theorem performance_selection:
  "select_performance_fact input sc metric unit = Inr f \<longleftrightarrow>
     (\<exists>facts v. read_fact_array input = Inr facts \<and>
        decisive sc (filter (\<lambda>v. is_record v \<and> prop_of v ''kind'' = JStr ''performance'' \<and> prop_of v ''metric'' = JStr metric) facts) v \<and>
        parse_performance_fact v = Inr f \<and> pf_unit f = unit)"
proof (cases "read_fact_array input")
  case (Inr facts)
  let ?cs = "filter (\<lambda>v. is_record v \<and> prop_of v ''kind'' = JStr ''performance'' \<and> prop_of v ''metric'' = JStr metric) facts"
  show ?thesis (is "?L = ?R")
  proof
    assume ?L
    then obtain fs gs where "read_window parse_performance_fact ?cs sc = Inr (fs, None)" "filter (\<lambda>f. pf_unit f = unit) fs = f # gs"
      unfolding select_performance_fact_def Let_def by (auto simp: Inr split: sum.splits list.splits option.splits if_splits)
    then show ?R unfolding read_window_iff using Inr by (auto split: if_splits)
  next
    assume ?R
    then obtain v where v: "decisive sc ?cs v" "parse_performance_fact v = Inr f" "pf_unit f = unit" using Inr by auto
    then have "read_window parse_performance_fact ?cs sc = Inr ([f], None)" by (auto simp: read_window_iff)
    moreover have "?cs \<noteq> []" using v(1) by (metis decisive_Nil)
    ultimately show ?L using v(3) by (simp add: select_performance_fact_def Inr)
  qed
qed (simp add: select_performance_fact_def)

text \<open>A console fact is selected exactly when the list is readable and among its console facts
  there is a decisive one which parses as this fact and is complete.\<close>

theorem console_selection:
  "select_console_fact zw input sc = Inr f \<longleftrightarrow>
     (\<exists>facts v. read_fact_array input = Inr facts \<and>
        decisive sc (filter (\<lambda>v. is_record v \<and> prop_of v ''kind'' = JStr ''console'') facts) v \<and>
        parse_console_fact zw v = Inr f \<and> \<not> kf_truncated f)"
proof (cases "read_fact_array input")
  case (Inr facts)
  let ?cs = "filter (\<lambda>v. is_record v \<and> prop_of v ''kind'' = JStr ''console'') facts"
  show ?thesis (is "?L = ?R")
  proof
    assume ?L
    then obtain fs where "read_window (parse_console_fact zw) ?cs sc = Inr (fs, None)" "f = hd fs" "\<not> kf_truncated (hd fs)"
      unfolding select_console_fact_def Let_def by (auto simp: Inr split: sum.splits option.splits if_splits)
    then show ?R unfolding read_window_iff using Inr by auto
  next
    assume ?R
    then obtain v where v: "decisive sc ?cs v" "parse_console_fact zw v = Inr f" "\<not> kf_truncated f" using Inr by auto
    then have "read_window (parse_console_fact zw) ?cs sc = Inr ([f], None)" by (auto simp: read_window_iff)
    moreover have "?cs \<noteq> []" using v(1) by (metis decisive_Nil)
    ultimately show ?L using v(3) by (simp add: select_console_fact_def Inr)
  qed
qed (simp add: select_console_fact_def)

section \<open>What a tool builds is accepted\<close>

lemma rearm_shrinks: "length (rearm zw s) \<le> length s"
  by (induction zw s rule: rearm.induct) auto

lemma zw_halve_shrinks: "length (zw_halve zw s) \<le> length s"
  by (induction zw s rule: zw_halve.induct) auto

lemma unescape_shrinks: "length (unescape_boundary zw s) \<le> length s"
  unfolding unescape_boundary_def using rearm_shrinks zw_halve_shrinks by (rule order_trans [rotated])

definition framed :: "string \<Rightarrow> string" where
  "framed body = console_prefix @ body @ console_suffix"

lemma framed_body [simp]:
  "take (length (framed b) - (length console_suffix + length console_prefix)) (drop (length console_prefix) (framed b)) = b"
  by (simp add: framed_def)

lemma wrap_framed: "wrap_boundary zw ''console'' [] m = framed (escape_boundary zw m)"
  by (simp add: wrap_boundary_def framed_def console_prefix_def console_suffix_def)

lemma decode_framed: "decode_message zw (framed b) OcBoundary = Some (unescape_boundary zw b)"
proof -
  have "starts_with console_prefix (framed b)" by (simp add: framed_def starts_with_def)
  moreover have "ends_with_str console_suffix (framed b)" by (simp add: framed_def ends_with_str_def starts_with_def)
  ultimately show ?thesis by (simp add: decode_message_def)
qed

lemma encode_boundary:
  "encode_message zw m OcBoundary =
     (let b = escape_boundary zw m in
      if length b \<le> max_console_message then (framed b, False) else (framed (take max_console_message b), True))"
  by (simp add: encode_message_def wrap_framed Let_def) (simp add: framed_def)

text \<open>A message within the limit is written in a form that is accepted, and read back unless it was cut.\<close>

lemma encoded_message_ok: "length m \<le> max_console_message \<Longrightarrow> message_ok zw (fst (encode_message zw m enc)) enc"
proof (cases enc)
  case OcBoundary
  have "length (unescape_boundary zw b) \<le> max_console_message" if "length b \<le> max_console_message" for b
    using unescape_shrinks [of zw b] that by simp
  then show ?thesis
    by (auto simp: OcBoundary encode_boundary Let_def message_ok_def decode_framed encoded_too_long_def framed_def [THEN arg_cong, of length])
qed (simp add: message_ok_def encode_message_def decode_message_def encoded_too_long_def)

lemma decode_encode:
  "defuser zw \<Longrightarrow> \<not> snd (encode_message zw m enc) \<Longrightarrow> decode_message zw (fst (encode_message zw m enc)) enc = Some m"
  by (cases enc) (auto simp: encode_boundary Let_def decode_framed unescape_escape encode_message_def [of _ _ Plain]
      decode_message_def [of _ _ Plain] split: if_splits)

definition built_entry :: "char \<Rightarrow> message_encoding \<Rightarrow> source_entry \<Rightarrow> console_fact_entry" where
  "built_entry zw enc s =
     \<lparr>fe_type = take 64 (raw_type s), fe_message = fst (encode_message zw (take max_console_message (se_text s)) enc),
      fe_count = entry_count (se_count s), fe_uncaught = (se_uncaught s = Some True)\<rparr>"

lemma entry_count_range: "0 < entry_count v" "entry_count v \<le> max_safe_integer"
  by (auto simp: entry_count_def max_safe_integer_def split: option.splits)

lemma built_entry_parses:
  assumes "sofar + entry_count (se_count s) \<le> max_safe_integer"
  shows "parse_entry zw enc sofar (entry_json zw enc s) = Inr (built_entry zw enc s, sofar + entry_count (se_count s))"
proof -
  have ty: "bounded_field 64 (JStr (take 64 (raw_type s))) = Some (take 64 (raw_type s))"
    by (simp add: bounded_field_def bounded_string_def raw_type_def)
  have m: "message_ok zw (fst (encode_message zw (take max_console_message (se_text s)) enc)) enc"
    by (rule encoded_message_ok) simp
  have n: "as_safe_integer (JNum (of_int (entry_count (se_count s)))) = Some (entry_count (se_count s))"
    using entry_count_range [of "se_count s"] by (simp add: as_safe_integer_iff)
  show ?thesis
    using assms entry_count_range(1) [of "se_count s"]
    by (simp add: parse_entry_def entry_json_def ty m n as_bool_def built_entry_def)
qed

lemma built_entries_parse:
  "sofar + sum_list (map (\<lambda>s. entry_count (se_count s)) ss) \<le> max_safe_integer \<Longrightarrow>
    parse_entries zw enc sofar (map (entry_json zw enc) ss) = Inr (map (built_entry zw enc) ss)"
proof (induction ss arbitrary: sofar)
  case (Cons s ss)
  have "0 \<le> sum_list (map (\<lambda>s. entry_count (se_count s)) ss)"
    by (rule sum_list_nonneg) (auto intro: less_imp_le entry_count_range)
  then show ?case using Cons by (simp add: built_entry_parses add.assoc)
qed simp

lemma parse_types_map: "distinct ts \<Longrightarrow> list_all (bounded_string 64) ts \<Longrightarrow> parse_types (map JStr ts) = Some ts"
  by (induction ts) (simp_all add: bounded_field_def)

definition types_ok :: "string list \<Rightarrow> bool" where
  "types_ok ts \<longleftrightarrow> distinct ts \<and> length ts \<le> max_capture_types \<and> list_all (bounded_string 64) ts"

lemma add_type_ok: "types_ok (fst st) \<Longrightarrow> types_ok (fst (add_type st u))"
  by (cases st) (simp add: add_type_def types_ok_def)

lemma captured_types_ok: "types_ok (fst st) \<Longrightarrow> types_ok (fst (foldl add_type st us))"
  by (induction us arbitrary: st) (simp_all add: add_type_ok)

lemma normalized_types_parse:
  "parse_captured_types (case fst (normalize_captured_types captured) of None \<Rightarrow> JNull | Some ts \<Rightarrow> JArr (map JStr ts))
     = Some (fst (normalize_captured_types captured))"
proof (cases captured)
  case (Some us)
  have "types_ok (fst (foldl add_type ([], False) us))" by (rule captured_types_ok) (simp add: types_ok_def)
  then show ?thesis
    by (simp add: Some normalize_captured_types_def case_prod_beta parse_captured_types_def types_ok_def parse_types_map)
qed (simp add: normalize_captured_types_def parse_captured_types_def)

lemma encoding_roundtrip: "encoding_of_string (encoding_string enc) = Some enc"
  by (cases enc) (simp_all add: encoding_of_string_def encoding_string_def)

lemma built_fact_parses:
  fixes entries captured encoding lossy
  defines "enc \<equiv> default_to Plain encoding"
  assumes ids: "bounded_string 256 session" "bounded_string 256 target" "timestamp_of_string captured_at = Some ms"
    and count: "sum_list (map (\<lambda>s. entry_count (se_count s)) (last_entries entries)) \<le> max_safe_integer"
  shows "parse_console_fact zw (build_console_fact zw session target captured_at entries captured encoding lossy) =
    Inr \<lparr>bf_session = session, bf_target = target, bf_captured = ms,
      kf_entries = map (built_entry zw enc) (last_entries entries),
      kf_captured_types = fst (normalize_captured_types captured), kf_encoding = enc,
      kf_truncated = (lossy \<or> max_console_entries < length entries \<or> snd (normalize_captured_types captured)
        \<or> list_ex (entry_cut zw enc) (last_entries entries))\<rparr>"
proof -
  let ?v = "build_console_fact zw session target captured_at entries captured encoding lossy"
  have es: "parse_entries zw enc 0 (map (entry_json zw enc) (last_entries entries)) = Inr (map (built_entry zw enc) (last_entries entries))"
    using built_entries_parse count by simp
  have len: "\<not> max_console_entries < length (last_entries entries)" by (simp add: last_entries_def)
  have base: "parse_base ?v ''console'' ''console_capture'' = Inr \<lparr>bf_session = session, bf_target = target, bf_captured = ms\<rparr>"
    using ids by (simp add: build_console_fact_def case_prod_beta Let_def parse_base_def bounded_field_def parse_timestamp_def)
  have fields: "field (object_fields ?v) ''entries'' = JArr (map (entry_json zw enc) (last_entries entries))"
    "field (object_fields ?v) ''captured_types'' =
       (case fst (normalize_captured_types captured) of None \<Rightarrow> JNull | Some ts \<Rightarrow> JArr (map JStr ts))"
    "field (object_fields ?v) ''message_encoding'' = JStr (encoding_string enc)"
    "as_bool (field (object_fields ?v) ''truncated'') = Some (lossy \<or> max_console_entries < length entries
       \<or> snd (normalize_captured_types captured) \<or> list_ex (entry_cut zw enc) (last_entries entries))"
    by (simp_all add: build_console_fact_def case_prod_beta Let_def object_fields_def as_bool_def enc_def)
  show ?thesis
    unfolding parse_console_fact_def base Let_def sum.case fields
    by (simp add: len normalized_types_parse encoding_roundtrip es)
qed

text \<open>The console fact a capture tool builds is accepted by the parser when its identifiers and time are
  well formed and the counts add up to a safe integer; unless it is marked truncated, the messages decode to the
  texts captured, in order, each with its type, count and flag.\<close>

theorem console_fact_roundtrip:
  assumes "defuser zw" "bounded_string 256 session" "bounded_string 256 target" "timestamp_of_string captured_at = Some ms"
    and "sum_list (map (\<lambda>s. entry_count (se_count s)) (last_entries entries)) \<le> max_safe_integer"
  shows "\<exists>f. parse_console_fact zw (build_console_fact zw session target captured_at entries captured encoding lossy) = Inr f \<and>
    bf_captured f = ms \<and>
    (kf_truncated f \<or>
      map (\<lambda>e. (fe_type e, decode_message zw (fe_message e) (kf_encoding f), fe_count e, fe_uncaught e)) (kf_entries f) =
      map (\<lambda>s. (raw_type s, Some (se_text s), entry_count (se_count s), se_uncaught s = Some True)) entries)"
proof -
  have "last_entries entries = entries" if "\<not> max_console_entries < length entries" using that by (simp add: last_entries_def)
  moreover have "decode_message zw (fe_message (built_entry zw enc s)) enc = Some (se_text s) \<and> fe_type (built_entry zw enc s) = raw_type s"
    if "\<not> entry_cut zw enc s" for enc s
    using that decode_encode [OF assms(1), of "take max_console_message (se_text s)" enc] by (auto simp: entry_cut_def built_entry_def)
  ultimately show ?thesis
    unfolding built_fact_parses [OF assms(2-5)]
    by (auto simp: built_entry_def list_ex_iff) blast+
qed

theorem console_fact_roundtrip_witness:
  "\<exists>f. parse_console_fact (CHR 0x01) (build_console_fact (CHR 0x01) ''s'' ''t'' ''2026-01-01T00:00:00Z''
      [\<lparr>se_type = ''error'', se_text = ''<oc:page>boom'', se_count = JUndefined, se_uncaught = Some True, se_cut_from = None\<rparr>]
      None (Some OcBoundary) False) = Inr f \<and> bf_captured f = 1767225600000 \<and>
    (kf_truncated f \<or>
      map (\<lambda>e. (fe_type e, decode_message (CHR 0x01) (fe_message e) (kf_encoding f), fe_count e, fe_uncaught e)) (kf_entries f) =
      [(''error'', Some ''<oc:page>boom'', 1, True)])"
proof -
  have d: "defuser (CHR 0x01)" by code_simp
  have b: "bounded_string 256 ''s''" "bounded_string 256 ''t''" by code_simp+
  have t: "timestamp_of_string ''2026-01-01T00:00:00Z'' = Some 1767225600000" by code_simp
  let ?es = "[\<lparr>se_type = ''error'', se_text = ''<oc:page>boom'', se_count = JUndefined, se_uncaught = Some True, se_cut_from = None\<rparr>]"
  have c: "sum_list (map (\<lambda>s. entry_count (se_count s)) (last_entries ?es)) \<le> max_safe_integer"
    by (simp add: last_entries_def max_console_entries_def entry_count_def as_integer_def max_safe_integer_def)
  show ?thesis
    using console_fact_roundtrip [OF d b t c, of None "Some OcBoundary" False]
    by (simp add: raw_type_def entry_count_def as_integer_def)
qed

end
