(* ===== verification/Idempotency.thy ===== *)
theory Idempotency
  imports Oc_Prelude Js_Value "HOL-Library.Char_ord" "HOL-Library.List_Lexorder" "HOL-Library.Multiset"
begin

text \<open>
  The two caches that keep a repeated request from running twice. \<open>src/src/core/idempotency/lru.ts\<close> is a
  cache with a time to live that relies on the insertion order of a JavaScript \<open>Map\<close>: it is shown to be the
  textbook cache that stamps every use and drops the entry used longest ago. \<open>src/src/pilot/runtime/idempotency.ts\<close>
  keeps verdicts of contract runs and the abort signals of runs in flight. Signals are numbered in the
  order of their creation; the promise of a run, which the class only stores, is any value.
\<close>

section \<open>The cache in recency order\<close>

record 'v lru_entry =
  le_value :: 'v
  le_expires :: int

record 'v lru =
  lru_max :: nat
  lru_ttl :: int
  lru_entries :: "(string, 'v lru_entry) jmap"

datatype eviction = EvictTtl | EvictLru

definition new_lru :: "rat \<Rightarrow> rat \<Rightarrow> 'v lru" where
  "new_lru max_entries ttl = \<lparr>lru_max = nat (max 1 \<lfloor>max_entries\<rfloor>), lru_ttl = max 1 \<lfloor>ttl\<rfloor>, lru_entries = []\<rparr>"

definition lru_get :: "string \<Rightarrow> int \<Rightarrow> 'v lru \<Rightarrow> ('v option \<times> eviction list) \<times> 'v lru" where
  "lru_get key now c =
     (case jget (lru_entries c) key of
        None \<Rightarrow> ((None, []), c)
      | Some entry \<Rightarrow>
          if le_expires entry \<le> now then ((None, [EvictTtl]), c\<lparr>lru_entries := jdel key (lru_entries c)\<rparr>)
          else ((Some (le_value entry), []), c\<lparr>lru_entries := jset key entry (jdel key (lru_entries c))\<rparr>))"

text \<open>The loop over the size: the oldest key is the first of the map, and an empty one ends the loop.\<close>

fun evict_surplus :: "nat \<Rightarrow> (string, 'e) jmap \<Rightarrow> eviction list \<times> (string, 'e) jmap" where
  "evict_surplus cap [] = ([], [])"
| "evict_surplus cap ((oldest, entry) # rest) =
     (if length ((oldest, entry) # rest) \<le> cap \<or> oldest = [] then ([], (oldest, entry) # rest)
      else let (evs, es) = evict_surplus cap rest in (EvictLru # evs, es))"

definition lru_set :: "string \<Rightarrow> 'v \<Rightarrow> int \<Rightarrow> 'v lru \<Rightarrow> ('v option \<times> eviction list) \<times> 'v lru" where
  "lru_set key v now c =
     (let entries = (if jhas (lru_entries c) key then jdel key (lru_entries c) else lru_entries c);
          (evs, kept) = evict_surplus (lru_max c) (jset key \<lparr>le_value = v, le_expires = now + lru_ttl c\<rparr> entries)
      in ((None, evs), c\<lparr>lru_entries := kept\<rparr>))"

definition lru_size :: "'v lru \<Rightarrow> nat" where
  "lru_size c = length (lru_entries c)"

datatype 'v lru_op = LruGet string int | LruSet string 'v int

fun lru_key :: "'v lru_op \<Rightarrow> string" where
  "lru_key (LruGet k _) = k" | "lru_key (LruSet k _ _) = k"

fun lru_step :: "'v lru_op \<Rightarrow> 'v lru \<Rightarrow> ('v option \<times> eviction list) \<times> 'v lru" where
  "lru_step (LruGet k now) c = lru_get k now c"
| "lru_step (LruSet k v now) c = lru_set k v now c"

section \<open>The cache with use stamps\<close>

text \<open>The reference: entries in no particular order, each with the number of its last use. When there are too many,
  the one whose last use is longest ago goes.\<close>

record 'v stamped = "'v lru_entry" +
  le_used :: nat

record 'v use_cache =
  uc_max :: nat
  uc_ttl :: int
  uc_clock :: nat
  uc_entries :: "(string, 'v stamped) jmap"

definition use_get :: "string \<Rightarrow> int \<Rightarrow> 'v use_cache \<Rightarrow> ('v option \<times> eviction list) \<times> 'v use_cache" where
  "use_get key now c =
     (case jget (uc_entries c) key of
        None \<Rightarrow> ((None, []), c)
      | Some e \<Rightarrow>
          if le_expires e \<le> now then ((None, [EvictTtl]), c\<lparr>uc_entries := jdel key (uc_entries c)\<rparr>)
          else ((Some (le_value e), []),
                c\<lparr>uc_entries := jset key (e\<lparr>le_used := uc_clock c\<rparr>) (uc_entries c), uc_clock := Suc (uc_clock c)\<rparr>))"

definition least_used :: "(string, 'v stamped) jmap \<Rightarrow> string" where
  "least_used es = fst (arg_min_list (\<lambda>p. le_used (snd p)) es)"

definition use_set :: "string \<Rightarrow> 'v \<Rightarrow> int \<Rightarrow> 'v use_cache \<Rightarrow> ('v option \<times> eviction list) \<times> 'v use_cache" where
  "use_set key v now c =
     (let es = jset key \<lparr>le_value = v, le_expires = now + uc_ttl c, le_used = uc_clock c\<rparr> (uc_entries c);
          c' = c\<lparr>uc_clock := Suc (uc_clock c)\<rparr>
      in if length es \<le> uc_max c then ((None, []), c'\<lparr>uc_entries := es\<rparr>)
         else ((None, [EvictLru]), c'\<lparr>uc_entries := jdel (least_used es) es\<rparr>))"

fun use_step :: "'v lru_op \<Rightarrow> 'v use_cache \<Rightarrow> ('v option \<times> eviction list) \<times> 'v use_cache" where
  "use_step (LruGet k now) c = use_get k now c"
| "use_step (LruSet k v now) c = use_set k v now c"

definition new_use_cache :: "rat \<Rightarrow> rat \<Rightarrow> 'v use_cache" where
  "new_use_cache max_entries ttl =
     \<lparr>uc_max = nat (max 1 \<lfloor>max_entries\<rfloor>), uc_ttl = max 1 \<lfloor>ttl\<rfloor>, uc_clock = 0, uc_entries = []\<rparr>"

text \<open>The outputs of a run: for each operation the value returned and the evictions reported.\<close>

fun outputs :: "('op \<Rightarrow> 's \<Rightarrow> 'o \<times> 's) \<Rightarrow> 's \<Rightarrow> 'op list \<Rightarrow> 'o list" where
  "outputs step s [] = []"
| "outputs step s (op # ops) = fst (step op s) # outputs step (snd (step op s)) ops"

section \<open>The recency order is the use order\<close>

definition strip :: "string \<times> 'v stamped \<Rightarrow> string \<times> 'v lru_entry" where
  "strip p = (fst p, lru_entry.truncate (snd p))"

definition by_use :: "(string, 'v stamped) jmap \<Rightarrow> bool" where
  "by_use l \<longleftrightarrow> jwf l \<and> sorted_wrt (\<lambda>p q. le_used (snd p) < le_used (snd q)) l"

definition same_cache :: "'v lru \<Rightarrow> 'v use_cache \<Rightarrow> bool" where
  "same_cache c u \<longleftrightarrow>
     lru_max c = uc_max u \<and> lru_ttl c = uc_ttl u \<and> 1 \<le> uc_max u \<and> length (uc_entries u) \<le> uc_max u \<and> jwf (uc_entries u) \<and>
     (\<exists>l. lru_entries c = map strip l \<and> by_use l \<and> set l = set (uc_entries u) \<and>
        (\<forall>p\<in>set l. le_used (snd p) < uc_clock u \<and> fst p \<noteq> []))"

lemma jwf_same_get: "jwf l \<Longrightarrow> jwf es \<Longrightarrow> set l = set es \<Longrightarrow> jget l k = jget es k"
  by (metis jget_in_set option.exhaust)

lemma jwf_same_length: "jwf l \<Longrightarrow> jwf es \<Longrightarrow> set l = set es \<Longrightarrow> length l = length es"
  unfolding jwf_def by (metis distinct_card distinct_map)

lemma strip_get: "jget (map strip l) k = map_option lru_entry.truncate (jget l k)"
  by (induction l) (auto simp: strip_def)

lemma strip_del: "jdel k (map strip l) = map strip (jdel k l)"
  by (induction l) (auto simp: strip_def)

lemma set_after_del: "jset k v (jdel k m) = jdel k m @ [(k, v)]"
proof -
  have "jget (jdel k m) k = None" by (simp add: jm)
  moreover have "jget m' k = None \<Longrightarrow> jset k v m' = m' @ [(k, v)]" for m' by (induction m') (auto split: if_splits)
  ultimately show ?thesis by blast
qed

lemma strip_moved: "lru_entry.truncate e = x \<Longrightarrow> jset k x (jdel k (map strip l)) = map strip (jdel k l @ [(k, e)])"
proof -
  assume x: "lru_entry.truncate e = x"
  have "jset k x (jdel k (map strip l)) = jdel k (map strip l) @ [(k, x)]" by (rule set_after_del)
  then show ?thesis by (simp add: strip_del) (simp add: strip_def x)
qed

lemma same_cacheI:
  "lru_max c = uc_max u \<Longrightarrow> lru_ttl c = uc_ttl u \<Longrightarrow> 1 \<le> uc_max u \<Longrightarrow> length (uc_entries u) \<le> uc_max u \<Longrightarrow> jwf (uc_entries u) \<Longrightarrow>
   lru_entries c = map strip l \<Longrightarrow> by_use l \<Longrightarrow> set l = set (uc_entries u) \<Longrightarrow>
   \<forall>p\<in>set l. le_used (snd p) < uc_clock u \<and> fst p \<noteq> [] \<Longrightarrow> same_cache c u"
  by (auto simp: same_cache_def)

lemma by_use_del: "by_use l \<Longrightarrow> by_use (jdel k l)"
  by (auto simp: by_use_def AList.delete_eq sorted_wrt_filter intro: jwf_del [unfolded AList.delete_eq])

lemma by_use_append:
  "by_use l \<Longrightarrow> jget l k = None \<Longrightarrow> \<forall>p\<in>set l. le_used (snd p) < le_used e \<Longrightarrow> by_use (l @ [(k, e)])"
  by (auto simp: by_use_def jwf_def sorted_wrt_append map_of_eq_None_iff)

lemma del_set: "jwf l \<Longrightarrow> jwf es \<Longrightarrow> set l = set es \<Longrightarrow> set (jdel k l) = set (jdel k es)"
  by (simp add: AList.delete_eq)

lemma moved_set: "jwf es \<Longrightarrow> set l = set es \<Longrightarrow> set (jdel k l @ [(k, e)]) = set (jset k e es)"
  by (auto simp: jmem_set jmem_del split: if_splits)

lemma evict_none: "length es \<le> cap \<Longrightarrow> evict_surplus cap es = ([], es)"
  by (cases es) auto

lemma evict_one:
  "cap < length (p # es) \<Longrightarrow> length es \<le> cap \<Longrightarrow> fst p \<noteq> [] \<Longrightarrow> evict_surplus cap (p # es) = ([EvictLru], es)"
  by (cases p) (auto simp: evict_none)

lemma least_used_first:
  assumes "by_use (p # l)" "set es = set (p # l)"
  shows "least_used es = fst p"
proof -
  let ?q = "arg_min_list (\<lambda>p. le_used (snd p)) es"
  have ne: "es \<noteq> []" using assms(2) by auto
  have q: "?q \<in> set (p # l)" using arg_min_list_in [OF ne] assms(2) by auto
  have "le_used (snd ?q) \<le> le_used (snd p)"
    using f_arg_min_list_f [OF ne, of "\<lambda>p. le_used (snd p)"] assms(2) by simp
  then have "?q = p" using assms(1) q by (auto simp: by_use_def)
  then show ?thesis by (simp add: least_used_def)
qed

lemma same_get:
  assumes R: "same_cache c u"
  shows "fst (lru_get k now c) = fst (use_get k now u) \<and> same_cache (snd (lru_get k now c)) (snd (use_get k now u))"
proof -
  obtain l where l: "lru_entries c = map strip l" "by_use l" "set l = set (uc_entries u)"
      "\<forall>p\<in>set l. le_used (snd p) < uc_clock u \<and> fst p \<noteq> []" and wf: "jwf (uc_entries u)"
    and max: "lru_max c = uc_max u" "lru_ttl c = uc_ttl u" "1 \<le> uc_max u" "length (uc_entries u) \<le> uc_max u"
    using R by (auto simp: same_cache_def)
  have lw: "jwf l" using l(2) by (simp add: by_use_def)
  have g: "jget l k = jget (uc_entries u) k" by (rule jwf_same_get [OF lw wf l(3)])
  show ?thesis
  proof (cases "jget (uc_entries u) k")
    case None
    then show ?thesis using R g by (simp add: lru_get_def use_get_def l(1) strip_get)
  next
    case (Some e)
    have k: "k \<noteq> []" using Some g l(4) map_of_SomeD [of l k e] by fastforce
    let ?e = "e\<lparr>le_used := uc_clock u\<rparr>"
    have t: "lru_entry.truncate e = \<lparr>le_value = le_value e, le_expires = le_expires e\<rparr>" by (simp add: lru_entry.truncate_def)
    have gone: "lru_entries (c\<lparr>lru_entries := jdel k (lru_entries c)\<rparr>) = map strip (jdel k l)" by (simp add: l(1) strip_del)
    have moved: "jset k (lru_entry.truncate e) (jdel k (lru_entries c)) = map strip (jdel k l @ [(k, ?e)])"
      unfolding l(1) by (rule strip_moved) (simp add: lru_entry.truncate_def)
    have "by_use (jdel k l @ [(k, ?e)])"
      using l(4) by (intro by_use_append by_use_del l(2)) (auto simp: jm jmem_del)
    moreover have "set (jdel k l @ [(k, ?e)]) = set (jset k ?e (uc_entries u))" by (rule moved_set [OF wf l(3)])
    moreover have "length (jset k ?e (uc_entries u)) = length (uc_entries u)" using Some by (simp add: length_jset jhas_def)
    moreover have "\<forall>p\<in>set (jdel k l @ [(k, ?e)]). le_used (snd p) < Suc (uc_clock u) \<and> fst p \<noteq> []"
      using l(4) k by (auto simp: jmem_del less_Suc_eq)
    ultimately have hit: "same_cache (c\<lparr>lru_entries := jset k (lru_entry.truncate e) (jdel k (lru_entries c))\<rparr>)
        (u\<lparr>uc_entries := jset k ?e (uc_entries u), uc_clock := Suc (uc_clock u)\<rparr>)"
      using wf max unfolding moved by (intro same_cacheI [where l = "jdel k l @ [(k, ?e)]"]) simp_all
    have "same_cache (c\<lparr>lru_entries := jdel k (lru_entries c)\<rparr>) (u\<lparr>uc_entries := jdel k (uc_entries u)\<rparr>)"
      using wf max by_use_del [OF l(2)] del_set [OF lw wf l(3)] length_jdel_le [of k "uc_entries u"] l(4)
      by (intro same_cacheI [where l = "jdel k l"]) (simp_all add: l(1) strip_del, auto simp: AList.delete_eq l(3))
    then show ?thesis using hit Some g by (simp add: lru_get_def use_get_def l(1) strip_get t)
  qed
qed

lemma same_set:
  assumes R: "same_cache c u" and k: "k \<noteq> []"
  shows "fst (lru_set k v now c) = fst (use_set k v now u) \<and> same_cache (snd (lru_set k v now c)) (snd (use_set k v now u))"
proof -
  obtain l where l: "lru_entries c = map strip l" "by_use l" "set l = set (uc_entries u)"
      "\<forall>p\<in>set l. le_used (snd p) < uc_clock u \<and> fst p \<noteq> []"
    and wf: "jwf (uc_entries u)" and max: "lru_max c = uc_max u" "lru_ttl c = uc_ttl u" "1 \<le> uc_max u" "length (uc_entries u) \<le> uc_max u"
    using R by (auto simp: same_cache_def)
  define e where "e = \<lparr>le_value = v, le_expires = now + uc_ttl u, le_used = uc_clock u\<rparr>"
  define l' where "l' = jdel k l @ [(k, e)]"
  define es where "es = jset k e (uc_entries u)"
  have del: "(if jhas (lru_entries c) k then jdel k (lru_entries c) else lru_entries c) = jdel k (lru_entries c)"
    by (simp add: jhas_def jdel_notin)
  have moved: "jset k \<lparr>le_value = v, le_expires = now + lru_ttl c\<rparr> (jdel k (lru_entries c)) = map strip l'"
    unfolding l(1) l'_def by (rule strip_moved) (simp add: lru_entry.truncate_def e_def max(2))
  have "by_use l'" unfolding l'_def using l(4) by (intro by_use_append by_use_del l(2)) (auto simp: jm jmem_del e_def)
  moreover have set: "set l' = set es" unfolding l'_def es_def by (rule moved_set [OF wf l(3)])
  moreover have "jwf es" using wf by (simp add: es_def)
  moreover have used: "\<forall>p\<in>set l'. le_used (snd p) < Suc (uc_clock u) \<and> fst p \<noteq> []"
    using l(4) k by (auto simp: l'_def jmem_del e_def less_Suc_eq)
  moreover have len: "length l' = length es"
    using calculation by (intro jwf_same_length) (auto simp: by_use_def)
  moreover have small: "length es \<le> Suc (uc_max u)" using max(4) by (simp add: es_def length_jset)
  ultimately have facts: "by_use l'" "jwf es" "length es \<le> Suc (uc_max u)" by blast+
  have impl: "lru_set k v now c = (case evict_surplus (uc_max u) (map strip l') of (evs, kept) \<Rightarrow> ((None, evs), c\<lparr>lru_entries := kept\<rparr>))"
    by (simp only: lru_set_def Let_def del moved max(1))
  show ?thesis
  proof (cases "length es \<le> uc_max u")
    case True
    then have "lru_set k v now c = ((None, []), c\<lparr>lru_entries := map strip l'\<rparr>)" by (simp add: impl evict_none len)
    moreover have "use_set k v now u = ((None, []), u\<lparr>uc_clock := Suc (uc_clock u), uc_entries := es\<rparr>)"
      using True by (simp add: use_set_def es_def e_def)
    moreover have "same_cache (c\<lparr>lru_entries := map strip l'\<rparr>) (u\<lparr>uc_clock := Suc (uc_clock u), uc_entries := es\<rparr>)"
      by (rule same_cacheI [where l = l']) (use True facts set used max in simp_all)
    ultimately show ?thesis by simp
  next
    case False
    then obtain p rest where p: "l' = p # rest" using len by (cases l') auto
    have "evict_surplus (uc_max u) (strip p # map strip rest) = ([EvictLru], map strip rest)"
      by (rule evict_one) (use False len small used in \<open>auto simp: p strip_def\<close>)
    then have "lru_set k v now c = ((None, [EvictLru]), c\<lparr>lru_entries := map strip rest\<rparr>)" by (simp add: impl p)
    moreover have least: "least_used es = fst p" using facts(1) set by (intro least_used_first [of p rest]) (simp_all add: p)
    then have "use_set k v now u = ((None, [EvictLru]), u\<lparr>uc_clock := Suc (uc_clock u), uc_entries := jdel (fst p) es\<rparr>)"
      using False by (simp add: use_set_def es_def e_def)
    moreover have "same_cache (c\<lparr>lru_entries := map strip rest\<rparr>) (u\<lparr>uc_clock := Suc (uc_clock u), uc_entries := jdel (fst p) es\<rparr>)"
    proof (rule same_cacheI [where l = rest])
      have "jdel (fst p) l' = rest"
        using facts(1) unfolding p by (cases p) (auto simp: by_use_def jwf_def map_of_eq_None_iff intro!: jdel_notin)
      then show rest: "set rest = set (uc_entries (u\<lparr>uc_clock := Suc (uc_clock u), uc_entries := jdel (fst p) es\<rparr>))"
        using del_set [of l' es "fst p"] facts set by (simp add: by_use_def)
      show "by_use rest" using facts(1) by (auto simp: p by_use_def jwf_def)
      have "length (jdel (fst p) es) < length es"
        using set facts(2) jget_in_set [of es "fst p" "snd p"] by (intro length_jdel_less [of _ _ "snd p"]) (auto simp: p)
      then show "length (uc_entries (u\<lparr>uc_clock := Suc (uc_clock u), uc_entries := jdel (fst p) es\<rparr>))
          \<le> uc_max (u\<lparr>uc_clock := Suc (uc_clock u), uc_entries := jdel (fst p) es\<rparr>)" using facts(3) by simp
    qed (use facts used max in \<open>simp_all add: p\<close>)
    ultimately show ?thesis by simp
  qed
qed

lemma same_step:
  assumes "same_cache c u" "lru_key op \<noteq> []"
  shows "fst (lru_step op c) = fst (use_step op u)" "same_cache (snd (lru_step op c)) (snd (use_step op u))"
  using assms same_get [of c u] same_set [of c u] by (cases op; simp)+

lemma same_outputs:
  "same_cache c u \<Longrightarrow> list_all (\<lambda>op. lru_key op \<noteq> []) ops \<Longrightarrow> outputs lru_step c ops = outputs use_step u ops"
  by (induction ops arbitrary: c u) (simp_all add: same_step)



text \<open>An empty key that has become the oldest stops every later eviction: the cache then grows past its maximum.\<close>

lemma empty_key_disables_eviction:
  "length (lru_entries (foldl (\<lambda>c op. snd (lru_step op c)) (new_lru 1 100)
     [LruSet [] (0::int) 0, LruSet ''a'' 1 1, LruSet ''b'' 2 2, LruSet ''c'' 3 3])) = 4"
  by (simp add: new_lru_def lru_set_def jhas_def)


section \<open>Verdicts and runs in flight\<close>

text \<open>Canonical JSON: the keys of every object in order.\<close>

fun sort_keys :: "jsvalue \<Rightarrow> jsvalue" where
  "sort_keys (JArr vs) = JArr (map sort_keys vs)"
| "sort_keys (JObj obj) = JObj (sort_key fst (map (\<lambda>(k, v). (k, sort_keys v)) obj))"
| "sort_keys v = v"

text \<open>\<open>stringify\<close> is \<open>JSON.stringify\<close>, \<open>digest\<close> the SHA-256 of a text in hexadecimal.\<close>

definition canonical_json :: "(jsvalue \<Rightarrow> string) \<Rightarrow> jsvalue \<Rightarrow> string" where
  "canonical_json stringify v = stringify (sort_keys v)"

definition run_key :: "(jsvalue \<Rightarrow> string) \<Rightarrow> (string \<Rightarrow> string) \<Rightarrow> string \<Rightarrow> jsvalue \<Rightarrow> string" where
  "run_key stringify digest contract args =
     digest (canonical_json stringify (JObj [(''contract_id'', JStr contract),
       (''args'', case args of JUndefined \<Rightarrow> JNull | _ \<Rightarrow> args)]))"

record 'r cached_run =
  cr_record :: 'r
  cr_expires :: int

record 'p inflight =
  if_epoch :: int
  if_signal :: nat
  if_promise :: 'p

record ('r, 'p) run_cache =
  rc_entries :: "(string, 'r cached_run) jmap"
  rc_inflight :: "(string, 'p inflight) jmap"
  rc_aborted :: "nat set"
  rc_signals :: nat

definition new_run_cache :: "('r, 'p) run_cache" where
  "new_run_cache = \<lparr>rc_entries = [], rc_inflight = [], rc_aborted = {}, rc_signals = 0\<rparr>"

definition rc_lookup :: "string \<Rightarrow> int \<Rightarrow> ('r, 'p) run_cache \<Rightarrow> 'r option \<times> ('r, 'p) run_cache" where
  "rc_lookup key now c =
     (case jget (rc_entries c) key of
        None \<Rightarrow> (None, c)
      | Some e \<Rightarrow>
          if cr_expires e \<le> now then (None, c\<lparr>rc_entries := jdel key (rc_entries c)\<rparr>) else (Some (cr_record e), c))"

text \<open>\<open>verdict\<close> reads the verdict of a record.\<close>

definition rc_record :: "('r \<Rightarrow> string) \<Rightarrow> string \<Rightarrow> 'r \<Rightarrow> jsnum \<Rightarrow> int \<Rightarrow> ('r, 'p) run_cache \<Rightarrow> ('r, 'p) run_cache" where
  "rc_record verdict key r ttl now c =
     (if verdict r \<noteq> ''success'' then c
      else case ttl of
        NonFinite \<Rightarrow> c
      | Fin t \<Rightarrow>
          if t \<le> 0 then c else c\<lparr>rc_entries := jset key \<lparr>cr_record = r, cr_expires = now + t\<rparr> (rc_entries c)\<rparr>)"

definition new_signal :: "('r, 'p) run_cache \<Rightarrow> nat \<times> ('r, 'p) run_cache" where
  "new_signal c = (rc_signals c, c\<lparr>rc_signals := Suc (rc_signals c)\<rparr>)"

definition abort_signal :: "nat \<Rightarrow> ('r, 'p) run_cache \<Rightarrow> ('r, 'p) run_cache" where
  "abort_signal s c = c\<lparr>rc_aborted := insert s (rc_aborted c)\<rparr>"

definition install_run :: "string \<Rightarrow> int \<Rightarrow> 'p \<Rightarrow> ('r, 'p) run_cache \<Rightarrow> nat \<times> ('r, 'p) run_cache" where
  "install_run key epoch promise c =
     (let (s, c') = new_signal c
      in (s, c'\<lparr>rc_inflight := jset key \<lparr>if_epoch = epoch, if_signal = s, if_promise = promise\<rparr> (rc_inflight c')\<rparr>))"

definition register_inflight :: "string \<Rightarrow> int \<Rightarrow> 'p \<Rightarrow> ('r, 'p) run_cache \<Rightarrow> nat \<times> ('r, 'p) run_cache" where
  "register_inflight key epoch promise c =
     (case jget (rc_inflight c) key of
        None \<Rightarrow> install_run key epoch promise c
      | Some e \<Rightarrow>
          if if_epoch e < epoch then install_run key epoch promise (abort_signal (if_signal e) c)
          else if epoch < if_epoch e then (let (s, c') = new_signal c in (s, abort_signal s c'))
          else (if_signal e, c))"

definition release_inflight :: "string \<Rightarrow> int \<Rightarrow> ('r, 'p) run_cache \<Rightarrow> ('r, 'p) run_cache" where
  "release_inflight key epoch c =
     (case jget (rc_inflight c) key of
        None \<Rightarrow> c
      | Some e \<Rightarrow> if if_epoch e \<noteq> epoch then c else c\<lparr>rc_inflight := jdel key (rc_inflight c)\<rparr>)"

definition cancel_inflight :: "string \<Rightarrow> ('r, 'p) run_cache \<Rightarrow> bool \<times> ('r, 'p) run_cache" where
  "cancel_inflight key c =
     (case jget (rc_inflight c) key of
        None \<Rightarrow> (False, c)
      | Some e \<Rightarrow> (True, (abort_signal (if_signal e) c)\<lparr>rc_inflight := jdel key (rc_inflight c)\<rparr>))"

definition get_inflight :: "string \<Rightarrow> ('r, 'p) run_cache \<Rightarrow> 'p option" where
  "get_inflight key c = map_option if_promise (jget (rc_inflight c) key)"

definition rc_size :: "('r, 'p) run_cache \<Rightarrow> nat" where
  "rc_size c = length (rc_entries c)"

definition rc_clear :: "('r, 'p) run_cache \<Rightarrow> ('r, 'p) run_cache" where
  "rc_clear c =
     (foldl (\<lambda>c s. abort_signal s c) (c\<lparr>rc_entries := []\<rparr>) (map (\<lambda>(k, e). if_signal e) (rc_inflight c)))\<lparr>rc_inflight := []\<rparr>"

datatype ('r, 'p) rc_op =
    RcLookup string int
  | RcRecord string 'r jsnum int
  | RcRegister string int 'p
  | RcRelease string int
  | RcCancel string
  | RcClear

fun rc_step :: "('r \<Rightarrow> string) \<Rightarrow> ('r, 'p) run_cache \<Rightarrow> ('r, 'p) rc_op \<Rightarrow> ('r, 'p) run_cache" where
  "rc_step verdict c (RcLookup k now) = snd (rc_lookup k now c)"
| "rc_step verdict c (RcRecord k r ttl now) = rc_record verdict k r ttl now c"
| "rc_step verdict c (RcRegister k e p) = snd (register_inflight k e p c)"
| "rc_step verdict c (RcRelease k e) = release_inflight k e c"
| "rc_step verdict c (RcCancel k) = snd (cancel_inflight k c)"
| "rc_step verdict c RcClear = rc_clear c"

definition rc_run :: "('r \<Rightarrow> string) \<Rightarrow> ('r, 'p) run_cache \<Rightarrow> ('r, 'p) rc_op list \<Rightarrow> ('r, 'p) run_cache" where
  "rc_run verdict = foldl (rc_step verdict)"

section \<open>Equal payloads have equal keys\<close>

text \<open>Two values are the same payload when they differ in the order of object fields only, at any depth.\<close>

inductive same_payload :: "jsvalue \<Rightarrow> jsvalue \<Rightarrow> bool" where
  same_leaf: "same_payload v v"
| same_array: "list_all2 same_payload vs ws \<Longrightarrow> same_payload (JArr vs) (JArr ws)"
| same_object: "map fst obj = map fst obj' \<Longrightarrow> list_all2 same_payload (map snd obj) (map snd obj') \<Longrightarrow>
    distinct (map fst obj) \<Longrightarrow> mset obj' = mset obj'' \<Longrightarrow> same_payload (JObj obj) (JObj obj'')"

lemma sort_same_fields:
  assumes "mset xs = mset ys" "distinct (map fst xs)"
  shows "sort_key fst xs = sort_key fst (ys :: ('a :: linorder \<times> 'b) list)"
proof (rule properties_for_sort_key)
  show "mset (sort_key fst ys) = mset xs" using assms(1) by simp
  have "mset (map fst xs) = mset (map fst ys)" using assms(1) by (metis mset_map)
  then have d: "distinct (map fst ys)" using assms(2) by (metis mset_eq_imp_distinct_iff)
  show "filter (\<lambda>x. fst k = fst x) (sort_key fst ys) = filter (\<lambda>x. fst k = fst x) xs" if "k \<in> set (sort_key fst ys)" for k
  proof -
    have "distinct (map fst zs) \<Longrightarrow> k \<in> set zs \<Longrightarrow> filter (\<lambda>x. fst k = fst x) zs = [k]" for zs :: "('a \<times> 'b) list"
      by (induction zs) (auto simp: filter_empty_conv image_iff)
    moreover have "k \<in> set xs" using that assms(1) by (metis set_mset_mset set_sort)
    moreover have "distinct (map fst (sort_key fst ys))"
      using d by (metis mset_eq_imp_distinct_iff mset_map mset_sort)
    ultimately show ?thesis using that assms(2) by simp
  qed
qed simp_all

lemma sort_keys_same: "same_payload v w \<Longrightarrow> sort_keys v = sort_keys w"
proof (induction rule: same_payload.induct)
  case (same_array vs ws)
  then show ?case by (induction vs ws rule: list_all2_induct) auto
next
  case (same_object obj obj' obj'')
  let ?f = "\<lambda>(k :: string, v). (k, sort_keys v)"
  have "map ?f obj = map ?f obj'"
    using same_object.hyps(1) same_object.IH
  proof (induction obj arbitrary: obj')
    case (Cons p obj)
    then show ?case by (cases obj'; cases p; cases "hd obj'") auto
  qed simp
  moreover have "map fst (map ?f obj) = map fst obj" by auto
  then have "distinct (map fst (map ?f obj))" using same_object.hyps by simp
  ultimately have "sort_key fst (map ?f obj) = sort_key fst (map ?f obj'')"
    using same_object.hyps by (intro sort_same_fields) (metis mset_map)+
  then show ?case by simp
qed simp

lemma same_payload_same_key:
  assumes "same_payload args args'"
  shows "run_key stringify digest contract args = run_key stringify digest contract args'"
proof -
  let ?null = "\<lambda>v. case v of JUndefined \<Rightarrow> JNull | _ \<Rightarrow> v"
  have "sort_keys (?null args) = sort_keys (?null args')"
    using assms sort_keys_same [OF assms] by (cases rule: same_payload.cases) auto
  then show ?thesis by (simp add: run_key_def canonical_json_def)
qed

section \<open>Preemption\<close>

definition inflight_wf :: "('r, 'p) run_cache \<Rightarrow> bool" where
  "inflight_wf c \<longleftrightarrow>
     (\<forall>k e. jget (rc_inflight c) k = Some e \<longrightarrow> if_signal e < rc_signals c \<and> if_signal e \<notin> rc_aborted c) \<and>
     (\<forall>k k' e e'. jget (rc_inflight c) k = Some e \<longrightarrow> jget (rc_inflight c) k' = Some e' \<longrightarrow> if_signal e = if_signal e' \<longrightarrow> k = k') \<and>
     (\<forall>s\<in>rc_aborted c. s < rc_signals c) \<and> jwf (rc_inflight c)"

definition live_run :: "string \<Rightarrow> int \<Rightarrow> nat \<Rightarrow> ('r, 'p) run_cache \<Rightarrow> bool" where
  "live_run k e s c \<longleftrightarrow> (\<exists>entry. jget (rc_inflight c) k = Some entry \<and> if_epoch entry = e \<and> if_signal entry = s)"

fun preempts :: "string \<Rightarrow> int \<Rightarrow> ('r, 'p) rc_op \<Rightarrow> bool" where
  "preempts k e (RcRegister k' e' _) \<longleftrightarrow> k' = k \<and> e < e'"
| "preempts k e (RcCancel k') \<longleftrightarrow> k' = k"
| "preempts k e RcClear \<longleftrightarrow> True"
| "preempts k e _ \<longleftrightarrow> False"

lemma abort_all:
  "rc_aborted (foldl (\<lambda>c s. abort_signal s c) c ss) = rc_aborted c \<union> set ss"
  "rc_inflight (foldl (\<lambda>c s. abort_signal s c) c ss) = rc_inflight c"
  "rc_signals (foldl (\<lambda>c s. abort_signal s c) c ss) = rc_signals c"
  by (induction ss arbitrary: c) (auto simp: abort_signal_def)

lemma clear_fields:
  "rc_aborted (rc_clear c) = rc_aborted c \<union> if_signal ` snd ` set (rc_inflight c)"
  "rc_inflight (rc_clear c) = []" "rc_signals (rc_clear c) = rc_signals c"
  by (force simp: rc_clear_def abort_all)+

lemmas rc_defs = rc_lookup_def rc_record_def register_inflight_def install_run_def new_signal_def abort_signal_def
  release_inflight_def cancel_inflight_def


lemma inflight_wf_aborted: "inflight_wf c \<Longrightarrow> rc_aborted c \<subseteq> rc_aborted (rc_step verdict c op)"
  by (cases op) (auto simp: rc_defs clear_fields Let_def split: option.splits jsnum.splits)

lemma inflight_wf_step:
  assumes wf: "inflight_wf c"
  shows "inflight_wf (rc_step verdict c op)"
proof (cases op)
  case (RcRegister k e p)
  show ?thesis
  proof (cases "jget (rc_inflight c) k")
    case None
    then show ?thesis using wf RcRegister by (fastforce simp: inflight_wf_def rc_defs Let_def jm less_Suc_eq)
  next
    case (Some a)
    consider "if_epoch a < e" | "e < if_epoch a" | "e = if_epoch a" by linarith
    then show ?thesis
    proof cases
      case 1
      then have "rc_step verdict c op = c\<lparr>rc_aborted := insert (if_signal a) (rc_aborted c), rc_signals := Suc (rc_signals c),
          rc_inflight := jset k \<lparr>if_epoch = e, if_signal = rc_signals c, if_promise = p\<rparr> (rc_inflight c)\<rparr>"
        by (simp add: RcRegister Some rc_defs)
      moreover have "if_signal a < rc_signals c" using wf Some by (auto simp: inflight_wf_def)
      ultimately show ?thesis using wf Some by (fastforce simp: inflight_wf_def jm less_Suc_eq)
    next
      case 2
      then show ?thesis using wf by (fastforce simp: RcRegister Some inflight_wf_def rc_defs less_Suc_eq)
    next
      case 3
      then show ?thesis using wf by (simp add: RcRegister Some rc_defs)
    qed
  qed
next
  case (RcRelease k e)
  then show ?thesis using wf by (auto simp: inflight_wf_def rc_defs jm split: option.splits)
next
  case (RcCancel k)
  then show ?thesis
    using wf by (cases "jget (rc_inflight c) k") (simp add: rc_defs, fastforce simp: inflight_wf_def rc_defs jm)
next
  case RcClear
  then show ?thesis
    using wf by (auto simp: inflight_wf_def clear_fields) (metis jget_in_set)
qed (use wf in \<open>auto simp: inflight_wf_def rc_defs split: option.splits jsnum.splits\<close>)

interpretation rc: growing_machine "rc_step verdict" inflight_wf rc_aborted
  by unfold_locales (auto simp: inflight_wf_step inflight_wf_aborted [THEN subsetD])

lemma live_step:
  assumes wf: "inflight_wf c" and live: "live_run k e s c" and "op \<noteq> RcRelease k e"
  shows "if preempts k e op then s \<in> rc_aborted (rc_step verdict c op) else live_run k e s (rc_step verdict c op)"
proof (cases op)
  case (RcRegister k' e' p)
  then show ?thesis using live by (auto simp: live_run_def rc_defs Let_def jm split: option.splits)
next
  case (RcRelease k' e')
  then show ?thesis using live assms(3) by (auto simp: live_run_def rc_defs jm split: option.splits)
next
  case (RcCancel k')
  then show ?thesis using live by (auto simp: live_run_def rc_defs jm split: option.splits)
next
  case RcClear
  then show ?thesis using live by (force simp: live_run_def clear_fields dest: map_of_SomeD)
qed (use live in \<open>auto simp: live_run_def rc_defs split: option.splits jsnum.splits\<close>)

lemma live_unaborted: "inflight_wf c \<Longrightarrow> live_run k e s c \<Longrightarrow> s \<notin> rc_aborted c"
  by (auto simp: inflight_wf_def live_run_def)

lemma live_run_aborted:
  "inflight_wf c \<Longrightarrow> live_run k e s c \<Longrightarrow> RcRelease k e \<notin> set ops \<Longrightarrow>
    s \<in> rc_aborted (foldl (rc_step verdict) c ops) \<longleftrightarrow> (\<exists>op\<in>set ops. preempts k e op)"
proof (induction ops arbitrary: c)
  case Nil
  then show ?case by (simp add: live_unaborted)
next
  case (Cons op ops)
  have wf: "inflight_wf (rc_step verdict c op)" using Cons.prems(1) by (rule inflight_wf_step)
  have step: "if preempts k e op then s \<in> rc_aborted (rc_step verdict c op) else live_run k e s (rc_step verdict c op)"
    using Cons.prems by (intro live_step) auto
  show ?case
  proof (cases "preempts k e op")
    case True
    then show ?thesis using step rc.run_grows [OF wf, of verdict ops] by auto
  next
    case False
    then show ?thesis using step Cons.IH [OF wf] Cons.prems(3) by simp
  qed
qed

lemma register_live:
  assumes "register_inflight k e p c = (s, c')" "s \<notin> rc_aborted c'"
  shows "live_run k e s c'"
  using assms by (auto simp: live_run_def rc_defs Let_def jm split: option.splits if_splits)

lemma inflight_wf_new: "inflight_wf new_run_cache"
  by (simp add: inflight_wf_def new_run_cache_def)

text \<open>C21 (safety). The signal of a run that was let start is aborted by the operations that follow, up to the release
  of its epoch, exactly when one of them registers a higher epoch for its key, cancels its key or clears
  the cache; nothing that happens to other keys or older epochs aborts it.\<close>

theorem preempted_exactly:
  assumes "c0 = rc_run verdict new_run_cache ops0" "register_inflight k e p c0 = (s, c)" "s \<notin> rc_aborted c"
    and "RcRelease k e \<notin> set ops"
  shows "s \<in> rc_aborted (rc_run verdict c ops) \<longleftrightarrow> (\<exists>op\<in>set ops. preempts k e op)"
proof -
  have "inflight_wf c0" unfolding assms(1) rc_run_def by (rule rc.run_inv [OF inflight_wf_new])
  then have "inflight_wf c" using inflight_wf_step [of c0 verdict "RcRegister k e p"] assms(2) by simp
  then show ?thesis unfolding rc_run_def using assms(4) by (rule live_run_aborted [OF _ register_live [OF assms(2,3)]])
qed


theorem preempted_exactly_witness:
  "1 \<in> rc_aborted (rc_run id (snd (register_inflight ''k'' 2 () (rc_run id new_run_cache [RcRegister ''k'' 1 ()])))
      [RcRegister ''j'' 9 (), RcRelease ''k'' 1, RcRegister ''k'' 1 (), RcCancel ''k''])"
proof -
  define c0 :: "(string, unit) run_cache" where "c0 = rc_run id new_run_cache [RcRegister ''k'' 1 ()]"
  define c where "c = snd (register_inflight ''k'' 2 () c0)"
  have r: "register_inflight ''k'' 2 () c0 = (1, c)" "1 \<notin> rc_aborted c"
    by (simp_all add: c_def c0_def rc_run_def new_run_cache_def rc_defs)
  let ?ops = "[RcRegister ''j'' 9 (), RcRelease ''k'' 1, RcRegister ''k'' 1 (), RcCancel ''k'']"
  have "RcRelease ''k'' 2 \<notin> set ?ops" by simp
  from preempted_exactly [OF c0_def r this] show ?thesis by (simp add: c_def c0_def)
qed

text \<open>A duplicate shares the signal of the first caller. When the first one finishes it releases the epoch, and the
  duplicate, still running, is not preempted by a newer attempt any more.\<close>

lemma released_duplicate_not_preempted:
  defines "c \<equiv> rc_run id new_run_cache [RcRegister ''k'' 1 (), RcRegister ''k'' 1 (), RcRelease ''k'' 1, RcRegister ''k'' 2 ()]"
  shows "rc_aborted c = {}" "rc_signals c = 2"
  by (simp_all add: c_def rc_run_def new_run_cache_def rc_defs)

text \<open>A record that is found is a success, stored with the last accepted \<open>record\<close> of its key.\<close>

lemma found_is_success:
  fixes ops :: "('a, 'b) rc_op list"
  assumes "fst (rc_lookup k now (rc_run verdict new_run_cache ops)) = Some r"
  shows "verdict r = ''success''"
proof -
  let ?ok = "\<lambda>c :: ('a, 'b) run_cache. \<forall>(k, e)\<in>set (rc_entries c). verdict (cr_record e) = ''success''"
  have "rc_entries (foldl (\<lambda>c s. abort_signal s c) c ss) = rc_entries c" for c :: "('a, 'b) run_cache" and ss
    by (induction ss arbitrary: c) (simp_all add: abort_signal_def)
  then have cleared: "rc_entries (rc_clear c) = []" for c :: "('a, 'b) run_cache" by (simp add: rc_clear_def)
  have put: "q \<in> set (jset j v m) \<Longrightarrow> q = (j, v) \<or> q \<in> set m" for q :: "string \<times> 'a cached_run" and j v m
    by (induction m) (auto split: if_splits)
  have "?ok c \<Longrightarrow> ?ok (rc_step verdict c op)" for c op
    by (cases op) (auto simp: rc_defs cleared Let_def jmem_del dest!: put split: option.splits jsnum.splits)
  then have "?ok (rc_run verdict new_run_cache ops)"
    unfolding rc_run_def by (intro foldl_inv [where P = ?ok]) (simp_all add: new_run_cache_def)
  then show ?thesis using assms by (force simp: rc_lookup_def dest: map_of_SomeD split: option.splits if_splits)
qed

end
