(* ===== verification/Voting.thy ===== *)
theory Voting
  imports Oc_Prelude Js_Value
begin

text \<open>
  Voting on a critical action, \<open>src/src/pilot/voting/\<close>: when two proposed actions mean the same
  (\<open>args-equivalence.ts\<close>), how a reply in free text is searched for its JSON object, and how the replies
  of the voters become a verdict under a token budget (\<open>orchestrator.ts\<close>). The URL class of the platform is the
  record \<open>url_api\<close>, \<open>JSON.parse\<close> the argument \<open>parse\<close>, the host's target resolver may throw (\<open>None\<close>). Two
  values compared by the model are never one object, and distances are exact.
\<close>

section \<open>Equivalent actions\<close>

record invocation =
  iv_kind :: string
  iv_args :: jsvalue

type_synonym resolver = "(invocation \<Rightarrow> int option option) option"

record 'u url_api =
  url_parse :: "string \<Rightarrow> 'u option"
  url_string :: "'u \<Rightarrow> string"
  url_params :: "'u \<Rightarrow> string list"
  url_drop_param :: "string \<Rightarrow> 'u \<Rightarrow> 'u"
  url_path :: "'u \<Rightarrow> string"
  url_set_path :: "string \<Rightarrow> 'u \<Rightarrow> 'u"

definition coordinate_tolerance :: rat where "coordinate_tolerance = 5"
definition scroll_tolerance :: rat where "scroll_tolerance = 50"

definition is_object :: "jsvalue \<Rightarrow> bool" where
  "is_object v = (case v of JArr _ \<Rightarrow> True | JObj _ \<Rightarrow> True | _ \<Rightarrow> False)"

text \<open>The enumerable own properties: an array has its indices.\<close>

definition own_fields :: "jsvalue \<Rightarrow> (string \<times> jsvalue) list" where
  "own_fields v = (case v of JObj obj \<Rightarrow> obj | JArr vs \<Rightarrow> zip (map dec [0..<length vs]) vs | _ \<Rightarrow> [])"

definition member :: "jsvalue \<Rightarrow> string \<Rightarrow> jsvalue" where
  "member v f = (case v of JObj obj \<Rightarrow> field obj f | _ \<Rightarrow> JUndefined)"

text \<open>\<open>===\<close> on values that are not objects.\<close>

definition strict_equal :: "jsvalue \<Rightarrow> jsvalue \<Rightarrow> bool" where
  "strict_equal a b \<longleftrightarrow> a = b \<and> a \<noteq> JNaN \<and> \<not> is_object a"

lemma own_field_smaller: "(k, w) \<in> set (own_fields v) \<Longrightarrow> size w < size v"
proof (cases v)
  case (JArr vs)
  assume "(k, w) \<in> set (own_fields v)"
  then have "w \<in> set vs" unfolding JArr own_fields_def by (auto dest: set_zip_rightD)
  then show ?thesis using size_list_estimation' [of w vs "size w" size] by (simp add: JArr)
next
  case (JObj obj)
  assume "(k, w) \<in> set (own_fields v)"
  then have "(k, w) \<in> set obj" by (simp add: JObj own_fields_def)
  then have "size_prod (\<lambda>_. 0) size (k, w) \<le> size_list (size_prod (\<lambda>_. 0) size) obj"
    by (rule size_list_estimation') simp
  then show ?thesis by (simp add: JObj)
qed (simp_all add: own_fields_def)

lemma zip_smaller: "(v, w) \<in> set (zip vs ws) \<Longrightarrow> size v < Suc (size_list size vs)"
  using size_list_estimation' [of v vs "size v" size] by (auto dest: set_zip_leftD simp: less_Suc_eq_le)

function deep_equal :: "jsvalue \<Rightarrow> jsvalue \<Rightarrow> bool" where
  "deep_equal a b =
     (strict_equal a b \<or>
      (case (a, b) of
         (JArr vs, JArr ws) \<Rightarrow> length vs = length ws \<and> (\<forall>(v, w)\<in>set (zip vs ws). deep_equal v w)
       | _ \<Rightarrow>
           is_object a \<and> is_object b \<and> length (own_fields a) = length (own_fields b) \<and>
           (\<forall>(k, v)\<in>set (own_fields a). case map_of (own_fields b) k of None \<Rightarrow> False | Some w \<Rightarrow> deep_equal v w)))"
  by pat_completeness auto
termination
  by (relation "measure (\<lambda>(a, b). size a)") (auto dest: own_field_smaller zip_smaller)

declare deep_equal.simps [simp del]

definition tracking_prefixes :: "string list" where
  "tracking_prefixes = [''utm_'', ''fbclid'', ''gclid'', ''mc_eid'', ''yclid'']"

definition normalize_url :: "'u url_api \<Rightarrow> string \<Rightarrow> string" where
  "normalize_url api raw =
     (case url_parse api raw of
        None \<Rightarrow> raw
      | Some u \<Rightarrow> url_string api
          (foldl (\<lambda>u key. if list_ex (\<lambda>p. starts_with p key) tracking_prefixes then url_drop_param api key u else u)
             u (url_params api u)))"

definition strip_last_slash :: "string \<Rightarrow> string" where
  "strip_last_slash s = (if s \<noteq> [] \<and> last s = CHR ''/'' then butlast s else s)"

definition strip_path_trailing_slash :: "'u url_api \<Rightarrow> string \<Rightarrow> string" where
  "strip_path_trailing_slash api url =
     (case url_parse api url of
        None \<Rightarrow> strip_last_slash url
      | Some u \<Rightarrow> url_string api
          (if 1 < length (url_path api u) \<and> last (url_path api u) = CHR ''/''
           then url_set_path api (butlast (url_path api u)) u else u))"

text \<open>A resolver is called on both actions; \<open>None\<close> is an exception.\<close>

definition same_target :: "(invocation \<Rightarrow> int option option) \<Rightarrow> invocation \<Rightarrow> invocation \<Rightarrow> bool option" where
  "same_target resolve a b =
     (case resolve a of
        None \<Rightarrow> None
      | Some ra \<Rightarrow> (case resolve b of None \<Rightarrow> None | Some rb \<Rightarrow> Some (ra \<noteq> None \<and> rb \<noteq> None \<and> ra = rb)))"

definition near :: "jsvalue \<Rightarrow> jsvalue \<Rightarrow> bool" where
  "near a b \<longleftrightarrow> is_object a \<and> is_object b \<and>
     (case (as_number (member a ''x''), as_number (member a ''y''), as_number (member b ''x''), as_number (member b ''y'')) of
        (Some ax, Some ay, Some bx, Some yb) \<Rightarrow> (ax - bx)\<^sup>2 + (ay - yb)\<^sup>2 \<le> coordinate_tolerance\<^sup>2
      | _ \<Rightarrow> False)"

definition click_equivalent :: "resolver \<Rightarrow> invocation \<Rightarrow> invocation \<Rightarrow> bool option" where
  "click_equivalent ctx a b =
     (case (case ctx of None \<Rightarrow> Some False | Some resolve \<Rightarrow> same_target resolve a b) of
        None \<Rightarrow> None
      | Some True \<Rightarrow> Some True
      | Some False \<Rightarrow> Some (near (iv_args a) (iv_args b)))"

text \<open>Whether two optional texts agree: neither is there, or both are and are equal.\<close>

definition same_explicit_target :: "jsvalue \<Rightarrow> jsvalue \<Rightarrow> bool" where
  "same_explicit_target a b =
     (let asel = as_string (member a ''selector''); bsel = as_string (member b ''selector'');
          aref = as_string (member a ''ref''); bref = as_string (member b ''ref'')
      in if (asel \<noteq> None \<or> bsel \<noteq> None) \<and> (asel = None \<or> bsel = None \<or> asel \<noteq> bsel) then False
         else if (aref \<noteq> None \<or> bref \<noteq> None) \<and> (aref = None \<or> bref = None \<or> aref \<noteq> bref) then False
         else asel \<noteq> None \<or> bsel \<noteq> None \<or> aref \<noteq> None \<or> bref \<noteq> None)"

definition type_equivalent :: "resolver \<Rightarrow> invocation \<Rightarrow> invocation \<Rightarrow> bool option" where
  "type_equivalent ctx a b =
     (if \<not> is_object (iv_args a) \<or> \<not> is_object (iv_args b) then Some False
      else case (case ctx of None \<Rightarrow> Some (same_explicit_target (iv_args a) (iv_args b))
                 | Some resolve \<Rightarrow> same_target resolve a b) of
        None \<Rightarrow> None
      | Some False \<Rightarrow> Some False
      | Some True \<Rightarrow>
          (case (as_string (member (iv_args a) ''text''), as_string (member (iv_args b) ''text'')) of
             (Some ta, Some tb) \<Rightarrow> Some (trim_ws ta = trim_ws tb)
           | _ \<Rightarrow> Some False))"

definition navigate_equivalent :: "'u url_api \<Rightarrow> invocation \<Rightarrow> invocation \<Rightarrow> bool" where
  "navigate_equivalent api a b \<longleftrightarrow>
     is_object (iv_args a) \<and> is_object (iv_args b) \<and>
     (case (truthy_str (as_string (member (iv_args a) ''url'')), truthy_str (as_string (member (iv_args b) ''url''))) of
        (Some ua, Some ub) \<Rightarrow>
          strip_path_trailing_slash api (normalize_url api ua) = strip_path_trailing_slash api (normalize_url api ub)
      | _ \<Rightarrow> False)"

definition scroll_equivalent :: "invocation \<Rightarrow> invocation \<Rightarrow> bool" where
  "scroll_equivalent a b \<longleftrightarrow>
     is_object (iv_args a) \<and> is_object (iv_args b) \<and>
     (let num = \<lambda>v f. default_to 0 (as_number (member (iv_args v) f)) in
      as_string (member (iv_args a) ''frame_id'') = as_string (member (iv_args b) ''frame_id'') \<and>
      \<bar>num a ''dx'' - num b ''dx''\<bar> \<le> scroll_tolerance \<and> \<bar>num a ''dy'' - num b ''dy''\<bar> \<le> scroll_tolerance)"

definition actions_equivalent :: "'u url_api \<Rightarrow> resolver \<Rightarrow> invocation \<Rightarrow> invocation \<Rightarrow> bool option" where
  "actions_equivalent api ctx a b =
     (if iv_kind a \<noteq> iv_kind b then Some False
      else if iv_kind a = ''click'' then click_equivalent ctx a b
      else if iv_kind a = ''type'' \<or> iv_kind a = ''fill_input'' then type_equivalent ctx a b
      else if iv_kind a = ''navigate'' then Some (navigate_equivalent api a b)
      else if iv_kind a = ''scroll'' then Some (scroll_equivalent a b)
      else Some (deep_equal (iv_args a) (iv_args b)))"

definition safe_equivalent :: "'u url_api \<Rightarrow> resolver \<Rightarrow> invocation \<Rightarrow> invocation \<Rightarrow> bool" where
  "safe_equivalent api ctx a b \<longleftrightarrow> actions_equivalent api ctx a b = Some True"

section \<open>The JSON object in a reply\<close>

definition fence :: string where "fence = ''```''"

text \<open>The shortest non-empty capture that is followed by white space and a fence.\<close>

definition capture :: "string \<Rightarrow> string option" where
  "capture s =
     map_option (\<lambda>n. take n s) (List.find (\<lambda>n. starts_with fence (dropWhile is_space (drop n s))) [1..<Suc (length s)])"

fun first_some :: "('a \<Rightarrow> 'b option) \<Rightarrow> 'a list \<Rightarrow> 'b option" where
  "first_some f [] = None"
| "first_some f (x # xs) = (case f x of None \<Rightarrow> first_some f xs | Some y \<Rightarrow> Some y)"

text \<open>The ways to read \<open>(?:json)?\s*\<close>, in the order of the backtracking: the word and all the space first.\<close>

definition fence_bodies :: "string \<Rightarrow> string list" where
  "fence_bodies s =
     (let spaces = \<lambda>t. map (\<lambda>k. drop k t) (rev [0..<Suc (length (takeWhile is_space t))])
      in (if to_lower (take 4 s) = ''json'' then spaces (drop 4 s) else []) @ spaces s)"

fun fenced :: "string \<Rightarrow> string option" where
  "fenced [] = None"
| "fenced (c # cs) =
     (case (if starts_with fence (c # cs) then first_some capture (fence_bodies (drop 3 (c # cs))) else None) of
        Some body \<Rightarrow> Some body
      | None \<Rightarrow> fenced cs)"

text \<open>The scan: nesting depth, the segment since its opening brace, whether it is in a string and after a backslash.\<close>

fun scan_json :: "(string \<Rightarrow> jsvalue option) \<Rightarrow> nat \<Rightarrow> string \<Rightarrow> bool \<Rightarrow> bool \<Rightarrow> string \<Rightarrow> jsvalue option" where
  "scan_json parse depth seg quoted escaped [] = None"
| "scan_json parse depth seg quoted escaped (c # cs) =
     (let seg' = (if depth = 0 then [] else seg @ [c]) in
      if escaped then scan_json parse depth seg' quoted False cs
      else if c = CHR 0x5C \<and> quoted then scan_json parse depth seg' quoted True cs
      else let quoted' = (if c = CHR 0x22 then \<not> quoted else quoted) in
      if quoted' then scan_json parse depth seg' quoted' False cs
      else if c = CHR ''{'' then scan_json parse (Suc depth) (if depth = 0 then [c] else seg') quoted' False cs
      else if c = CHR ''}'' then
        (if depth = 0 then scan_json parse depth seg' quoted' False cs
         else if depth = 1 then
           (case parse seg' of Some v \<Rightarrow> Some v | None \<Rightarrow> scan_json parse 0 [] quoted' False cs)
         else scan_json parse (depth - 1) seg' quoted' False cs)
      else scan_json parse depth seg' quoted' False cs)"

definition extract_first_json_object :: "(string \<Rightarrow> jsvalue option) \<Rightarrow> string \<Rightarrow> jsvalue option" where
  "extract_first_json_object parse reply =
     (if reply = [] then None
      else let trimmed = trim_ws reply in scan_json parse 0 [] False False (default_to trimmed (fenced trimmed)))"

section \<open>The token budget\<close>

datatype amount = Amount rat | Unbounded bool | NotANumber

definition amount_of :: "jsvalue \<Rightarrow> amount option" where
  "amount_of v =
     (case v of JNum q \<Rightarrow> Some (Amount q) | JNaN \<Rightarrow> Some NotANumber | JInfinity b \<Rightarrow> Some (Unbounded b) | _ \<Rightarrow> None)"

fun plus_amount :: "amount \<Rightarrow> amount \<Rightarrow> amount" where
  "plus_amount (Amount p) (Amount q) = Amount (p + q)"
| "plus_amount NotANumber y = NotANumber"
| "plus_amount x NotANumber = NotANumber"
| "plus_amount (Unbounded b) (Unbounded b') = (if b = b' then Unbounded b else NotANumber)"
| "plus_amount (Unbounded b) y = Unbounded b"
| "plus_amount x (Unbounded b) = Unbounded b"

text \<open>\<open>Math.max(0, Math.floor(x))\<close>\<close>

fun whole_tokens :: "amount \<Rightarrow> amount" where
  "whole_tokens (Amount q) = Amount (max 0 (of_int \<lfloor>q\<rfloor>))"
| "whole_tokens (Unbounded b) = (if b then Unbounded True else Amount 0)"
| "whole_tokens NotANumber = NotANumber"

fun exceeds :: "amount \<Rightarrow> rat \<Rightarrow> bool" where
  "exceeds (Amount q) cap = (cap < q)"
| "exceeds (Unbounded b) cap = b"
| "exceeds NotANumber cap = False"

record voting_budget =
  vb_used :: amount
  vb_disabled :: bool
  vb_cap :: rat

definition new_budget :: "rat \<Rightarrow> voting_budget" where
  "new_budget cap = \<lparr>vb_used = Amount 0, vb_disabled = False, vb_cap = cap\<rparr>"

definition charge :: "amount \<Rightarrow> voting_budget \<Rightarrow> bool \<times> voting_budget" where
  "charge tokens b =
     (if vb_disabled b then (False, b)
      else let used = plus_amount (vb_used b) (whole_tokens tokens); b' = b\<lparr>vb_used := used\<rparr>
           in if exceeds used (vb_cap b) then (False, b'\<lparr>vb_disabled := True\<rparr>) else (True, b'))"

definition remaining_tokens :: "voting_budget \<Rightarrow> amount" where
  "remaining_tokens b =
     (case vb_used b of
        Amount q \<Rightarrow> Amount (max 0 (vb_cap b - q))
      | Unbounded positive \<Rightarrow> if positive then Amount 0 else Unbounded True
      | NotANumber \<Rightarrow> NotANumber)"

section \<open>A vote\<close>

record voter_reply =
  vr_ok :: bool
  vr_action :: jsvalue
  vr_tokens :: jsvalue
  vr_error :: jsvalue

datatype fallback = Strict | Graceful

record voting_config =
  vc_voters :: "string list"
  vc_timeout :: int
  vc_fallback :: fallback
  vc_resolver :: resolver

text \<open>How a promise settles: rejected with a message, or with a value of any type.\<close>

datatype settled = Rejected string | Fulfilled jsvalue

definition reply_error :: "string \<Rightarrow> string \<Rightarrow> jsvalue" where
  "reply_error kind raw = JObj [(''kind'', JStr kind), (''raw'', JStr raw)]"

definition failed_reply :: "string \<Rightarrow> string \<Rightarrow> jsvalue" where
  "failed_reply kind raw = JObj [(''ok'', JBool False), (''error'', reply_error kind raw)]"

text \<open>The race of a voter, which settles after a time or never, against the guard of the orchestrator.\<close>

definition safe_vote :: "int \<Rightarrow> (int \<times> settled) option \<Rightarrow> settled" where
  "safe_vote timeout voter =
     (case voter of
        Some (t, s) \<Rightarrow> if t \<le> timeout + 100 then s
          else Fulfilled (failed_reply ''timeout'' (''voter exceeded orchestrator timeout ('' @ int_str timeout @ ''ms)''))
      | None \<Rightarrow> Fulfilled (failed_reply ''timeout'' (''voter exceeded orchestrator timeout ('' @ int_str timeout @ ''ms)'')))"

definition reply_of :: "jsvalue \<Rightarrow> voter_reply" where
  "reply_of v = \<lparr>vr_ok = (member v ''ok'' = JBool True), vr_action = member v ''action'', vr_tokens = member v ''tokens'',
     vr_error = member v ''error''\<rparr>"

definition is_voter_reply :: "jsvalue \<Rightarrow> bool" where
  "is_voter_reply v \<longleftrightarrow> is_object v \<and> (case member v ''ok'' of JBool _ \<Rightarrow> True | _ \<Rightarrow> False)"

definition normalize_voter_reply :: "jsvalue \<Rightarrow> voter_reply" where
  "normalize_voter_reply v =
     (if is_voter_reply v then reply_of v
      else reply_of (failed_reply ''malformed'' ''voter returned a non-object reply''))"

definition reply_of_settled :: "settled \<Rightarrow> voter_reply" where
  "reply_of_settled s =
     (case s of Fulfilled v \<Rightarrow> normalize_voter_reply v | Rejected raw \<Rightarrow> reply_of (failed_reply ''unknown'' raw))"

definition is_valid_action :: "jsvalue \<Rightarrow> bool" where
  "is_valid_action v \<longleftrightarrow> is_object v \<and>
     (case member v ''kind'' of JStr k \<Rightarrow> k \<noteq> [] | _ \<Rightarrow> False) \<and>
     (member v ''args'' = JUndefined \<or> is_object (member v ''args''))"

definition invocation_of :: "jsvalue \<Rightarrow> invocation" where
  "invocation_of v = \<lparr>iv_kind = default_to [] (as_string (member v ''kind'')), iv_args = member v ''args''\<rparr>"

definition reply_succeeds :: "voter_reply \<Rightarrow> bool" where
  "reply_succeeds r \<longleftrightarrow> vr_ok r \<and> is_valid_action (vr_action r)"

definition classify :: "voter_reply \<Rightarrow> voter_reply" where
  "classify r =
     (if reply_succeeds r then r
      else if vr_ok r then
        r\<lparr>vr_ok := False,
          vr_error := (case vr_error r of
             JUndefined \<Rightarrow> reply_error ''malformed'' ''voter returned ok without a structurally valid action''
           | JNull \<Rightarrow> reply_error ''malformed'' ''voter returned ok without a structurally valid action''
           | e \<Rightarrow> e)\<rparr>
      else r)"

datatype halt_reason = Disagreement | AllFailed | KillSwitch | VotingDisabled

datatype verdict =
    Proceed jsvalue "string list"
  | Halt halt_reason "(string \<times> voter_reply) list option"

definition tokens_of :: "voter_reply list \<Rightarrow> amount" where
  "tokens_of replies =
     foldl (\<lambda>sofar r. case amount_of (vr_tokens r) of None \<Rightarrow> sofar | Some x \<Rightarrow> plus_amount sofar x) (Amount 0) replies"

definition adjudicate :: "'u url_api \<Rightarrow> voting_config \<Rightarrow> voter_reply list \<Rightarrow> verdict" where
  "adjudicate api cfg replies =
     (let named = zip (vc_voters cfg) replies;
          successes = filter (\<lambda>(n, r). reply_succeeds r) named;
          failures = map (\<lambda>(n, r). (n, classify r)) (filter (\<lambda>(n, r). \<not> reply_succeeds r) named)
      in case successes of
           [] \<Rightarrow> Halt AllFailed (Some failures)
         | first # _ \<Rightarrow>
             if vc_fallback cfg = Strict \<and> failures \<noteq> [] then Halt Disagreement (Some (successes @ failures))
             else (let head = vr_action (snd first) in
               if list_all (\<lambda>(n, r). safe_equivalent api (vc_resolver cfg) (invocation_of head) (invocation_of (vr_action r))) successes
               then Proceed head (map fst successes)
               else Halt Disagreement (Some successes)))"

text \<open>The part of \<open>runVote\<close> before the voters are awaited, and the part after, by when other votes may have charged the
  same budget.\<close>

definition vote_begin :: "bool \<Rightarrow> voting_budget \<Rightarrow> verdict option" where
  "vote_begin enabled b =
     (if \<not> enabled then Some (Halt VotingDisabled None)
      else if vb_disabled b then Some (Halt KillSwitch None) else None)"

definition vote_finish ::
    "'u url_api \<Rightarrow> voting_config \<Rightarrow> (int \<times> settled) option list \<Rightarrow> voting_budget \<Rightarrow> verdict \<times> voting_budget" where
  "vote_finish api cfg voters b =
     (let replies = map (\<lambda>v. reply_of_settled (safe_vote (vc_timeout cfg) v)) voters
      in (adjudicate api cfg replies, snd (charge (tokens_of replies) b)))"

section \<open>The equivalence is symmetric\<close>

text \<open>Objects as the language has them: no field twice.\<close>

fun distinct_fields :: "jsvalue \<Rightarrow> bool" where
  "distinct_fields (JArr vs) \<longleftrightarrow> list_all distinct_fields vs"
| "distinct_fields (JObj obj) \<longleftrightarrow> distinct (map fst obj) \<and> list_all (\<lambda>(k, v). distinct_fields v) obj"
| "distinct_fields v \<longleftrightarrow> True"

lemma own_fields_distinct: "distinct_fields v \<Longrightarrow> distinct (map fst (own_fields v))"
proof (cases v)
  case (JArr vs)
  have "distinct (map dec [0..<length vs])" by (simp add: distinct_map inj_on_def)
  then show ?thesis by (simp add: JArr own_fields_def)
qed (simp_all add: own_fields_def)

lemma own_fields_nested: "distinct_fields v \<Longrightarrow> (k, w) \<in> set (own_fields v) \<Longrightarrow> distinct_fields w"
  by (cases v) (auto simp: own_fields_def list_all_iff dest: set_zip_rightD)

text \<open>Comparing field by field, in either direction: with as many fields the keys are the same.\<close>

lemma same_fields_sym:
  assumes "length xs = length ys" "distinct (map fst xs)" "distinct (map fst ys)"
    and all: "\<forall>(k, v)\<in>set xs. case map_of ys k of None \<Rightarrow> False | Some w \<Rightarrow> R v w"
    and sym: "\<And>k v w. (k, v) \<in> set xs \<Longrightarrow> (k, w) \<in> set ys \<Longrightarrow> R v w \<Longrightarrow> R w v"
  shows "\<forall>(k, w)\<in>set ys. case map_of xs k of None \<Rightarrow> False | Some v \<Rightarrow> R w v"
proof -
  have "fst ` set xs \<subseteq> fst ` set ys" using all by (force split: option.splits dest: map_of_SomeD)
  moreover have "card (fst ` set xs) = card (fst ` set ys)"
    using assms(1-3) by (metis distinct_card length_map list.set_map)
  ultimately have keys: "fst ` set xs = fst ` set ys" by (intro card_subset_eq) simp_all
  have "\<exists>v. map_of xs k = Some v \<and> R w v" if kw: "(k, w) \<in> set ys" for k w
  proof -
    obtain v where v: "(k, v) \<in> set xs" using keys kw by (metis fst_conv imageE imageI prod.collapse)
    have "map_of ys k = Some w" "map_of xs k = Some v" using assms(2,3) kw v by simp_all
    then show ?thesis using all v kw sym by fastforce
  qed
  then show ?thesis by force
qed

lemma deep_equal_arrays:
  "deep_equal (JArr vs) (JArr ws) \<longleftrightarrow> length vs = length ws \<and> (\<forall>(v, w)\<in>set (zip vs ws). deep_equal v w)"
  by (subst deep_equal.simps) (simp add: strict_equal_def is_object_def)

lemma deep_equal_sym:
  "distinct_fields a \<Longrightarrow> distinct_fields b \<Longrightarrow> deep_equal a b \<Longrightarrow> deep_equal b a"
proof (induction a arbitrary: b rule: measure_induct_rule [of size])
  case (less a)
  show ?case
  proof (cases "strict_equal a b")
    case True
    then have "strict_equal b a" by (auto simp: strict_equal_def)
    then show ?thesis by (subst deep_equal.simps) simp
  next
    case ne: False
    show ?thesis
    proof (cases "\<exists>vs ws. a = JArr vs \<and> b = JArr ws")
      case True
      then obtain vs ws where [simp]: "a = JArr vs" "b = JArr ws" by blast
      have l: "length vs = length ws" and eq: "\<forall>(v, w)\<in>set (zip vs ws). deep_equal v w"
        using less.prems(3) by (auto simp: deep_equal_arrays)
      have "deep_equal w v" if "(w, v) \<in> set (zip ws vs)" for v w
      proof -
        have vw: "(v, w) \<in> set (zip vs ws)" using that l by (auto simp: in_set_zip)
        have "distinct_fields v" "distinct_fields w"
          using less.prems(1,2) vw by (auto simp: list_all_iff dest: set_zip_leftD set_zip_rightD)
        then show ?thesis using less.IH [of v w] eq vw zip_smaller [OF vw] by auto
      qed
      then show ?thesis using l by (auto simp: deep_equal_arrays)
    next
      case other: False
      have cases: "deep_equal x y = (strict_equal x y \<or> is_object x \<and> is_object y \<and> length (own_fields x) = length (own_fields y) \<and>
          (\<forall>(k, v)\<in>set (own_fields x). case map_of (own_fields y) k of None \<Rightarrow> False | Some w \<Rightarrow> deep_equal v w))"
        if "\<not> (\<exists>vs ws. x = JArr vs \<and> y = JArr ws)" for x y
        using that by (subst deep_equal.simps) (cases x; cases y; simp)
      have "\<forall>(k, w)\<in>set (own_fields b). case map_of (own_fields a) k of None \<Rightarrow> False | Some v \<Rightarrow> deep_equal w v"
      proof (rule same_fields_sym)
        show "deep_equal w v" if "(k, v) \<in> set (own_fields a)" "(k, w) \<in> set (own_fields b)" "deep_equal v w" for k v w
          using less.IH [of v w] that own_field_smaller own_fields_nested less.prems by blast
      qed (use less.prems cases [OF other] ne own_fields_distinct in auto)
      then show ?thesis using cases [OF other] cases [of b a] other ne less.prems(3) by auto
    qed
  qed
qed

lemma same_target_sym: "same_target resolve a b = same_target resolve b a"
  by (auto simp: same_target_def split: option.splits)

lemma near_sym: "near a b = near b a"
proof -
  have "(p - q)\<^sup>2 = (q - p)\<^sup>2" for p q :: rat by (simp add: power2_commute)
  then show ?thesis by (auto simp: near_def split: option.splits)
qed

text \<open>Whether two actions are equivalent does not depend on which voter proposed which: for arguments
  without repeated fields the comparison is symmetric, exceptions of the resolver included.\<close>

theorem actions_equivalent_symmetric:
  assumes "distinct_fields (iv_args a)" "distinct_fields (iv_args b)"
  shows "actions_equivalent api ctx a b = actions_equivalent api ctx b a"
proof (cases "iv_kind a = iv_kind b")
  case True
  have "click_equivalent ctx a b = click_equivalent ctx b a"
    unfolding click_equivalent_def near_sym [of "iv_args a" "iv_args b"] same_target_sym [of _ a b] ..
  moreover have "same_explicit_target x y = same_explicit_target y x" for x y by (auto simp: same_explicit_target_def Let_def)
  then have "type_equivalent ctx a b = type_equivalent ctx b a"
    by (auto simp: type_equivalent_def same_target_sym [of _ a b] split: option.splits bool.splits)
  moreover have "navigate_equivalent api a b = navigate_equivalent api b a"
    by (auto simp: navigate_equivalent_def split: option.splits)
  moreover have "scroll_equivalent a b = scroll_equivalent b a"
    by (auto simp: scroll_equivalent_def Let_def abs_minus_commute)
  moreover have "deep_equal (iv_args a) (iv_args b) = deep_equal (iv_args b) (iv_args a)"
    using assms deep_equal_sym by blast
  ultimately show ?thesis using True by (simp add: actions_equivalent_def)
qed (simp add: actions_equivalent_def)


definition no_urls :: "string url_api" where
  "no_urls = \<lparr>url_parse = \<lambda>_. None, url_string = id, url_params = \<lambda>_. [], url_drop_param = \<lambda>_ u. u, url_path = id,
     url_set_path = \<lambda>_ u. u\<rparr>"

definition drag :: "(string \<times> jsvalue) list \<Rightarrow> invocation" where
  "drag obj = \<lparr>iv_kind = ''drag'', iv_args = JObj obj\<rparr>"

theorem actions_equivalent_symmetric_witness:
  "actions_equivalent no_urls None (drag [(''to'', JNum 1), (''by'', JArr [JStr ''x''])]) (drag [(''by'', JArr [JStr ''x'']), (''to'', JNum 1)])
   = actions_equivalent no_urls None (drag [(''by'', JArr [JStr ''x'']), (''to'', JNum 1)]) (drag [(''to'', JNum 1), (''by'', JArr [JStr ''x''])])"
  by (rule actions_equivalent_symmetric) (simp_all add: drag_def)

text \<open>It is not transitive, and a vote compares every reply with the first one only: the order of the voters decides.\<close>

definition click_at :: "rat \<Rightarrow> jsvalue" where
  "click_at x = JObj [(''kind'', JStr ''click''), (''args'', JObj [(''x'', JNum x), (''y'', JNum 0)])]"

definition click_reply :: "rat \<Rightarrow> voter_reply" where
  "click_reply x = \<lparr>vr_ok = True, vr_action = click_at x, vr_tokens = JUndefined, vr_error = JUndefined\<rparr>"

definition three_voters :: voting_config where
  "three_voters = \<lparr>vc_voters = [''a'', ''b'', ''c''], vc_timeout = 5000, vc_fallback = Strict, vc_resolver = None\<rparr>"

lemma order_of_voters_decides:
  "adjudicate api three_voters [click_reply 5, click_reply 0, click_reply 10] = Proceed (click_at 5) [''a'', ''b'', ''c'']"
  "adjudicate api three_voters [click_reply 0, click_reply 5, click_reply 10]
     = Halt Disagreement (Some [(''a'', click_reply 0), (''b'', click_reply 5), (''c'', click_reply 10)])"
  by (simp_all add: adjudicate_def three_voters_def click_reply_def reply_succeeds_def is_valid_action_def is_object_def
      click_at_def member_def safe_equivalent_def actions_equivalent_def invocation_of_def click_equivalent_def near_def
      coordinate_tolerance_def Let_def)

text \<open>An array equals the object with the same indices.\<close>

lemma array_equals_indexed_object: "deep_equal (JArr [JNull]) (JObj [(''0'', JNull)])"
proof -
  have "dec 0 = ''0''" by code_simp
  then show ?thesis
    by (subst deep_equal.simps) (simp add: is_object_def own_fields_def deep_equal.simps [of JNull] strict_equal_def)
qed

section \<open>What a verdict to proceed means\<close>

lemma amount_floor: "whole_tokens x = Amount q \<Longrightarrow> 0 \<le> q"
  by (cases x) (auto split: if_splits)

lemma charge_stays_disabled: "vb_disabled b \<Longrightarrow> vb_disabled (snd (charge tokens b))"
  by (simp add: charge_def)

text \<open>A token count that is not a number silences the kill switch: no later charge can pass the cap.\<close>

lemma nan_silences_kill_switch:
  assumes "\<not> vb_disabled b"
  shows "\<not> vb_disabled (foldl (\<lambda>b t. snd (charge t b)) b (NotANumber # ts))"
proof -
  let ?ok = "\<lambda>b. vb_used b = NotANumber \<and> \<not> vb_disabled b"
  have "?ok (snd (charge NotANumber b))" using assms by (cases "vb_used b") (simp_all add: charge_def Let_def)
  moreover have "?ok b \<Longrightarrow> ?ok (snd (charge t b))" for b t by (simp add: charge_def Let_def)
  ultimately have "?ok (foldl (\<lambda>b t. snd (charge t b)) (snd (charge NotANumber b)) ts)" by (intro foldl_inv [where P = ?ok])
  then show ?thesis by simp
qed

text \<open>The reply of a voter that settled in time with a well-formed reply, and of any other.\<close>

definition valid_vote :: "int \<Rightarrow> (int \<times> settled) option \<Rightarrow> jsvalue option" where
  "valid_vote timeout voter =
     (case voter of
        Some (t, Fulfilled v) \<Rightarrow>
          if t \<le> timeout + 100 \<and> member v ''ok'' = JBool True \<and> is_valid_action (member v ''action'')
          then Some (member v ''action'') else None
      | _ \<Rightarrow> None)"

lemma member_object: "member v f \<noteq> JUndefined \<Longrightarrow> is_object v"
  by (cases v) (simp_all add: member_def is_object_def)

lemma valid_vote_reply:
  "reply_succeeds (reply_of_settled (safe_vote timeout v)) \<longleftrightarrow> valid_vote timeout v \<noteq> None"
  "valid_vote timeout v = Some a \<Longrightarrow> vr_action (reply_of_settled (safe_vote timeout v)) = a"
proof -
  have ok: "member (failed_reply kind raw) ''ok'' = JBool False" for kind raw by (simp add: failed_reply_def member_def)
  then have no: "\<not> reply_succeeds (reply_of (failed_reply kind raw))" for kind raw by (simp add: reply_succeeds_def reply_of_def)
  have "reply_succeeds (normalize_voter_reply w) \<longleftrightarrow> member w ''ok'' = JBool True \<and> is_valid_action (member w ''action'')" for w
    using member_object [of w "''ok''"] no
    by (cases "member w ''ok''") (auto simp: normalize_voter_reply_def is_voter_reply_def reply_succeeds_def reply_of_def ok)
  moreover have "\<not> reply_succeeds (normalize_voter_reply (failed_reply kind raw))" for kind raw
    using calculation by (simp add: ok)
  ultimately show "reply_succeeds (reply_of_settled (safe_vote timeout v)) \<longleftrightarrow> valid_vote timeout v \<noteq> None"
    by (auto simp: reply_of_settled_def safe_vote_def valid_vote_def no split: option.splits settled.splits)
  have "member w ''ok'' = JBool True \<Longrightarrow> normalize_voter_reply w = reply_of w" for w
    using member_object [of w "''ok''"] by (simp add: normalize_voter_reply_def is_voter_reply_def)
  then show "valid_vote timeout v = Some a \<Longrightarrow> vr_action (reply_of_settled (safe_vote timeout v)) = a"
    by (auto simp: reply_of_settled_def safe_vote_def valid_vote_def reply_of_def split: option.splits settled.splits if_splits)
qed

text \<open>C22 (safety). A vote lets an action proceed only when some voter proposed it in a valid reply, and it is the first voter
  with one; every other voter with a valid reply proposed an equivalent action, and under the strict policy every voter
  replied validly. A voter that rejected, timed out or returned anything but a reply with a well-formed action
  has no valid reply.\<close>

theorem proceed_needs_agreement:
  assumes "fst (vote_finish api cfg voters b) = Proceed action names" "length voters = length (vc_voters cfg)"
  shows "\<exists>i < length voters. valid_vote (vc_timeout cfg) (voters ! i) = Some action \<and> hd names = vc_voters cfg ! i \<and>
      (\<forall>j < length voters. case valid_vote (vc_timeout cfg) (voters ! j) of
         Some other \<Rightarrow> i \<le> j \<and> vc_voters cfg ! j \<in> set names \<and>
           actions_equivalent api (vc_resolver cfg) (invocation_of action) (invocation_of other) = Some True
       | None \<Rightarrow> vc_fallback cfg = Graceful)"
proof -
  define rs where "rs = map (\<lambda>v. reply_of_settled (safe_vote (vc_timeout cfg) v)) voters"
  define P :: "string \<times> voter_reply \<Rightarrow> bool" where "P = (\<lambda>(n, r). reply_succeeds r)"
  let ?named = "zip (vc_voters cfg) rs"
  have len: "length rs = length (vc_voters cfg)" by (simp add: rs_def assms(2))
  have "adjudicate api cfg rs = Proceed action names" using assms(1) by (simp add: vote_finish_def rs_def Let_def)
  then obtain first more where s: "filter P ?named = first # more"
    and action: "action = vr_action (snd first)" and names: "names = map fst (first # more)"
    and agree: "\<forall>(n, r)\<in>set (first # more). safe_equivalent api (vc_resolver cfg) (invocation_of action) (invocation_of (vr_action r))"
    and strict': "vc_fallback cfg = Strict \<Longrightarrow> filter (\<lambda>(n, r). \<not> reply_succeeds r) ?named = []"
    by (auto simp: adjudicate_def P_def Let_def list_all_iff split: list.splits if_splits)
  have strict: "vc_fallback cfg = Strict \<Longrightarrow> filter (\<lambda>p. \<not> P p) ?named = []"
    using strict' by (auto simp: P_def filter_empty_conv)
  obtain us vs where split: "?named = us @ first # vs" "\<forall>u\<in>set us. \<not> P u" and "P first"
    using s unfolding filter_eq_Cons_iff by blast
  have at: "j < length voters \<Longrightarrow> ?named ! j = (vc_voters cfg ! j, reply_of_settled (safe_vote (vc_timeout cfg) (voters ! j)))" for j
    using len by (simp add: rs_def assms(2))
  have P: "j < length voters \<Longrightarrow> P (?named ! j) \<longleftrightarrow> valid_vote (vc_timeout cfg) (voters ! j) \<noteq> None" for j
    by (simp add: at P_def valid_vote_reply(1))
  let ?i = "length us"
  have "length ?named = length voters" using len by (simp add: assms(2))
  then have named: "j < length voters \<Longrightarrow> ?named ! j \<in> set ?named" for j by (metis nth_mem)
  note \<open>length ?named = length voters\<close>
  then have i: "?i < length voters" "?named ! ?i = first" using split(1) by simp_all
  have ii: "valid_vote (vc_timeout cfg) (voters ! ?i) = Some action"
    using P [OF i(1)] \<open>P first\<close> i action at [OF i(1)] valid_vote_reply(2) by fastforce
  have "case valid_vote (vc_timeout cfg) (voters ! j) of
         Some other \<Rightarrow> ?i \<le> j \<and> vc_voters cfg ! j \<in> set names \<and>
           actions_equivalent api (vc_resolver cfg) (invocation_of action) (invocation_of other) = Some True
       | None \<Rightarrow> vc_fallback cfg = Graceful" if j: "j < length voters" for j
  proof (cases "valid_vote (vc_timeout cfg) (voters ! j)")
    case None
    then have "?named ! j \<in> set (filter (\<lambda>p. \<not> P p) ?named)" using P [OF j] None named [OF j] by (simp only: set_filter) blast
    then show ?thesis using strict None by (cases "vc_fallback cfg") auto
  next
    case (Some other)
    have "?named ! j \<in> set (filter P ?named)" using P [OF j] Some named [OF j] by (simp only: set_filter) blast
    then have m: "?named ! j \<in> set (first # more)" by (simp only: s)
    have "?i \<le> j"
    proof (rule ccontr)
      assume "\<not> ?i \<le> j"
      then have "?named ! j \<in> set us" using split(1) by (simp add: nth_append)
      then show False using split(2) P [OF j] Some by blast
    qed
    moreover have "vc_voters cfg ! j \<in> set names" using m at [OF j] by (force simp: names)
    moreover have "vr_action (snd (?named ! j)) = other" using at [OF j] valid_vote_reply(2) [OF Some] by simp
    ultimately show ?thesis using agree m Some by (auto simp: safe_equivalent_def case_prod_beta)
  qed
  moreover have "hd names = vc_voters cfg ! ?i" using i at [OF i(1)] by (auto simp: names)
  ultimately show ?thesis using i ii by blast
qed


theorem proceed_needs_agreement_witness:
  "\<exists>i < 3. valid_vote 5000 ([Some (10, Fulfilled (JObj [(''ok'', JBool True), (''action'', click_at 1)])), None,
       Some (20, Fulfilled (JObj [(''ok'', JBool True), (''action'', click_at 4)]))] ! i) = Some (click_at 1)"
proof -
  define cfg where "cfg = three_voters\<lparr>vc_fallback := Graceful\<rparr>"
  let ?voters = "[Some (10, Fulfilled (JObj [(''ok'', JBool True), (''action'', click_at 1)])), None,
       Some (20, Fulfilled (JObj [(''ok'', JBool True), (''action'', click_at 4)]))]"
  have "fst (vote_finish no_urls cfg ?voters (new_budget 100)) = Proceed (click_at 1) [''a'', ''c'']"
    by (simp add: vote_finish_def adjudicate_def cfg_def three_voters_def safe_vote_def reply_of_settled_def
        normalize_voter_reply_def is_voter_reply_def reply_of_def failed_reply_def reply_succeeds_def is_valid_action_def
        is_object_def click_at_def member_def safe_equivalent_def actions_equivalent_def invocation_of_def
        click_equivalent_def near_def coordinate_tolerance_def Let_def)
  from proceed_needs_agreement [OF this] obtain i where "i < length ?voters" "valid_vote (vc_timeout cfg) (?voters ! i) = Some (click_at 1)"
    by (auto simp: cfg_def three_voters_def)
  then show ?thesis by (intro exI [of _ i]) (simp add: cfg_def three_voters_def)
qed

section \<open>Which object is found in a reply\<close>

text \<open>A text that starts inside \<open>depth\<close> braces closes when the last of them is closed by its last character.\<close>

fun closes :: "nat \<Rightarrow> bool \<Rightarrow> bool \<Rightarrow> string \<Rightarrow> bool" where
  "closes depth quoted escaped [] \<longleftrightarrow> False"
| "closes depth quoted escaped (c # cs) \<longleftrightarrow>
     (if escaped then closes depth quoted False cs
      else if c = CHR 0x5C \<and> quoted then closes depth quoted True cs
      else let quoted' = (if c = CHR 0x22 then \<not> quoted else quoted) in
      if quoted' then closes depth quoted' False cs
      else if c = CHR ''{'' then closes (Suc depth) quoted' False cs
      else if c = CHR ''}'' then (if depth = 1 then cs = [] else closes (depth - 1) quoted' False cs)
      else closes depth quoted' False cs)"

definition braced :: "string \<Rightarrow> bool" where
  "braced s \<longleftrightarrow> (case s of [] \<Rightarrow> False | c # cs \<Rightarrow> c = CHR ''{'' \<and> closes 1 False False cs)"

text \<open>Text before the object: outside quotes and braces, except for braced segments that are not JSON.\<close>

inductive prose :: "(string \<Rightarrow> jsvalue option) \<Rightarrow> string \<Rightarrow> bool" for parse where
  prose_Nil: "prose parse []"
| prose_char: "c \<noteq> CHR ''{'' \<Longrightarrow> c \<noteq> CHR 0x22 \<Longrightarrow> prose parse s \<Longrightarrow> prose parse (c # s)"
| prose_braced: "braced b \<Longrightarrow> parse b = None \<Longrightarrow> prose parse s \<Longrightarrow> prose parse (b @ s)"

lemma scan_closes:
  "closes depth quoted escaped cs \<Longrightarrow> 0 < depth \<Longrightarrow>
    scan_json parse depth seg quoted escaped (cs @ rest) =
      (case parse (seg @ cs) of Some v \<Rightarrow> Some v | None \<Rightarrow> scan_json parse 0 [] False False rest)"
proof (induction cs arbitrary: depth seg quoted escaped)
  case (Cons c cs)
  have IH: "closes d q e cs \<Longrightarrow> 0 < d \<Longrightarrow>
    scan_json parse d (seg @ [c]) q e (cs @ rest) =
      (case parse (seg @ c # cs) of Some v \<Rightarrow> Some v | None \<Rightarrow> scan_json parse 0 [] False False rest)" for d q e
    using Cons.IH [of d q e "seg @ [c]"] by simp
  show ?case
  proof (cases "c = CHR ''}'' \<and> depth = 1 \<and> \<not> escaped \<and> \<not> quoted")
    case True
    then show ?thesis using Cons.prems by simp
  next
    case False
    then show ?thesis using Cons.prems IH by (auto simp: Let_def split: if_splits)
  qed
qed simp

lemma scan_braced:
  "braced b \<Longrightarrow> scan_json parse 0 [] False False (b @ rest) =
     (case parse b of Some v \<Rightarrow> Some v | None \<Rightarrow> scan_json parse 0 [] False False rest)"
  by (cases b) (auto simp: braced_def scan_closes [of "Suc 0" False False _ parse "''{''"])

text \<open>The scan of a reply returns the first JSON object of its text: prose around it, stray closing braces and
  braced segments that are not JSON do not hide it, and what follows it does not matter.\<close>

theorem first_object_is_found:
  assumes "prose parse before" "braced obj" "parse obj = Some v"
  shows "scan_json parse 0 [] False False (before @ obj @ after) = Some v"
  using assms(1)
proof induction
  case prose_Nil
  then show ?case using assms(2,3) by (simp add: scan_braced)
next
  case (prose_char c s)
  then show ?case by simp
next
  case (prose_braced b s)
  then show ?case by (simp add: scan_braced)
qed

text \<open>A quotation mark in the prose does hide it: the scan takes the object for the inside of a string.\<close>

lemma quote_in_prose_hides_object:
  "scan_json parse 0 [] False False ([CHR 0x22] @ ''{}'') = None"
  by simp

theorem first_object_is_found_witness:
  "scan_json (\<lambda>s. if s = ''{1}'' then Some (JNum 1) else None) 0 [] False False (''see {ref} }: '' @ ''{1}'' @ '' done'') = Some (JNum 1)"
proof -
  let ?parse = "\<lambda>s. if s = ''{1}'' then Some (JNum 1) else None"
  have b: "braced ''{1}''" "braced ''{ref}''" by (simp_all add: braced_def)
  have "prose ?parse (''{ref}'' @ '' }: '')" by (rule prose_braced) (use b in \<open>simp_all add: prose.prose_char prose.prose_Nil\<close>)
  then have "prose ?parse ''see {ref} }: ''" by (simp add: prose.prose_char)
  from first_object_is_found [OF this b(1)] show ?thesis by simp
qed

end
