(* ===== verification/Chrome_Pool.thy ===== *)
theory Chrome_Pool
  imports Oc_Prelude
begin

text \<open>
  The pool of Chrome instances, \<open>src/src/chrome/pool.ts\<close>. An instance is an object that its callers keep and change,
  so instances live in a heap and the map from ports holds references. A launch is split where the code awaits:
  its port is chosen when it starts, its instance is entered into the map when Chrome answers, the guard against
  a second launch of the same profile is lifted in the \<open>finally\<close>, and each caller resumes on its own. Sequences of
  these steps are the interleavings of concurrent calls. Whether Chrome was already running on a port and
  whether the launch succeeds are arguments; the copying of cookies is left out.
\<close>

section \<open>State\<close>

record instance_rec =
  pi_port :: nat
  pi_launcher :: nat
  pi_origins :: "string set"
  pi_tabs :: nat
  pi_existing :: bool
  pi_profile :: "string option"
  pi_active :: int

datatype launch_phase = Launching | Ready nat | LaunchFailed

record launch =
  ln_port :: nat
  ln_profile :: "string option"
  ln_phase :: launch_phase
  ln_final :: bool

datatype caller_phase = Waiting | Got nat | Threw

record caller =
  cl_launch :: nat
  cl_origin :: "string option"
  cl_phase :: caller_phase

record pool =
  cp_max :: nat
  cp_base :: nat
  cp_heap :: "instance_rec list"
  cp_instances :: "(nat, nat) jmap"
  cp_inflight :: "(string, nat) jmap"
  cp_launches :: "launch list"
  cp_callers :: "caller list"
  cp_reaper :: "int option"
  cp_reaping :: "nat list"
  cp_closed :: "nat set"

definition new_pool :: "nat option \<Rightarrow> nat option \<Rightarrow> pool" where
  "new_pool max_instances base =
     \<lparr>cp_max = default_to 5 max_instances, cp_base = default_to 9222 base, cp_heap = [], cp_instances = [], cp_inflight = [],
      cp_launches = [], cp_callers = [], cp_reaper = None, cp_reaping = [], cp_closed = {}\<rparr>"

definition pool_default_idle_timeout :: int where "pool_default_idle_timeout = 5 * 60 * 1000"

section \<open>Launching\<close>

definition next_available_port :: "pool \<Rightarrow> nat" where
  "next_available_port p =
     (case List.find (\<lambda>port. \<not> jhas (cp_instances p) port) (map (\<lambda>offset. cp_base p + offset) [0..<cp_max p + 10]) of
        Some port \<Rightarrow> port
      | None \<Rightarrow> cp_base p + length (cp_instances p))"

definition start_launch :: "string option \<Rightarrow> pool \<Rightarrow> nat \<times> pool" where
  "start_launch profile p =
     (length (cp_launches p),
      p\<lparr>cp_launches := cp_launches p @ [\<lparr>ln_port = next_available_port p, ln_profile = profile, ln_phase = Launching, ln_final = False\<rparr>]\<rparr>)"

definition wait_for :: "nat \<Rightarrow> string option \<Rightarrow> pool \<Rightarrow> pool" where
  "wait_for launch origin p = p\<lparr>cp_callers := cp_callers p @ [\<lparr>cl_launch = launch, cl_origin = origin, cl_phase = Waiting\<rparr>]\<rparr>"

text \<open>The end of \<open>launchNewInstance\<close>: \<open>result\<close> is whether Chrome was there already, or \<open>None\<close> when \<open>ensureChrome\<close> threw.\<close>

definition finish_launch :: "nat \<Rightarrow> bool option \<Rightarrow> int \<Rightarrow> pool \<Rightarrow> pool" where
  "finish_launch n result now p =
     (if n < length (cp_launches p) \<and> ln_phase (cp_launches p ! n) = Launching then
        (let l = cp_launches p ! n in
         case result of
           None \<Rightarrow> p\<lparr>cp_launches := (cp_launches p)[n := l\<lparr>ln_phase := LaunchFailed\<rparr>]\<rparr>
         | Some existing \<Rightarrow>
             (let obj = length (cp_heap p) in
              p\<lparr>cp_heap := cp_heap p @ [\<lparr>pi_port = ln_port l, pi_launcher = n, pi_origins = {}, pi_tabs = 0,
                  pi_existing = existing, pi_profile = ln_profile l, pi_active = now\<rparr>],
                cp_instances := jset (ln_port l) obj (cp_instances p),
                cp_launches := (cp_launches p)[n := l\<lparr>ln_phase := Ready obj\<rparr>]\<rparr>))
      else p)"

text \<open>The \<open>finally\<close> of a profile launch.\<close>

definition lift_guard :: "nat \<Rightarrow> pool \<Rightarrow> pool" where
  "lift_guard n p =
     (if n < length (cp_launches p) \<and> ln_phase (cp_launches p ! n) \<noteq> Launching \<and> \<not> ln_final (cp_launches p ! n) then
        (let l = cp_launches p ! n in
         case ln_profile l of
           None \<Rightarrow> p
         | Some profile \<Rightarrow>
             p\<lparr>cp_inflight := jdel profile (cp_inflight p), cp_launches := (cp_launches p)[n := l\<lparr>ln_final := True\<rparr>]\<rparr>)
      else p)"

section \<open>Acquiring\<close>

definition modify :: "nat \<Rightarrow> (instance_rec \<Rightarrow> instance_rec) \<Rightarrow> pool \<Rightarrow> pool" where
  "modify obj f p = p\<lparr>cp_heap := (cp_heap p)[obj := f (cp_heap p ! obj)]\<rparr>"

definition take_tab :: "string option \<Rightarrow> int option \<Rightarrow> instance_rec \<Rightarrow> instance_rec" where
  "take_tab origin now i =
     i\<lparr>pi_origins := (case origin of None \<Rightarrow> pi_origins i | Some org \<Rightarrow> insert org (pi_origins i)),
       pi_tabs := Suc (pi_tabs i), pi_active := default_to (pi_active i) now\<rparr>"

text \<open>What a call returns before its first await: an instance, a launch to wait for, or an exception.\<close>

datatype acquired = Assigned nat | Awaiting nat | AtCapacity | UnknownProfile

definition deref :: "pool \<Rightarrow> nat \<times> nat \<Rightarrow> instance_rec" where
  "deref p entry = cp_heap p ! snd entry"

fun least_loaded :: "pool \<Rightarrow> (nat \<times> nat) option \<Rightarrow> (nat, nat) jmap \<Rightarrow> (nat \<times> nat) option" where
  "least_loaded p best [] = best"
| "least_loaded p best (e # es) =
     least_loaded p (case best of None \<Rightarrow> Some e | Some b \<Rightarrow> if pi_tabs (deref p e) < pi_tabs (deref p b) then Some e else best) es"

definition acquire_instance :: "string \<Rightarrow> int \<Rightarrow> pool \<Rightarrow> acquired \<times> pool" where
  "acquire_instance origin now p =
     (case List.find (\<lambda>e. origin \<notin> pi_origins (deref p e)) (cp_instances p) of
        Some e \<Rightarrow> (Assigned (snd e), modify (snd e) (take_tab (Some origin) (Some now)) p)
      | None \<Rightarrow>
          if length (cp_instances p) < cp_max p then
            (let (n, p') = start_launch None p in (Awaiting (length (cp_callers p')), wait_for n (Some origin) p'))
          else (case least_loaded p None (cp_instances p) of
                  None \<Rightarrow> (AtCapacity, p)
                | Some e \<Rightarrow> (Assigned (snd e), modify (snd e) (take_tab (Some origin) None) p)))"

definition acquire_for_profile :: "string \<Rightarrow> string option \<Rightarrow> string list \<Rightarrow> int \<Rightarrow> pool \<Rightarrow> acquired \<times> pool" where
  "acquire_for_profile profile origin known now p =
     (case List.find (\<lambda>e. pi_profile (deref p e) = Some profile) (cp_instances p) of
        Some e \<Rightarrow> (Assigned (snd e), modify (snd e) (take_tab (truthy_str origin) (Some now)) p)
      | None \<Rightarrow>
          (case jget (cp_inflight p) profile of
             Some n \<Rightarrow> (Awaiting (length (cp_callers p)), wait_for n (truthy_str origin) p)
           | None \<Rightarrow>
               if profile \<notin> set known then (UnknownProfile, p)
               else if cp_max p \<le> length (cp_instances p) then (AtCapacity, p)
               else (let (n, p') = start_launch (Some profile) p;
                         p'' = p'\<lparr>cp_inflight := jset profile n (cp_inflight p')\<rparr>
                     in (Awaiting (length (cp_callers p'')), wait_for n (truthy_str origin) p''))))"

text \<open>A caller resumes with the instance of the launch it awaited; a profile launch has lifted its guard before.\<close>

definition resume :: "nat \<Rightarrow> int \<Rightarrow> pool \<Rightarrow> pool" where
  "resume c now p =
     (if c < length (cp_callers p) \<and> cl_phase (cp_callers p ! c) = Waiting \<and> cl_launch (cp_callers p ! c) < length (cp_launches p) then
        (let cl = cp_callers p ! c; l = cp_launches p ! cl_launch cl in
         if ln_profile l \<noteq> None \<and> \<not> ln_final l then p
         else case ln_phase l of
           Launching \<Rightarrow> p
         | LaunchFailed \<Rightarrow> p\<lparr>cp_callers := (cp_callers p)[c := cl\<lparr>cl_phase := Threw\<rparr>]\<rparr>
         | Ready obj \<Rightarrow>
             (modify obj (take_tab (cl_origin cl) (Some now)) p)\<lparr>cp_callers := (cp_callers p)[c := cl\<lparr>cl_phase := Got obj\<rparr>]\<rparr>)
      else p)"

section \<open>Releasing and closing\<close>

definition release_instance :: "nat \<Rightarrow> string \<Rightarrow> int \<Rightarrow> pool \<Rightarrow> pool" where
  "release_instance port origin now p =
     (case jget (cp_instances p) port of
        None \<Rightarrow> p
      | Some obj \<Rightarrow> modify obj (\<lambda>i. i\<lparr>pi_origins := pi_origins i - {origin},
          pi_tabs := (if origin \<in> pi_origins i then pi_tabs i - 1 else pi_tabs i), pi_active := now\<rparr>) p)"

definition release_profile_instance :: "nat \<Rightarrow> int \<Rightarrow> pool \<Rightarrow> pool" where
  "release_profile_instance port now p =
     (case jget (cp_instances p) port of
        None \<Rightarrow> p
      | Some obj \<Rightarrow> modify obj (\<lambda>i. i\<lparr>pi_tabs := pi_tabs i - 1, pi_active := now\<rparr>) p)"

text \<open>Up to the await of \<open>cleanup\<close>: the launchers that are closed; and after it.\<close>

definition cleanup_begin :: "pool \<Rightarrow> pool" where
  "cleanup_begin p =
     p\<lparr>cp_reaper := None,
       cp_closed := cp_closed p \<union> (pi_launcher \<circ> deref p) ` set (filter (\<lambda>e. \<not> pi_existing (deref p e)) (cp_instances p))\<rparr>"

definition cleanup_end :: "pool \<Rightarrow> pool" where
  "cleanup_end p = p\<lparr>cp_instances := [], cp_inflight := []\<rparr>"

definition start_reaper :: "int option \<Rightarrow> pool \<Rightarrow> pool" where
  "start_reaper idle p = (if cp_reaper p \<noteq> None then p else p\<lparr>cp_reaper := Some (default_to pool_default_idle_timeout idle)\<rparr>)"

definition stop_reaper :: "pool \<Rightarrow> pool" where
  "stop_reaper p = p\<lparr>cp_reaper := None\<rparr>"

text \<open>One turn of the reaper's loop up to the await of the close, and the removal after it. \<open>started\<close> is the time the
  loop began.\<close>

definition reapable :: "int \<Rightarrow> int \<Rightarrow> instance_rec \<Rightarrow> bool" where
  "reapable idle started i \<longleftrightarrow>
     pi_tabs i = 0 \<and> \<not> pi_existing i \<and> truthy_str (pi_profile i) \<noteq> None \<and> idle < started - pi_active i"

definition reap_begin :: "nat \<Rightarrow> int \<Rightarrow> int \<Rightarrow> pool \<Rightarrow> pool" where
  "reap_begin port idle started p =
     (case jget (cp_instances p) port of
        None \<Rightarrow> p
      | Some obj \<Rightarrow>
          if reapable idle started (cp_heap p ! obj)
          then p\<lparr>cp_reaping := port # cp_reaping p, cp_closed := insert (pi_launcher (cp_heap p ! obj)) (cp_closed p)\<rparr> else p)"

definition reap_end :: "nat \<Rightarrow> pool \<Rightarrow> pool" where
  "reap_end port p =
     (if port \<in> set (cp_reaping p)
      then p\<lparr>cp_reaping := remove1 port (cp_reaping p), cp_instances := jdel port (cp_instances p)\<rparr> else p)"

datatype pool_op =
    Acquire string int
  | AcquireProfile string "string option" "string list" int
  | FinishLaunch nat "bool option" int
  | LiftGuard nat
  | Resume nat int
  | ReleaseInstance nat string int
  | ReleaseProfile nat int
  | CleanupBegin
  | CleanupEnd
  | StartReaper "int option"
  | StopReaper
  | ReapBegin nat int int
  | ReapEnd nat

fun pool_step :: "pool \<Rightarrow> pool_op \<Rightarrow> pool" where
  "pool_step p (Acquire origin now) = snd (acquire_instance origin now p)"
| "pool_step p (AcquireProfile profile origin known now) = snd (acquire_for_profile profile origin known now p)"
| "pool_step p (FinishLaunch n result now) = finish_launch n result now p"
| "pool_step p (LiftGuard n) = lift_guard n p"
| "pool_step p (Resume c now) = resume c now p"
| "pool_step p (ReleaseInstance port origin now) = release_instance port origin now p"
| "pool_step p (ReleaseProfile port now) = release_profile_instance port now p"
| "pool_step p CleanupBegin = cleanup_begin p"
| "pool_step p CleanupEnd = cleanup_end p"
| "pool_step p (StartReaper idle) = start_reaper idle p"
| "pool_step p StopReaper = stop_reaper p"
| "pool_step p (ReapBegin port idle started) = reap_begin port idle started p"
| "pool_step p (ReapEnd port) = reap_end port p"


section \<open>Capacity\<close>

definition object_on :: "instance_rec list \<Rightarrow> nat \<Rightarrow> nat \<Rightarrow> bool" where
  "object_on heap obj port \<longleftrightarrow> obj < length heap \<and> pi_port (heap ! obj) = port"

definition pool_port :: "pool \<Rightarrow> nat \<Rightarrow> bool" where
  "pool_port p port \<longleftrightarrow> cp_base p \<le> port \<and> port < cp_base p + cp_max p"

definition pool_wf :: "pool \<Rightarrow> bool" where
  "pool_wf p \<longleftrightarrow>
     jwf (cp_instances p) \<and>
     (\<forall>(port, obj)\<in>set (cp_instances p). pool_port p port \<and> object_on (cp_heap p) obj port) \<and>
     (\<forall>l\<in>set (cp_launches p). pool_port p (ln_port l) \<and> (\<forall>obj. ln_phase l = Ready obj \<longrightarrow> object_on (cp_heap p) obj (ln_port l)))"

lemma pool_port_upd [simp]:
  "pool_port (p\<lparr>cp_heap := h\<rparr>) = pool_port p" "pool_port (p\<lparr>cp_instances := is'\<rparr>) = pool_port p"
  "pool_port (p\<lparr>cp_launches := ls\<rparr>) = pool_port p"
  by (simp_all add: pool_port_def fun_eq_iff)

lemma object_on_append: "object_on heap obj port \<Longrightarrow> object_on (heap @ xs) obj port"
  by (simp add: object_on_def nth_append)

lemma object_on_update: "pi_port i = pi_port (heap ! n) \<Longrightarrow> object_on (heap[n := i]) obj port = object_on heap obj port"
  by (cases "n = obj") (auto simp: object_on_def)

lemma jwf_card: "jwf m \<Longrightarrow> card (set (map fst m)) = length m"
  unfolding jwf_def by (metis distinct_card length_map)

lemma ports_within:
  assumes "jwf m" "\<forall>(port, obj)\<in>set m. b \<le> port \<and> port < b + (n :: nat)"
  shows "length m \<le> n"
proof -
  have "set (map fst m) \<subseteq> {b..<b + n}" using assms(2) by auto
  then have "card (set (map fst m)) \<le> card {b..<b + n}" by (intro card_mono) simp_all
  then show ?thesis using jwf_card [OF assms(1)] by simp
qed

lemma capacity: "pool_wf p \<Longrightarrow> length (cp_instances p) \<le> cp_max p"
  by (rule ports_within [of _ "cp_base p"]) (auto simp: pool_wf_def pool_port_def)

lemma next_port_window:
  assumes "jwf (cp_instances p)" "length (cp_instances p) < cp_max p"
  shows "cp_base p \<le> next_available_port p" "next_available_port p < cp_base p + cp_max p"
    "\<not> jhas (cp_instances p) (next_available_port p)"
proof -
  let ?ports = "map (\<lambda>offset. cp_base p + offset) [0..<cp_max p + 10]"
  let ?free = "\<lambda>port. \<not> jhas (cp_instances p) port"
  have "\<not> {cp_base p..<cp_base p + cp_max p} \<subseteq> set (map fst (cp_instances p))"
  proof
    assume "{cp_base p..<cp_base p + cp_max p} \<subseteq> set (map fst (cp_instances p))"
    then have "cp_max p \<le> card (set (map fst (cp_instances p)))"
      using card_mono [of "set (map fst (cp_instances p))" "{cp_base p..<cp_base p + cp_max p}"] by simp
    then show False using jwf_card [OF assms(1)] assms(2) by simp
  qed
  then obtain port where "cp_base p \<le> port" "port < cp_base p + cp_max p" "port \<notin> set (map fst (cp_instances p))"
    unfolding subset_iff by auto
  then have port: "cp_base p \<le> port" "port < cp_base p + cp_max p" "?free port"
    by (simp_all add: jhas_def map_of_eq_None_iff)
  then have "port = ?ports ! (port - cp_base p)" "port - cp_base p < length ?ports" by auto
  then obtain q where q: "List.find ?free ?ports = Some q" using port(3) by (metis find_None_iff nth_mem not_None_eq)
  then obtain i where i: "i < length ?ports" "q = ?ports ! i" "?free q" "\<forall>j<i. \<not> ?free (?ports ! j)"
    unfolding find_Some_iff by blast
  have "\<not> port - cp_base p < i" using i(4) port \<open>port = ?ports ! (port - cp_base p)\<close> by metis
  then have "q < cp_base p + cp_max p" using i(1,2) port by auto
  moreover have "next_available_port p = q" using q by (simp add: next_available_port_def)
  ultimately show "cp_base p \<le> next_available_port p" "next_available_port p < cp_base p + cp_max p"
    "\<not> jhas (cp_instances p) (next_available_port p)" using i by auto
qed

lemma pool_wf_modify: "pool_wf p \<Longrightarrow> (\<And>i. pi_port (f i) = pi_port i) \<Longrightarrow> pool_wf (modify obj f p)"
  by (simp add: pool_wf_def modify_def object_on_update)

lemma take_tab_port [simp]: "pi_port (take_tab origin now i) = pi_port i"
  by (simp add: take_tab_def)

lemma pool_wf_callers [simp]: "pool_wf (p\<lparr>cp_callers := cs\<rparr>) = pool_wf p"
  "pool_wf (p\<lparr>cp_inflight := fs\<rparr>) = pool_wf p" "pool_wf (p\<lparr>cp_reaper := r\<rparr>) = pool_wf p"
  "pool_wf (p\<lparr>cp_reaping := rs, cp_closed := c\<rparr>) = pool_wf p" "pool_wf (p\<lparr>cp_closed := c\<rparr>) = pool_wf p"
  "pool_wf (p\<lparr>cp_reaping := rs\<rparr>) = pool_wf p"
  by (simp_all add: pool_wf_def pool_port_def)

lemma pool_wf_wait [simp]: "pool_wf (wait_for n origin p) = pool_wf p"
  by (simp add: wait_for_def)

lemma pool_wf_start: "pool_wf p \<Longrightarrow> length (cp_instances p) < cp_max p \<Longrightarrow> pool_wf (snd (start_launch profile p))"
  using next_port_window [of p] by (auto simp: start_launch_def pool_wf_def pool_port_def)

lemma pool_wf_acquire: "pool_wf p \<Longrightarrow> pool_wf (snd (acquire_instance origin now p))"
  using pool_wf_start [of p None]
  by (auto simp: acquire_instance_def case_prod_beta Let_def intro: pool_wf_modify split: option.splits)

lemma pool_wf_acquire_profile: "pool_wf p \<Longrightarrow> pool_wf (snd (acquire_for_profile profile origin known now p))"
  using pool_wf_start [of p "Some profile"]
  by (auto simp: acquire_for_profile_def case_prod_beta Let_def intro: pool_wf_modify split: option.splits)

lemma pool_wf_launch:
  assumes "pool_wf p" "n < length (cp_launches p)" "ln_port l = ln_port (cp_launches p ! n)"
    and "\<And>obj. ln_phase l = Ready obj \<Longrightarrow> object_on (cp_heap p) obj (ln_port l)"
  shows "pool_wf (p\<lparr>cp_launches := (cp_launches p)[n := l]\<rparr>)"
  using assms by (auto simp: pool_wf_def dest!: set_update_subset_insert [THEN subsetD])

lemma pool_wf_enter:
  assumes "pool_wf p" "pool_port p port" "pi_port i = port"
  shows "pool_wf (p\<lparr>cp_heap := cp_heap p @ [i], cp_instances := jset port (length (cp_heap p)) (cp_instances p)\<rparr>)"
proof -
  have "object_on (cp_heap p @ [i]) (length (cp_heap p)) port" using assms(3) by (simp add: object_on_def)
  then show ?thesis
    using assms(1,2) object_on_append [of "cp_heap p" _ _ "[i]"]
    by (fastforce simp: pool_wf_def jmem_set split: if_splits)
qed

lemma pool_wf_finish:
  assumes wf: "pool_wf p"
  shows "pool_wf (finish_launch n result now p)"
proof (cases "n < length (cp_launches p) \<and> ln_phase (cp_launches p ! n) = Launching")
  case True
  let ?l = "cp_launches p ! n"
  show ?thesis
  proof (cases result)
    case None
    have "pool_wf (p\<lparr>cp_launches := (cp_launches p)[n := ?l\<lparr>ln_phase := LaunchFailed\<rparr>]\<rparr>)"
      by (rule pool_wf_launch [OF wf]) (use True in simp_all)
    then show ?thesis using True None by (simp add: finish_launch_def Let_def)
  next
    case (Some existing)
    let ?i = "\<lparr>pi_port = ln_port ?l, pi_launcher = n, pi_origins = {}, pi_tabs = 0, pi_existing = existing,
      pi_profile = ln_profile ?l, pi_active = now\<rparr>"
    let ?q = "p\<lparr>cp_heap := cp_heap p @ [?i], cp_instances := jset (ln_port ?l) (length (cp_heap p)) (cp_instances p)\<rparr>"
    have "pool_port p (ln_port ?l)" using wf True by (auto simp: pool_wf_def)
    then have "pool_wf ?q" using wf by (intro pool_wf_enter) simp_all
    then have "pool_wf (?q\<lparr>cp_launches := (cp_launches ?q)[n := ?l\<lparr>ln_phase := Ready (length (cp_heap p))\<rparr>]\<rparr>)"
      by (rule pool_wf_launch) (use True in \<open>auto simp: object_on_def\<close>)
    then show ?thesis using True Some by (simp add: finish_launch_def Let_def)
  qed
next
  case False
  then have "finish_launch n result now p = p" unfolding finish_launch_def by (rule if_not_P)
  then show ?thesis using wf by simp
qed

lemma pool_wf_lift:
  assumes wf: "pool_wf p"
  shows "pool_wf (lift_guard n p)"
proof -
  have "pool_wf (p\<lparr>cp_inflight := fs, cp_launches := (cp_launches p)[n := (cp_launches p ! n)\<lparr>ln_final := True\<rparr>]\<rparr>)"
    if "n < length (cp_launches p)" for fs
  proof -
    have "pool_wf (p\<lparr>cp_inflight := fs\<rparr>)" using wf by simp
    then have "pool_wf ((p\<lparr>cp_inflight := fs\<rparr>)\<lparr>cp_launches := (cp_launches (p\<lparr>cp_inflight := fs\<rparr>))[n := (cp_launches p ! n)\<lparr>ln_final := True\<rparr>]\<rparr>)"
      by (rule pool_wf_launch) (use that wf in \<open>auto simp: pool_wf_def\<close>)
    then show ?thesis by simp
  qed
  then show ?thesis using wf by (auto simp: lift_guard_def Let_def split: option.splits)
qed

lemma pool_wf_resume: "pool_wf p \<Longrightarrow> pool_wf (resume c now p)"
  by (auto simp: resume_def Let_def intro!: pool_wf_modify split: launch_phase.splits)

lemma pool_wf_drop: "pool_wf p \<Longrightarrow> pool_wf (p\<lparr>cp_instances := jdel port (cp_instances p)\<rparr>)" "pool_wf p \<Longrightarrow> pool_wf (p\<lparr>cp_instances := []\<rparr>)"
  by (auto simp: pool_wf_def jmem_del)

lemma pool_wf_step: "pool_wf p \<Longrightarrow> pool_wf (pool_step p op)"
proof (cases op)
  case CleanupEnd
  assume "pool_wf p"
  then have "pool_wf ((p\<lparr>cp_instances := []\<rparr>)\<lparr>cp_inflight := []\<rparr>)" by (simp only: pool_wf_callers pool_wf_drop)
  then show ?thesis by (simp add: CleanupEnd cleanup_end_def)
next
  case (ReapEnd port)
  assume "pool_wf p"
  then have "pool_wf (p\<lparr>cp_reaping := remove1 port (cp_reaping p), cp_instances := jdel port (cp_instances p)\<rparr>)"
    by (auto simp: pool_wf_def jmem_del pool_port_def)
  then show ?thesis using \<open>pool_wf p\<close> by (simp add: ReapEnd reap_end_def)
next
  case CleanupBegin
  assume "pool_wf p"
  then show ?thesis by (simp add: CleanupBegin cleanup_begin_def pool_wf_def pool_port_def)
qed (simp_all add: pool_wf_acquire pool_wf_acquire_profile pool_wf_finish pool_wf_lift pool_wf_resume start_reaper_def stop_reaper_def
    release_instance_def release_profile_instance_def reap_begin_def pool_wf_modify split: option.split)

interpretation pool: machine pool_step pool_wf
  by unfold_locales (rule pool_wf_step)

definition pool_run :: "nat option \<Rightarrow> nat option \<Rightarrow> pool_op list \<Rightarrow> pool" where
  "pool_run max_instances base ops = foldl pool_step (new_pool max_instances base) ops"

text \<open>C23 (bounds). However calls, launches and the reaper interleave, the pool holds at most \<open>maxInstances\<close> instances, each under its
  own port, and every port, of a running launch too, lies in the range that starts at \<open>basePort\<close>.\<close>

theorem pool_capacity:
  "length (cp_instances (pool_run m b ops)) \<le> cp_max (pool_run m b ops) \<and> jwf (cp_instances (pool_run m b ops)) \<and>
   (\<forall>(port, obj)\<in>set (cp_instances (pool_run m b ops)).
      pool_port (pool_run m b ops) port \<and> object_on (cp_heap (pool_run m b ops)) obj port) \<and>
   (\<forall>l\<in>set (cp_launches (pool_run m b ops)). pool_port (pool_run m b ops) (ln_port l))"
proof -
  have "pool_wf (pool_run m b ops)"
    unfolding pool_run_def by (rule pool.run_inv) (simp add: pool_wf_def new_pool_def)
  then show ?thesis using capacity by (auto simp: pool_wf_def)
qed

section \<open>What overlapping launches do\<close>

text \<open>Two launches that overlap choose the same port. Here two profiles end up on one port: the second instance
  replaces the first in the map while the first caller keeps its own, the Chrome of the first launch counts as
  one that was there before, and a cleanup closes neither launcher.\<close>

definition overlapping_profiles :: pool where
  "overlapping_profiles = pool_run None None
     [AcquireProfile ''Work'' None [''Work'', ''Home''] 0, AcquireProfile ''Home'' None [''Work'', ''Home''] 0,
      FinishLaunch 0 (Some False) 5, FinishLaunch 1 (Some True) 6, LiftGuard 0, LiftGuard 1, Resume 0 7, Resume 1 7, CleanupBegin]"

lemma first_port: "\<not> jhas (cp_instances p) (cp_base p) \<Longrightarrow> next_available_port p = cp_base p"
  by (simp add: next_available_port_def upt_rec [of 0])

lemmas pool_defs = pool_run_def new_pool_def acquire_for_profile_def acquire_instance_def start_launch_def wait_for_def first_port
  jhas_def finish_launch_def lift_guard_def resume_def modify_def take_tab_def deref_def truthy_str_def cleanup_begin_def Let_def

lemma overlapping_profiles_collide:
  "cp_instances overlapping_profiles = [(9222, 1)]"
  "map (\<lambda>i. (pi_port i, pi_profile i, pi_existing i, pi_tabs i)) (cp_heap overlapping_profiles)
     = [(9222, Some ''Work'', False, 1), (9222, Some ''Home'', True, 1)]"
  "map cl_phase (cp_callers overlapping_profiles) = [Got 0, Got 1]"
  "cp_closed overlapping_profiles = {}"
  by (simp_all add: overlapping_profiles_def pool_defs)

text \<open>A request without a profile takes the instance of a profile when that has no tab of the origin.\<close>

lemma profile_instance_taken:
  defines "p \<equiv> pool_run None None [AcquireProfile ''Work'' None [''Work''] 0, FinishLaunch 0 (Some False) 5, LiftGuard 0, Resume 0 7]"
  shows "fst (acquire_instance ''https://a.example'' 8 p) = Assigned 0" "pi_profile (cp_heap p ! 0) = Some ''Work''"
  by (simp_all add: p_def pool_defs)

theorem pool_capacity_witness:
  "pool_port overlapping_profiles 9222 \<and> object_on (cp_heap overlapping_profiles) 1 9222"
proof -
  have "\<forall>(port, obj)\<in>set (cp_instances overlapping_profiles).
      pool_port overlapping_profiles port \<and> object_on (cp_heap overlapping_profiles) obj port"
    unfolding overlapping_profiles_def using pool_capacity by blast
  then show ?thesis by (simp add: overlapping_profiles_collide(1))
qed

end
