(* ===== verification/Contract_Runtime.thy ===== *)
theory Contract_Runtime
  imports Contract_Validator Idempotency
begin

text \<open>
  The runtime that runs a skill under a contract, \<open>src/src/pilot/runtime/runtime.ts\<close>, on top of the validator,
  the evaluation of assertions and the idempotency cache. The page, the skill, the operator's hook, the hasher and the
  timer are functions of the environment; since each is awaited they may change the world and, as other runs do, the
  cache. \<open>re_pause\<close> is what happens while an evaluation awaits the page. The code evaluates the contract as
  given, the model the assertion the validator read from it. Evaluation never throws (\<open>Contracts\<close>), so the
  branches that catch its exceptions are left out; so are the audit sink's failures, which the code
  swallows, and the recording of lessons. The log is what an observer sees: snapshots, the hook's answer,
  the skill, and the records emitted.
\<close>

section \<open>Contracts and records\<close>

datatype run_verdict =
    RunSuccess | PreconditionViolation | PostconditionViolation | BudgetExhausted | ExecutionError | ValidationFailed
  | Escalated | AbortedByHook

fun verdict_name :: "run_verdict \<Rightarrow> string" where
  "verdict_name RunSuccess = ''success''"
| "verdict_name PreconditionViolation = ''precondition_violation''"
| "verdict_name PostconditionViolation = ''postcondition_violation''"
| "verdict_name BudgetExhausted = ''budget_exhausted''"
| "verdict_name ExecutionError = ''execution_error''"
| "verdict_name ValidationFailed = ''validation_error''"
| "verdict_name Escalated = ''escalated''"
| "verdict_name AbortedByHook = ''aborted_by_hook''"

datatype escalation = EscalateAbort | HumanReview | HeadedHandoff

record contract =
  ct_id :: string
  ct_pre :: jsvalue
  ct_post :: jsvalue
  ct_retry :: jsvalue
  ct_escalate :: "escalation option"
  ct_wall :: jsvalue
  ct_domain :: "string option"
  ct_critical :: bool
  ct_action :: "string option"

record hook_note =
  hn_action :: string
  hn_reason :: "string option"
  hn_token :: "string option"

record transaction =
  tr_txn :: string
  tr_contract :: string
  tr_domain :: "string option"
  tr_verdict :: run_verdict
  tr_started :: int
  tr_ended :: int
  tr_wall :: int
  tr_retries :: nat
  tr_pre :: "evidence option"
  tr_post :: "evidence option"
  tr_errors :: "verror list"
  tr_message :: "string option"
  tr_escalation :: "escalation option"
  tr_result :: "jsvalue option"
  tr_hook :: "hook_note option"
  tr_from_cache :: bool
  tr_hash :: "(string \<times> string) option"

datatype decision = ProceedNow | Deny string | AwaitHuman string

datatype run_event =
    EvSnapshot eval_context
  | EvHook "string + decision"
  | EvSkill "nat option"
  | EvEmit transaction

section \<open>The environment\<close>

type_synonym 'w outer = "(transaction, string) run_cache \<times> 'w"

record 'w run_env =
  re_enabled :: bool
  re_engine :: regex_engine
  re_stringify :: "jsvalue \<Rightarrow> string"
  re_digest :: "string \<Rightarrow> string"
  re_uuid :: "'w \<Rightarrow> string \<times> 'w"
  re_now :: "'w \<Rightarrow> int \<times> 'w"
  re_snapshot :: "'w outer \<Rightarrow> (string + eval_context) \<times> 'w outer"
  re_pause :: "'w outer \<Rightarrow> 'w outer"
  re_hook :: "string \<Rightarrow> string \<Rightarrow> evidence option \<Rightarrow> 'w outer \<Rightarrow> (string + decision) \<times> 'w outer"
  re_skill :: "nat option \<Rightarrow> 'w outer \<Rightarrow> (string + jsvalue) \<times> 'w outer"
  re_delay :: "int \<Rightarrow> 'w outer \<Rightarrow> string option \<times> 'w outer"
  re_hash :: "('w outer \<Rightarrow> jsvalue option \<times> 'w outer) option"

record run_args =
  ra_contract :: contract
  ra_cached :: bool
  ra_args :: jsvalue
  ra_epoch :: jsnum
  ra_ttl :: "jsnum option"

record 'w run_state =
  rs_cache :: "(transaction, string) run_cache"
  rs_world :: 'w
  rs_log :: "run_event list"

definition outside :: "('w outer \<Rightarrow> 'a \<times> 'w outer) \<Rightarrow> 'w run_state \<Rightarrow> 'a \<times> 'w run_state" where
  "outside f st = (let (x, (c, w)) = f (rs_cache st, rs_world st) in (x, st\<lparr>rs_cache := c, rs_world := w\<rparr>))"

definition observe :: "run_event \<Rightarrow> 'w run_state \<Rightarrow> 'w run_state" where
  "observe ev st = st\<lparr>rs_log := rs_log st @ [ev]\<rparr>"

definition clock :: "'w run_env \<Rightarrow> 'w run_state \<Rightarrow> int \<times> 'w run_state" where
  "clock env st = (let (t, w) = re_now env (rs_world st) in (t, st\<lparr>rs_world := w\<rparr>))"

definition with_cache :: "((transaction, string) run_cache \<Rightarrow> 'a \<times> (transaction, string) run_cache) \<Rightarrow> 'w run_state \<Rightarrow> 'a \<times> 'w run_state" where
  "with_cache f st = (let (x, c) = f (rs_cache st) in (x, st\<lparr>rs_cache := c\<rparr>))"

lemma log_kept [simp]:
  "rs_log (snd (outside f st)) = rs_log st" "rs_log (snd (clock env st)) = rs_log st" "rs_log (snd (with_cache g st)) = rs_log st"
  "rs_log (observe ev st) = rs_log st @ [ev]"
  by (simp_all add: outside_def clock_def with_cache_def observe_def case_prod_beta Let_def)

section \<open>Settling\<close>

text \<open>The context of a run: what is fixed once it has been set up.\<close>

record run_ctx =
  rx_contract :: contract
  rx_txn :: string
  rx_started :: int
  rx_key :: "string option"
  rx_epoch :: int
  rx_ttl :: jsnum
  rx_signal :: "nat option"
  rx_hash :: "(string \<times> string) option"

definition default_cache_ttl :: int where "default_cache_ttl = 5 * 60 * 1000"

definition blank_record ::
    "run_ctx \<Rightarrow> run_verdict \<Rightarrow> nat \<Rightarrow> evidence option \<Rightarrow> evidence option \<Rightarrow> int \<Rightarrow> int \<Rightarrow> transaction" where
  "blank_record ctx v retries pre_ev post_ev ended wall =
     \<lparr>tr_txn = rx_txn ctx, tr_contract = ct_id (rx_contract ctx), tr_domain = None, tr_verdict = v,
      tr_started = rx_started ctx, tr_ended = ended, tr_wall = wall, tr_retries = retries,
      tr_pre = pre_ev, tr_post = post_ev, tr_errors = [], tr_message = None, tr_escalation = None, tr_result = None,
      tr_hook = None, tr_from_cache = False, tr_hash = None\<rparr>"

text \<open>A record as the code writes it: \<open>ended_at\<close> and \<open>wall_ms\<close> read the clock once each.\<close>

definition run_record ::
    "'w run_env \<Rightarrow> run_ctx \<Rightarrow> run_verdict \<Rightarrow> nat \<Rightarrow> evidence option \<Rightarrow> evidence option \<Rightarrow> 'w run_state \<Rightarrow> transaction \<times> 'w run_state" where
  "run_record env ctx v retries pre_ev post_ev st =
     (let (ended, st) = clock env st; (t, st) = clock env st
      in (blank_record ctx v retries pre_ev post_ev ended (t - rx_started ctx), st))"

definition settle_record :: "run_ctx \<Rightarrow> transaction \<Rightarrow> 'w run_state \<Rightarrow> transaction \<times> 'w run_state" where
  "settle_record ctx r st =
     (let r1 = (if ct_domain (rx_contract ctx) \<noteq> None \<and> tr_domain r = None then r\<lparr>tr_domain := ct_domain (rx_contract ctx)\<rparr> else r);
          r2 = (if rx_hash ctx \<noteq> None \<and> tr_hash r1 = None then r1\<lparr>tr_hash := rx_hash ctx\<rparr> else r1)
      in (r2, observe (EvEmit r2) st))"

definition positive_ttl :: "jsnum \<Rightarrow> bool" where
  "positive_ttl ttl = (case ttl of Fin t \<Rightarrow> 0 < t | NonFinite \<Rightarrow> True)"

definition finish_cache :: "'w run_env \<Rightarrow> run_ctx \<Rightarrow> transaction \<Rightarrow> 'w run_state \<Rightarrow> 'w run_state" where
  "finish_cache env ctx r st =
     (case rx_key ctx of
        None \<Rightarrow> st
      | Some key \<Rightarrow>
          (let st1 = (if tr_verdict r = RunSuccess \<and> positive_ttl (rx_ttl ctx) then
                        (let (t, st') = clock env st
                         in snd (with_cache (\<lambda>c. ((), rc_record (verdict_name \<circ> tr_verdict) key r (rx_ttl ctx) t c)) st'))
                      else st)
           in snd (with_cache (\<lambda>c. ((), release_inflight key (rx_epoch ctx) c)) st1)))"

definition emit_and_finish :: "'w run_env \<Rightarrow> run_ctx \<Rightarrow> transaction \<Rightarrow> 'w run_state \<Rightarrow> transaction \<times> 'w run_state" where
  "emit_and_finish env ctx r st = (let (r', st') = settle_record ctx r st in (r', finish_cache env ctx r' st'))"

section \<open>Budgets\<close>

definition backoff_ms :: "nat \<Rightarrow> int" where
  "backoff_ms attempt = min (500 * 2 ^ attempt) 5000"

definition normalize_retry_count :: "jsvalue \<Rightarrow> nat" where
  "normalize_retry_count v = (case as_number v of None \<Rightarrow> 0 | Some q \<Rightarrow> nat \<lfloor>q\<rfloor>)"

definition normalize_budget_ms :: "jsvalue \<Rightarrow> int option" where
  "normalize_budget_ms v = (case as_number v of None \<Rightarrow> None | Some q \<Rightarrow> if q < 0 then None else Some \<lfloor>q\<rfloor>)"

section \<open>The stages of a run\<close>

text \<open>The paths of the errors of one assertion, below the field of the contract that holds it.\<close>

definition rebase :: "string \<Rightarrow> verror \<Rightarrow> verror" where
  "rebase base e = e\<lparr>ve_path := base @ (if ve_path e = ''$'' then [] else drop 1 (ve_path e))\<rparr>"

definition contract_errors :: "regex_engine \<Rightarrow> contract \<Rightarrow> verror list" where
  "contract_errors engine ct =
     (if ct_pre ct = JUndefined then []
      else case validate_assertion engine (ct_pre ct) of Inl es \<Rightarrow> map (rebase ''$.pre'') es | Inr _ \<Rightarrow> [])
     @ (case validate_assertion engine (ct_post ct) of Inl es \<Rightarrow> map (rebase ''$.post'') es | Inr _ \<Rightarrow> [])"

definition read_assertion :: "regex_engine \<Rightarrow> jsvalue \<Rightarrow> assertion option" where
  "read_assertion engine v = (case validate_assertion engine v of Inl _ \<Rightarrow> None | Inr a \<Rightarrow> Some a)"

definition state_hash_of :: "jsvalue \<Rightarrow> (string \<times> string) option" where
  "state_hash_of v =
     (case v of
        JStr s \<Rightarrow> if s \<noteq> [] then Some (s, ''v1'') else None
      | JObj obj \<Rightarrow>
          (case (field obj ''hash'', field obj ''version'') of
             (JStr h, JStr ver) \<Rightarrow> if h \<noteq> [] \<and> (ver = ''v1'' \<or> ver = ''v2'') then Some (h, ver) else None
           | _ \<Rightarrow> None)
      | _ \<Rightarrow> None)"

text \<open>Whether the next wait would exceed the budget; the clock is read only when there is one.\<close>

definition wait_over_budget :: "'w run_env \<Rightarrow> int \<Rightarrow> int option \<Rightarrow> int \<Rightarrow> 'w run_state \<Rightarrow> bool \<times> 'w run_state" where
  "wait_over_budget env started budget wait st =
     (case budget of
        None \<Rightarrow> (False, st)
      | Some b \<Rightarrow> (let (t, st') = clock env st in (b < t - started + wait, st')))"

text \<open>\<open>Inl\<close> is the message of an execution error, with the number of retries and the evidence so far.\<close>

fun post_check ::
    "'w run_env \<Rightarrow> assertion \<Rightarrow> int \<Rightarrow> int option \<Rightarrow> nat \<Rightarrow> nat \<Rightarrow> evidence option \<Rightarrow> 'w run_state
      \<Rightarrow> ((string + bool) \<times> nat \<times> evidence option) \<times> 'w run_state" where
  "post_check env post started budget remaining attempt ev st =
     (case outside (re_snapshot env) st of
        (Inl e, st) \<Rightarrow> ((Inl (''snapshot failed during post-check: '' @ e), attempt, ev), st)
      | (Inr cx, st) \<Rightarrow>
          (let r = evaluate (re_engine env) cx post;
               st = snd (outside (\<lambda>w. ((), re_pause env w)) (observe (EvSnapshot cx) st))
           in if ev_passed r then ((Inr True, attempt, Some r), st)
              else case remaining of
                0 \<Rightarrow> ((Inr False, attempt, Some r), st)
              | Suc n \<Rightarrow>
                  (let wait = backoff_ms attempt;
                       (late, st) = wait_over_budget env started budget wait st
                   in if late then ((Inr False, attempt, Some r), st)
                      else case outside (re_delay env wait) st of
                        (Some e, st) \<Rightarrow> ((Inl (''delay() threw between retries: '' @ e), attempt, Some r), st)
                      | (None, st) \<Rightarrow> post_check env post started budget n (Suc attempt) (Some r) st)))"

declare post_check.simps [simp del]

definition check_outcome ::
    "'w run_env \<Rightarrow> run_ctx \<Rightarrow> assertion \<Rightarrow> int option \<Rightarrow> evidence option \<Rightarrow> jsvalue \<Rightarrow> 'w run_state \<Rightarrow> transaction \<times> 'w run_state" where
  "check_outcome env ctx post budget pre_ev result st =
     (case post_check env post (rx_started ctx) budget (normalize_retry_count (ct_retry (rx_contract ctx))) 0 None st of
        ((Inl msg, attempt, ev), st) \<Rightarrow>
          (let (r, st) = run_record env ctx ExecutionError attempt pre_ev ev st
           in emit_and_finish env ctx (r\<lparr>tr_message := Some msg\<rparr>) st)
      | ((Inr True, attempt, ev), st) \<Rightarrow>
          (let (r, st) = run_record env ctx RunSuccess attempt pre_ev ev st
           in emit_and_finish env ctx (r\<lparr>tr_result := Some result\<rparr>) st)
      | ((Inr False, attempt, ev), st) \<Rightarrow>
          (case ct_escalate (rx_contract ctx) of
             Some HumanReview \<Rightarrow>
               (let (r, st) = run_record env ctx Escalated attempt pre_ev ev st
                in emit_and_finish env ctx (r\<lparr>tr_escalation := Some HumanReview\<rparr>) st)
           | Some HeadedHandoff \<Rightarrow>
               (let (r, st) = run_record env ctx Escalated attempt pre_ev ev st
                in emit_and_finish env ctx (r\<lparr>tr_escalation := Some HeadedHandoff\<rparr>) st)
           | escalate \<Rightarrow>
               (let (r, st) = run_record env ctx PostconditionViolation attempt pre_ev ev st
                in emit_and_finish env ctx (r\<lparr>tr_message := (if escalate = Some EscalateAbort
                     then Some ''on_fail.escalate=abort: settled as postcondition_violation without escalation'' else None)\<rparr>) st)))"

definition execute_skill ::
    "'w run_env \<Rightarrow> run_ctx \<Rightarrow> assertion \<Rightarrow> evidence option \<Rightarrow> 'w run_state \<Rightarrow> transaction \<times> 'w run_state" where
  "execute_skill env ctx post pre_ev st =
     (let budget = normalize_budget_ms (ct_wall (rx_contract ctx));
          (skill_start, st) = clock env st;
          (result, st) = outside (re_skill env (rx_signal ctx)) (observe (EvSkill (rx_signal ctx)) st)
      in case result of
           Inl e \<Rightarrow>
             (let aborted = (case rx_signal ctx of None \<Rightarrow> False | Some s \<Rightarrow> s \<in> rc_aborted (rs_cache st));
                  (r, st) = run_record env ctx ExecutionError 0 pre_ev None st
              in emit_and_finish env ctx
                   (r\<lparr>tr_message := Some (if aborted then ''skill aborted by idempotency cache: '' @ e else e)\<rparr>) st)
         | Inr value \<Rightarrow>
             (let (skill_end, st) = clock env st in
              case budget of
                None \<Rightarrow> check_outcome env ctx post budget pre_ev value st
              | Some b \<Rightarrow>
                  if b < skill_end - skill_start then
                    (let (r, st) = run_record env ctx BudgetExhausted 0 pre_ev None st
                     in emit_and_finish env ctx (r\<lparr>tr_message := Some (''skill exceeded wall_ms budget ('' @
                          int_str (skill_end - skill_start) @ ''ms > '' @ int_str b @ ''ms)'')\<rparr>) st)
                  else check_outcome env ctx post budget pre_ev value st))"

text \<open>The operator's hook. The code emits the record of a refusal without \<open>finishCache\<close>.\<close>

definition run_guarded ::
    "'w run_env \<Rightarrow> run_ctx \<Rightarrow> assertion \<Rightarrow> evidence option \<Rightarrow> 'w run_state \<Rightarrow> transaction \<times> 'w run_state" where
  "run_guarded env ctx post pre_ev st =
     (if \<not> ct_critical (rx_contract ctx) then execute_skill env ctx post pre_ev st
      else let ct = rx_contract ctx;
               action = default_to (ct_id ct) (ct_action ct);
               (answer, st) = outside (re_hook env (ct_id ct) action pre_ev) st;
               st = observe (EvHook answer) st;
               refuse = (\<lambda>msg reason token.
                 let (r, st) = run_record env ctx AbortedByHook 0 pre_ev None st
                 in settle_record ctx (r\<lparr>tr_message := Some msg,
                      tr_hook := Some \<lparr>hn_action = action, hn_reason = reason, hn_token = token\<rparr>\<rparr>) st)
           in case answer of
                Inl e \<Rightarrow> refuse (''beforeIrreversibleAction hook threw: '' @ e) (Some e) None
              | Inr (Deny reason) \<Rightarrow> refuse reason (Some reason) None
              | Inr (AwaitHuman token) \<Rightarrow>
                  refuse (''beforeIrreversibleAction hook deferred to external resume (token='' @ token @ '')'') None (Some token)
              | Inr ProceedNow \<Rightarrow> execute_skill env ctx post pre_ev st)"

definition run_checked ::
    "'w run_env \<Rightarrow> run_ctx \<Rightarrow> assertion option \<Rightarrow> assertion \<Rightarrow> 'w run_state \<Rightarrow> transaction \<times> 'w run_state" where
  "run_checked env ctx pre post st =
     (case pre of
        None \<Rightarrow> run_guarded env ctx post None st
      | Some a \<Rightarrow>
          (case outside (re_snapshot env) st of
             (Inl e, st) \<Rightarrow>
               (let (r, st) = run_record env ctx ExecutionError 0 None None st
                in emit_and_finish env ctx (r\<lparr>tr_message := Some (''snapshot failed during pre-check: '' @ e)\<rparr>) st)
           | (Inr cx, st) \<Rightarrow>
               (let ev = evaluate (re_engine env) cx a;
                    st = snd (outside (\<lambda>w. ((), re_pause env w)) (observe (EvSnapshot cx) st))
                in if ev_passed ev then run_guarded env ctx post (Some ev) st
                   else let (r, st) = run_record env ctx PreconditionViolation 0 (Some ev) None st
                        in emit_and_finish env ctx r st)))"

definition run_validated :: "'w run_env \<Rightarrow> run_ctx \<Rightarrow> 'w run_state \<Rightarrow> transaction \<times> 'w run_state" where
  "run_validated env ctx st =
     (let ct = rx_contract ctx; errors = contract_errors (re_engine env) ct in
      if errors \<noteq> [] then
        (let (r, st) = run_record env ctx ValidationFailed 0 None None st
         in emit_and_finish env ctx (r\<lparr>tr_errors := errors\<rparr>) st)
      else let (hashed, st) = (case re_hash env of None \<Rightarrow> (None, st) | Some f \<Rightarrow> outside f st);
               ctx = ctx\<lparr>rx_hash := (case hashed of None \<Rightarrow> None | Some v \<Rightarrow> state_hash_of v)\<rparr>
           in run_checked env ctx (if ct_pre ct = JUndefined then None else read_assertion (re_engine env) (ct_pre ct))
                (the (read_assertion (re_engine env) (ct_post ct))) st)"

definition new_ctx :: "run_args \<Rightarrow> string \<Rightarrow> int \<Rightarrow> run_ctx" where
  "new_ctx args txn started =
     \<lparr>rx_contract = ra_contract args, rx_txn = txn, rx_started = started, rx_key = None,
      rx_epoch = (case ra_epoch args of Fin e \<Rightarrow> e | NonFinite \<Rightarrow> 0), rx_ttl = default_to (Fin default_cache_ttl) (ra_ttl args),
      rx_signal = None, rx_hash = None\<rparr>"

definition run_with_contract :: "'w run_env \<Rightarrow> run_args \<Rightarrow> 'w run_state \<Rightarrow> transaction \<times> 'w run_state" where
  "run_with_contract env args st =
     (let (started, st) = clock env st;
          (txn, w) = re_uuid env (rs_world st);
          st = st\<lparr>rs_world := w\<rparr>;
          ctx = new_ctx args txn started
      in if \<not> re_enabled env then
           (let (ended, st) = clock env st
            in ((blank_record ctx ExecutionError 0 None None ended 0)\<lparr>tr_domain := ct_domain (ra_contract args),
                  tr_message := Some ''contract_runtime family is disabled (pilot flag not active)''\<rparr>, st))
         else if \<not> ra_cached args then run_validated env ctx st
         else let key = run_key (re_stringify env) (re_digest env) (ct_id (ra_contract args)) (ra_args args);
                  (signal, st) = with_cache (register_inflight key (rx_epoch ctx) txn) st;
                  ctx = ctx\<lparr>rx_key := Some key, rx_signal := Some signal\<rparr>;
                  (t, st) = clock env st;
                  (hit, st) = with_cache (rc_lookup key t) st
              in case hit of
                   Some r \<Rightarrow> emit_and_finish env ctx (r\<lparr>tr_from_cache := True\<rparr>) st
                 | None \<Rightarrow> run_validated env ctx st)"


section \<open>What a run does\<close>

lemma finish_cache_log [simp]: "rs_log (finish_cache env ctx r st) = rs_log st"
  by (simp add: finish_cache_def case_prod_beta Let_def split: option.split)

text \<open>Settling keeps the outcome of a record and emits what it returns.\<close>

definition same_outcome :: "transaction \<Rightarrow> transaction \<Rightarrow> bool" where
  "same_outcome r r' \<longleftrightarrow> tr_verdict r' = tr_verdict r \<and> tr_retries r' = tr_retries r \<and> tr_from_cache r' = tr_from_cache r"

definition emitted :: "(transaction \<times> 'w run_state) \<Rightarrow> run_event list \<Rightarrow> run_verdict \<Rightarrow> nat \<Rightarrow> bool \<Rightarrow> bool" where
  "emitted out past v retries cached \<longleftrightarrow>
     rs_log (snd out) = past @ [EvEmit (fst out)] \<and> tr_verdict (fst out) = v \<and> tr_retries (fst out) = retries \<and> tr_from_cache (fst out) = cached"

lemma emitted_settle: "emitted (settle_record ctx r st) (rs_log st) (tr_verdict r) (tr_retries r) (tr_from_cache r)"
  by (simp add: emitted_def settle_record_def Let_def)

lemma emitted_finish: "emitted (emit_and_finish env ctx r st) (rs_log st) (tr_verdict r) (tr_retries r) (tr_from_cache r)"
  using emitted_settle [of ctx r st] by (simp add: emitted_def emit_and_finish_def case_prod_beta Let_def)

lemma run_record_out:
  "tr_verdict (fst (run_record env ctx v n a b st)) = v" "tr_retries (fst (run_record env ctx v n a b st)) = n"
  "\<not> tr_from_cache (fst (run_record env ctx v n a b st))" "rs_log (snd (run_record env ctx v n a b st)) = rs_log st"
  by (simp_all add: run_record_def blank_record_def case_prod_beta Let_def)

text \<open>The post-check: only snapshots, no more than the retries allow, and a pass is that of the last snapshot.\<close>

lemma outside_log: "outside f st = (x, st') \<Longrightarrow> rs_log st' = rs_log st"
  by (metis log_kept(1) snd_conv)

lemma clock_log: "clock env st = (t, st') \<Longrightarrow> rs_log st' = rs_log st"
  by (metis log_kept(2) snd_conv)

definition posts_ok ::
    "'w run_env \<Rightarrow> assertion \<Rightarrow> run_event list \<Rightarrow> nat \<Rightarrow> nat \<Rightarrow> ((string + bool) \<times> nat \<times> evidence option) \<times> 'w run_state \<Rightarrow> bool" where
  "posts_ok env post past remaining attempt out \<longleftrightarrow>
     (\<exists>cxs. rs_log (snd out) = past @ map EvSnapshot cxs \<and> length cxs \<le> Suc remaining \<and> fst (snd (fst out)) \<le> attempt + remaining \<and>
        (fst (fst out) = Inr True \<longrightarrow> cxs \<noteq> [] \<and> ev_passed (evaluate (re_engine env) (last cxs) post)))"

lemma posts_ok_end:
  "rs_log st = past @ map EvSnapshot cxs \<Longrightarrow> length cxs \<le> Suc remaining \<Longrightarrow> n \<le> attempt + remaining \<Longrightarrow>
    (res = Inr True \<Longrightarrow> cxs \<noteq> [] \<and> ev_passed (evaluate (re_engine env) (last cxs) post)) \<Longrightarrow>
    posts_ok env post past remaining attempt ((res, n, e), st)"
  by (auto simp: posts_ok_def)

lemma posts_ok_more:
  assumes "posts_ok env post (past @ [EvSnapshot cx]) remaining (Suc attempt) out"
  shows "posts_ok env post past (Suc remaining) attempt out"
proof -
  obtain cxs where "rs_log (snd out) = (past @ [EvSnapshot cx]) @ map EvSnapshot cxs" "length cxs \<le> Suc remaining"
      "fst (snd (fst out)) \<le> Suc attempt + remaining"
      "fst (fst out) = Inr True \<longrightarrow> cxs \<noteq> [] \<and> ev_passed (evaluate (re_engine env) (last cxs) post)"
    using assms unfolding posts_ok_def by blast
  then show ?thesis unfolding posts_ok_def by (intro exI [of _ "cx # cxs"]) auto
qed

text \<open>The post-check: only snapshots, no more than the retries allow, and a pass is that of the last snapshot.\<close>

lemma post_check_trace: "posts_ok env post (rs_log st) remaining attempt (post_check env post started budget remaining attempt ev st)"
proof (induction remaining arbitrary: attempt ev st)
  case (0 attempt ev st)
  obtain x st1 where o: "outside (re_snapshot env) st = (x, st1)" by fastforce
  show ?case
  proof (cases x)
    case (Inl e)
    then show ?thesis using outside_log [OF o]
      by (subst post_check.simps) (simp add: o, intro posts_ok_end [where cxs = "[]"], simp_all)
  next
    case (Inr cx)
    then show ?thesis using outside_log [OF o]
      by (subst post_check.simps) (simp add: o Let_def, intro conjI impI posts_ok_end [where cxs = "[cx]"], simp_all)
  qed
next
  case (Suc remaining attempt ev st)
  obtain x st1 where o: "outside (re_snapshot env) st = (x, st1)" by fastforce
  show ?case
  proof (cases x)
    case (Inl e)
    then show ?thesis using outside_log [OF o]
      by (subst post_check.simps) (simp add: o, intro posts_ok_end [where cxs = "[]"], simp_all)
  next
    case (Inr cx)
    define st2 where "st2 = snd (outside (\<lambda>w. ((), re_pause env w)) (observe (EvSnapshot cx) st1))"
    have l2: "rs_log st2 = rs_log st @ [EvSnapshot cx]" using outside_log [OF o] by (simp add: st2_def)
    obtain late st3 where w: "wait_over_budget env started budget (backoff_ms attempt) st2 = (late, st3)" by fastforce
    have "rs_log (snd (wait_over_budget env started budget (backoff_ms attempt) st2)) = rs_log st2"
      by (simp add: wait_over_budget_def case_prod_beta split: option.split)
    then have l3: "rs_log st3 = rs_log st @ [EvSnapshot cx]" using w l2 by simp
    obtain d st4 where d: "outside (re_delay env (backoff_ms attempt)) st3 = (d, st4)" by fastforce
    have l4: "rs_log st4 = rs_log st @ [EvSnapshot cx]" using outside_log [OF d] l3 by simp
    let ?r = "evaluate (re_engine env) cx post"
    have step: "post_check env post started budget (Suc remaining) attempt ev st =
        (if ev_passed ?r then ((Inr True, attempt, Some ?r), st2) else if late then ((Inr False, attempt, Some ?r), st3)
         else case d of Some e \<Rightarrow> ((Inl (''delay() threw between retries: '' @ e), attempt, Some ?r), st4)
           | None \<Rightarrow> post_check env post started budget remaining (Suc attempt) (Some ?r) st4)"
      by (subst post_check.simps) (simp add: o Inr Let_def st2_def [symmetric] w d)
    show ?thesis
    proof (cases "ev_passed ?r \<or> late \<or> d \<noteq> None")
      case True
      then show ?thesis unfolding step using l2 l3 l4
        by (auto intro!: posts_ok_end [where cxs = "[cx]"])
    next
      case False
      have "posts_ok env post (rs_log st @ [EvSnapshot cx]) remaining (Suc attempt)
          (post_check env post started budget remaining (Suc attempt) (Some ?r) st4)"
        using Suc.IH [of st4 "Suc attempt" "Some ?r"] l4 by simp
      from posts_ok_more [OF this] show ?thesis using False by (simp add: step)
    qed
  qed
qed


text \<open>The trace of each stage: what it adds to the log before the one record that it emits and returns.\<close>

definition post_events :: "'w run_env \<Rightarrow> contract \<Rightarrow> assertion \<Rightarrow> transaction \<Rightarrow> run_event list \<Rightarrow> bool" where
  "post_events env ct post r evs \<longleftrightarrow>
     (\<exists>cxs. evs = map EvSnapshot cxs \<and> length cxs \<le> Suc (normalize_retry_count (ct_retry ct)) \<and>
        (tr_verdict r = RunSuccess \<longrightarrow> cxs \<noteq> [] \<and> ev_passed (evaluate (re_engine env) (last cxs) post)))"

definition skill_events :: "'w run_env \<Rightarrow> run_ctx \<Rightarrow> assertion \<Rightarrow> transaction \<Rightarrow> run_event list \<Rightarrow> bool" where
  "skill_events env ctx post r evs \<longleftrightarrow>
     (\<exists>posts. evs = EvSkill (rx_signal ctx) # posts \<and> post_events env (rx_contract ctx) post r posts)"

definition guarded_events :: "'w run_env \<Rightarrow> run_ctx \<Rightarrow> assertion \<Rightarrow> transaction \<Rightarrow> run_event list \<Rightarrow> bool" where
  "guarded_events env ctx post r evs \<longleftrightarrow>
     (if ct_critical (rx_contract ctx) then
        (\<exists>answer rest. evs = EvHook answer # rest \<and>
           (if answer = Inr ProceedNow then skill_events env ctx post r rest else rest = [] \<and> tr_verdict r = AbortedByHook))
      else skill_events env ctx post r evs)"

definition checked_events :: "'w run_env \<Rightarrow> run_ctx \<Rightarrow> assertion option \<Rightarrow> assertion \<Rightarrow> transaction \<Rightarrow> run_event list \<Rightarrow> bool" where
  "checked_events env ctx pre post r evs \<longleftrightarrow>
     (case pre of
        None \<Rightarrow> guarded_events env ctx post r evs
      | Some a \<Rightarrow> evs = [] \<and> tr_verdict r = ExecutionError \<or>
          (\<exists>cx rest. evs = EvSnapshot cx # rest \<and>
             (if ev_passed (evaluate (re_engine env) cx a) then guarded_events env ctx post r rest
              else rest = [] \<and> tr_verdict r = PreconditionViolation)))"

text \<open>\<open>out\<close> returns a fresh record, emits it last, and before it adds events that satisfy the predicate.\<close>

definition traced :: "run_event list \<Rightarrow> (transaction \<Rightarrow> run_event list \<Rightarrow> bool) \<Rightarrow> transaction \<times> 'w run_state \<Rightarrow> bool" where
  "traced past Q out \<longleftrightarrow>
     (\<exists>evs. rs_log (snd out) = past @ evs @ [EvEmit (fst out)] \<and> Q (fst out) evs \<and> \<not> tr_from_cache (fst out))"

lemma traced_emitted:
  "emitted out (past @ evs) v n False \<Longrightarrow> (tr_verdict (fst out) = v \<Longrightarrow> Q (fst out) evs) \<Longrightarrow> traced past Q out"
  by (auto simp: emitted_def traced_def)

lemma traced_more:
  "traced (past @ xs) Q out \<Longrightarrow> (\<And>r evs. Q r evs \<Longrightarrow> P r (xs @ evs)) \<Longrightarrow> traced past P out"
  unfolding traced_def by (metis append.assoc)

text \<open>The common ending: a record is made, completed and finished.\<close>

lemma traced_finish:
  assumes "\<And>r. tr_verdict (f r) = tr_verdict r \<and> tr_retries (f r) = tr_retries r \<and> tr_from_cache (f r) = tr_from_cache r"
    and "rs_log st = past @ evs" "\<And>r. tr_verdict r = v \<Longrightarrow> Q r evs"
  shows "traced past Q (case run_record env ctx v n a b st of (r, st) \<Rightarrow> emit_and_finish env ctx (f r) st)"
proof -
  have "emitted (emit_and_finish env ctx (f (fst (run_record env ctx v n a b st))) (snd (run_record env ctx v n a b st)))
      (past @ evs) v n False"
    using emitted_finish [of env ctx "f (fst (run_record env ctx v n a b st))" "snd (run_record env ctx v n a b st)"] assms(1,2)
    by (simp add: run_record_out)
  then show ?thesis using assms(3) by (simp add: case_prod_beta Let_def traced_emitted)
qed

lemma check_outcome_traced:
  "traced (rs_log st) (post_events env (rx_contract ctx) post) (check_outcome env ctx post budget pre_ev result st)"
proof -
  let ?retries = "normalize_retry_count (ct_retry (rx_contract ctx))"
  obtain res n e st' where p: "post_check env post (rx_started ctx) budget ?retries 0 None st = ((res, n, e), st')"
    by (metis prod.collapse)
  then have "posts_ok env post (rs_log st) ?retries 0 ((res, n, e), st')" by (metis post_check_trace)
  then obtain cxs where cxs: "rs_log st' = rs_log st @ map EvSnapshot cxs" "length cxs \<le> Suc ?retries"
      "res = Inr True \<longrightarrow> cxs \<noteq> [] \<and> ev_passed (evaluate (re_engine env) (last cxs) post)"
    by (auto simp: posts_ok_def)
  have fin: "traced (rs_log st) (post_events env (rx_contract ctx) post)
      (case run_record env ctx v n pre_ev e st' of (r, st) \<Rightarrow> emit_and_finish env ctx (f r) st)"
    if "\<And>r. tr_verdict (f r) = tr_verdict r \<and> tr_retries (f r) = tr_retries r \<and> tr_from_cache (f r) = tr_from_cache r"
      "v = RunSuccess \<Longrightarrow> res = Inr True" for v f
    by (rule traced_finish [OF that(1) cxs(1)]) (use cxs that(2) in \<open>auto simp: post_events_def\<close>)
  show ?thesis
  proof (cases res)
    case (Inl msg)
    show ?thesis by (simp add: check_outcome_def p Inl) (rule fin; simp)
  next
    case (Inr ok)
    show ?thesis
    proof (cases ok)
      case True
      show ?thesis by (simp add: check_outcome_def p Inr True) (rule fin; simp add: Inr True)
    next
      case False
      show ?thesis
      proof (cases "ct_escalate (rx_contract ctx)")
        case None
        show ?thesis by (simp add: check_outcome_def p Inr False None) (rule fin; simp)
      next
        case (Some target)
        show ?thesis by (cases target; simp add: check_outcome_def p Inr False Some; rule fin; simp)
      qed
    qed
  qed
qed

lemma execute_skill_traced: "traced (rs_log st) (skill_events env ctx post) (execute_skill env ctx post pre_ev st)"
proof -
  obtain t0 st1 where c1: "clock env st = (t0, st1)" by fastforce
  obtain res st2 where o: "outside (re_skill env (rx_signal ctx)) (observe (EvSkill (rx_signal ctx)) st1) = (res, st2)" by fastforce
  obtain t1 st3 where c2: "clock env st2 = (t1, st3)" by fastforce
  have l2: "rs_log st2 = rs_log st @ [EvSkill (rx_signal ctx)]" using outside_log [OF o] clock_log [OF c1] by simp
  have l3: "rs_log st3 = rs_log st @ [EvSkill (rx_signal ctx)]" using clock_log [OF c2] l2 by simp
  have fin: "traced (rs_log st) (skill_events env ctx post)
      (case run_record env ctx v 0 pre_ev None st' of (r, st) \<Rightarrow> emit_and_finish env ctx (f r) st)"
    if "\<And>r. tr_verdict (f r) = tr_verdict r \<and> tr_retries (f r) = tr_retries r \<and> tr_from_cache (f r) = tr_from_cache r"
      "rs_log st' = rs_log st @ [EvSkill (rx_signal ctx)]" "v \<noteq> RunSuccess" for v f st'
    by (rule traced_finish [OF that(1,2)]) (use that(3) in \<open>auto simp: skill_events_def post_events_def\<close>)
  have post: "traced (rs_log st) (skill_events env ctx post) (check_outcome env ctx post budget pre_ev val st3)" for budget val
  proof (rule traced_more)
    show "traced (rs_log st @ [EvSkill (rx_signal ctx)]) (post_events env (rx_contract ctx) post) (check_outcome env ctx post budget pre_ev val st3)"
      using check_outcome_traced [of st3] l3 by simp
  qed (simp add: skill_events_def)
  show ?thesis
  proof (cases res)
    case (Inl e)
    show ?thesis by (simp add: execute_skill_def Let_def c1 o Inl) (intro conjI impI; rule fin [OF _ l2]; simp)
  next
    case (Inr val)
    show ?thesis
    proof (cases "normalize_budget_ms (ct_wall (rx_contract ctx))")
      case None
      show ?thesis by (simp add: execute_skill_def Let_def c1 o Inr c2 None post)
    next
      case (Some b)
      show ?thesis by (simp add: execute_skill_def Let_def c1 o Inr c2 Some post) (intro impI, rule fin [OF _ l3]; simp)
    qed
  qed
qed

lemma run_guarded_traced: "traced (rs_log st) (guarded_events env ctx post) (run_guarded env ctx post pre_ev st)"
proof (cases "ct_critical (rx_contract ctx)")
  case False
  then show ?thesis
    using execute_skill_traced [of st env ctx post pre_ev] by (simp add: run_guarded_def guarded_events_def [abs_def])
next
  case True
  let ?ct = "rx_contract ctx"
  obtain ans st1 where o: "outside (re_hook env (ct_id ?ct) (default_to (ct_id ?ct) (ct_action ?ct)) pre_ev) st = (ans, st1)" by fastforce
  let ?st2 = "observe (EvHook ans) st1"
  have l: "rs_log ?st2 = rs_log st @ [EvHook ans]" using outside_log [OF o] by simp
  have refuse: "traced (rs_log st) (guarded_events env ctx post)
      (case run_record env ctx AbortedByHook 0 pre_ev None ?st2 of (r, st) \<Rightarrow> settle_record ctx (f r) st)"
    if "\<And>r. tr_verdict (f r) = tr_verdict r \<and> tr_retries (f r) = tr_retries r \<and> tr_from_cache (f r) = tr_from_cache r"
      "ans \<noteq> Inr ProceedNow" for f
  proof -
    let ?rr = "run_record env ctx AbortedByHook 0 pre_ev None ?st2"
    have "emitted (settle_record ctx (f (fst ?rr)) (snd ?rr)) (rs_log st @ [EvHook ans]) AbortedByHook 0 False"
      using emitted_settle [of ctx "f (fst ?rr)" "snd ?rr"] that(1) l by (simp add: run_record_out)
    then show ?thesis
      using True that(2) by (simp add: case_prod_beta Let_def) (rule traced_emitted, auto simp: guarded_events_def)
  qed
  have go: "traced (rs_log st) (guarded_events env ctx post) (execute_skill env ctx post pre_ev ?st2)" if "ans = Inr ProceedNow"
  proof (rule traced_more)
    show "traced (rs_log st @ [EvHook ans]) (skill_events env ctx post) (execute_skill env ctx post pre_ev ?st2)"
      using execute_skill_traced [of ?st2] l by simp
  qed (simp add: guarded_events_def True that)
  show ?thesis
  proof (cases ans)
    case (Inl e)
    show ?thesis by (simp add: run_guarded_def Let_def o Inl True) (rule refuse [simplified Inl]; simp add: Inl)
  next
    case (Inr d)
    show ?thesis
    proof (cases d)
      case ProceedNow
      show ?thesis using go by (simp add: run_guarded_def Let_def o Inr ProceedNow True)
    next
      case (Deny reason)
      show ?thesis by (simp add: run_guarded_def Let_def o Inr Deny True) (rule refuse [simplified Inr Deny]; simp add: Inr Deny)
    next
      case (AwaitHuman token)
      show ?thesis
        by (simp add: run_guarded_def Let_def o Inr AwaitHuman True) (rule refuse [simplified Inr AwaitHuman]; simp add: Inr AwaitHuman)
    qed
  qed
qed


lemma run_checked_traced: "traced (rs_log st) (checked_events env ctx pre post) (run_checked env ctx pre post st)"
proof (cases pre)
  case None
  then show ?thesis
    using run_guarded_traced [of st env ctx post None] by (simp add: run_checked_def checked_events_def [abs_def])
next
  case (Some a)
  obtain x st1 where o: "outside (re_snapshot env) st = (x, st1)" by fastforce
  show ?thesis
  proof (cases x)
    case (Inl e)
    have l: "rs_log st1 = rs_log st @ []" using outside_log [OF o] by simp
    show ?thesis by (simp add: run_checked_def Some o Inl) (rule traced_finish [OF _ l]; simp add: checked_events_def)
  next
    case (Inr cx)
    let ?st2 = "snd (outside (\<lambda>w. ((), re_pause env w)) (observe (EvSnapshot cx) st1))"
    let ?ev = "evaluate (re_engine env) cx a"
    have l: "rs_log ?st2 = rs_log st @ [EvSnapshot cx]" using outside_log [OF o] by simp
    show ?thesis
    proof (cases "ev_passed ?ev")
      case True
      have "traced (rs_log st @ [EvSnapshot cx]) (guarded_events env ctx post) (run_guarded env ctx post (Some ?ev) ?st2)"
        using run_guarded_traced [of ?st2] l by simp
      then have "traced (rs_log st) (checked_events env ctx pre post) (run_guarded env ctx post (Some ?ev) ?st2)"
        by (rule traced_more) (simp add: checked_events_def Some True)
      then show ?thesis by (simp add: run_checked_def Some o Inr Let_def True)
    next
      case False
      have "traced (rs_log st) (checked_events env ctx pre post)
          (case run_record env ctx PreconditionViolation 0 (Some ?ev) None ?st2 of (r, st) \<Rightarrow> emit_and_finish env ctx r st)"
        by (rule traced_finish [OF _ l, where f = "\<lambda>r. r"]) (simp_all add: checked_events_def Some False)
      then show ?thesis by (simp add: run_checked_def Some o Inr Let_def False)
    qed
  qed
qed

lemma checked_None: "checked_events env ctx None post = guarded_events env ctx post"
  by (simp add: checked_events_def fun_eq_iff)

text \<open>A whole fresh run: nothing but the record when the contract is not valid.\<close>

definition run_events :: "'w run_env \<Rightarrow> run_ctx \<Rightarrow> transaction \<Rightarrow> run_event list \<Rightarrow> bool" where
  "run_events env ctx r evs \<longleftrightarrow>
     (if contract_errors (re_engine env) (rx_contract ctx) \<noteq> [] then evs = [] \<and> tr_verdict r = ValidationFailed
      else \<exists>post. validate_assertion (re_engine env) (ct_post (rx_contract ctx)) = Inr post \<and>
        (if ct_pre (rx_contract ctx) = JUndefined then guarded_events env ctx post r evs
         else \<exists>pre. validate_assertion (re_engine env) (ct_pre (rx_contract ctx)) = Inr pre \<and> checked_events env ctx (Some pre) post r evs))"

lemma validate_Inl: "validate_assertion engine v = Inl es \<Longrightarrow> es \<noteq> []"
  by (auto simp: validate_assertion_def case_prod_beta split: if_splits)

lemma validated_read:
  assumes "contract_errors engine ct = []"
  shows "\<exists>post. validate_assertion engine (ct_post ct) = Inr post \<and> read_assertion engine (ct_post ct) = Some post"
    and "ct_pre ct \<noteq> JUndefined \<Longrightarrow> \<exists>pre. validate_assertion engine (ct_pre ct) = Inr pre \<and> read_assertion engine (ct_pre ct) = Some pre"
  using assms validate_Inl [of engine "ct_post ct"] validate_Inl [of engine "ct_pre ct"]
  by (auto simp: contract_errors_def read_assertion_def split: sum.splits if_splits)

lemma events_hash [simp]:
  "checked_events env (ctx\<lparr>rx_hash := h\<rparr>) pre post = checked_events env ctx pre post"
  by (simp add: checked_events_def guarded_events_def skill_events_def fun_eq_iff cong: option.case_cong)

lemma run_validated_traced: "traced (rs_log st) (run_events env ctx) (run_validated env ctx st)"
proof (cases "contract_errors (re_engine env) (rx_contract ctx) = []")
  case False
  have l: "rs_log st = rs_log st @ []" by simp
  show ?thesis
    by (simp add: run_validated_def Let_def False) (rule traced_finish [OF _ l]; simp add: run_events_def False)
next
  case True
  obtain hashed st1 where h: "(case re_hash env of None \<Rightarrow> (None, st) | Some f \<Rightarrow> outside f st) = (hashed, st1)" by fastforce
  then have l: "rs_log st1 = rs_log st" by (auto dest: outside_log split: option.splits)
  obtain post where post: "validate_assertion (re_engine env) (ct_post (rx_contract ctx)) = Inr post"
      "read_assertion (re_engine env) (ct_post (rx_contract ctx)) = Some post"
    using validated_read(1) [OF True] by blast
  define pre where "pre = (if ct_pre (rx_contract ctx) = JUndefined then None else read_assertion (re_engine env) (ct_pre (rx_contract ctx)))"
  let ?ctx = "ctx\<lparr>rx_hash := (case hashed of None \<Rightarrow> None | Some v \<Rightarrow> state_hash_of v)\<rparr>"
  have "traced (rs_log st) (checked_events env ctx pre post) (run_checked env ?ctx pre post st1)"
    using run_checked_traced [of st1 env ?ctx pre post] l by simp
  moreover have "checked_events env ctx pre post r evs \<Longrightarrow> run_events env ctx r evs" for r evs
    using validated_read(2) [OF True] post by (auto simp: run_events_def True pre_def checked_None)
  ultimately have "traced (rs_log st) (run_events env ctx) (run_checked env ?ctx pre post st1)"
    unfolding traced_def by blast
  then show ?thesis by (simp add: run_validated_def Let_def True h post(2) pre_def [symmetric])
qed


lemma run_traced:
  assumes "re_enabled env" "run_with_contract env args st = (r, st')"
  shows "(tr_from_cache r \<and> rs_log st' = rs_log st @ [EvEmit r]) \<or>
    (\<exists>ctx. rx_contract ctx = ra_contract args \<and> traced (rs_log st) (run_events env ctx) (r, st'))"
proof -
  obtain started st1 where c1: "clock env st = (started, st1)" by fastforce
  obtain txn w where u: "re_uuid env (rs_world st1) = (txn, w)" by fastforce
  let ?st2 = "st1\<lparr>rs_world := w\<rparr>" and ?ctx = "new_ctx args txn started"
  have l2: "rs_log ?st2 = rs_log st" using clock_log [OF c1] by simp
  have ctx: "rx_contract ?ctx = ra_contract args" by (simp add: new_ctx_def)
  show ?thesis
  proof (cases "ra_cached args")
    case False
    then have "run_validated env ?ctx ?st2 = (r, st')" using assms by (simp add: run_with_contract_def Let_def c1 u)
    then have "traced (rs_log st) (run_events env ?ctx) (r, st')" using run_validated_traced [of ?st2 env ?ctx] l2 by simp
    then show ?thesis using ctx by blast
  next
    case True
    let ?key = "run_key (re_stringify env) (re_digest env) (ct_id (ra_contract args)) (ra_args args)"
    obtain signal st3 where reg: "with_cache (register_inflight ?key (rx_epoch ?ctx) txn) ?st2 = (signal, st3)" by fastforce
    let ?ctx' = "?ctx\<lparr>rx_key := Some ?key, rx_signal := Some signal\<rparr>"
    obtain t st4 where c2: "clock env st3 = (t, st4)" by fastforce
    obtain hit st5 where look: "with_cache (rc_lookup ?key t) st4 = (hit, st5)" by fastforce
    have "rs_log st3 = rs_log st" using l2 reg by (metis log_kept(3) snd_conv)
    then have l5: "rs_log st5 = rs_log st" using clock_log [OF c2] look by (metis log_kept(3) snd_conv)
    have run: "(r, st') = (case hit of Some h \<Rightarrow> emit_and_finish env ?ctx' (h\<lparr>tr_from_cache := True\<rparr>) st5 | None \<Rightarrow> run_validated env ?ctx' st5)"
      using assms True by (simp add: run_with_contract_def Let_def c1 u reg c2 look)
    show ?thesis
    proof (cases hit)
      case None
      have "traced (rs_log st) (run_events env ?ctx') (r, st')" using run_validated_traced [of st5 env ?ctx'] l5 by (simp add: run None)
      then show ?thesis using ctx by fastforce
    next
      case (Some h)
      have "emitted (r, st') (rs_log st) (tr_verdict h) (tr_retries h) True"
        using emitted_finish [of env ?ctx' "h\<lparr>tr_from_cache := True\<rparr>" st5] l5 by (simp add: run Some)
      then show ?thesis by (simp add: emitted_def)
    qed
  qed
qed

fun is_skill :: "run_event \<Rightarrow> bool" where "is_skill (EvSkill _) = True" | "is_skill _ = False"
fun is_snapshot :: "run_event \<Rightarrow> bool" where "is_snapshot (EvSnapshot _) = True" | "is_snapshot _ = False"
fun is_emit :: "run_event \<Rightarrow> bool" where "is_emit (EvEmit _) = True" | "is_emit _ = False"

definition bounded_events :: "contract \<Rightarrow> nat \<Rightarrow> run_event list \<Rightarrow> bool" where
  "bounded_events ct k evs \<longleftrightarrow> list_all (\<lambda>e. \<not> is_emit e) evs \<and> length (filter is_skill evs) \<le> 1 \<and>
     length (filter is_snapshot evs) \<le> normalize_retry_count (ct_retry ct) + k"

lemma snapshots_only: "filter is_skill (map EvSnapshot cxs) = []" "filter is_snapshot (map EvSnapshot cxs) = map EvSnapshot cxs"
  "list_all (\<lambda>e. \<not> is_emit e) (map EvSnapshot cxs)"
  by (induction cxs) simp_all

lemma bounded_skill: "skill_events env ctx post r evs \<Longrightarrow> bounded_events (rx_contract ctx) 1 evs"
  by (auto simp: skill_events_def post_events_def bounded_events_def snapshots_only)

lemma bounded_guarded: "guarded_events env ctx post r evs \<Longrightarrow> bounded_events (rx_contract ctx) 1 evs"
  using bounded_skill by (fastforce simp: guarded_events_def bounded_events_def split: if_splits)

lemma bounded_checked: "checked_events env ctx pre post r evs \<Longrightarrow> bounded_events (rx_contract ctx) 2 evs"
  using bounded_guarded by (fastforce simp: checked_events_def bounded_events_def split: if_splits option.splits)

lemma bounded_run: "run_events env ctx r evs \<Longrightarrow> bounded_events (rx_contract ctx) 2 evs"
  using bounded_guarded bounded_checked by (fastforce simp: run_events_def bounded_events_def split: if_splits)


text \<open>What comes before the skill.\<close>

definition before_skill :: "run_event list \<Rightarrow> run_event list" where
  "before_skill evs = takeWhile (\<lambda>e. \<not> is_skill e) evs"

lemma before_skill_simps [simp]:
  "before_skill (EvSkill sig # evs) = []" "before_skill (EvHook a # evs) = EvHook a # before_skill evs"
  "before_skill (EvSnapshot cx # evs) = EvSnapshot cx # before_skill evs" "before_skill [EvEmit r] = [EvEmit r]"
  by (simp_all add: before_skill_def)

text \<open>The run reached its skill under what the contract demands: its precondition and the consent of the hook.\<close>

definition hook_ok :: "contract \<Rightarrow> run_event list \<Rightarrow> bool" where
  "hook_ok ct before \<longleftrightarrow> (ct_critical ct \<longrightarrow> EvHook (Inr ProceedNow) \<in> set before)"

definition pre_ok :: "'w run_env \<Rightarrow> contract \<Rightarrow> run_event list \<Rightarrow> bool" where
  "pre_ok env ct before \<longleftrightarrow> (ct_pre ct \<noteq> JUndefined \<longrightarrow>
     (\<exists>pre cx. validate_assertion (re_engine env) (ct_pre ct) = Inr pre \<and> EvSnapshot cx \<in> set before \<and>
        ev_passed (evaluate (re_engine env) cx pre)))"

lemma guarded_hook:
  "guarded_events env ctx post r evs \<Longrightarrow> filter is_skill evs \<noteq> [] \<Longrightarrow> hook_ok (rx_contract ctx) (before_skill (evs @ later))"
  by (auto simp: guarded_events_def hook_ok_def skill_events_def split: if_splits)

lemma run_pre_hook:
  assumes "run_events env ctx r evs" "filter is_skill evs \<noteq> []"
  shows "contract_errors (re_engine env) (rx_contract ctx) = [] \<and> pre_ok env (rx_contract ctx) (before_skill (evs @ later)) \<and>
    hook_ok (rx_contract ctx) (before_skill (evs @ later))"
proof -
  have valid: "contract_errors (re_engine env) (rx_contract ctx) = []"
    using assms by (auto simp: run_events_def split: if_splits)
  show ?thesis
  proof (cases "ct_pre (rx_contract ctx) = JUndefined")
    case True
    then show ?thesis using assms valid guarded_hook by (auto simp: run_events_def pre_ok_def)
  next
    case False
    then obtain pre post where pre: "validate_assertion (re_engine env) (ct_pre (rx_contract ctx)) = Inr pre"
        and c: "checked_events env ctx (Some pre) post r evs"
      using assms(1) valid by (auto simp: run_events_def)
    then obtain cx rest where evs: "evs = EvSnapshot cx # rest" and ok: "ev_passed (evaluate (re_engine env) cx pre)"
        and g: "guarded_events env ctx post r rest"
      using assms(2) by (auto simp: checked_events_def split: if_splits)
    have "hook_ok (rx_contract ctx) (before_skill (rest @ later))" using g assms(2) evs by (intro guarded_hook) simp_all
    then have "hook_ok (rx_contract ctx) (before_skill (evs @ later))" by (simp add: evs hook_ok_def)
    moreover have "pre_ok env (rx_contract ctx) (before_skill (evs @ later))" using pre ok by (auto simp: pre_ok_def evs)
    ultimately show ?thesis using valid by simp
  qed
qed

text \<open>C24 (safety). The skill of a contract runs only when the contract is valid, its precondition passed on a snapshot taken
  before, and, when the contract is critical, the operator's hook let it proceed.\<close>

theorem skill_runs_guarded:
  assumes "re_enabled env" "run_with_contract env args st = (r, st')" "rs_log st' = rs_log st @ before @ EvSkill sig # after"
  shows "contract_errors (re_engine env) (ra_contract args) = [] \<and>
    (ct_pre (ra_contract args) \<noteq> JUndefined \<longrightarrow>
       (\<exists>pre cx. validate_assertion (re_engine env) (ct_pre (ra_contract args)) = Inr pre \<and>
          EvSnapshot cx \<in> set before \<and> ev_passed (evaluate (re_engine env) cx pre))) \<and>
    (ct_critical (ra_contract args) \<longrightarrow> EvHook (Inr ProceedNow) \<in> set before)"
proof -
  have "\<not> (tr_from_cache r \<and> rs_log st' = rs_log st @ [EvEmit r])"
    using assms(3) by (auto simp: append_eq_Cons_conv Cons_eq_append_conv)
  then obtain ctx evs where ctx: "rx_contract ctx = ra_contract args" and run: "run_events env ctx r evs"
      and log: "rs_log st' = rs_log st @ evs @ [EvEmit r]"
    using run_traced [OF assms(1,2)] by (auto simp: traced_def)
  have eq: "evs @ [EvEmit r] = before @ EvSkill sig # after" using log assms(3) by simp
  have "filter is_skill (evs @ [EvEmit r]) = filter is_skill before @ EvSkill sig # filter is_skill after" unfolding eq by simp
  then have f: "filter is_skill evs = filter is_skill before @ EvSkill sig # filter is_skill after" by simp
  moreover have "length (filter is_skill evs) \<le> 1" using bounded_run [OF run] by (simp add: bounded_events_def)
  ultimately have "filter is_skill before = []" by simp
  then have "before_skill (evs @ [EvEmit r]) = before"
    unfolding eq before_skill_def by (induction before) (auto split: if_splits)
  then show ?thesis
    using run_pre_hook [OF run, of "[EvEmit r]"] f by (simp add: ctx pre_ok_def hook_ok_def)
qed

lemma pass_is_true: "ev_passed (evaluate engine cx a) \<Longrightarrow> truth engine cx v a"
  using evaluate_sound_all(1) [of engine cx a] by (auto simp: sound_verdict_def)

text \<open>C25 (functional). A fresh run that reports success has run its skill, and the last snapshot it took made the postcondition
  true, whatever the leaves that could not be observed would have been.\<close>

theorem success_means_postcondition:
  assumes "re_enabled env" "run_with_contract env args st = (r, st')" "tr_verdict r = RunSuccess" "\<not> tr_from_cache r"
  shows "\<exists>post before sig cxs. validate_assertion (re_engine env) (ct_post (ra_contract args)) = Inr post \<and>
    rs_log st' = rs_log st @ before @ EvSkill sig # map EvSnapshot cxs @ [EvEmit r] \<and> cxs \<noteq> [] \<and>
    (\<forall>v. truth (re_engine env) (last cxs) v post)"
proof -
  obtain ctx evs where ctx: "rx_contract ctx = ra_contract args" and run: "run_events env ctx r evs"
      and log: "rs_log st' = rs_log st @ evs @ [EvEmit r]"
    using run_traced [OF assms(1,2)] assms(4) by (auto simp: traced_def)
  have guarded: "\<exists>before sig cxs. evs = before @ EvSkill sig # map EvSnapshot cxs \<and> cxs \<noteq> [] \<and>
      ev_passed (evaluate (re_engine env) (last cxs) post)" if g: "guarded_events env ctx post r evs" for evs post
  proof (cases "ct_critical (rx_contract ctx)")
    case True
    then obtain a rest where "evs = EvHook a # rest" "skill_events env ctx post r rest"
      using g assms(3) by (auto simp: guarded_events_def split: if_splits)
    then show ?thesis using assms(3) by (auto simp: skill_events_def post_events_def intro!: exI [of _ "[EvHook a]"])
  next
    case False
    then obtain cxs where "evs = [] @ EvSkill (rx_signal ctx) # map EvSnapshot cxs" "cxs \<noteq> []"
        "ev_passed (evaluate (re_engine env) (last cxs) post)"
      using g assms(3) by (auto simp: guarded_events_def skill_events_def post_events_def)
    then show ?thesis by blast
  qed
  obtain post where post: "validate_assertion (re_engine env) (ct_post (ra_contract args)) = Inr post"
      and "\<exists>before sig cxs. evs = before @ EvSkill sig # map EvSnapshot cxs \<and> cxs \<noteq> [] \<and> ev_passed (evaluate (re_engine env) (last cxs) post)"
  proof (cases "ct_pre (rx_contract ctx) = JUndefined")
    case True
    then show ?thesis using that run assms(3) guarded ctx by (fastforce simp: run_events_def split: if_splits)
  next
    case False
    then obtain pre post cx rest where "validate_assertion (re_engine env) (ct_post (ra_contract args)) = Inr post"
        "evs = EvSnapshot cx # rest" "guarded_events env ctx post r rest"
      using run assms(3) ctx by (auto simp: run_events_def checked_events_def split: if_splits)
    then show ?thesis using that guarded [of post rest] by (metis append_Cons)
  qed
  then show ?thesis using log pass_is_true by (metis append.assoc append_Cons)
qed


section \<open>Witnesses and a leak\<close>

text \<open>A page without dialogs, a hook that answers \<open>answer\<close>, a skill that returns; the clock is the world.\<close>

definition run_demo_env :: "string + decision \<Rightarrow> int run_env" where
  "run_demo_env answer = \<lparr>re_enabled = True, re_engine = (\<lambda>_. None), re_stringify = (\<lambda>_. []), re_digest = id,
     re_uuid = (\<lambda>w. (''txn'', w)), re_now = (\<lambda>w. (w, w + 1)), re_snapshot = (\<lambda>w. (Inr sample_context, w)), re_pause = id,
     re_hook = (\<lambda>_ _ _ w. (answer, w)), re_skill = (\<lambda>_ w. (Inr JNull, w)), re_delay = (\<lambda>_ w. (None, w)), re_hash = None\<rparr>"

definition demo_args :: run_args where
  "demo_args = \<lparr>ra_contract = \<lparr>ct_id = ''pay'', ct_pre = json_of (Leaf NoDialog),
       ct_post = json_of (Leaf NoDialog), ct_retry = JUndefined, ct_escalate = None, ct_wall = JUndefined,
       ct_domain = None, ct_critical = True, ct_action = None\<rparr>,
     ra_cached = True, ra_args = JNull, ra_epoch = Fin 1, ra_ttl = None\<rparr>"

definition run_demo_start :: "int run_state" where
  "run_demo_start = \<lparr>rs_cache = new_run_cache, rs_world = 0, rs_log = []\<rparr>"

lemma demo_contract: "validate_assertion (\<lambda>_. None) (json_of (Leaf NoDialog)) = Inr (Leaf NoDialog)"
  using walk_json [of "\<lambda>_. None" "Leaf NoDialog" "''$''"] by (simp add: validate_assertion_def)

lemma demo_pass: "ev_passed (evaluate (\<lambda>_. None) sample_context (Leaf NoDialog))"
  by (simp add: guard_errors_def evaluate_no_dialog_def try_hook_def sample_context_def decided_def no_error_def)

lemma demo_present: "json_of (Leaf NoDialog) \<noteq> JUndefined"
  by simp

lemmas demo_defs = run_demo_env_def demo_args_def run_demo_start_def run_with_contract_def new_ctx_def clock_def with_cache_def
  run_validated_def contract_errors_def read_assertion_def run_checked_def outside_def observe_def run_guarded_def
  execute_skill_def check_outcome_def normalize_budget_ms_def normalize_retry_count_def as_number_def
  register_inflight_def install_run_def new_signal_def new_run_cache_def rc_lookup_def

definition demo_run :: "string + decision \<Rightarrow> transaction \<times> int run_state" where
  "demo_run answer = run_with_contract (run_demo_env answer) demo_args run_demo_start"

lemmas demo_ends = run_record_def blank_record_def emit_and_finish_def settle_record_def finish_cache_def rc_record_def release_inflight_def

lemma demo_proceeds:
  "rs_log (snd (demo_run (Inr ProceedNow))) =
     [EvSnapshot sample_context, EvHook (Inr ProceedNow), EvSkill (Some 0), EvSnapshot sample_context, EvEmit (fst (demo_run (Inr ProceedNow)))]"
  "tr_verdict (fst (demo_run (Inr ProceedNow))) = RunSuccess" "\<not> tr_from_cache (fst (demo_run (Inr ProceedNow)))"
  by (simp_all add: demo_run_def demo_defs demo_ends demo_contract demo_pass demo_present Let_def post_check.simps
      del: json_of.simps evaluate.simps)


theorem skill_runs_guarded_witness:
  "EvHook (Inr ProceedNow) \<in> set [EvSnapshot sample_context, EvHook (Inr ProceedNow)]"
proof -
  have on: "re_enabled (run_demo_env (Inr ProceedNow))" by (simp add: run_demo_env_def)
  have run: "run_with_contract (run_demo_env (Inr ProceedNow)) demo_args run_demo_start = (fst (demo_run (Inr ProceedNow)), snd (demo_run (Inr ProceedNow)))"
    by (simp add: demo_run_def)
  have "rs_log (snd (demo_run (Inr ProceedNow))) = rs_log run_demo_start @ [EvSnapshot sample_context, EvHook (Inr ProceedNow)] @
      EvSkill (Some 0) # [EvSnapshot sample_context, EvEmit (fst (demo_run (Inr ProceedNow)))]"
    by (simp add: demo_proceeds run_demo_start_def)
  from skill_runs_guarded [OF on run this] show ?thesis by (simp only: demo_args_def run_args.simps contract.simps simp_thms)
qed

theorem success_means_postcondition_witness:
  "\<exists>cxs. cxs \<noteq> [] \<and> map EvSnapshot cxs = [EvSnapshot sample_context] \<and> (\<forall>v. truth (\<lambda>_. None) (last cxs) v (Leaf NoDialog))"
proof -
  have on: "re_enabled (run_demo_env (Inr ProceedNow))" by (simp add: run_demo_env_def)
  have run: "run_with_contract (run_demo_env (Inr ProceedNow)) demo_args run_demo_start = (fst (demo_run (Inr ProceedNow)), snd (demo_run (Inr ProceedNow)))"
    by (simp add: demo_run_def)
  obtain post before sig cxs where "validate_assertion (\<lambda>_. None) (json_of (Leaf NoDialog)) = Inr post" "cxs \<noteq> []"
      "rs_log (snd (demo_run (Inr ProceedNow))) = before @ EvSkill sig # map EvSnapshot cxs @ [EvEmit (fst (demo_run (Inr ProceedNow)))]"
      "\<forall>v. truth (\<lambda>_. None) (last cxs) v post"
    using success_means_postcondition [OF on run demo_proceeds(2,3)] by (auto simp: run_demo_env_def demo_args_def run_demo_start_def simp del: json_of.simps)
  then show ?thesis
    using demo_contract by (auto simp: demo_proceeds(1) Cons_eq_append_conv append_eq_Cons_conv map_eq_Cons_conv simp del: json_of.simps)
qed

text \<open>A refusal of the hook leaves the run registered in the cache: it is the one outcome that does not go through
  \<open>finishCache\<close>, although every other releases the epoch.\<close>

lemma refused_run_stays_registered:
  "jget (rc_inflight (rs_cache (snd (demo_run (Inr (Deny ''no'')))))) (run_key (\<lambda>_. []) id ''pay'' JNull)
     = Some \<lparr>if_epoch = 1, if_signal = 0, if_promise = ''txn''\<rparr>"
  "rc_inflight (rs_cache (snd (demo_run (Inr ProceedNow)))) = []"
  by (simp_all add: demo_run_def demo_defs demo_ends demo_contract demo_pass demo_present Let_def post_check.simps
      del: json_of.simps evaluate.simps)

end
