(* ===== verification/Request_Queue.thy ===== *)
theory Request_Queue
  imports Js_Strings "HOL-Library.Multiset"
begin

text \<open>
  The per-session request queue, \<open>src/src/session/request-queue.ts\<close>. A queued item is its number. The part of
  an item's function that runs before its first await is on the call stack (\<open>rq_stack\<close>); the flag of an entry
  says that the loop was entered by \<open>triggerProcessing\<close>, which records the promise of the loop only when the loop
  comes back to it. An item whose result the loop awaits is in \<open>rq_awaiting\<close>; an item whose function has not
  settled is in \<open>rq_running\<close>, also after its time limit. Steps are the turns of the event loop.
\<close>

section \<open>State\<close>

datatype settlement = Result nat | Failed string

record request_queue =
  rq_queue :: "nat list"
  rq_stack :: "(nat \<times> bool) list"
  rq_awaiting :: "nat list"
  rq_promise :: bool
  rq_running :: "nat list"
  rq_started :: "nat list"
  rq_settled :: "(nat \<times> settlement) list"
  rq_next :: nat

definition new_request_queue :: request_queue where
  "new_request_queue = \<lparr>rq_queue = [], rq_stack = [], rq_awaiting = [], rq_promise = False, rq_running = [],
     rq_started = [], rq_settled = [], rq_next = 0\<rparr>"

definition queue_item_timeout :: int where "queue_item_timeout = 120000"

section \<open>Operations\<close>

text \<open>The head of the loop of \<open>processQueue\<close>, up to the call of the next function or the end of the loop.\<close>

definition process_queue :: "bool \<Rightarrow> request_queue \<Rightarrow> request_queue" where
  "process_queue triggered q =
     (case rq_queue q of
        [] \<Rightarrow> q\<lparr>rq_promise := triggered\<rparr>
      | x # xs \<Rightarrow> q\<lparr>rq_queue := xs, rq_stack := (x, triggered) # rq_stack q, rq_running := x # rq_running q,
                   rq_started := rq_started q @ [x]\<rparr>)"

definition trigger_processing :: "request_queue \<Rightarrow> request_queue" where
  "trigger_processing q = (if rq_promise q then q else process_queue True q)"

definition rq_enqueue :: "request_queue \<Rightarrow> request_queue" where
  "rq_enqueue q = trigger_processing (q\<lparr>rq_queue := rq_queue q @ [rq_next q], rq_next := Suc (rq_next q)\<rparr>)"

text \<open>The function on top of the stack returns its promise: the loop awaits it, and \<open>triggerProcessing\<close> gets the
  promise of the loop.\<close>

definition fn_returns :: "request_queue \<Rightarrow> request_queue" where
  "fn_returns q =
     (case rq_stack q of
        [] \<Rightarrow> q
      | (x, triggered) # stack \<Rightarrow> q\<lparr>rq_stack := stack, rq_awaiting := x # rq_awaiting q, rq_promise := rq_promise q \<or> triggered\<rparr>)"

definition settle_item :: "nat \<Rightarrow> settlement \<Rightarrow> request_queue \<Rightarrow> request_queue" where
  "settle_item x out q =
     process_queue False (q\<lparr>rq_awaiting := remove1 x (rq_awaiting q), rq_settled := rq_settled q @ [(x, out)]\<rparr>)"

definition fn_settles :: "nat \<Rightarrow> settlement \<Rightarrow> request_queue \<Rightarrow> request_queue" where
  "fn_settles x out q =
     (if rq_stack q = [] \<and> x \<in> set (rq_running q) then
        (let q' = q\<lparr>rq_running := remove1 x (rq_running q)\<rparr> in
         if x \<in> set (rq_awaiting q) then settle_item x out q' else q')
      else q)"

definition times_out :: "nat \<Rightarrow> request_queue \<Rightarrow> request_queue" where
  "times_out x q =
     (if rq_stack q = [] \<and> x \<in> set (rq_awaiting q)
      then settle_item x (Failed (''Queue item timed out after '' @ int_str queue_item_timeout @ ''ms'')) q
      else q)"

definition rq_clear :: "request_queue \<Rightarrow> request_queue" where
  "rq_clear q = q\<lparr>rq_settled := rq_settled q @ map (\<lambda>x. (x, Failed ''Queue cleared'')) (rq_queue q), rq_queue := []\<rparr>"

definition rq_pending :: "request_queue \<Rightarrow> nat" where
  "rq_pending q = length (rq_queue q)"

definition rq_is_processing :: "request_queue \<Rightarrow> bool" where
  "rq_is_processing q = rq_promise q"

datatype request_op = Enqueue | Fn_returns | Fn_settles nat settlement | Times_out nat | Clear

fun request_step :: "request_queue \<Rightarrow> request_op \<Rightarrow> request_queue" where
  "request_step q Enqueue = rq_enqueue q"
| "request_step q Fn_returns = fn_returns q"
| "request_step q (Fn_settles x out) = fn_settles x out q"
| "request_step q (Times_out x) = times_out x q"
| "request_step q Clear = rq_clear q"

section \<open>The queues of all sessions\<close>

text \<open>A queue is an object: a deleted one keeps running what it started. The map holds references.\<close>

record queue_manager =
  qm_heap :: "request_queue list"
  qm_queues :: "(string, nat) jmap"

definition new_queue_manager :: queue_manager where
  "new_queue_manager = \<lparr>qm_heap = [], qm_queues = []\<rparr>"

definition get_queue :: "string \<Rightarrow> queue_manager \<Rightarrow> nat \<times> queue_manager" where
  "get_queue sid m =
     (case jget (qm_queues m) sid of
        Some r \<Rightarrow> (r, m)
      | None \<Rightarrow> (let r = length (qm_heap m) in (r, m\<lparr>qm_heap := qm_heap m @ [new_request_queue], qm_queues := jset sid r (qm_queues m)\<rparr>)))"

definition qm_enqueue :: "string \<Rightarrow> queue_manager \<Rightarrow> nat \<times> queue_manager" where
  "qm_enqueue sid m =
     (let (r, m') = get_queue sid m in (r, m'\<lparr>qm_heap := (qm_heap m')[r := rq_enqueue (qm_heap m' ! r)]\<rparr>))"

definition delete_queue :: "string \<Rightarrow> queue_manager \<Rightarrow> queue_manager" where
  "delete_queue sid m =
     (case jget (qm_queues m) sid of
        None \<Rightarrow> m
      | Some r \<Rightarrow> m\<lparr>qm_heap := (qm_heap m)[r := rq_clear (qm_heap m ! r)], qm_queues := jdel sid (qm_queues m)\<rparr>)"

definition qm_stats :: "queue_manager \<Rightarrow> (string, nat \<times> bool) jmap" where
  "qm_stats m = jmapv (\<lambda>r. (rq_pending (qm_heap m ! r), rq_is_processing (qm_heap m ! r))) (qm_queues m)"

text \<open>A step of one queue object, wherever it is in the heap.\<close>

definition qm_step :: "nat \<Rightarrow> request_op \<Rightarrow> queue_manager \<Rightarrow> queue_manager" where
  "qm_step r op m = m\<lparr>qm_heap := (qm_heap m)[r := request_step (qm_heap m ! r) op]\<rparr>"

lemmas request_defs = process_queue_def trigger_processing_def rq_enqueue_def fn_returns_def settle_item_def
  fn_settles_def times_out_def rq_clear_def new_request_queue_def

section \<open>Every item is settled once, in order, and none is stranded\<close>

definition rq_busy :: "request_queue \<Rightarrow> bool" where
  "rq_busy q \<longleftrightarrow> rq_stack q \<noteq> [] \<or> rq_awaiting q \<noteq> []"

definition rq_places :: "request_queue \<Rightarrow> nat list" where
  "rq_places q = rq_queue q @ map fst (rq_stack q) @ rq_awaiting q @ map fst (rq_settled q)"

definition rq_inv :: "request_queue \<Rightarrow> bool" where
  "rq_inv q \<longleftrightarrow> sorted_wrt (<) (rq_started q @ rq_queue q) \<and> (\<forall>x \<in> set (rq_started q @ rq_queue q). x < rq_next q) \<and>
     mset (rq_places q) = mset [0..<rq_next q] \<and> (rq_promise q \<or> rq_queue q \<noteq> [] \<longrightarrow> rq_busy q)"

definition loop_ready :: "request_queue \<Rightarrow> bool" where
  "loop_ready q \<longleftrightarrow> sorted_wrt (<) (rq_started q @ rq_queue q) \<and> (\<forall>x \<in> set (rq_started q @ rq_queue q). x < rq_next q) \<and>
     mset (rq_places q) = mset [0..<rq_next q]"

lemma rq_inv_loop_ready: "rq_inv q \<longleftrightarrow> loop_ready q \<and> (rq_promise q \<or> rq_queue q \<noteq> [] \<longrightarrow> rq_busy q)"
  by (simp add: rq_inv_def loop_ready_def)

lemma rq_inv_new: "rq_inv new_request_queue"
  by (simp add: rq_inv_def new_request_queue_def rq_places_def)

lemma process_queue_inv:
  assumes "loop_ready q" "triggered \<longrightarrow> rq_queue q \<noteq> []"
  shows "rq_inv (process_queue triggered q)"
proof (cases "rq_queue q")
  case Nil
  then show ?thesis using assms by (simp add: rq_inv_loop_ready process_queue_def loop_ready_def rq_places_def)
next
  case (Cons x xs)
  then show ?thesis using assms
    by (simp add: rq_inv_loop_ready process_queue_def loop_ready_def rq_places_def rq_busy_def)
qed

lemma rq_enqueue_inv: "rq_inv q \<Longrightarrow> rq_inv (rq_enqueue q)"
proof -
  assume inv: "rq_inv q"
  let ?q = "q\<lparr>rq_queue := rq_queue q @ [rq_next q], rq_next := Suc (rq_next q)\<rparr>"
  have ready: "loop_ready ?q"
    using inv by (auto simp: rq_inv_def loop_ready_def rq_places_def sorted_wrt_append less_Suc_eq)
  show ?thesis
  proof (cases "rq_promise q")
    case True
    then have "rq_busy q" using inv by (simp add: rq_inv_def)
    then show ?thesis using True ready
      by (simp add: rq_enqueue_def trigger_processing_def rq_inv_loop_ready rq_busy_def)
  next
    case False
    then show ?thesis using process_queue_inv [OF ready, of True] by (simp add: rq_enqueue_def trigger_processing_def)
  qed
qed

lemma fn_returns_inv: "rq_inv q \<Longrightarrow> rq_inv (fn_returns q)"
  by (auto simp: rq_inv_def fn_returns_def rq_places_def rq_busy_def split: list.splits prod.splits)

lemma settle_item_inv: "rq_inv q \<Longrightarrow> x \<in> set (rq_awaiting q) \<Longrightarrow> rq_inv (settle_item x out q)"
  unfolding settle_item_def
  by (rule process_queue_inv) (auto simp: rq_inv_def loop_ready_def rq_places_def)

lemma rq_inv_running [simp]: "rq_inv (q\<lparr>rq_running := xs\<rparr>) = rq_inv q"
  by (simp add: rq_inv_def rq_places_def rq_busy_def)

lemma rq_clear_inv: "rq_inv q \<Longrightarrow> rq_inv (rq_clear q)"
  by (auto simp: rq_inv_def rq_clear_def rq_places_def rq_busy_def sorted_wrt_append comp_def add_ac)

lemma request_step_inv: "rq_inv q \<Longrightarrow> rq_inv (request_step q op)"
  by (cases op)
    (simp_all add: rq_enqueue_inv fn_returns_inv fn_settles_def times_out_def rq_clear_inv settle_item_inv Let_def)

interpretation rq: machine request_step rq_inv
  by unfold_locales (rule request_step_inv)

lemma request_run_inv: "rq_inv (foldl request_step new_request_queue ops)"
  by (rule rq.run_inv) (rule rq_inv_new)

lemma rq_inv_places:
  assumes "rq_inv q"
  shows "distinct (rq_places q)" "set (rq_places q) = {0..<rq_next q}"
proof -
  have "mset (rq_places q) = mset [0..<rq_next q]" using assms by (simp add: rq_inv_def)
  then show "distinct (rq_places q)" "set (rq_places q) = {0..<rq_next q}"
    by (metis distinct_upt mset_eq_imp_distinct_iff, metis atLeastLessThan_upt mset_eq_setD)
qed

text \<open>Whatever the calls, the functions and the timers do, also when a function enqueues on its own
  queue before it returns: every item is in exactly one of waiting, being processed and settled, so none is settled
  twice; the items start in the order in which they were enqueued; and a waiting item always has a loop that is busy, so
  none is stranded.\<close>

theorem no_request_lost:
  "\<forall>ops. let q = foldl request_step new_request_queue ops in
     distinct (rq_places q) \<and> set (rq_places q) = {0..<rq_next q} \<and> sorted_wrt (<) (rq_started q @ rq_queue q) \<and>
     (rq_queue q = [] \<or> rq_busy q)"
proof
  fix ops
  have "rq_inv (foldl request_step new_request_queue ops)" by (rule request_run_inv)
  then show "let q = foldl request_step new_request_queue ops in
     distinct (rq_places q) \<and> set (rq_places q) = {0..<rq_next q} \<and> sorted_wrt (<) (rq_started q @ rq_queue q) \<and>
     (rq_queue q = [] \<or> rq_busy q)"
    using rq_inv_places by (auto simp: Let_def rq_inv_def)
qed

section \<open>Refinement of a single server\<close>

text \<open>A server with a queue: at most one item in service.\<close>

record single_server =
  ss_waiting :: "nat list"
  ss_serving :: "nat option"
  ss_done :: "(nat \<times> settlement) list"
  ss_next :: nat

datatype server_op = Arrive | Answer nat settlement | Give_up nat | Drop_waiting

definition serve_next :: "single_server \<Rightarrow> single_server" where
  "serve_next s = (case ss_waiting s of [] \<Rightarrow> s\<lparr>ss_serving := None\<rparr> | x # xs \<Rightarrow> s\<lparr>ss_waiting := xs, ss_serving := Some x\<rparr>)"

definition serve_done :: "nat \<Rightarrow> settlement \<Rightarrow> single_server \<Rightarrow> single_server" where
  "serve_done x out s = (if ss_serving s = Some x then serve_next (s\<lparr>ss_done := ss_done s @ [(x, out)]\<rparr>) else s)"

fun server_step :: "single_server \<Rightarrow> server_op \<Rightarrow> single_server" where
  "server_step s Arrive =
     (let s' = s\<lparr>ss_waiting := ss_waiting s @ [ss_next s], ss_next := Suc (ss_next s)\<rparr>
      in if ss_serving s = None then serve_next s' else s')"
| "server_step s (Answer x out) = serve_done x out s"
| "server_step s (Give_up x) = serve_done x (Failed ''Queue item timed out after 120000ms'') s"
| "server_step s Drop_waiting =
     s\<lparr>ss_done := ss_done s @ map (\<lambda>x. (x, Failed ''Queue cleared'')) (ss_waiting s), ss_waiting := []\<rparr>"

text \<open>The same operations on the queue, when no function uses its own queue before its first await: what a step starts
  returns in the same turn.\<close>

fun plain_step :: "request_queue \<Rightarrow> server_op \<Rightarrow> request_queue" where
  "plain_step q Arrive = request_step (request_step q Enqueue) Fn_returns"
| "plain_step q (Answer x out) = request_step (request_step q (Fn_settles x out)) Fn_returns"
| "plain_step q (Give_up x) = request_step (request_step q (Times_out x)) Fn_returns"
| "plain_step q Drop_waiting = request_step q Clear"

definition server_of :: "request_queue \<Rightarrow> single_server" where
  "server_of q = \<lparr>ss_waiting = rq_queue q, ss_serving = (case rq_awaiting q of [] \<Rightarrow> None | x # _ \<Rightarrow> Some x),
     ss_done = rq_settled q, ss_next = rq_next q\<rparr>"

definition one_server :: "request_queue \<Rightarrow> bool" where
  "one_server q \<longleftrightarrow> rq_stack q = [] \<and> length (rq_awaiting q) \<le> 1 \<and> set (rq_awaiting q) \<subseteq> set (rq_running q) \<and>
     (rq_promise q \<longleftrightarrow> rq_awaiting q \<noteq> []) \<and> (rq_awaiting q = [] \<longrightarrow> rq_queue q = []) \<and> distinct (rq_running q)
     \<and> (\<forall>x \<in> set (rq_running q) \<union> set (rq_queue q). x < rq_next q) \<and> set (rq_running q) \<inter> set (rq_queue q) = {} \<and> distinct (rq_queue q)"

lemma one_server_new: "one_server new_request_queue"
  by (simp add: one_server_def new_request_queue_def)

lemmas plain_defs = rq_enqueue_def trigger_processing_def process_queue_def fn_returns_def fn_settles_def times_out_def
  settle_item_def rq_clear_def

lemma one_server_cases:
  assumes "one_server q"
  obtains (idle) "rq_stack q = []" "rq_awaiting q = []" "rq_queue q = []" "\<not> rq_promise q"
  | (serving) x where "rq_stack q = []" "rq_awaiting q = [x]" "rq_promise q" "x \<in> set (rq_running q)"
proof (cases "rq_awaiting q")
  case Nil
  then show ?thesis using assms idle by (simp add: one_server_def)
next
  case (Cons x xs)
  then show ?thesis using assms serving [of x] by (simp add: one_server_def)
qed

lemma plain_step_inv: "one_server q \<Longrightarrow> one_server (plain_step q op)"
proof (cases op)
  case Arrive
  assume q: "one_server q"
  from q show ?thesis by (cases q rule: one_server_cases) (use Arrive q in \<open>auto simp: plain_defs one_server_def less_Suc_eq\<close>)
next
  case (Answer x out)
  assume q: "one_server q"
  from q show ?thesis
    by (cases q rule: one_server_cases)
      (use Answer q in \<open>auto simp: plain_defs one_server_def Let_def split: list.splits dest: in_set_remove1 notin_set_remove1\<close>)
next
  case (Give_up x)
  assume q: "one_server q"
  from q show ?thesis
    by (cases q rule: one_server_cases)
      (use Give_up q in \<open>auto simp: plain_defs one_server_def Let_def split: list.splits\<close>)
next
  case Drop_waiting
  assume q: "one_server q"
  then show ?thesis using Drop_waiting by (auto simp: plain_defs one_server_def)
qed

lemma int_str_timeout: "int_str queue_item_timeout = ''120000''"
proof -
  have "dec 120000 = ''120000''"
    by (simp add: dec.simps digit_char_def char_of_def bit_iff_odd drop_bit_eq_div)
  then show ?thesis by (simp add: queue_item_timeout_def int_str_def)
qed

lemma plain_step_refines: "one_server q \<Longrightarrow> server_of (plain_step q op) = server_step (server_of q) op"
proof (cases op)
  case Arrive
  assume q: "one_server q"
  from q show ?thesis by (cases q rule: one_server_cases) (use Arrive in \<open>auto simp: plain_defs server_of_def serve_next_def Let_def\<close>)
next
  case (Answer x out)
  assume q: "one_server q"
  from q show ?thesis
    by (cases q rule: one_server_cases)
      (use Answer in \<open>auto simp: plain_defs server_of_def serve_next_def serve_done_def Let_def split: list.splits\<close>)
next
  case (Give_up x)
  assume q: "one_server q"
  from q show ?thesis
    by (cases q rule: one_server_cases)
      (use Give_up in \<open>auto simp: plain_defs server_of_def serve_next_def serve_done_def int_str_timeout Let_def split: list.splits\<close>)
next
  case Drop_waiting
  then show ?thesis by (simp add: plain_defs server_of_def)
qed

interpretation ss: refined_machine plain_step one_server server_of server_step
  by unfold_locales (rule plain_step_inv, assumption, rule plain_step_refines)

text \<open>C28 (refinement). When the functions leave their own queue alone until their first await, the queue with its loop,
  promises and timers is a single server: at most one item is awaited at any time, and the answers, the order, the time
  limit and a clear are those of the server.\<close>

theorem queue_refines_single_server:
  "\<forall>ops. length (rq_awaiting (foldl plain_step new_request_queue ops)) \<le> 1 \<and>
     server_of (foldl plain_step new_request_queue ops) =
     foldl server_step \<lparr>ss_waiting = [], ss_serving = None, ss_done = [], ss_next = 0\<rparr> ops"
proof
  fix ops
  have "one_server (foldl plain_step new_request_queue ops)" by (rule ss.run_inv) (rule one_server_new)
  moreover have "server_of new_request_queue = \<lparr>ss_waiting = [], ss_serving = None, ss_done = [], ss_next = 0\<rparr>"
    by (simp add: server_of_def new_request_queue_def)
  ultimately show "length (rq_awaiting (foldl plain_step new_request_queue ops)) \<le> 1 \<and>
     server_of (foldl plain_step new_request_queue ops) = foldl server_step \<lparr>ss_waiting = [], ss_serving = None, ss_done = [], ss_next = 0\<rparr> ops"
    using ss.run_refines [OF one_server_new, of ops] by (simp add: one_server_def)
qed

section \<open>Where requests of one session overlap\<close>

text \<open>A function that enqueues on its own queue before its first await starts the item at once: the promise of the loop
  is recorded only after the first function has returned, so a second loop begins.\<close>

lemma reentrant_enqueue_overlaps:
  "rq_awaiting (foldl request_step new_request_queue [Enqueue, Enqueue, Fn_returns, Fn_returns]) = [0, 1]"
  by (simp add: request_defs)

text \<open>The time limit settles the item but cannot stop its function: the next one starts beside it.\<close>

lemma timed_out_function_overlaps:
  "rq_running (foldl request_step new_request_queue [Enqueue, Fn_returns, Enqueue, Times_out 0]) = [1, 0]"
  by (simp add: request_defs)

text \<open>Deleting the queue of a session does not stop what it runs, and the next request gets a new queue.\<close>

lemma recreated_queue_overlaps:
  "let (r, m) = qm_enqueue ''s'' new_queue_manager; (r', m') = qm_enqueue ''s'' (delete_queue ''s'' (qm_step r Fn_returns m))
   in r \<noteq> r' \<and> rq_running (qm_heap m' ! r) = [0] \<and> rq_running (qm_heap m' ! r') = [0]"
  by (simp add: qm_enqueue_def get_queue_def new_queue_manager_def delete_queue_def qm_step_def request_defs)

section \<open>Every queue of the manager\<close>

datatype manager_op = For_session string | Forget_session string | In_queue nat request_op

fun manager_step :: "queue_manager \<Rightarrow> manager_op \<Rightarrow> queue_manager" where
  "manager_step m (For_session sid) = snd (qm_enqueue sid m)"
| "manager_step m (Forget_session sid) = delete_queue sid m"
| "manager_step m (In_queue r op) = qm_step r op m"

definition manager_inv :: "queue_manager \<Rightarrow> bool" where
  "manager_inv m \<longleftrightarrow> (\<forall>q \<in> set (qm_heap m). rq_inv q) \<and> jwf (qm_queues m) \<and> (\<forall>(sid, r) \<in> set (qm_queues m). r < length (qm_heap m))
     \<and> distinct (map snd (qm_queues m))"

lemma heap_update_inv:
  assumes "\<forall>q \<in> set qs. rq_inv q" "r < length qs \<Longrightarrow> rq_inv (f (qs ! r))"
  shows "\<forall>q \<in> set (qs[r := f (qs ! r)]). rq_inv q"
proof (cases "r < length qs")
  case True
  then show ?thesis using assms set_update_subset_insert [of qs r "f (qs ! r)"] by auto
qed (use assms in \<open>simp add: list_update_beyond\<close>)

lemma distinct_snd_set:
  "distinct (map snd m) \<Longrightarrow> r \<notin> set (map snd m) \<Longrightarrow> distinct (map snd (jset k r m)) \<and> set (map snd (jset k r m)) \<subseteq> insert r (set (map snd m))"
  by (induction m) auto

lemma distinct_snd_del: "distinct (map snd m) \<Longrightarrow> distinct (map snd (jdel k m))"
  by (induction m) (auto simp: jmem_del)

lemma get_queue_inv:
  assumes "manager_inv m"
  shows "manager_inv (snd (get_queue sid m)) \<and> fst (get_queue sid m) < length (qm_heap (snd (get_queue sid m)))"
proof (cases "jget (qm_queues m) sid")
  case None
  have "length (qm_heap m) \<notin> set (map snd (qm_queues m))" using assms by (auto simp: manager_inv_def)
  then show ?thesis using None assms distinct_snd_set [of "qm_queues m" "length (qm_heap m)" sid]
    by (auto simp: get_queue_def manager_inv_def Let_def rq_inv_new jmem_set less_Suc_eq split: if_splits)
next
  case (Some r)
  then show ?thesis using assms by (auto simp: get_queue_def manager_inv_def dest: map_of_SomeD)
qed

lemma manager_step_inv: "manager_inv m \<Longrightarrow> manager_inv (manager_step m op)"
proof (cases op)
  case (For_session sid)
  assume m: "manager_inv m"
  obtain r m' where g: "get_queue sid m = (r, m')" by (cases "get_queue sid m")
  then have "manager_inv m'" "r < length (qm_heap m')" using get_queue_inv [OF m, of sid] by simp_all
  then show ?thesis using For_session g heap_update_inv [of "qm_heap m'" r rq_enqueue]
    by (auto simp: qm_enqueue_def manager_inv_def rq_enqueue_inv)
next
  case (Forget_session sid)
  assume m: "manager_inv m"
  show ?thesis
  proof (cases "jget (qm_queues m) sid")
    case (Some r)
    then have "r < length (qm_heap m)" using m by (auto simp: manager_inv_def dest: map_of_SomeD)
    then show ?thesis using Some m Forget_session heap_update_inv [of "qm_heap m" r rq_clear]
      by (auto simp: delete_queue_def manager_inv_def jmem_del distinct_snd_del rq_clear_inv)
  qed (use Forget_session m in \<open>simp add: delete_queue_def\<close>)
next
  case (In_queue r op)
  assume m: "manager_inv m"
  then show ?thesis using In_queue heap_update_inv [of "qm_heap m" r "\<lambda>q. request_step q op"]
    by (auto simp: qm_step_def manager_inv_def request_step_inv)
qed

interpretation qm: machine manager_step manager_inv
  by unfold_locales (rule manager_step_inv)

lemma sessions_have_own_queues:
  "manager_inv (foldl manager_step new_queue_manager ops)"
  by (rule qm.run_inv) (simp add: manager_inv_def new_queue_manager_def)

end
