(* ===== verification/Page_Pool.thy ===== *)
theory Page_Pool
  imports Oc_Prelude "HOL-Library.Multiset"
begin

text \<open>
  The pool of pages, \<open>src/src/cdp/connection-pool.ts\<close>. A page is its number; \<open>createPage\<close> of the client yields a page
  that did not exist before, so a created page gets the next number. Every method is split at its awaits: the creation
  of a page is a task in \<open>pp_tasks\<close> that says who waits for it, a released page is in \<open>pp_cleaning\<close> until its cleanup
  ends, the loops of maintenance and shutdown advance by one close at a time. The outcome of a browser call is an
  argument of the step that follows it. \<open>pp_handed\<close> lists the pages that callers have received.
\<close>

section \<open>State\<close>

record pooled_page =
  pg_page :: nat
  pg_created :: int
  pg_used :: int

record pool_config =
  pc_min :: nat
  pc_max :: nat
  pc_idle :: int
  pc_prewarm :: bool

datatype creator = For_caller int | For_batch nat | For_stock

record batch =
  ba_from_pool :: "nat list"
  ba_created :: "nat list"
  ba_queued :: nat
  ba_active :: nat
  ba_settled :: bool

datatype closing = Not_closing | Closing_available nat | Closing_used "nat list"

record page_pool =
  pp_config :: pool_config
  pp_available :: "pooled_page list"
  pp_used :: "(nat, pooled_page) jmap"
  pp_timers :: "nat list"
  pp_timer :: "nat option"
  pp_connecting :: nat
  pp_initialized :: bool
  pp_listening :: bool
  pp_suppress :: bool
  pp_created :: nat
  pp_reused :: nat
  pp_on_demand :: nat
  pp_times :: "int list"
  pp_tasks :: "creator list"
  pp_batches :: "batch list"
  pp_cleaning :: "pooled_page list"
  pp_sweeps :: "nat list list"
  pp_closing :: closing
  pp_next :: nat
  pp_handed :: "nat list"
  pp_closed :: "nat list"

definition default_pool_config :: pool_config where
  "default_pool_config = \<lparr>pc_min = 0, pc_max = 0, pc_idle = 5 * 60 * 1000, pc_prewarm = False\<rparr>"

definition new_page_pool :: "pool_config \<Rightarrow> page_pool" where
  "new_page_pool c = \<lparr>pp_config = c, pp_available = [], pp_used = [], pp_timers = [], pp_timer = None, pp_connecting = 0, pp_initialized = False,
     pp_listening = False, pp_suppress = False, pp_created = 0, pp_reused = 0, pp_on_demand = 0, pp_times = [], pp_tasks = [],
     pp_batches = [], pp_cleaning = [], pp_sweeps = [], pp_closing = Not_closing, pp_next = 0, pp_handed = [], pp_closed = []\<rparr>"

section \<open>Stock\<close>

text \<open>\<open>ensureMinimumPages\<close> starts the missing creations without an await; \<open>replenishPoolAsync\<close> calls it in the background.\<close>

definition ensure_minimum :: "page_pool \<Rightarrow> page_pool" where
  "ensure_minimum p = p\<lparr>pp_tasks := pp_tasks p @ replicate (pc_min (pp_config p) - length (pp_available p)) For_stock\<rparr>"

definition replenish_pool :: "page_pool \<Rightarrow> page_pool" where
  "replenish_pool p = (if length (pp_available p) < pc_min (pp_config p) then ensure_minimum p else p)"

text \<open>\<open>initialize\<close> before and after its connection: several calls may be in between. A timer runs until it is
  cleared; only the last one is remembered. The await of the warm-up is passed over: nothing after it reads the pages.\<close>

definition initialize_start :: "page_pool \<Rightarrow> page_pool" where
  "initialize_start p = (if pp_initialized p then p else p\<lparr>pp_connecting := Suc (pp_connecting p)\<rparr>)"

definition initialize_end :: "page_pool \<Rightarrow> page_pool" where
  "initialize_end p =
     (if pp_connecting p = 0 then p
      else
        (let p' = p\<lparr>pp_connecting := pp_connecting p - 1, pp_listening := True\<rparr>;
             p'' = (if pc_prewarm (pp_config p') then ensure_minimum p' else p');
             t = Suc (foldr max (pp_timers p'') 0)
         in p''\<lparr>pp_timers := pp_timers p'' @ [t], pp_timer := Some t, pp_initialized := True\<rparr>))"

definition fresh_page :: "nat \<Rightarrow> int \<Rightarrow> pooled_page" where
  "fresh_page page now = \<lparr>pg_page = page, pg_created = now, pg_used = now\<rparr>"

section \<open>Acquiring one page\<close>

definition track_time :: "int \<Rightarrow> page_pool \<Rightarrow> page_pool" where
  "track_time t p =
     (let ts = pp_times p @ [t] in p\<lparr>pp_times := (if length ts > 100 then tl ts else ts)\<rparr>)"

definition finish_acquire :: "int \<Rightarrow> pooled_page \<Rightarrow> int \<Rightarrow> page_pool \<Rightarrow> page_pool" where
  "finish_acquire start e now p =
     (let p' = track_time (now - start) (p\<lparr>pp_used := jset (pg_page e) e (pp_used p), pp_handed := pp_handed p @ [pg_page e]\<rparr>)
      in if pp_suppress p' then p' else replenish_pool p')"

definition acquire_page :: "int \<Rightarrow> int \<Rightarrow> page_pool \<Rightarrow> page_pool" where
  "acquire_page start now p =
     (if pp_available p \<noteq> []
      then finish_acquire start ((last (pp_available p))\<lparr>pg_used := now\<rparr>) now
             (p\<lparr>pp_available := butlast (pp_available p), pp_reused := Suc (pp_reused p)\<rparr>)
      else p\<lparr>pp_tasks := pp_tasks p @ [For_caller start]\<rparr>)"

section \<open>Acquiring a batch\<close>

definition batch_concurrency :: nat where "batch_concurrency = 10"

fun take_from_pool :: "nat \<Rightarrow> int \<Rightarrow> page_pool \<Rightarrow> nat list \<times> page_pool" where
  "take_from_pool 0 now p = ([], p)"
| "take_from_pool (Suc n) now p =
     (let e = (last (pp_available p))\<lparr>pg_used := now\<rparr>;
          p' = p\<lparr>pp_available := butlast (pp_available p), pp_used := jset (pg_page e) e (pp_used p), pp_reused := Suc (pp_reused p)\<rparr>;
          (pages, p'') = take_from_pool n now p'
      in (pg_page e # pages, p''))"

text \<open>The end of \<open>acquireBatch\<close>: its pages are returned, or its exception is thrown; the suppression is lifted in both cases.\<close>

definition settle_batch :: "nat \<Rightarrow> bool \<Rightarrow> page_pool \<Rightarrow> page_pool" where
  "settle_batch b ok p =
     (let ba = pp_batches p ! b in
      p\<lparr>pp_batches := (pp_batches p)[b := ba\<lparr>ba_settled := True\<rparr>], pp_suppress := False,
        pp_handed := pp_handed p @ (if ok then ba_from_pool ba @ ba_created ba else [])\<rparr>)"

definition acquire_batch :: "nat \<Rightarrow> int \<Rightarrow> page_pool \<Rightarrow> page_pool" where
  "acquire_batch n now p =
     (let (pages, p') = take_from_pool (min n (length (pp_available p))) now (p\<lparr>pp_suppress := True\<rparr>);
          remaining = n - length pages;
          started = min remaining batch_concurrency;
          b = length (pp_batches p');
          p'' = p'\<lparr>pp_batches := pp_batches p' @ [\<lparr>ba_from_pool = pages, ba_created = [], ba_queued = remaining - started,
                      ba_active = started, ba_settled = False\<rparr>],
                   pp_tasks := pp_tasks p' @ replicate started (For_batch b)\<rparr>
      in if remaining = 0 then settle_batch b True p'' else p'')"

text \<open>A creation of a batch ends: the limiter gives its place to the next one, \<open>Promise.all\<close> settles with the last
  page or with the first failure.\<close>

definition leave_limiter :: "nat \<Rightarrow> page_pool \<Rightarrow> page_pool" where
  "leave_limiter b p =
     (let ba = pp_batches p ! b in
      if 0 < ba_queued ba
      then p\<lparr>pp_batches := (pp_batches p)[b := ba\<lparr>ba_queued := ba_queued ba - 1\<rparr>], pp_tasks := pp_tasks p @ [For_batch b]\<rparr>
      else p\<lparr>pp_batches := (pp_batches p)[b := ba\<lparr>ba_active := ba_active ba - 1\<rparr>]\<rparr>)"

definition batch_created :: "nat \<Rightarrow> nat \<Rightarrow> int \<Rightarrow> page_pool \<Rightarrow> page_pool" where
  "batch_created b page now p =
     (let ba = pp_batches p ! b;
          p' = leave_limiter b (p\<lparr>pp_used := jset page (fresh_page page now) (pp_used p), pp_on_demand := Suc (pp_on_demand p),
                 pp_batches := (pp_batches p)[b := ba\<lparr>ba_created := ba_created ba @ [page]\<rparr>]\<rparr>)
      in if ba_active (pp_batches p' ! b) = 0 \<and> \<not> ba_settled ba then settle_batch b True p' else p')"

definition batch_failed :: "nat \<Rightarrow> page_pool \<Rightarrow> page_pool" where
  "batch_failed b p =
     (let p' = leave_limiter b p in if ba_settled (pp_batches p ! b) then p' else settle_batch b False p')"

section \<open>The end of a creation\<close>

definition task_done :: "nat \<Rightarrow> page_pool \<Rightarrow> page_pool" where
  "task_done k p = p\<lparr>pp_tasks := take k (pp_tasks p) @ drop (Suc k) (pp_tasks p)\<rparr>"

definition page_created :: "nat \<Rightarrow> bool \<Rightarrow> int \<Rightarrow> page_pool \<Rightarrow> page_pool" where
  "page_created k ok now p =
     (if k < length (pp_tasks p) then
        (let t = pp_tasks p ! k; p0 = task_done k p in
         if ok then
           (let page = pp_next p0; p' = p0\<lparr>pp_next := Suc page, pp_created := Suc (pp_created p0)\<rparr> in
            case t of
              For_caller start \<Rightarrow> finish_acquire start (fresh_page page now) now (p'\<lparr>pp_on_demand := Suc (pp_on_demand p')\<rparr>)
            | For_batch b \<Rightarrow> batch_created b page now p'
            | For_stock \<Rightarrow> p'\<lparr>pp_available := pp_available p' @ [fresh_page page now]\<rparr>)
         else (case t of For_batch b \<Rightarrow> batch_failed b p0 | _ \<Rightarrow> p0))
      else p)"

section \<open>Releasing\<close>

definition close_page :: "nat \<Rightarrow> page_pool \<Rightarrow> page_pool" where
  "close_page page p = p\<lparr>pp_closed := pp_closed p @ [page]\<rparr>"

definition release_page :: "nat \<Rightarrow> page_pool \<Rightarrow> page_pool" where
  "release_page page p =
     (case jget (pp_used p) page of
        None \<Rightarrow> close_page page p
      | Some e \<Rightarrow>
          (let p' = p\<lparr>pp_used := jdel page (pp_used p)\<rparr> in
           if pc_max (pp_config p') \<le> length (pp_available p') then close_page page p'
           else p'\<lparr>pp_cleaning := pp_cleaning p' @ [e]\<rparr>))"

text \<open>\<open>cleanAndReturnToPool\<close> after its browser calls, of which one may have failed.\<close>

definition page_cleaned :: "nat \<Rightarrow> bool \<Rightarrow> int \<Rightarrow> page_pool \<Rightarrow> page_pool" where
  "page_cleaned k ok now p =
     (if k < length (pp_cleaning p) then
        (let e = pp_cleaning p ! k;
             p' = p\<lparr>pp_cleaning := take k (pp_cleaning p) @ drop (Suc k) (pp_cleaning p)\<rparr>
         in if \<not> ok \<or> pc_max (pp_config p') \<le> length (pp_available p') then close_page (pg_page e) p'
            else p'\<lparr>pp_available := pp_available p' @ [e\<lparr>pg_used := now\<rparr>]\<rparr>)
      else p)"

section \<open>Tabs closed from outside\<close>

definition without_page :: "nat \<Rightarrow> pooled_page list \<Rightarrow> pooled_page list" where
  "without_page page es = filter (\<lambda>e. pg_page e \<noteq> page) es"

definition target_destroyed :: "nat option \<Rightarrow> page_pool \<Rightarrow> page_pool" where
  "target_destroyed page p =
     (if pp_listening p then
        (case page of
           None \<Rightarrow> p
         | Some pg \<Rightarrow>
             if jhas (pp_used p) pg then p\<lparr>pp_used := jdel pg (pp_used p)\<rparr>
             else p\<lparr>pp_available := without_page pg (pp_available p)\<rparr>)
      else p)"

section \<open>Maintenance\<close>

text \<open>The second loop of \<open>performMaintenance\<close>, up to the next close.\<close>

fun sweep_next :: "nat list \<Rightarrow> page_pool \<Rightarrow> nat list \<times> page_pool" where
  "sweep_next [] p = ([], p)"
| "sweep_next (x # xs) p =
     (if x \<in> pg_page ` set (pp_available p)
      then (xs, close_page x (p\<lparr>pp_available := without_page x (pp_available p)\<rparr>))
      else sweep_next xs p)"

definition perform_maintenance :: "int \<Rightarrow> page_pool \<Rightarrow> page_pool" where
  "perform_maintenance now p =
     (let expired = map pg_page (filter (\<lambda>e. now - pg_used e > pc_idle (pp_config p) \<and>
                      length (pp_available p) > pc_min (pp_config p)) (pp_available p));
          (rest, p') = sweep_next expired p
      in p'\<lparr>pp_sweeps := pp_sweeps p' @ [rest]\<rparr>)"

definition maintenance_goes_on :: "nat \<Rightarrow> page_pool \<Rightarrow> page_pool" where
  "maintenance_goes_on k p =
     (if k < length (pp_sweeps p) then
        (let (rest, p') = sweep_next (pp_sweeps p ! k) p in p'\<lparr>pp_sweeps := (pp_sweeps p')[k := rest]\<rparr>)
      else p)"

section \<open>Shutdown\<close>

definition shutdown_used :: "nat list \<Rightarrow> page_pool \<Rightarrow> page_pool" where
  "shutdown_used visited p =
     (case List.find (\<lambda>(page, _). page \<notin> set visited) (pp_used p) of
        Some (page, _) \<Rightarrow> close_page page (p\<lparr>pp_closing := Closing_used (page # visited)\<rparr>)
      | None \<Rightarrow> p\<lparr>pp_used := [], pp_initialized := False, pp_closing := Not_closing\<rparr>)"

definition shutdown_available :: "nat \<Rightarrow> page_pool \<Rightarrow> page_pool" where
  "shutdown_available i p =
     (if i < length (pp_available p)
      then close_page (pg_page (pp_available p ! i)) (p\<lparr>pp_closing := Closing_available (Suc i)\<rparr>)
      else shutdown_used [] (p\<lparr>pp_available := []\<rparr>))"

definition shutdown_start :: "page_pool \<Rightarrow> page_pool" where
  "shutdown_start p =
     (if pp_closing p = Not_closing then
        shutdown_available 0 (p\<lparr>pp_timers := (case pp_timer p of None \<Rightarrow> pp_timers p | Some t \<Rightarrow> remove1 t (pp_timers p)),
          pp_timer := None, pp_listening := False\<rparr>)
      else p)"

definition shutdown_goes_on :: "page_pool \<Rightarrow> page_pool" where
  "shutdown_goes_on p =
     (case pp_closing p of
        Not_closing \<Rightarrow> p
      | Closing_available i \<Rightarrow> shutdown_available i p
      | Closing_used visited \<Rightarrow> shutdown_used visited p)"

section \<open>Statistics and steps\<close>

record pool_stats =
  st_available :: nat
  st_in_use :: nat
  st_created :: nat
  st_reused :: nat
  st_on_demand :: nat
  st_acquire_total :: int
  st_acquire_samples :: nat

text \<open>The average is the total over the number of samples, rounded to two digits; it is 0 without samples.\<close>

definition get_pool_stats :: "page_pool \<Rightarrow> pool_stats" where
  "get_pool_stats p = \<lparr>st_available = length (pp_available p), st_in_use = length (pp_used p), st_created = pp_created p,
     st_reused = pp_reused p, st_on_demand = pp_on_demand p, st_acquire_total = foldl (+) 0 (pp_times p),
     st_acquire_samples = length (pp_times p)\<rparr>"

definition update_config :: "pool_config \<Rightarrow> page_pool \<Rightarrow> page_pool" where
  "update_config c p = p\<lparr>pp_config := c\<rparr>"

datatype page_op =
    Init_start | Init_end
  | Acquire_page int int | Acquire_batch nat int
  | Page_created nat bool int
  | Release nat | Cleaned nat bool int
  | Destroyed "nat option"
  | Maintain int | Maintain_on nat
  | Shutdown | Shutdown_on
  | Reconfigure pool_config

fun page_step :: "page_pool \<Rightarrow> page_op \<Rightarrow> page_pool" where
  "page_step p Init_start = initialize_start p"
| "page_step p Init_end = initialize_end p"
| "page_step p (Acquire_page start now) = acquire_page start now p"
| "page_step p (Acquire_batch n now) = acquire_batch n now p"
| "page_step p (Page_created k ok now) = page_created k ok now p"
| "page_step p (Release page) = release_page page p"
| "page_step p (Cleaned k ok now) = page_cleaned k ok now p"
| "page_step p (Destroyed page) = target_destroyed page p"
| "page_step p (Maintain now) = perform_maintenance now p"
| "page_step p (Maintain_on k) = maintenance_goes_on k p"
| "page_step p Shutdown = shutdown_start p"
| "page_step p Shutdown_on = shutdown_goes_on p"
| "page_step p (Reconfigure c) = update_config c p"

lemmas pool_defs = new_page_pool_def ensure_minimum_def replenish_pool_def initialize_start_def initialize_end_def
  fresh_page_def track_time_def finish_acquire_def acquire_page_def settle_batch_def acquire_batch_def leave_limiter_def
  batch_created_def batch_failed_def task_done_def page_created_def close_page_def release_page_def page_cleaned_def
  without_page_def target_destroyed_def perform_maintenance_def maintenance_goes_on_def shutdown_used_def
  shutdown_available_def shutdown_start_def shutdown_goes_on_def update_config_def batch_concurrency_def

section \<open>A page is in one place\<close>

definition pages_ok :: "pooled_page list \<Rightarrow> (nat, pooled_page) jmap \<Rightarrow> pooled_page list \<Rightarrow> nat \<Rightarrow> bool" where
  "pages_ok A U C n \<longleftrightarrow> distinct (map pg_page A) \<and> jwf U \<and> distinct (map pg_page C) \<and>
     pg_page ` set A \<inter> fst ` set U = {} \<and> pg_page ` set A \<inter> pg_page ` set C = {} \<and> fst ` set U \<inter> pg_page ` set C = {} \<and>
     (\<forall>(k, e) \<in> set U. pg_page e = k) \<and> pg_page ` set A \<union> fst ` set U \<union> pg_page ` set C \<subseteq> {..<n}"

definition page_inv :: "page_pool \<Rightarrow> bool" where
  "page_inv p \<longleftrightarrow> pages_ok (pp_available p) (pp_used p) (pp_cleaning p) (pp_next p)"

named_theorems pages \<open>moves that keep every page in one place\<close>

lemma keys_jset: "fst ` set (jset k v m) = insert k (fst ` set m)"
  by (induction m) auto

lemma keys_jdel: "fst ` set (jdel k m) = fst ` set m - {k}"
  by (auto simp: jmem_del image_iff)

lemma page_upd [simp]: "pg_page (e\<lparr>pg_used := t\<rparr>) = pg_page e"
  by simp

lemma pages_empty [pages]: "pages_ok [] [] [] n"
  by (simp add: pages_ok_def)

lemma pages_pop [pages]:
  assumes "pages_ok A U C n" "A \<noteq> []"
  shows "pages_ok (butlast A) (jset (pg_page (last A)) ((last A)\<lparr>pg_used := t\<rparr>) U) C n"
proof -
  obtain B e where A: "A = B @ [e]" using assms(2) by (metis append_butlast_last_id)
  have "pg_page e \<notin> fst ` set U" using assms A by (auto simp: pages_ok_def)
  then show ?thesis using assms(1) unfolding A pages_ok_def keys_jset by (auto simp: jmem_set split: if_splits)
qed

lemma pages_fresh_used [pages]:
  "pages_ok A U C n \<Longrightarrow> pg_page e = n \<Longrightarrow> pages_ok A (jset n e U) C (Suc n)"
  unfolding pages_ok_def keys_jset by (auto simp: jmem_set less_Suc_eq split: if_splits)

lemma pages_fresh_available [pages]:
  "pages_ok A U C n \<Longrightarrow> pg_page e = n \<Longrightarrow> pages_ok (A @ [e]) U C (Suc n)"
  unfolding pages_ok_def by (auto simp: less_Suc_eq)

lemma pages_delete [pages]: "pages_ok A U C n \<Longrightarrow> pages_ok A (jdel k U) C n"
  unfolding pages_ok_def keys_jdel by (auto simp: jmem_del)

lemma pages_clean [pages]:
  assumes "pages_ok A U C n" "jget U k = Some e"
  shows "pages_ok A (jdel k U) (C @ [e]) n"
proof -
  have "(k, e) \<in> set U" using assms by (auto simp: pages_ok_def jget_in_set)
  then have "pg_page e = k" "k \<in> fst ` set U" using assms(1) by (auto simp: pages_ok_def rev_image_eqI)
  then show ?thesis using assms(1) unfolding pages_ok_def keys_jdel by (auto simp: jmem_del)
qed

lemma pages_cleaned [pages]:
  assumes "pages_ok A U C n" "k < length C"
  shows "pages_ok A U (take k C @ drop (Suc k) C) n"
    "pages_ok (A @ [(C ! k)\<lparr>pg_used := t\<rparr>]) U (take k C @ drop (Suc k) C) n"
proof -
  have C: "C = take k C @ C ! k # drop (Suc k) C" using assms(2) by (rule id_take_nth_drop)
  have "pages_ok A U (take k C @ C ! k # drop (Suc k) C) n" using assms(1) C by simp
  then show "pages_ok A U (take k C @ drop (Suc k) C) n" "pages_ok (A @ [(C ! k)\<lparr>pg_used := t\<rparr>]) U (take k C @ drop (Suc k) C) n"
    unfolding pages_ok_def by auto
qed

lemma pages_filter [pages]: "pages_ok A U C n \<Longrightarrow> pages_ok (without_page x A) U C n"
  unfolding pages_ok_def without_page_def by (auto simp: distinct_map_filter)

lemma pages_stop [pages]: "pages_ok A U C n \<Longrightarrow> pages_ok [] U C n" "pages_ok A U C n \<Longrightarrow> pages_ok A [] C n"
  unfolding pages_ok_def by auto

text \<open>The parts of the state that the invariant does not see.\<close>

lemma page_inv_frame [simp]:
  "page_inv (p\<lparr>pp_config := a1\<rparr>) = page_inv p" "page_inv (p\<lparr>pp_timers := a2\<rparr>) = page_inv p"
  "page_inv (p\<lparr>pp_timer := a3\<rparr>) = page_inv p" "page_inv (p\<lparr>pp_connecting := a4\<rparr>) = page_inv p"
  "page_inv (p\<lparr>pp_initialized := a5\<rparr>) = page_inv p" "page_inv (p\<lparr>pp_listening := a6\<rparr>) = page_inv p"
  "page_inv (p\<lparr>pp_suppress := a7\<rparr>) = page_inv p" "page_inv (p\<lparr>pp_created := a8\<rparr>) = page_inv p"
  "page_inv (p\<lparr>pp_reused := a9\<rparr>) = page_inv p" "page_inv (p\<lparr>pp_on_demand := b1\<rparr>) = page_inv p"
  "page_inv (p\<lparr>pp_times := b2\<rparr>) = page_inv p" "page_inv (p\<lparr>pp_tasks := b3\<rparr>) = page_inv p"
  "page_inv (p\<lparr>pp_batches := b4\<rparr>) = page_inv p" "page_inv (p\<lparr>pp_sweeps := b5\<rparr>) = page_inv p"
  "page_inv (p\<lparr>pp_closing := b6\<rparr>) = page_inv p" "page_inv (p\<lparr>pp_handed := b7\<rparr>) = page_inv p"
  "page_inv (p\<lparr>pp_closed := b8\<rparr>) = page_inv p"
  by (simp_all add: page_inv_def)

lemma ensure_minimum_inv [simp]: "page_inv (ensure_minimum p) = page_inv p"
  by (simp add: ensure_minimum_def)

lemma finish_acquire_inv [simp]:
  "page_inv (finish_acquire start e now p) = page_inv (p\<lparr>pp_used := jset (pg_page e) e (pp_used p)\<rparr>)"
  by (simp add: finish_acquire_def track_time_def replenish_pool_def ensure_minimum_def Let_def page_inv_def)

lemma settle_batch_inv [simp]: "page_inv (settle_batch b ok p) = page_inv p"
  by (simp add: settle_batch_def Let_def page_inv_def)

lemma leave_limiter_inv [simp]: "page_inv (leave_limiter b p) = page_inv p"
  by (simp add: leave_limiter_def Let_def)

lemma close_page_inv [simp]: "page_inv (close_page x p) = page_inv p"
  by (simp add: close_page_def)

lemma take_from_pool_inv: "page_inv p \<Longrightarrow> n \<le> length (pp_available p) \<Longrightarrow> page_inv (snd (take_from_pool n now p))"
proof (induction n now p rule: take_from_pool.induct)
  case (2 n now p)
  let ?e = "(last (pp_available p))\<lparr>pg_used := now\<rparr>"
  let ?p = "p\<lparr>pp_available := butlast (pp_available p), pp_used := jset (pg_page ?e) ?e (pp_used p), pp_reused := Suc (pp_reused p)\<rparr>"
  have "pp_available p \<noteq> []" using "2.prems" by auto
  then have "page_inv ?p" using "2.prems" pages_pop [of "pp_available p" "pp_used p" "pp_cleaning p" "pp_next p" now]
    by (simp add: page_inv_def)
  then show ?case using "2.IH" [OF refl refl] "2.prems" by (simp add: case_prod_beta Let_def)
qed simp

lemma sweep_next_inv: "page_inv p \<Longrightarrow> page_inv (snd (sweep_next xs p))"
  by (induction xs p rule: sweep_next.induct) (auto simp: page_inv_def close_page_def intro: pages)

lemma shutdown_used_inv: "page_inv p \<Longrightarrow> page_inv (shutdown_used vs p)"
  by (auto simp: shutdown_used_def page_inv_def close_page_def intro: pages split: option.splits)

lemma shutdown_available_inv: "page_inv p \<Longrightarrow> page_inv (shutdown_available i p)"
proof -
  assume p: "page_inv p"
  then have "page_inv (p\<lparr>pp_available := []\<rparr>)" by (simp add: page_inv_def pages)
  then show ?thesis using p shutdown_used_inv [of "p\<lparr>pp_available := []\<rparr>"] by (simp add: shutdown_available_def)
qed

lemma batch_created_inv:
  assumes "page_inv (p\<lparr>pp_used := jset page (fresh_page page now) (pp_used p)\<rparr>)"
  shows "page_inv (batch_created b page now p)"
  using assms by (simp add: batch_created_def Let_def page_inv_def [of "p\<lparr>pp_used := _\<rparr>"]) 

lemma page_created_inv: "page_inv p \<Longrightarrow> page_inv (page_created k ok now p)"
proof -
  assume p: "page_inv p"
  then have A: "pages_ok (pp_available p) (pp_used p) (pp_cleaning p) (pp_next p)" by (simp add: page_inv_def)
  show ?thesis
  proof (cases "k < length (pp_tasks p)")
    case True
    show ?thesis
    proof (cases "pp_tasks p ! k")
      case (For_caller t)
      then show ?thesis using True p pages_fresh_used [OF A, of "fresh_page (pp_next p) now"]
        by (simp add: page_created_def task_done_def Let_def fresh_page_def) (simp add: page_inv_def)
    next
      case (For_batch b)
      have "page_inv (batch_failed b p')" if "page_inv p'" for p'
        using that by (simp add: batch_failed_def Let_def)
      moreover have "page_inv (batch_created b (pp_next p) now (task_done k p\<lparr>pp_next := Suc (pp_next p), pp_created := Suc (pp_created p)\<rparr>))"
        using pages_fresh_used [OF A, of "fresh_page (pp_next p) now"]
        by (intro batch_created_inv) (simp add: task_done_def page_inv_def fresh_page_def)
      ultimately show ?thesis using True For_batch p by (simp add: page_created_def Let_def task_done_def)
    next
      case For_stock
      then show ?thesis using True p pages_fresh_available [OF A, of "fresh_page (pp_next p) now"]
        by (simp add: page_created_def task_done_def Let_def fresh_page_def) (simp add: page_inv_def)
    qed
  qed (use p in \<open>simp add: page_created_def\<close>)
qed

lemma acquire_page_inv: "page_inv p \<Longrightarrow> page_inv (acquire_page start now p)"
  using pages_pop [of "pp_available p" "pp_used p" "pp_cleaning p" "pp_next p" now]
  by (auto simp: acquire_page_def page_inv_def [of "_\<lparr>pp_used := _\<rparr>"] page_inv_def [of p])

lemma acquire_batch_inv: "page_inv p \<Longrightarrow> page_inv (acquire_batch n now p)"
  using take_from_pool_inv [of "p\<lparr>pp_suppress := True\<rparr>" "min n (length (pp_available p))" now]
  by (simp add: acquire_batch_def case_prod_beta Let_def)

lemma release_page_inv: "page_inv p \<Longrightarrow> page_inv (release_page page p)"
  by (auto simp: release_page_def Let_def page_inv_def close_page_def intro: pages split: option.split)

lemma page_cleaned_inv: "page_inv p \<Longrightarrow> page_inv (page_cleaned k ok now p)"
  by (auto simp: page_cleaned_def Let_def page_inv_def close_page_def intro: pages)

lemma target_destroyed_inv: "page_inv p \<Longrightarrow> page_inv (target_destroyed page p)"
  by (auto simp: target_destroyed_def page_inv_def intro: pages split: option.split)

lemma perform_maintenance_inv: "page_inv p \<Longrightarrow> page_inv (perform_maintenance now p)"
  by (simp add: perform_maintenance_def Let_def case_prod_beta sweep_next_inv)

lemma maintenance_goes_on_inv: "page_inv p \<Longrightarrow> page_inv (maintenance_goes_on k p)"
  by (simp add: maintenance_goes_on_def Let_def case_prod_beta sweep_next_inv)

lemma shutdown_start_inv: "page_inv p \<Longrightarrow> page_inv (shutdown_start p)"
  by (simp add: shutdown_start_def shutdown_available_inv)

lemma shutdown_goes_on_inv: "page_inv p \<Longrightarrow> page_inv (shutdown_goes_on p)"
  by (simp add: shutdown_goes_on_def shutdown_available_inv shutdown_used_inv split: closing.split)

lemma initialize_end_inv: "page_inv p \<Longrightarrow> page_inv (initialize_end p)"
  by (simp add: initialize_end_def Let_def)

lemma page_step_inv: "page_inv p \<Longrightarrow> page_inv (page_step p op)"
  by (cases op)
    (simp_all add: initialize_start_def initialize_end_inv acquire_page_inv acquire_batch_inv page_created_inv release_page_inv
      page_cleaned_inv target_destroyed_inv perform_maintenance_inv maintenance_goes_on_inv shutdown_start_inv
      shutdown_goes_on_inv update_config_def)

interpretation pg: machine page_step page_inv
  by unfold_locales (rule page_step_inv)

lemma page_inv_new: "page_inv (new_page_pool c)"
  by (simp add: page_inv_def new_page_pool_def pages)

text \<open>Under any interleaving of callers, batches, releases, cleanups, maintenance, shutdown, configuration
  changes and tabs closed from outside, a page is in at most one place: idle in the pool, in use, or being cleaned. So a
  page is never given to a second caller while one has it or while its data are being cleared, and every page in the
  pool was created.\<close>

theorem page_in_one_place:
  "\<forall>c ops. let p = foldl page_step (new_page_pool c) ops;
       places = map pg_page (pp_available p) @ map fst (pp_used p) @ map pg_page (pp_cleaning p)
     in distinct places \<and> set places \<subseteq> {..<pp_next p}"
proof (intro allI)
  fix c ops
  have "page_inv (foldl page_step (new_page_pool c) ops)" by (rule pg.run_inv) (rule page_inv_new)
  then show "let p = foldl page_step (new_page_pool c) ops;
       places = map pg_page (pp_available p) @ map fst (pp_used p) @ map pg_page (pp_cleaning p)
     in distinct places \<and> set places \<subseteq> {..<pp_next p}"
    unfolding Let_def page_inv_def pages_ok_def jwf_def by auto
qed

section \<open>The capacity\<close>

text \<open>Without a minimum stock nothing is created for the pool, and what comes back is checked against the maximum at the
  moment it is added.\<close>

definition recycled :: "nat \<Rightarrow> page_pool \<Rightarrow> bool" where
  "recycled m p \<longleftrightarrow> pc_min (pp_config p) = 0 \<and> pc_max (pp_config p) = m \<and> For_stock \<notin> set (pp_tasks p) \<and>
     length (pp_available p) \<le> m"

fun keeps_config :: "page_op \<Rightarrow> bool" where
  "keeps_config (Reconfigure c) = False"
| "keeps_config op = True"

lemma recycled_frame [simp]:
  "recycled m (p\<lparr>pp_timers := a2\<rparr>) = recycled m p"
  "recycled m (p\<lparr>pp_timer := a3\<rparr>) = recycled m p" "recycled m (p\<lparr>pp_connecting := a4\<rparr>) = recycled m p"
  "recycled m (p\<lparr>pp_initialized := a5\<rparr>) = recycled m p" "recycled m (p\<lparr>pp_listening := a6\<rparr>) = recycled m p"
  "recycled m (p\<lparr>pp_suppress := a7\<rparr>) = recycled m p" "recycled m (p\<lparr>pp_created := a8\<rparr>) = recycled m p"
  "recycled m (p\<lparr>pp_reused := a9\<rparr>) = recycled m p" "recycled m (p\<lparr>pp_on_demand := b1\<rparr>) = recycled m p"
  "recycled m (p\<lparr>pp_times := b2\<rparr>) = recycled m p" "recycled m (p\<lparr>pp_used := b3\<rparr>) = recycled m p"
  "recycled m (p\<lparr>pp_batches := b4\<rparr>) = recycled m p" "recycled m (p\<lparr>pp_sweeps := b5\<rparr>) = recycled m p"
  "recycled m (p\<lparr>pp_closing := b6\<rparr>) = recycled m p" "recycled m (p\<lparr>pp_handed := b7\<rparr>) = recycled m p"
  "recycled m (p\<lparr>pp_closed := b8\<rparr>) = recycled m p" "recycled m (p\<lparr>pp_cleaning := b9\<rparr>) = recycled m p"
  "recycled m (p\<lparr>pp_next := c1\<rparr>) = recycled m p"
  by (simp_all add: recycled_def)

lemma recycled_less: "recycled m p \<Longrightarrow> length A \<le> length (pp_available p) \<Longrightarrow> recycled m (p\<lparr>pp_available := A\<rparr>)"
  by (simp add: recycled_def)

lemma recycled_task:
  "recycled m p \<Longrightarrow> For_stock \<notin> set ts \<Longrightarrow> recycled m (p\<lparr>pp_tasks := pp_tasks p @ ts\<rparr>)"
  "recycled m p \<Longrightarrow> For_stock \<notin> set ts \<Longrightarrow> recycled m (p\<lparr>pp_batches := bs, pp_tasks := pp_tasks p @ ts\<rparr>)"
  by (simp_all add: recycled_def)

lemma recycled_ensure [simp]: "recycled m p \<Longrightarrow> recycled m (ensure_minimum p)"
  by (simp add: recycled_def ensure_minimum_def)

lemma recycled_acquire [simp]: "recycled m p \<Longrightarrow> recycled m (finish_acquire start e now p)"
  by (simp add: finish_acquire_def track_time_def replenish_pool_def Let_def)

lemma recycled_settle [simp]: "recycled m (settle_batch b ok p) = recycled m p"
  by (simp add: settle_batch_def Let_def)

lemma recycled_leave [simp]: "recycled m p \<Longrightarrow> recycled m (leave_limiter b p)"
  by (auto simp: leave_limiter_def Let_def recycled_def)

lemma recycled_close [simp]: "recycled m (close_page x p) = recycled m p"
  by (simp add: close_page_def)

lemma without_page_shorter: "length (without_page x A) \<le> length A"
  by (simp add: without_page_def)

lemma recycled_take: "recycled m p \<Longrightarrow> recycled m (snd (take_from_pool n now p))"
  by (induction n now p rule: take_from_pool.induct) (simp_all add: case_prod_beta Let_def recycled_less)

lemma recycled_sweep: "recycled m p \<Longrightarrow> recycled m (snd (sweep_next xs p))"
  by (induction xs p rule: sweep_next.induct) (simp_all add: recycled_less without_page_shorter)

lemma recycled_shutdown_used: "recycled m p \<Longrightarrow> recycled m (shutdown_used vs p)"
  by (simp add: shutdown_used_def split: option.split prod.split)

lemma recycled_shutdown: "recycled m p \<Longrightarrow> recycled m (shutdown_available i p)"
  by (simp add: shutdown_available_def recycled_shutdown_used recycled_less)

lemma recycled_done: "recycled m p \<Longrightarrow> recycled m (task_done k p)"
  by (auto simp: recycled_def task_done_def dest: in_set_takeD in_set_dropD)

lemma recycled_created: "recycled m p \<Longrightarrow> recycled m (page_created k ok now p)"
proof -
  assume p: "recycled m p"
  then have "k < length (pp_tasks p) \<Longrightarrow> pp_tasks p ! k \<noteq> For_stock" by (metis nth_mem recycled_def)
  then show ?thesis using p
    by (auto simp: page_created_def Let_def batch_created_def batch_failed_def recycled_done split: creator.split)
qed

lemma recycled_batch: "recycled m p \<Longrightarrow> recycled m (acquire_batch n now p)"
proof -
  assume "recycled m p"
  then have "recycled m (snd (take_from_pool (min n (length (pp_available p))) now (p\<lparr>pp_suppress := True\<rparr>)))"
    by (intro recycled_take) simp
  then show ?thesis by (simp add: acquire_batch_def case_prod_beta Let_def recycled_task)
qed

lemma recycled_cleaned: "recycled m p \<Longrightarrow> recycled m (page_cleaned k ok now p)"
  by (simp add: page_cleaned_def Let_def) (auto simp: recycled_def)

lemma recycled_acquire_page: "recycled m p \<Longrightarrow> recycled m (acquire_page start now p)"
  by (simp add: acquire_page_def recycled_task recycled_less)

lemma recycled_step: "recycled m p \<Longrightarrow> keeps_config op \<Longrightarrow> recycled m (page_step p op)"
  by (cases op)
    (simp_all add: initialize_start_def initialize_end_def recycled_acquire_page recycled_batch recycled_created release_page_def
      recycled_cleaned target_destroyed_def perform_maintenance_def maintenance_goes_on_def shutdown_start_def
      shutdown_goes_on_def recycled_shutdown recycled_shutdown_used recycled_sweep recycled_less
      without_page_shorter case_prod_beta Let_def split: option.split closing.split)

lemma recycled_run: "recycled m p \<Longrightarrow> list_all keeps_config ops \<Longrightarrow> recycled m (foldl page_step p ops)"
  by (induction ops arbitrary: p) (simp_all add: recycled_step)

text \<open>With no minimum stock, as by default, the pool never holds more idle pages than its maximum, however
  releases and cleanups overlap: the limit is tested again at the moment a cleaned page is added.\<close>

theorem pool_keeps_maximum:
  assumes "pc_min c = 0" "list_all keeps_config ops"
  shows "length (pp_available (foldl page_step (new_page_pool c) ops)) \<le> pc_max c"
proof -
  have "recycled (pc_max c) (new_page_pool c)" using assms(1) by (simp add: recycled_def new_page_pool_def)
  then have "recycled (pc_max c) (foldl page_step (new_page_pool c) ops)" using assms(2) by (rule recycled_run)
  then show ?thesis by (simp add: recycled_def)
qed

theorem pool_keeps_maximum_witness:
  "length (pp_available (foldl page_step (new_page_pool (default_pool_config\<lparr>pc_max := 1\<rparr>))
     [Acquire_page 0 1, Acquire_page 0 1, Page_created 0 True 2, Page_created 0 True 3, Release 0, Release 1,
      Cleaned 0 True 4, Cleaned 0 True 5])) \<le> pc_max (default_pool_config\<lparr>pc_max := 1\<rparr>)"
  by (rule pool_keeps_maximum) (simp_all add: default_pool_config_def)

section \<open>Where pages are lost or counted wrongly\<close>

text \<open>With a stock the replenishment counts idle pages only, not creations under way, and checks no maximum: two
  callers in a row make it overshoot.\<close>

lemma stock_overshoots:
  "let c = \<lparr>pc_min = 1, pc_max = 1, pc_idle = 1000, pc_prewarm = True\<rparr>;
       p = foldl page_step (new_page_pool c) [Init_start, Init_end, Acquire_page 0 1, Acquire_page 0 1,
             Page_created 1 True 2, Page_created 1 True 2, Page_created 1 True 2, Page_created 1 True 2, Page_created 0 True 3]
   in pc_max c < length (pp_available p)"
  by (simp add: pool_defs Let_def)

text \<open>Maintenance compares the length of the pool before it removes anything, so it goes below the minimum.\<close>

lemma maintenance_undercuts:
  "let p = (new_page_pool \<lparr>pc_min = 1, pc_max = 5, pc_idle = 10, pc_prewarm = False\<rparr>)
              \<lparr>pp_available := [fresh_page 0 0, fresh_page 1 0], pp_next := 2\<rparr>
   in pp_available (foldl page_step p [Maintain 100, Maintain_on 0]) = []"
  by (simp add: pool_defs Let_def)

text \<open>When one creation of a batch fails the caller gets nothing, and the pages that the batch has taken stay in use
  for ever: nobody has them to release them.\<close>

lemma failed_batch_keeps_pages:
  "let p = foldl page_step (new_page_pool default_pool_config) [Acquire_batch 2 0, Page_created 0 True 1, Page_created 0 False 2]
   in map fst (pp_used p) = [0] \<and> pp_handed p = [] \<and> pp_tasks p = []"
  by (simp add: pool_defs default_pool_config_def Let_def)

text \<open>A page that is being cleaned while the pool shuts down is neither closed nor forgotten.\<close>

lemma shutdown_misses_cleaning:
  "let p = foldl page_step (new_page_pool (default_pool_config\<lparr>pc_max := 1\<rparr>))
         [Acquire_page 0 1, Page_created 0 True 2, Release 0, Shutdown, Cleaned 0 True 3]
   in map pg_page (pp_available p) = [0] \<and> pp_closed p = [] \<and> \<not> pp_initialized p"
  by (simp add: pool_defs default_pool_config_def Let_def)

text \<open>Two callers that initialize at the same time leave a maintenance timer that no shutdown clears.\<close>

lemma double_initialize_leaks_timer:
  "pp_timers (foldl page_step (new_page_pool default_pool_config) [Init_start, Init_start, Init_end, Init_end, Shutdown]) = [1]"
  by (simp add: pool_defs default_pool_config_def)

text \<open>A page released twice is closed as foreign although it is idle in the pool, and is handed out again.\<close>

lemma double_release_hands_out_closed:
  "let p = foldl page_step (new_page_pool (default_pool_config\<lparr>pc_max := 1\<rparr>))
         [Acquire_page 0 1, Page_created 0 True 2, Release 0, Cleaned 0 True 3, Release 0, Acquire_page 4 4]
   in pp_closed p = [0] \<and> pp_handed p = [0, 0]"
  by (simp add: pool_defs default_pool_config_def Let_def)

end
