(* ===== verification/Js_Json.thy ===== *)
theory Js_Json
  imports Js_Value
begin

text \<open>
  \<open>JSON.stringify\<close> and \<open>JSON.parse\<close> of the language, UTF-8 and base64url of \<open>Buffer\<close>. Printing covers values whose numbers
  are whole and below \<open>10 ^ 21\<close> (\<open>printable\<close>), the only ones that the modelled sources print; parsing reads any JSON
  number as the rational it denotes. Strings are Latin-1: an escape or a UTF-8 sequence beyond it makes the
  parser fail, such texts are outside the model. An object keeps the position of the first and the value of the last of
  equal keys.
\<close>

section \<open>Strings\<close>

definition hex_digit :: "nat \<Rightarrow> char" where
  "hex_digit d = (if d < 10 then char_of (48 + d) else char_of (87 + d))"

definition hex_val :: "char \<Rightarrow> nat option" where
  "hex_val c = (let n = of_char c :: nat in
     if 48 \<le> n \<and> n \<le> 57 then Some (n - 48) else if 97 \<le> n \<and> n \<le> 102 then Some (n - 87)
     else if 65 \<le> n \<and> n \<le> 70 then Some (n - 55) else None)"

definition quote_char :: "char \<Rightarrow> string" where
  "quote_char c = (let n = of_char c :: nat in
     if n = 34 then [CHR 0x5C, CHR 0x22] else if n = 92 then [CHR 0x5C, CHR 0x5C]
     else if n = 8 then [CHR 0x5C, CHR ''b''] else if n = 12 then [CHR 0x5C, CHR ''f'']
     else if n = 10 then [CHR 0x5C, CHR ''n''] else if n = 13 then [CHR 0x5C, CHR ''r'']
     else if n = 9 then [CHR 0x5C, CHR ''t'']
     else if n < 32 then [CHR 0x5C, CHR ''u'', CHR ''0'', CHR ''0'', hex_digit (n div 16), hex_digit (n mod 16)]
     else [c])"

definition json_string :: "string \<Rightarrow> string" where
  "json_string s = [CHR 0x22] @ concat (map quote_char s) @ [CHR 0x22]"

text \<open>The letter after a backslash.\<close>

definition unescape_letter :: "char \<Rightarrow> char option" where
  "unescape_letter c = (let n = of_char c :: nat in
     if n = 34 \<or> n = 92 \<or> n = 47 then Some c else if n = 98 then Some (char_of (8 :: nat)) else if n = 102 then Some (char_of (12 :: nat))
     else if n = 110 then Some (char_of (10 :: nat)) else if n = 114 then Some (char_of (13 :: nat)) else if n = 116 then Some (char_of (9 :: nat)) else None)"

definition unescape_code :: "char \<Rightarrow> char \<Rightarrow> char \<Rightarrow> char \<Rightarrow> char option" where
  "unescape_code a b c d =
     (case (hex_val a, hex_val b, hex_val c, hex_val d) of
        (Some 0, Some 0, Some x, Some y) \<Rightarrow> Some (char_of (16 * x + y))
      | _ \<Rightarrow> None)"

text \<open>The rest of a string literal after its opening quote.\<close>

fun parse_chars :: "string \<Rightarrow> (string \<times> string) option" where
  "parse_chars [] = None"
| "parse_chars (c # cs) =
     (if c = CHR 0x22 then Some ([], cs)
      else if c = CHR 0x5C then
        (case cs of
           e # cs' \<Rightarrow>
             if e = CHR ''u'' then
               (case cs' of
                  w # x # y # z # rest \<Rightarrow>
                    (case unescape_code w x y z of
                       Some d \<Rightarrow> map_option (\<lambda>(s, r). (d # s, r)) (parse_chars rest)
                     | None \<Rightarrow> None)
                | _ \<Rightarrow> None)
             else (case unescape_letter e of Some d \<Rightarrow> map_option (\<lambda>(s, r). (d # s, r)) (parse_chars cs') | None \<Rightarrow> None)
         | [] \<Rightarrow> None)
      else if of_char c < (32 :: nat) then None
      else map_option (\<lambda>(s, r). (c # s, r)) (parse_chars cs))"

lemma hex_digit_val [simp]: "d < 16 \<Longrightarrow> hex_val (hex_digit d) = Some d"
  by (auto simp: hex_digit_def hex_val_def Let_def)

lemma hex_zero [simp]: "hex_val (CHR ''0'') = Some 0"
  by (simp add: hex_val_def)

lemma char_by_code: "of_char c = (n :: nat) \<Longrightarrow> c = char_of n"
  by (metis char_of_char)

lemma parse_quoted_char: "parse_chars (quote_char c @ rest) = map_option (\<lambda>(s, r). (c # s, r)) (parse_chars rest)"
proof -
  have codes: "of_char c = (34 :: nat) \<longleftrightarrow> c = CHR 0x22" "of_char c = (92 :: nat) \<longleftrightarrow> c = CHR 0x5C"
    using of_char_eq_iff [of c "CHR 0x22"] of_char_eq_iff [of c "CHR 0x5C"] by simp_all
  consider "c = CHR 0x22 \<or> c = CHR 0x5C"
    | n where "c = char_of (n :: nat)" "n \<in> {8, 9, 10, 12, 13}"
    | "of_char c < (32 :: nat)" "of_char c \<notin> {8, 9, 10, 12, 13 :: nat}"
    | "32 \<le> (of_char c :: nat)" "c \<noteq> CHR 0x22" "c \<noteq> CHR 0x5C"
    using char_by_code [of c, OF refl] by force
  then show ?thesis
  proof cases
    case 2
    then show ?thesis by (auto simp: quote_char_def Let_def unescape_letter_def)
  next
    case 3
    have "16 * (of_char c div 16) + of_char c mod 16 = (of_char c :: nat)" by simp
    moreover have "of_char c div 16 < (16 :: nat)" "of_char c mod 16 < (16 :: nat)" using 3 by simp_all
    ultimately show ?thesis using 3 by (simp add: quote_char_def Let_def unescape_code_def)
  next
    case 4
    then show ?thesis by (simp add: quote_char_def Let_def codes)
  qed (auto simp: quote_char_def Let_def unescape_letter_def)
qed

lemma parse_string: "parse_chars (concat (map quote_char s) @ CHR 0x22 # rest) = Some (s, rest)"
  by (induction s) (simp_all add: parse_quoted_char)

section \<open>Printing values\<close>

fun commas :: "string list \<Rightarrow> string" where
  "commas [] = []"
| "commas [x] = x"
| "commas (x # y # ys) = x @ CHR '','' # commas (y # ys)"

text \<open>The text of a value inside an array; a member whose value is undefined is left out by its object.\<close>

fun json_text :: "jsvalue \<Rightarrow> string" where
  "json_text JUndefined = ''null''"
| "json_text JNull = ''null''"
| "json_text (JBool b) = (if b then ''true'' else ''false'')"
| "json_text (JNum q) = int_str \<lfloor>q\<rfloor>"
| "json_text JNaN = ''null''"
| "json_text (JInfinity _) = ''null''"
| "json_text (JStr s) = json_string s"
| "json_text (JArr vs) = CHR ''['' # commas (map json_text vs) @ '']''"
| "json_text (JObj fs) = CHR ''{'' # commas (map (\<lambda>(k, v). json_string k @ CHR '':'' # json_text v) (filter (\<lambda>(k, v). v \<noteq> JUndefined) fs)) @ ''}''"

definition stringify :: "jsvalue \<Rightarrow> string option" where
  "stringify v = (if v = JUndefined then None else Some (json_text v))"

fun printable :: "jsvalue \<Rightarrow> bool" where
  "printable JNull = True"
| "printable (JBool b) = True"
| "printable (JNum q) = (of_int \<lfloor>q\<rfloor> = q \<and> \<bar>q\<bar> < 10 ^ 21)"
| "printable (JStr s) = True"
| "printable (JArr vs) = (\<forall>v \<in> set vs. printable v)"
| "printable (JObj fs) = (distinct (map fst fs) \<and> (\<forall>(k, v) \<in> set fs. printable v))"
| "printable _ = False"

section \<open>Parsing values\<close>

definition json_space :: "char \<Rightarrow> bool" where
  "json_space c \<longleftrightarrow> c \<in> {CHR '' '', CHR 0x09, CHR 0x0A, CHR 0x0D}"

definition skip_ws :: "string \<Rightarrow> string" where
  "skip_ws s = dropWhile json_space s"

definition parse_frac :: "string \<Rightarrow> (string \<times> string) option" where
  "parse_frac s =
     (case s of
        c # r \<Rightarrow> if c = CHR ''.'' then (let fs = takeWhile is_digit r in if fs = [] then None else Some (fs, dropWhile is_digit r)) else Some ([], s)
      | [] \<Rightarrow> Some ([], s))"

definition parse_exp :: "string \<Rightarrow> (int \<times> string) option" where
  "parse_exp s =
     (case s of
        c # r \<Rightarrow>
          if c = CHR ''e'' \<or> c = CHR ''E'' then
            (let (sgn, r') = split_sign r; es = takeWhile is_digit r'
             in if es = [] then None else Some (sgn * int (undec es), dropWhile is_digit r'))
          else Some (0, s)
      | [] \<Rightarrow> Some (0, s))"

definition scale10 :: "rat \<Rightarrow> int \<Rightarrow> rat" where
  "scale10 q e = (if 0 \<le> e then q * 10 ^ nat e else q / 10 ^ nat (- e))"

definition parse_number :: "string \<Rightarrow> (jsvalue \<times> string) option" where
  "parse_number s =
     (let (sgn, s1) = (case s of c # r \<Rightarrow> if c = CHR ''-'' then (- 1, r) else (1, s) | [] \<Rightarrow> (1 :: rat, s));
          ds = takeWhile is_digit s1
      in if ds = [] \<or> (hd ds = CHR ''0'' \<and> tl ds \<noteq> []) then None
         else (case parse_frac (dropWhile is_digit s1) of
                 None \<Rightarrow> None
               | Some (fs, s2) \<Rightarrow>
                   (case parse_exp s2 of
                      None \<Rightarrow> None
                    | Some (e, s3) \<Rightarrow> Some (JNum (scale10 (sgn * of_nat (undec (ds @ fs))) (e - int (length fs))), s3))))"

definition make_object :: "(string \<times> jsvalue) list \<Rightarrow> jsvalue" where
  "make_object ms = JObj (foldl (\<lambda>obj (k, v). jset k v obj) [] ms)"

definition parse_word :: "string \<Rightarrow> (jsvalue \<times> string) option" where
  "parse_word s =
     (if starts_with ''null'' s then Some (JNull, drop 4 s) else if starts_with ''true'' s then Some (JBool True, drop 4 s)
      else if starts_with ''false'' s then Some (JBool False, drop 5 s) else parse_number s)"

text \<open>The number bounds the depth of calls; a call either consumes a character or is the first of its list.\<close>

fun parse_value :: "nat \<Rightarrow> string \<Rightarrow> (jsvalue \<times> string) option"
and parse_elements :: "nat \<Rightarrow> string \<Rightarrow> (jsvalue list \<times> string) option"
and parse_members :: "nat \<Rightarrow> string \<Rightarrow> ((string \<times> jsvalue) list \<times> string) option" where
  "parse_value 0 s = None"
| "parse_value (Suc n) s =
     (case skip_ws s of
        [] \<Rightarrow> None
      | c # cs \<Rightarrow>
          if c = CHR 0x22 then map_option (\<lambda>(t, r). (JStr t, r)) (parse_chars cs)
          else if c = CHR ''['' then
            (if take 1 (skip_ws cs) = '']'' then Some (JArr [], tl (skip_ws cs))
             else map_option (\<lambda>(vs, r). (JArr vs, r)) (parse_elements n cs))
          else if c = CHR ''{'' then
            (if take 1 (skip_ws cs) = ''}'' then Some (JObj [], tl (skip_ws cs))
             else map_option (\<lambda>(ms, r). (make_object ms, r)) (parse_members n cs))
          else parse_word (c # cs))"
| "parse_elements 0 s = None"
| "parse_elements (Suc n) s =
     (case parse_value n s of
        None \<Rightarrow> None
      | Some (v, r) \<Rightarrow>
          (case skip_ws r of
             c # r' \<Rightarrow>
               if c = CHR '']'' then Some ([v], r')
               else if c = CHR '','' then map_option (\<lambda>(vs, q). (v # vs, q)) (parse_elements n r')
               else None
           | [] \<Rightarrow> None))"
| "parse_members 0 s = None"
| "parse_members (Suc n) s =
     (case skip_ws s of
        [] \<Rightarrow> None
      | c # cs \<Rightarrow>
          if c = CHR 0x22 then
            (case parse_chars cs of
               None \<Rightarrow> None
             | Some (k, r) \<Rightarrow>
                 (if take 1 (skip_ws r) = '':'' then
                    (case parse_value n (tl (skip_ws r)) of
                       None \<Rightarrow> None
                     | Some (v, r1) \<Rightarrow>
                         (case skip_ws r1 of
                            d # r2 \<Rightarrow>
                              if d = CHR ''}'' then Some ([(k, v)], r2)
                              else if d = CHR '','' then map_option (\<lambda>(ms, q). ((k, v) # ms, q)) (parse_members n r2)
                              else None
                          | [] \<Rightarrow> None))
                  else None))
          else None)"

definition parse_fuel :: "string \<Rightarrow> nat" where
  "parse_fuel s = 2 * length s + 2"

definition json_parse :: "string \<Rightarrow> jsvalue option" where
  "json_parse s =
     (case parse_value (parse_fuel s) s of
        Some (v, r) \<Rightarrow> if skip_ws r = [] then Some v else None
      | None \<Rightarrow> None)"

section \<open>Every parser consumes its input\<close>

lemma parse_chars_shorter: "parse_chars s = Some (t, r) \<Longrightarrow> length r < length s"
proof (induction s arbitrary: t r rule: length_induct)
  case (1 s)
  note IH = "1.IH" [rule_format]
  show ?case
  proof (cases s)
    case (Cons c cs)
    have step: "parse_chars u = Some (t', r') \<Longrightarrow> length u < length s \<Longrightarrow> length r' < length s" for u t' r'
      using IH [of u t' r'] by simp
    show ?thesis
      using "1.prems" Cons
      by (auto split: if_splits list.splits option.splits dest: step)
  qed (use "1.prems" in simp)
qed

lemma skip_ws_shorter: "length (skip_ws s) \<le> length s"
  by (simp add: skip_ws_def length_dropWhile_le)

lemma parse_frac_shorter: "parse_frac s = Some (f, r) \<Longrightarrow> length r \<le> length s"
  by (auto simp: parse_frac_def Let_def split: list.splits if_splits intro: le_SucI length_dropWhile_le)

lemma split_sign_shorter: "length (snd (split_sign s)) \<le> length s"
  by (simp add: split_sign_def split: list.splits)

lemma parse_exp_shorter: "parse_exp s = Some (e, r) \<Longrightarrow> length r \<le> length s"
proof -
  assume "parse_exp s = Some (e, r)"
  then show ?thesis
    using split_sign_shorter [of "tl s"] length_dropWhile_le [of is_digit "snd (split_sign (tl s))"]
    by (auto simp: parse_exp_def Let_def case_prod_beta split: list.splits if_splits)
qed

lemma dropWhile_shorter: "takeWhile P s \<noteq> [] \<Longrightarrow> length (dropWhile P s) < length s"
  by (metis length_append length_greater_0_conv less_add_same_cancel2 takeWhile_dropWhile_id)

lemma parse_number_shorter: "parse_number s = Some (v, r) \<Longrightarrow> length r < length s"
proof -
  assume p: "parse_number s = Some (v, r)"
  let ?s1 = "snd (case s of c # r \<Rightarrow> if c = CHR ''-'' then (- 1, r) else (1, s) | [] \<Rightarrow> (1 :: rat, s))"
  have "takeWhile is_digit ?s1 \<noteq> []" using p by (auto simp: parse_number_def Let_def case_prod_beta split: if_splits)
  then have 1: "length (dropWhile is_digit ?s1) < length ?s1" by (rule dropWhile_shorter)
  have 2: "length ?s1 \<le> length s" by (simp split: list.split)
  obtain fs s2 e where "parse_frac (dropWhile is_digit ?s1) = Some (fs, s2)" "parse_exp s2 = Some (e, r)"
    using p by (auto simp: parse_number_def Let_def case_prod_beta split: if_splits option.splits)
  then show ?thesis using 1 2 parse_frac_shorter parse_exp_shorter by fastforce
qed

lemma starts_with_length: "starts_with p s \<Longrightarrow> length p \<le> length s"
  unfolding starts_with_def by (metis length_take min.cobounded1 min.commute)

lemma parse_word_shorter: "parse_word s = Some (v, r) \<Longrightarrow> length r < length s"
  using starts_with_length [of "''null''" s] starts_with_length [of "''true''" s] starts_with_length [of "''false''" s]
  by (auto simp: parse_word_def parse_number_shorter split: if_splits)

lemma skip_ws_Cons_shorter: "skip_ws s = c # cs \<Longrightarrow> length cs < length s"
  using skip_ws_shorter [of s] by simp

lemma tl_skip_shorter: "length (tl (skip_ws cs)) \<le> length cs"
  using skip_ws_shorter [of cs] by simp

lemma parse_shorter:
  "parse_value n s = Some (v, r) \<Longrightarrow> length r < length s"
  "parse_elements n s = Some (vs, r) \<Longrightarrow> length r < length s"
  "parse_members n s = Some (ms, r) \<Longrightarrow> length r < length s"
proof (induction n s and n s and n s arbitrary: v r and vs r and ms r rule: parse_value_parse_elements_parse_members.induct)
  case (2 n s)
  obtain c cs where s: "skip_ws s = c # cs" using "2.prems" by (cases "skip_ws s") auto
  note skip_ws_Cons_shorter [OF s]
  moreover have "length r \<le> length cs \<or> parse_word (c # cs) = Some (v, r)"
    using "2.prems" "2.IH" [OF s] s tl_skip_shorter [of cs]
    by (auto split: if_splits dest!: parse_chars_shorter intro: less_imp_le)
  ultimately show ?case using parse_word_shorter [of "c # cs" v r] skip_ws_shorter [of s] s by auto
next
  case (4 n s)
  obtain v r1 where v: "parse_value n s = Some (v, r1)" using "4.prems" by (auto split: option.splits)
  obtain c r2 where c: "skip_ws r1 = c # r2" using "4.prems" v by (cases "skip_ws r1") auto
  have "length r1 < length s" using "4.IH"(1) [OF v] .
  moreover note skip_ws_Cons_shorter [OF c]
  moreover have "r = r2 \<or> (\<exists>us. parse_elements n r2 = Some (us, r))" using "4.prems" v c by (auto split: if_splits)
  moreover have "parse_elements n r2 = Some (us, r) \<Longrightarrow> c = CHR '','' \<Longrightarrow> length r < length r2" for us
    using "4.IH"(2) [OF v refl c] by simp
  ultimately show ?case using "4.prems" v c by (fastforce split: if_splits)
next
  case (6 n s)
  obtain cs where s: "skip_ws s = CHR 0x22 # cs" using "6.prems" by (auto split: list.splits if_splits)
  obtain k r0 where k: "parse_chars cs = Some (k, r0)" "take 1 (skip_ws r0) = '':''"
    using "6.prems" s by (auto split: option.splits if_splits)
  obtain v r1 where v: "parse_value n (tl (skip_ws r0)) = Some (v, r1)" using "6.prems" s k by (auto split: option.splits)
  obtain d r2 where d: "skip_ws r1 = d # r2" using "6.prems" s k v by (cases "skip_ws r1") auto
  have "length r1 < length (tl (skip_ws r0))" using "6.IH"(1) [OF s refl k(1) refl k(2) v] by simp
  then have "length r2 < length s"
    using skip_ws_Cons_shorter [OF s] parse_chars_shorter [OF k(1)] tl_skip_shorter [of r0] skip_ws_Cons_shorter [OF d] by simp
  moreover have "parse_members n r2 = Some (us, r) \<Longrightarrow> d = CHR '','' \<Longrightarrow> length r < length r2" for us
    using "6.IH"(2) [OF s refl k(1) refl k(2) v refl d] by simp
  ultimately show ?case using "6.prems" s k v d by (fastforce split: if_splits)
qed simp_all

section \<open>The depth is enough\<close>

lemma parse_enough:
  "2 * length s < n \<Longrightarrow> 2 * length s < m \<Longrightarrow> parse_value n s = parse_value m s"
  "2 * length s + 1 < n \<Longrightarrow> 2 * length s + 1 < m \<Longrightarrow> parse_elements n s = parse_elements m s"
  "2 * length s + 1 < n \<Longrightarrow> 2 * length s + 1 < m \<Longrightarrow> parse_members n s = parse_members m s"
proof (induction n arbitrary: s m)
  case (Suc n)
  {
    case 1
    obtain k where m: "m = Suc k" using 1 by (cases m) auto
    show ?case
    proof (cases "skip_ws s")
      case (Cons c cs)
      have "2 * length cs + 1 < n" "2 * length cs + 1 < k" using 1 m skip_ws_Cons_shorter [OF Cons] by auto
      then show ?thesis using m Cons Suc.IH(2) [of cs k] Suc.IH(3) [of cs k] by simp
    qed (simp add: m)
  next
    case 2
    obtain k where m: "m = Suc k" using 2 by (cases m) auto
    have v: "parse_value n s = parse_value k s" using 2 m by (intro Suc.IH(1)) auto
    have "parse_elements n r' = parse_elements k r'" if "parse_value k s = Some (v, r)" "skip_ws r = c # r'" for v r c r'
      using 2 m parse_shorter(1) [OF that(1)] skip_ws_Cons_shorter [OF that(2)] by (intro Suc.IH(2)) auto
    then show ?case by (simp add: m v cong: if_cong split: option.split list.split)
  next
    case 3
    obtain k where m: "m = Suc k" using 3 by (cases m) auto
    have 1: "parse_value n (tl (skip_ws r)) = parse_value k (tl (skip_ws r))"
      if "skip_ws s = c # cs" "parse_chars cs = Some (x, r)" for c cs x r
      using 3 m skip_ws_Cons_shorter [OF that(1)] parse_chars_shorter [OF that(2)] tl_skip_shorter [of r]
      by (intro Suc.IH(1)) auto
    have 2: "parse_members n r2 = parse_members k r2"
      if "skip_ws s = c # cs" "parse_chars cs = Some (x, r)" "parse_value k (tl (skip_ws r)) = Some (v, r1)" "skip_ws r1 = d # r2"
      for c cs x r v r1 d r2
      using 3 m skip_ws_Cons_shorter [OF that(1)] parse_chars_shorter [OF that(2)] tl_skip_shorter [of r]
        parse_shorter(1) [OF that(3)] skip_ws_Cons_shorter [OF that(4)]
      by (intro Suc.IH(3)) auto
    show ?case by (simp add: m 1 2 cong: if_cong split: option.split list.split)
  }
qed simp_all

lemma json_parse_any_fuel:
  "2 * length s < n \<Longrightarrow> json_parse s = (case parse_value n s of Some (v, r) \<Rightarrow> if skip_ws r = [] then Some v else None | None \<Rightarrow> None)"
  unfolding json_parse_def by (subst parse_enough(1) [of s "parse_fuel s" n]) (simp_all add: parse_fuel_def)

section \<open>What is printed is read back\<close>

text \<open>What may follow a value inside a text: nothing that would prolong a number.\<close>

definition text_ends :: "string \<Rightarrow> bool" where
  "text_ends rest \<longleftrightarrow> (case rest of [] \<Rightarrow> True | c # _ \<Rightarrow> c \<in> {CHR '','', CHR '']'', CHR ''}''})"

lemma ends_simps [simp]: "text_ends []" "text_ends (CHR '','' # r)" "text_ends (CHR '']'' # r)" "text_ends (CHR ''}'' # r)"
  by (simp_all add: text_ends_def)

lemma digits_end:
  assumes "text_ends rest" "list_all is_digit ds"
  shows "takeWhile is_digit (ds @ rest) = ds" "dropWhile is_digit (ds @ rest) = rest"
proof -
  have "rest = [] \<or> \<not> is_digit (hd rest)" using assms(1) by (auto simp: text_ends_def is_digit_def split: list.splits)
  then show "takeWhile is_digit (ds @ rest) = ds" "dropWhile is_digit (ds @ rest) = rest"
    using assms(2) by (auto simp: takeWhile_append dropWhile_append list_all_iff takeWhile_eq_all_conv takeWhile_eq_Nil_iff dropWhile_eq_self_iff
        simp flip: takeWhile_all)
qed

lemma frac_end: "text_ends rest \<Longrightarrow> parse_frac rest = Some ([], rest)"
  by (auto simp: text_ends_def parse_frac_def split: list.splits)

lemma exp_end: "text_ends rest \<Longrightarrow> parse_exp rest = Some (0, rest)"
  by (auto simp: text_ends_def parse_exp_def split: list.splits)

lemma dec_no_leading_zero: "hd (dec n) = CHR ''0'' \<Longrightarrow> tl (dec n) = []"
proof (induction n rule: dec.induct)
  case (1 n)
  show ?case
  proof (cases "n < 10")
    case False
    then have "hd (dec n) = hd (dec (n div 10))" by (subst dec.simps) simp
    moreover have "dec (n div 10) \<noteq> ''0''"
    proof
      assume "dec (n div 10) = ''0''"
      then have "undec (dec (n div 10)) = 0" by (simp add: undec_def digit_val_def)
      then show False using False by simp
    qed
    ultimately have False using "1.IH" [OF False] "1.prems" by (cases "dec (n div 10)") auto
    then show ?thesis ..
  qed (simp add: dec.simps [of n])
qed

lemma parse_nat:
  assumes "text_ends rest"
  shows "parse_number (dec n @ rest) = Some (JNum (of_nat n), rest)"
proof -
  obtain c cs where d: "dec n = c # cs" by (cases "dec n") simp_all
  have "is_digit c" using dec_digits [of n] d by simp
  then have "c \<noteq> CHR ''-''" using digit_not_sign by blast
  then show ?thesis
    using dec_no_leading_zero [of n] digits_end [OF assms dec_digits, of n] frac_end [OF assms] exp_end [OF assms] d undec_dec [of n]
    by (simp add: parse_number_def Let_def scale10_def)
qed

lemma parse_neg:
  assumes "text_ends rest"
  shows "parse_number (CHR ''-'' # dec n @ rest) = Some (JNum (- of_nat n), rest)"
  using dec_no_leading_zero [of n] digits_end [OF assms dec_digits, of n] frac_end [OF assms] exp_end [OF assms] undec_dec [of n]
  by (auto simp add: parse_number_def Let_def scale10_def)

lemma parse_int_num:
  assumes "text_ends rest"
  shows "parse_number (int_str i @ rest) = Some (JNum (of_int i), rest)"
  using parse_nat [OF assms] parse_neg [OF assms] by (simp add: int_str_def)

definition opens :: "string \<Rightarrow> bool" where
  "opens s \<longleftrightarrow> (case s of [] \<Rightarrow> False | c # _ \<Rightarrow> \<not> json_space c \<and> c \<notin> {CHR '']'', CHR ''}''})"

lemma opens_append: "opens s \<Longrightarrow> opens (s @ t)"
  by (auto simp: opens_def split: list.splits)

lemma opens_skip: "opens s \<Longrightarrow> skip_ws s = s" "opens s \<Longrightarrow> take 1 s \<noteq> '']''" "opens s \<Longrightarrow> take 1 s \<noteq> ''}''" "opens s \<Longrightarrow> s \<noteq> []"
  by (auto simp: opens_def skip_ws_def split: list.splits)

lemma opens_dec: "opens (dec n)"
proof -
  obtain c cs where d: "dec n = c # cs" by (cases "dec n") simp_all
  have "is_digit c" using dec_digits [of n] d by simp
  then show ?thesis using d by (auto simp: opens_def json_space_def is_digit_def)
qed

lemma opens_text: "opens (json_text v)"
  using opens_dec by (cases v) (auto simp: int_str_def json_string_def opens_def json_space_def)

lemma opens_string: "opens (json_string s @ t)"
  by (simp add: json_string_def opens_def json_space_def)

lemma skip_punct [simp]:
  "skip_ws (CHR '','' # r) = CHR '','' # r" "skip_ws (CHR '']'' # r) = CHR '']'' # r" "skip_ws (CHR ''}'' # r) = CHR ''}'' # r"
  "skip_ws (CHR '':'' # r) = CHR '':'' # r" "skip_ws (CHR 0x22 # r) = CHR 0x22 # r" "skip_ws (CHR ''['' # r) = CHR ''['' # r"
  "skip_ws (CHR ''{'' # r) = CHR ''{'' # r"
  by (simp_all add: skip_ws_def json_space_def)

lemma not_word: "is_digit c \<or> c = CHR ''-'' \<Longrightarrow> parse_word (c # cs) = parse_number (c # cs)"
  by (auto simp: parse_word_def starts_with_def is_digit_def)

text \<open>A parser of values that reads back the given values.\<close>

definition reads_back :: "jsvalue \<Rightarrow> bool" where
  "reads_back v \<longleftrightarrow> (\<forall>rest n. text_ends rest \<longrightarrow> 2 * length (json_text v) < n \<longrightarrow> parse_value n (json_text v @ rest) = Some (v, rest))"

lemma reads_backD: "reads_back v \<Longrightarrow> text_ends rest \<Longrightarrow> 2 * length (json_text v) < n \<Longrightarrow> parse_value n (json_text v @ rest) = Some (v, rest)"
  by (simp add: reads_back_def)

lemma reads_backI:
  assumes "\<And>rest m. text_ends rest \<Longrightarrow> parse_value (Suc m) (json_text v @ rest) = Some (v, rest)"
  shows "reads_back v"
  using assms by (auto simp: reads_back_def elim!: less_natE)

lemma elements_read:
  assumes "\<forall>v \<in> set vs. reads_back v" "vs \<noteq> []" "2 * length (commas (map json_text vs)) + 1 < n"
  shows "parse_elements n (commas (map json_text vs) @ CHR '']'' # rest) = Some (vs, rest)"
  using assms
proof (induction vs arbitrary: n)
  case (Cons v vs)
  obtain m where n: "n = Suc m" using Cons.prems(3) by (cases n) auto
  show ?case
  proof (cases vs)
    case Nil
    then show ?thesis using Cons.prems n reads_backD [of v "CHR '']'' # rest" m] by simp
  next
    case (Cons w ws)
    then show ?thesis
      using Cons.prems Cons.IH [of m] n reads_backD [of v "CHR '','' # commas (map json_text vs) @ CHR '']'' # rest" m] by simp
  qed
qed simp

definition member_text :: "string \<times> jsvalue \<Rightarrow> string" where
  "member_text m = json_string (fst m) @ CHR '':'' # json_text (snd m)"

lemma member_step:
  assumes "reads_back v" "2 * length (json_text v) < m"
  shows "parse_members (Suc m) (member_text (k, v) @ CHR ''}'' # rest) = Some ([(k, v)], rest)"
    "parse_members (Suc m) (member_text (k, v) @ CHR '','' # rest) = map_option (\<lambda>(ms, q). ((k, v) # ms, q)) (parse_members m rest)"
proof -
  have key: "skip_ws (member_text (k, v) @ t) = CHR 0x22 # concat (map quote_char k) @ CHR 0x22 # CHR '':'' # json_text v @ t" for t
    by (simp add: member_text_def json_string_def)
  show "parse_members (Suc m) (member_text (k, v) @ CHR ''}'' # rest) = Some ([(k, v)], rest)"
    using assms reads_backD [of v "CHR ''}'' # rest" m] by (simp add: key parse_string)
  show "parse_members (Suc m) (member_text (k, v) @ CHR '','' # rest) = map_option (\<lambda>(ms, q). ((k, v) # ms, q)) (parse_members m rest)"
    using assms reads_backD [of v "CHR '','' # rest" m] by (simp add: key parse_string)
qed

lemma member_text_longer: "length (json_text (snd f)) < length (member_text f)"
  by (simp add: member_text_def)

lemma members_read:
  assumes "\<forall>m \<in> set fs. reads_back (snd m)" "fs \<noteq> []" "2 * length (commas (map member_text fs)) + 1 < n"
  shows "parse_members n (commas (map member_text fs) @ CHR ''}'' # rest) = Some (fs, rest)"
  using assms
proof (induction fs arbitrary: n)
  case (Cons f fs)
  obtain k v where f: "f = (k, v)" by (cases f)
  obtain m where n: "n = Suc m" using Cons.prems(3) by (cases n) auto
  have v: "reads_back v" using Cons.prems(1) f by simp
  show ?case
  proof (cases fs)
    case Nil
    then show ?thesis using Cons.prems(3) n f v member_text_longer [of f] member_step(1) [of v m k rest] by simp
  next
    case (Cons g gs)
    then have c: "commas (map member_text (f # fs)) @ CHR ''}'' # rest = member_text (k, v) @ CHR '','' # commas (map member_text fs) @ CHR ''}'' # rest"
      using f by simp
    have "2 * length (json_text v) < m" "2 * length (commas (map member_text fs)) + 1 < m"
      using Cons Cons.prems(3) n f member_text_longer [of f] by auto
    then show ?thesis
      unfolding c n member_step(2) [OF v \<open>2 * length (json_text v) < m\<close>]
      using Cons.IH [of m] Cons.prems(1) Cons f by simp
  qed
qed simp

lemma jset_new: "k \<notin> fst ` set obj \<Longrightarrow> jset k v obj = obj @ [(k, v)]"
  by (induction obj) auto

lemma make_object_distinct: "distinct (map fst fs) \<Longrightarrow> make_object fs = JObj fs"
proof -
  have "distinct (map fst (obj @ fs)) \<Longrightarrow> foldl (\<lambda>obj (k, v). jset k v obj) obj fs = obj @ fs" for obj
  proof (induction fs arbitrary: obj)
    case (Cons f fs)
    have "jset (fst f) (snd f) obj = obj @ [f]" using Cons.prems by (simp add: jset_new)
    then show ?case using Cons.IH [of "obj @ [f]"] Cons.prems by (simp add: case_prod_beta)
  qed simp
  from this [of "[]"] show "distinct (map fst fs) \<Longrightarrow> make_object fs = JObj fs" by (simp add: make_object_def)
qed

theorem value_read: "printable v \<Longrightarrow> reads_back v"
proof (induction v)
  case (JNum q)
  show ?case unfolding reads_back_def
  proof (intro allI impI)
    fix rest n assume a: "text_ends rest" "2 * length (json_text (JNum q)) < n"
    obtain m where n: "n = Suc m" using a(2) by (cases n) auto
    obtain c cs where c: "int_str \<lfloor>q\<rfloor> = c # cs" using opens_text [of "JNum q"] by (cases "int_str \<lfloor>q\<rfloor>") (auto simp: opens_def)
    have dg: "is_digit (hd (dec k))" for k
      using dec_digits [of k] by (cases "dec k") (simp_all del: dec_digits)
    have "c = CHR ''-'' \<or> c = hd (dec (nat \<lfloor>q\<rfloor>))" using c by (cases "\<lfloor>q\<rfloor> < 0") (simp_all add: int_str_def)
    then have "is_digit c \<or> c = CHR ''-''" using dg by blast
    then have first: "is_digit c \<or> c = CHR ''-''" .
    have word: "parse_word (c # cs @ rest) = parse_number (c # cs @ rest)" by (rule not_word) (rule first)
    have "c \<noteq> CHR 0x22" "c \<noteq> CHR ''[''" "c \<noteq> CHR ''{''" using first by (auto simp: is_digit_def)
    with word show "parse_value n (json_text (JNum q) @ rest) = Some (JNum q, rest)"
      using n c JNum parse_int_num [OF a(1), of "\<lfloor>q\<rfloor>"] opens_skip(1) [OF opens_append [OF opens_text], of "JNum q" rest] by simp
  qed
next
  case (JArr vs)
  show ?case unfolding reads_back_def
  proof (intro allI impI)
    fix rest n assume a: "text_ends rest" "2 * length (json_text (JArr vs)) < n"
    obtain m where n: "n = Suc m" using a(2) by (cases n) auto
    have "parse_elements m (commas (map json_text vs) @ CHR '']'' # rest) = Some (vs, rest)" if "vs \<noteq> []"
      using JArr that a n by (intro elements_read) auto
    moreover have "opens (commas (map json_text vs) @ CHR '']'' # rest)" if "vs \<noteq> []"
      using that opens_append [OF opens_text] by (cases "(vs, tl vs)" rule: prod.exhaust) (cases vs; cases "tl vs"; simp)
    ultimately have "skip_ws (commas (map json_text vs) @ CHR '']'' # rest) = commas (map json_text vs) @ CHR '']'' # rest \<and>
        take 1 (commas (map json_text vs) @ CHR '']'' # rest) \<noteq> '']'' \<and>
        parse_elements m (commas (map json_text vs) @ CHR '']'' # rest) = Some (vs, rest)" if "vs \<noteq> []"
      using that opens_skip by blast
    then show "parse_value n (json_text (JArr vs) @ rest) = Some (JArr vs, rest)"
      using n by (cases "vs = []") (simp_all del: take_append)
  qed
next
  case (JObj fs)
  have all: "filter (\<lambda>(k, v). v \<noteq> JUndefined) fs = fs" using JObj.prems by (auto intro!: filter_True)
  have texts: "json_text (JObj fs) = CHR ''{'' # commas (map member_text fs) @ ''}''"
    unfolding json_text.simps all by (simp add: member_text_def [abs_def] case_prod_beta')
  show ?case unfolding reads_back_def
  proof (intro allI impI)
    fix rest n assume a: "text_ends rest" "2 * length (json_text (JObj fs)) < n"
    obtain m where n: "n = Suc m" using a(2) by (cases n) auto
    have "parse_members m (commas (map member_text fs) @ CHR ''}'' # rest) = Some (fs, rest)" if "fs \<noteq> []"
      using JObj that a n texts by (intro members_read) (fastforce simp: snds.simps fsts.simps)+
    moreover have "opens (commas (map member_text fs) @ CHR ''}'' # rest)" if "fs \<noteq> []"
      using that opens_string by (cases fs; cases "tl fs") (simp_all add: member_text_def)
    ultimately have "skip_ws (commas (map member_text fs) @ CHR ''}'' # rest) = commas (map member_text fs) @ CHR ''}'' # rest \<and>
        take 1 (commas (map member_text fs) @ CHR ''}'' # rest) \<noteq> ''}'' \<and>
        parse_members m (commas (map member_text fs) @ CHR ''}'' # rest) = Some (fs, rest)" if "fs \<noteq> []"
      using that opens_skip by blast
    then show "parse_value n (json_text (JObj fs) @ rest) = Some (JObj fs, rest)"
      unfolding texts using n make_object_distinct [of fs] JObj.prems by (cases "fs = []") (simp_all del: take_append)
  qed
qed (auto intro!: reads_backI simp: parse_word_def starts_with_def skip_ws_def json_space_def json_string_def parse_string)

theorem json_roundtrip: "printable v \<Longrightarrow> json_parse (json_text v) = Some v"
  using reads_backD [OF value_read, of v "[]" "parse_fuel (json_text v)"] by (simp add: json_parse_def parse_fuel_def skip_ws_def)

section \<open>A beginning of the text of an object is not a value\<close>

text \<open>What a parser has read does not depend on what follows, except for a number at the end of its input.\<close>

lemma skip_ws_append: "skip_ws s = c # cs \<Longrightarrow> skip_ws (s @ q) = c # cs @ q"
  by (induction s) (auto simp: skip_ws_def split: if_splits)

lemma parse_chars_append: "parse_chars s = Some (t, r) \<Longrightarrow> parse_chars (s @ q) = Some (t, r @ q)"
proof (induction s arbitrary: t r rule: parse_chars.induct)
  case (2 c cs)
  consider "c = CHR 0x22" | "c = CHR 0x5C" | "c \<noteq> CHR 0x22" "c \<noteq> CHR 0x5C" by blast
  then show ?case
  proof cases
    case 1
    then show ?thesis using "2.prems" by simp
  next
    case bsl: 2
    obtain e ds where cs: "cs = e # ds" using "2.prems" bsl by (cases cs) auto
    show ?thesis
    proof (cases "e = CHR ''u''")
      case True
      obtain w x y z rest where ds: "ds = w # x # y # z # rest" using "2.prems" bsl cs True by (auto split: list.splits)
      obtain d u where d: "unescape_code w x y z = Some d" "parse_chars rest = Some (u, r)" "t = d # u"
        using "2.prems" bsl cs True ds by (auto split: option.splits)
      have "parse_chars (rest @ q) = Some (u, r @ q)" using "2.IH"(1) [OF _ bsl cs True ds refl refl refl d(1,2)] bsl by simp
      then show ?thesis using bsl cs True ds d by simp
    next
      case False
      obtain d u where d: "unescape_letter e = Some d" "parse_chars ds = Some (u, r)" "t = d # u"
        using "2.prems" bsl cs False by (auto split: option.splits)
      have "parse_chars (ds @ q) = Some (u, r @ q)" using "2.IH"(2) [OF _ bsl cs False d(1,2)] bsl by simp
      then show ?thesis using bsl cs False d by simp
    qed
  next
    case 3
    obtain u where u: "\<not> of_char c < (32 :: nat)" "parse_chars cs = Some (u, r)" "t = c # u"
      using "2.prems" 3 by (auto split: if_splits)
    show ?thesis using "2.IH"(3) [OF 3 u(1,2)] 3 u by simp
  qed
qed simp

lemma takeWhile_rest: "dropWhile P s \<noteq> [] \<Longrightarrow> takeWhile P (s @ q) = takeWhile P s \<and> dropWhile P (s @ q) = dropWhile P s @ q"
  by (induction s) auto

lemma parse_frac_append:
  assumes "parse_frac s = Some (f, r)" "r \<noteq> []"
  shows "parse_frac (s @ q) = Some (f, r @ q)"
  using assms takeWhile_rest [of is_digit "tl s" q]
  by (auto simp: parse_frac_def Let_def split: list.splits if_splits)

lemma parse_exp_append:
  assumes "parse_exp s = Some (e, r)" "r \<noteq> []"
  shows "parse_exp (s @ q) = Some (e, r @ q)"
proof (cases s)
  case (Cons c cs)
  show ?thesis
  proof (cases "c = CHR ''e'' \<or> c = CHR ''E''")
    case True
    obtain sgn r' where sg: "split_sign cs = (sgn, r')" by (cases "split_sign cs")
    then have "r' \<noteq> []" using assms Cons True by (auto simp: parse_exp_def Let_def split: if_splits)
    then have "split_sign (cs @ q) = (sgn, r' @ q)" using sg by (auto simp: split_sign_def split: list.splits if_splits)
    then show ?thesis using assms Cons True sg takeWhile_rest [of is_digit r' q]
      by (auto simp: parse_exp_def Let_def split: if_splits)
  next
    case False
    then show ?thesis using assms Cons by (auto simp: parse_exp_def)
  qed
qed (use assms in \<open>simp add: parse_exp_def\<close>)

lemma parse_number_append:
  assumes "parse_number s = Some (v, r)" "r \<noteq> []"
  shows "parse_number (s @ q) = Some (v, r @ q)"
proof -
  have "s \<noteq> []" using assms by (auto simp: parse_number_def)
  then obtain c cs where s: "s = c # cs" by (cases s) auto
  define u where "u = (if c = CHR ''-'' then cs else s)"
  obtain f s2 e where f: "parse_frac (dropWhile is_digit u) = Some (f, s2)" "parse_exp s2 = Some (e, r)"
    using assms(1) s by (auto simp: parse_number_def Let_def u_def split: if_splits option.splits)
  have "s2 \<noteq> []" using f(2) assms(2) by (auto simp: parse_exp_def)
  then have "dropWhile is_digit u \<noteq> []" using f(1) by (intro notI) (simp add: parse_frac_def)
  then have t: "takeWhile is_digit (u @ q) = takeWhile is_digit u" "dropWhile is_digit (u @ q) = dropWhile is_digit u @ q"
    using takeWhile_rest [of is_digit u q] by auto
  show ?thesis
    using assms(1) s f t parse_frac_append [OF f(1) \<open>s2 \<noteq> []\<close>, of q] parse_exp_append [OF f(2) assms(2), of q]
    by (auto simp: parse_number_def Let_def u_def split: if_splits)
qed

definition is_number :: "jsvalue \<Rightarrow> bool" where
  "is_number v \<longleftrightarrow> (\<exists>q. v = JNum q)"

lemma parse_number_is_number: "parse_number s = Some (v, r) \<Longrightarrow> is_number v"
  by (auto simp: parse_number_def is_number_def Let_def case_prod_beta split: if_splits option.splits)

lemma starts_with_more: "starts_with p s \<Longrightarrow> starts_with p (s @ q)"
  using starts_with_length [of p s] by (simp add: starts_with_def)

lemma parse_word_append:
  assumes "parse_word s = Some (v, r)" "r \<noteq> [] \<or> \<not> is_number v"
  shows "parse_word (s @ q) = Some (v, r @ q)"
proof (cases "starts_with ''null'' s \<or> starts_with ''true'' s \<or> starts_with ''false'' s")
  case True
  then obtain w u where w: "w \<in> {''null'', ''true'', ''false''}" "s = w @ u" using starts_with_split by blast
  have word: "parse_word (''null'' @ x) = Some (JNull, x)" "parse_word (''true'' @ x) = Some (JBool True, x)"
    "parse_word (''false'' @ x) = Some (JBool False, x)" for x by (simp_all add: parse_word_def starts_with_def)
  show ?thesis using assms(1) w word [of u] word [of "u @ q"] by auto
next
  case False
  then have n: "parse_number s = Some (v, r)" using assms(1) by (simp add: parse_word_def)
  then have "r \<noteq> []" using assms(2) parse_number_is_number by blast
  then have m: "parse_number (s @ q) = Some (v, r @ q)" by (rule parse_number_append [OF n])
  have "s \<noteq> []" using n by (auto simp: parse_number_def)
  then obtain c cs where s: "s = c # cs" by (cases s) auto
  have "is_digit c \<or> c = CHR ''-''" using n s by (auto simp: parse_number_def Let_def split: if_splits)
  then show ?thesis using not_word [of c "cs @ q"] m s by simp
qed

lemma parse_value_nonempty: "parse_value n s = Some (v, r) \<Longrightarrow> skip_ws s \<noteq> []"
  by (cases n) auto

lemma parse_elements_nonempty: "parse_elements n s = Some (vs, r) \<Longrightarrow> skip_ws s \<noteq> []"
  by (cases n) (auto split: option.splits dest: parse_value_nonempty)

lemma parse_members_nonempty: "parse_members n s = Some (ms, r) \<Longrightarrow> skip_ws s \<noteq> []"
  by (cases n) (auto split: list.splits)

lemma take_skip_append: "skip_ws s \<noteq> [] \<Longrightarrow> take 1 (skip_ws (s @ q)) = take 1 (skip_ws s) \<and> tl (skip_ws (s @ q)) = tl (skip_ws s) @ q"
  using skip_ws_append [of s _ _ q] by (cases "skip_ws s") auto

lemma take_one: "take 1 s = [c] \<Longrightarrow> s \<noteq> []"
  by auto

lemma parse_append:
  "parse_value n s = Some (v, r) \<Longrightarrow> r \<noteq> [] \<or> \<not> is_number v \<Longrightarrow> parse_value n (s @ q) = Some (v, r @ q)"
  "parse_elements n s = Some (vs, r) \<Longrightarrow> parse_elements n (s @ q) = Some (vs, r @ q)"
  "parse_members n s = Some (ms, r) \<Longrightarrow> parse_members n (s @ q) = Some (ms, r @ q)"
proof (induction n arbitrary: s v vs ms r)
  case (Suc n)
  {
    case 1
    obtain c cs where s: "skip_ws s = c # cs" using 1 by (cases "skip_ws s") auto
    note sq = skip_ws_append [OF s, of q] and first = 1
    consider "c = CHR 0x22" | "c = CHR ''[''" | "c = CHR ''{''" | "c \<noteq> CHR 0x22" "c \<noteq> CHR ''[''" "c \<noteq> CHR ''{''" by blast
    then show ?case
    proof cases
      case 1
      then show ?thesis using first(1) s sq by (auto dest: parse_chars_append)
    next
      case 2
      have ne: "skip_ws cs \<noteq> []" using first(1) s 2 parse_elements_nonempty [of n cs] by (fastforce split: if_splits)
      show ?thesis using first(1) s sq 2 Suc.IH(2) [of cs] take_skip_append [OF ne, of q]
        by (auto simp del: take_append take_Suc split: if_splits)
    next
      case 3
      have ne: "skip_ws cs \<noteq> []" using first(1) s 3 parse_members_nonempty [of n cs] by (fastforce split: if_splits)
      show ?thesis using first(1) s sq 3 Suc.IH(3) [of cs] take_skip_append [OF ne, of q]
        by (auto simp del: take_append split: if_splits)
    next
      case 4
      then show ?thesis using first s sq parse_word_append [of "c # cs" v r q] by simp
    qed
  next
    case 2
    obtain v r1 where v: "parse_value n s = Some (v, r1)" using 2 by (auto split: option.splits)
    obtain c r2 where c: "skip_ws r1 = c # r2" using 2 v by (cases "skip_ws r1") auto
    have vq: "parse_value n (s @ q) = Some (v, r1 @ q)" using c by (intro Suc.IH(1) [OF v]) (auto simp: skip_ws_def)
    show ?case using 2 v c vq skip_ws_append [OF c, of q] Suc.IH(2) [of r2] by (auto split: if_splits)
  next
    case 3
    obtain cs where s: "skip_ws s = CHR 0x22 # cs" using 3 by (auto split: list.splits if_splits)
    obtain k r0 where k: "parse_chars cs = Some (k, r0)" "take 1 (skip_ws r0) = '':''"
      using 3 s by (auto split: option.splits if_splits)
    have ne: "skip_ws r0 \<noteq> []" using k(2) by auto
    obtain v r1 where v: "parse_value n (tl (skip_ws r0)) = Some (v, r1)" using 3 s k by (auto split: option.splits)
    obtain d r2 where d: "skip_ws r1 = d # r2" using 3 s k v by (cases "skip_ws r1") auto
    have vq: "parse_value n (tl (skip_ws r0) @ q) = Some (v, r1 @ q)" using d by (intro Suc.IH(1) [OF v]) (auto simp: skip_ws_def)
    show ?case
      using 3 s k v d vq skip_ws_append [OF s, of q] parse_chars_append [OF k(1), of q] take_skip_append [OF ne, of q]
        skip_ws_append [OF d, of q] Suc.IH(3) [of r2]
      by (auto simp del: take_append split: if_splits)
  }
qed simp_all

text \<open>So the text of an object is not the beginning of another one: a line that was cut off is not read as a record.\<close>

lemma object_text_prefix_free:
  assumes "printable (JObj fs)" "json_text (JObj fs) = p @ q" "q \<noteq> []"
  shows "json_parse p = None"
proof (rule ccontr)
  assume "json_parse p \<noteq> None"
  then obtain v r where v: "parse_value (parse_fuel p) p = Some (v, r)" by (auto simp: json_parse_def split: option.splits prod.splits)
  let ?n = "parse_fuel (p @ q)"
  have n: "parse_value ?n p = Some (v, r)" using v parse_enough(1) [of p ?n "parse_fuel p"] by (simp add: parse_fuel_def)
  have "p \<noteq> []" using parse_value_nonempty [OF v] by (auto simp: skip_ws_def)
  then obtain cs where "p = CHR ''{'' # cs" using assms(2) by (cases p) auto
  then have "\<not> is_number v" using n by (auto simp: parse_fuel_def is_number_def make_object_def split: if_splits)
  then have "parse_value ?n (p @ q) = Some (v, r @ q)" using parse_append(1) [OF n] by blast
  moreover have "length (json_text (JObj fs)) = length p + length q" unfolding assms(2) by simp
  then have "parse_value ?n (json_text (JObj fs) @ []) = Some (JObj fs, [])"
    by (intro reads_backD [OF value_read [OF assms(1)]]) (simp_all add: parse_fuel_def del: json_text.simps)
  ultimately show False using assms(2,3) by (simp del: json_text.simps)
qed

end
