(* ===== verification/Js_Codec.thy ===== *)
theory Js_Codec
  imports Js_Json
begin

text \<open>
  The encodings of \<open>Buffer\<close> that the sources use: UTF-8 of Latin-1 strings and base64url of bytes. A byte is a
  character. Decoding base64url skips every character outside the alphabets (both the URL-safe and the ordinary
  one) and drops an incomplete last byte; decoding UTF-8 yields no string when the text leaves Latin-1 or is not UTF-8.
\<close>

section \<open>UTF-8\<close>

definition utf8_char :: "char \<Rightarrow> string" where
  "utf8_char c = (let n = of_char c :: nat in if n < 128 then [c] else [char_of (192 + n div 64), char_of (128 + n mod 64)])"

definition utf8_encode :: "string \<Rightarrow> string" where
  "utf8_encode s = concat (map utf8_char s)"

fun utf8_decode :: "string \<Rightarrow> string option" where
  "utf8_decode [] = Some []"
| "utf8_decode (b # bs) =
     (let n = of_char b :: nat in
      if n < 128 then map_option ((#) b) (utf8_decode bs)
      else
        (case bs of
           c # cs \<Rightarrow>
             (let m = of_char c :: nat in
              if (n = 194 \<or> n = 195) \<and> 128 \<le> m \<and> m < 192 then map_option ((#) (char_of ((n - 192) * 64 + (m - 128)))) (utf8_decode cs)
              else None)
         | [] \<Rightarrow> None))"

lemma of_char_less: "(of_char c :: nat) < 256"
  by (metis of_char_of char_of_char mod_less_divisor zero_less_numeral)

lemma byte_parts: "a < 256 \<Longrightarrow> a div 4 < 64" "a < 256 \<Longrightarrow> a div 16 < 16" "a < 256 \<Longrightarrow> a div 64 < 4" for a :: nat
  by (simp_all add: div_less_iff_less_mult)

lemma utf8_char_decode: "utf8_decode (utf8_char c @ rest) = map_option ((#) c) (utf8_decode rest)"
proof (cases "of_char c < (128 :: nat)")
  case False
  let ?n = "of_char c :: nat"
  have "?n div 64 < 4" "2 \<le> ?n div 64" using False byte_parts(3) [OF of_char_less, of c] by (simp_all add: less_eq_div_iff_mult_less_eq)
  then have "192 + ?n div 64 = 194 \<or> 192 + ?n div 64 = 195" by linarith
  moreover have c: "char_of (k * 64 + ?n mod 64) = c" if "?n div 64 = k" for k by (metis that char_of_char div_mult_mod_eq)
  ultimately show ?thesis using False c [of 2] c [of 3] by (auto simp: utf8_char_def Let_def)
qed (simp add: utf8_char_def)

lemma utf8_roundtrip [simp]: "utf8_decode (utf8_encode s) = Some s"
proof -
  have "utf8_decode (utf8_encode s @ []) = Some s"
    unfolding utf8_encode_def by (induction s) (simp_all add: utf8_char_decode del: append_Nil2)
  then show ?thesis by simp
qed

section \<open>Base64url\<close>

definition base64_char :: "nat \<Rightarrow> char" where
  "base64_char d = (if d < 26 then char_of (65 + d) else if d < 52 then char_of (71 + d) else if d < 62 then char_of (d - 4)
     else if d = 62 then CHR ''-'' else CHR ''_'')"

definition base64_val :: "char \<Rightarrow> nat option" where
  "base64_val c = (let n = of_char c :: nat in
     if 65 \<le> n \<and> n \<le> 90 then Some (n - 65) else if 97 \<le> n \<and> n \<le> 122 then Some (n - 71)
     else if 48 \<le> n \<and> n \<le> 57 then Some (n + 4) else if n = 45 \<or> n = 43 then Some 62 else if n = 95 \<or> n = 47 then Some 63 else None)"

fun sextets :: "nat list \<Rightarrow> nat list" where
  "sextets [] = []"
| "sextets [a] = [a div 4, (a mod 4) * 16]"
| "sextets [a, b] = [a div 4, (a mod 4) * 16 + b div 16, (b mod 16) * 4]"
| "sextets (a # b # c # bs) = a div 4 # ((a mod 4) * 16 + b div 16) # ((b mod 16) * 4 + c div 64) # (c mod 64) # sextets bs"

fun octets :: "nat list \<Rightarrow> nat list" where
  "octets (w # x # y # z # ds) = (w * 4 + x div 16) # ((x mod 16) * 16 + y div 4) # ((y mod 4) * 64 + z) # octets ds"
| "octets [w, x, y] = [w * 4 + x div 16, (x mod 16) * 16 + y div 4]"
| "octets [w, x] = [w * 4 + x div 16]"
| "octets _ = []"

definition base64url_encode :: "string \<Rightarrow> string" where
  "base64url_encode s = map base64_char (sextets (map of_char s))"

definition base64url_decode :: "string \<Rightarrow> string" where
  "base64url_decode s = map char_of (octets (List.map_filter base64_val s))"

lemma base64_char_val [simp]: "d < 64 \<Longrightarrow> base64_val (base64_char d) = Some d"
  by (auto simp: base64_char_def base64_val_def Let_def)

lemma octets_sextets: "\<forall>b \<in> set bs. b < 256 \<Longrightarrow> octets (sextets bs) = bs"
proof (induction bs rule: sextets.induct)
  case (2 a)
  then show ?case by (simp add: div_mult2_eq)
next
  case (3 a b)
  have "a div 4 * 4 + (a mod 4 * 16 + b div 16) div 16 = a" using 3 byte_parts(2) [of b] by simp
  moreover have "(a mod 4 * 16 + b div 16) mod 16 * 16 + b mod 16 * 4 div 4 = b" using 3 byte_parts(2) [of b] by simp
  ultimately show ?case by simp
next
  case (4 a b c bs)
  have "a div 4 * 4 + (a mod 4 * 16 + b div 16) div 16 = a" using 4 byte_parts(2) [of b] by simp
  moreover have "(a mod 4 * 16 + b div 16) mod 16 * 16 + (b mod 16 * 4 + c div 64) div 4 = b" using 4 byte_parts(2) [of b] byte_parts(3) [of c] by simp
  moreover have "(b mod 16 * 4 + c div 64) mod 4 * 64 + c mod 64 = c" using 4 byte_parts(3) [of c] by simp
  ultimately show ?case using 4 by simp
qed simp

lemma mixed_less: "b < 256 \<Longrightarrow> a mod 4 * 16 + b div 16 < 64" "c < 256 \<Longrightarrow> b mod 16 * 4 + c div 64 < 64" "b mod 16 * 4 < 64" "a mod 4 * 16 < 64"
  for a b c :: nat
  using byte_parts(2) [of b] byte_parts(3) [of c] mod_less_divisor [of 4 a] mod_less_divisor [of 16 b] by linarith+

lemma sextets_less: "\<forall>b \<in> set bs. b < 256 \<Longrightarrow> \<forall>d \<in> set (sextets bs). d < 64"
  by (induction bs rule: sextets.induct) (simp_all add: byte_parts mixed_less)

lemma map_filter_encoded: "\<forall>d \<in> set ds. d < 64 \<Longrightarrow> List.map_filter base64_val (map base64_char ds) = ds"
  by (induction ds) (simp_all add: map_filter_simps)

lemma base64url_roundtrip [simp]: "base64url_decode (base64url_encode s) = s"
proof -
  have "\<forall>b \<in> set (map of_char s). b < (256 :: nat)" by (simp add: of_char_less)
  then show ?thesis
    using map_filter_encoded [OF sextets_less] octets_sextets
    by (simp add: base64url_decode_def base64url_encode_def comp_def)
qed

end
