(* ===== verification/Pagination.thy ===== *)
theory Pagination
  imports Js_Codec
begin

text \<open>
  Pagination of tool results, \<open>src/src/mcp/pagination.ts\<close>. A cursor is the base64url text of a JSON object; what the
  client sends back is any string. Offsets are whole numbers below \<open>10 ^ 21\<close>, where the language prints them in
  decimal.
\<close>

section \<open>Cursors\<close>

datatype page_error = Invalid_cursor | Bad_offset rat | Bad_page_size jsvalue

record cursor_state =
  cu_offset :: nat
  cu_hash :: "string option"

definition cursor_version :: rat where "cursor_version = 1"

definition to_base64url :: "string \<Rightarrow> string" where
  "to_base64url s = base64url_encode (utf8_encode s)"

definition from_base64url :: "string \<Rightarrow> string option" where
  "from_base64url s = utf8_decode (base64url_decode s)"

definition encode_cursor :: "rat \<Rightarrow> string option \<Rightarrow> page_error + string" where
  "encode_cursor offset hash =
     (if of_int \<lfloor>offset\<rfloor> \<noteq> offset \<or> offset < 0 then Inl (Bad_offset offset)
      else Inr (to_base64url (json_text (JObj ([(''v'', JNum cursor_version), (''offset'', JNum offset)] @
             (case hash of None \<Rightarrow> [] | Some h \<Rightarrow> [(''hash'', JStr h)]))))))"

definition decode_cursor :: "string \<Rightarrow> page_error + cursor_state" where
  "decode_cursor cursor =
     (case Option.bind (from_base64url cursor) json_parse of
        Some (JObj obj) \<Rightarrow>
          (case as_integer (field obj ''offset'') of
             Some n \<Rightarrow>
               if field obj ''v'' = JNum cursor_version \<and> 0 \<le> n
               then Inr \<lparr>cu_offset = nat n, cu_hash = as_string (field obj ''hash'')\<rparr>
               else Inl Invalid_cursor
           | None \<Rightarrow> Inl Invalid_cursor)
      | _ \<Rightarrow> Inl Invalid_cursor)"

section \<open>Pages\<close>

record paginate_opts =
  po_cursor :: "string option"
  po_page_size :: jsvalue
  po_hash :: "string option"

record 'a paginate_result =
  pr_items :: "'a list"
  pr_next :: "string option"
  pr_has_more :: bool
  pr_total :: nat
  pr_stale :: bool

definition stale_page :: "'a list \<Rightarrow> 'a paginate_result" where
  "stale_page items = \<lparr>pr_items = [], pr_next = None, pr_has_more = False, pr_total = length items, pr_stale = True\<rparr>"

definition page_at :: "'a list \<Rightarrow> nat \<Rightarrow> nat \<Rightarrow> string option \<Rightarrow> page_error + 'a paginate_result" where
  "page_at items offset n hash =
     (let stop = min (offset + n) (length items);
          page = \<lparr>pr_items = take (stop - offset) (drop offset items), pr_next = None, pr_has_more = stop < length items,
                  pr_total = length items, pr_stale = False\<rparr>
      in if stop < length items
         then (case encode_cursor (of_nat stop) hash of Inl e \<Rightarrow> Inl e | Inr c \<Rightarrow> Inr (page\<lparr>pr_next := Some c\<rparr>))
         else Inr page)"

definition paginate :: "'a list \<Rightarrow> paginate_opts \<Rightarrow> page_error + 'a paginate_result" where
  "paginate items opts =
     (case as_integer (po_page_size opts) of
        Some n \<Rightarrow>
          if n \<le> 0 then Inl (Bad_page_size (po_page_size opts))
          else
            (case po_cursor opts of
               None \<Rightarrow> page_at items 0 (nat n) (po_hash opts)
             | Some cursor \<Rightarrow>
                 (case decode_cursor cursor of
                    Inl e \<Rightarrow> Inl e
                  | Inr st \<Rightarrow>
                      if po_hash opts \<noteq> None \<and> cu_hash st \<noteq> None \<and> cu_hash st \<noteq> po_hash opts then Inr (stale_page items)
                      else page_at items (cu_offset st) (nat n) (po_hash opts)))
      | None \<Rightarrow> Inl (Bad_page_size (po_page_size opts)))"

definition summarize_cursor :: "string option \<Rightarrow> string" where
  "summarize_cursor cursor =
     (case truthy_str cursor of
        None \<Rightarrow> ''(none)''
      | Some c \<Rightarrow>
          (case decode_cursor c of
             Inr st \<Rightarrow> ''cursor(v1, offset='' @ dec (cu_offset st) @
               (case truthy_str (cu_hash st) of None \<Rightarrow> [] | Some h \<Rightarrow> '', hash='' @ take 8 h) @ '')''
           | Inl _ \<Rightarrow> ''cursor(invalid)''))"

section \<open>What is encoded is decoded\<close>

lemma base64url_text [simp]: "from_base64url (to_base64url s) = Some s"
  by (simp add: from_base64url_def to_base64url_def)

lemma cursor_printable:
  "n < 10 ^ 21 \<Longrightarrow> printable (JObj ([(''v'', JNum cursor_version), (''offset'', JNum (of_nat n))] @
     (case hash of None \<Rightarrow> [] | Some h \<Rightarrow> [(''hash'', JStr h)])))"
proof -
  assume "n < 10 ^ 21"
  then have "of_nat n < (of_nat (10 ^ 21) :: rat)" by (simp only: of_nat_less_iff)
  then have "of_nat n < (1000000000000000000000 :: rat)" by simp
  then show ?thesis by (simp add: cursor_version_def split: option.split)
qed

lemma cursor_encoded:
  assumes "n < 10 ^ 21"
  shows "\<exists>c. encode_cursor (of_nat n) hash = Inr c \<and> decode_cursor c = Inr \<lparr>cu_offset = n, cu_hash = hash\<rparr>"
proof -
  let ?obj = "[(''v'', JNum cursor_version), (''offset'', JNum (of_nat n))] @ (case hash of None \<Rightarrow> [] | Some h \<Rightarrow> [(''hash'', JStr h)])"
  have p: "json_parse (json_text (JObj ?obj)) = Some (JObj ?obj)" by (rule json_roundtrip) (rule cursor_printable [OF assms])
  have n: "as_integer (JNum (of_nat n)) = Some (int n)" by (simp add: as_integer_def)
  show ?thesis
    by (rule exI [of _ "to_base64url (json_text (JObj ?obj))"], simp add: encode_cursor_def decode_cursor_def p del: json_text.simps append_Cons)
      (simp add: field_def n as_string_def split: option.split)
qed

text \<open>A cursor that the server hands out is read back with the same offset and the same content hash,
  whatever characters the hash contains, and is never taken for an invalid one.\<close>

theorem cursor_roundtrip:
  assumes "n < 10 ^ 21"
  shows "\<exists>c. encode_cursor (of_nat n) hash = Inr c \<and> decode_cursor c = Inr \<lparr>cu_offset = n, cu_hash = hash\<rparr>"
  by (rule cursor_encoded) (rule assms)

theorem cursor_roundtrip_witness:
  "\<exists>c. encode_cursor (of_nat 20) (Some ''a\"b'') = Inr c \<and> decode_cursor c = Inr \<lparr>cu_offset = 20, cu_hash = Some ''a\"b''\<rparr>"
  by (rule cursor_roundtrip) simp


section \<open>Following the cursors\<close>

text \<open>A client that asks for the first page and then follows the cursors, at most \<open>fuel\<close> times; \<open>None\<close> when it meets an
  error, a stale cursor or the limit.\<close>

fun follow :: "nat \<Rightarrow> 'a list \<Rightarrow> jsvalue \<Rightarrow> string option \<Rightarrow> string option \<Rightarrow> 'a list option" where
  "follow 0 items psize hash cursor = None"
| "follow (Suc fuel) items psize hash cursor =
     (case paginate items \<lparr>po_cursor = cursor, po_page_size = psize, po_hash = hash\<rparr> of
        Inl _ \<Rightarrow> None
      | Inr r \<Rightarrow>
          if pr_stale r then None
          else (case pr_next r of None \<Rightarrow> Some (pr_items r) | Some c \<Rightarrow> map_option ((@) (pr_items r)) (follow fuel items psize hash (Some c))))"

definition cursor_at :: "nat \<Rightarrow> string option \<Rightarrow> string option \<Rightarrow> bool" where
  "cursor_at k hash cursor \<longleftrightarrow> (case cursor of None \<Rightarrow> k = 0 | Some c \<Rightarrow> decode_cursor c = Inr \<lparr>cu_offset = k, cu_hash = hash\<rparr>)"

lemma paginate_at:
  assumes "cursor_at k hash cursor" "0 < n"
  shows "paginate items \<lparr>po_cursor = cursor, po_page_size = JNum (of_nat n), po_hash = hash\<rparr> = page_at items k n hash"
proof -
  have "as_integer (JNum (of_nat n)) = Some (int n)" by (simp add: as_integer_def)
  then show ?thesis using assms by (auto simp: paginate_def cursor_at_def split: option.splits)
qed

lemma page_at_last: "length items \<le> k + n \<Longrightarrow>
  page_at items k n hash = Inr \<lparr>pr_items = drop k items, pr_next = None, pr_has_more = False, pr_total = length items, pr_stale = False\<rparr>"
  by (simp add: page_at_def min_def)

lemma page_at_more:
  assumes "k + n < length items" "length items < 10 ^ 21"
  obtains c where "page_at items k n hash = Inr \<lparr>pr_items = take n (drop k items), pr_next = Some c, pr_has_more = True,
      pr_total = length items, pr_stale = False\<rparr>" "cursor_at (k + n) hash (Some c)"
proof -
  obtain c where c: "encode_cursor (of_nat (k + n)) hash = Inr c" "decode_cursor c = Inr \<lparr>cu_offset = k + n, cu_hash = hash\<rparr>"
    using cursor_encoded [of "k + n" hash] assms by auto
  with assms(1) show ?thesis by (intro that [of c]) (simp_all add: page_at_def min_def cursor_at_def)
qed

lemma follow_from:
  assumes "length items < 10 ^ 21" "0 < n" "cursor_at k hash cursor" "length items \<le> k + fuel * n" "0 < fuel"
  shows "follow fuel items (JNum (of_nat n)) hash cursor = Some (drop k items)"
  using assms(3-5)
proof (induction fuel arbitrary: k cursor)
  case (Suc fuel)
  show ?case
  proof (cases "length items \<le> k + n")
    case True
    then show ?thesis using paginate_at [OF Suc.prems(1) assms(2), of items] by (simp add: page_at_last)
  next
    case False
    then obtain c where c: "page_at items k n hash = Inr \<lparr>pr_items = take n (drop k items), pr_next = Some c, pr_has_more = True,
        pr_total = length items, pr_stale = False\<rparr>" "cursor_at (k + n) hash (Some c)"
      using page_at_more [of k n items hash] assms(1) by auto
    have "fuel \<noteq> 0" using False Suc.prems(2) by (cases fuel) auto
    then have "follow fuel items (JNum (of_nat n)) hash (Some c) = Some (drop (k + n) items)"
      using Suc.prems(2) by (intro Suc.IH [OF c(2)]) (simp_all add: algebra_simps)
    then show ?thesis using c paginate_at [OF Suc.prems(1) assms(2), of items] append_take_drop_id [of n "drop k items"] by (simp add: add.commute)
  qed
qed simp

text \<open>C29 (liveness). Whatever the page size, a client that follows the cursors from the first page meets no error and after
  \<open>length items div n + 1\<close> requests at the latest has every item exactly once and in order.\<close>

theorem cursors_enumerate_everything:
  assumes "0 < n" "length items < 10 ^ 21" "length items div n < fuel"
  shows "follow fuel items (JNum (of_nat n)) hash None = Some items"
proof -
  have "length items < Suc (length items div n) * n" using assms(1) by (simp add: dividend_less_div_times add.commute)
  also have "\<dots> \<le> fuel * n" using assms(3) by (intro mult_right_mono) auto
  finally show ?thesis
    using follow_from [of items n 0 hash None fuel] assms by (simp add: cursor_at_def)
qed

theorem cursors_enumerate_everything_witness:
  "follow 3 [10, 20, 30, 40, 50 :: int] (JNum (of_nat 2)) (Some ''h'') None = Some [10, 20, 30, 40, 50]"
  by (rule cursors_enumerate_everything) simp_all

text \<open>A page is a window of at most the page size, there is a cursor exactly when more follows, and a cursor issued for
  other content is reported as stale, with no items.\<close>

lemma page_is_window:
  assumes "paginate items opts = Inr r" "\<not> pr_stale r"
  shows "\<exists>k. pr_items r = take (length (pr_items r)) (drop k items) \<and> (pr_next r \<noteq> None \<longleftrightarrow> pr_has_more r) \<and> pr_total r = length items"
proof -
  obtain k n where "page_at items k n (po_hash opts) = Inr r"
    using assms by (auto simp: paginate_def stale_page_def split: option.splits sum.splits if_splits)
  then show ?thesis
    by (intro exI [of _ k]) (auto simp: page_at_def Let_def split: if_splits sum.splits)
qed

lemma stale_cursor_reported:
  assumes "decode_cursor c = Inr \<lparr>cu_offset = k, cu_hash = Some h\<rparr>" "h \<noteq> h'" "0 < n"
  shows "paginate items \<lparr>po_cursor = Some c, po_page_size = JNum (of_nat n), po_hash = Some h'\<rparr> = Inr (stale_page items)"
proof -
  have "as_integer (JNum (of_nat n)) = Some (int n)" by (simp add: as_integer_def)
  then show ?thesis using assms by (simp add: paginate_def)
qed

end
