(* ===== verification/Scope_Policy.thy ===== *)
theory Scope_Policy
  imports Oc_Prelude
begin

text \<open>
  Which scopes a tool needs and which keys may call it, \<open>src/src/auth/scope-policy.ts\<close>. The sets are lists, in the
  order of the source.
\<close>

datatype scope = Read | Write | Admin | Headless_only

definition read_tools :: "string list" where
  "read_tools = [
    ''read_page'', ''page_content'', ''page_screenshot'', ''page_pdf'', ''query_dom'', ''oc_query'', ''find'',
    ''vision_find'', ''inspect'', ''tabs_context'', ''list_profiles'', ''oc_profile_status'',
    ''oc_get_connection_info'', ''oc_connection_health'', ''oc_policy'', ''oc_workspace'', ''oc_journal'',
    ''oc_devtools_url'', ''oc_evidence_get'', ''performance_metrics'', ''console_capture'', ''extract_data'',
    ''wait_for'', ''workflow_status'', ''workflow_collect'', ''workflow_collect_partial'', ''oc_recording_list'',
    ''oc_recording_export'', ''oc_task_run_get'', ''oc_task_run_list'', ''oc_totp_generate'']"

definition write_tools :: "string list" where
  "write_tools = [
    ''act'', ''interact'', ''click'', ''type'', ''press'', ''scroll'', ''drag_drop'', ''lightweight_scroll'',
    ''fill_form'', ''form_input'', ''file_upload'', ''select_option'', ''navigate'', ''page_reload'',
    ''tabs_activate'', ''tabs_create'', ''tabs_close'', ''javascript_tool'', ''cookies'', ''storage'', ''http_auth'',
    ''network'', ''request_intercept'', ''emulate_device'', ''user_agent'', ''geolocation'', ''oc_stop'',
    ''oc_session_resume'', ''oc_session_snapshot'', ''oc_checkpoint'', ''oc_assert'', ''workflow_init'',
    ''workflow_cleanup'', ''worker_update'', ''worker_complete'', ''execute_plan'', ''worker'', ''memory'',
    ''oc_recording_start'', ''oc_recording_stop'', ''oc_copy_to_clipboard'', ''oc_open_host_settings'', ''computer'',
    ''batch_execute'', ''batch_paginate'', ''crawl'', ''crawl_sitemap'']"

definition admin_tools :: "string list" where "admin_tools = []"

definition required_scope :: "string \<Rightarrow> scope" where
  "required_scope tool =
     (if tool \<in> set admin_tools then Admin else if tool \<in> set read_tools then Read else Write)"

definition is_allowed :: "string \<Rightarrow> scope list option \<Rightarrow> bool" where
  "is_allowed tool granted =
     (case granted of
        None \<Rightarrow> False
      | Some gs \<Rightarrow>
          if gs = [] then False
          else if Admin \<in> set gs then True
          else if required_scope tool = Admin then False
          else if Write \<in> set gs then True
          else if required_scope tool = Write then False
          else Read \<in> set gs)"

section \<open>The order of scopes\<close>

text \<open>The scopes form a chain, \<open>headless-only\<close> stands below it and grants nothing.\<close>

fun rank :: "scope \<Rightarrow> nat" where
  "rank Headless_only = 0"
| "rank Read = 1"
| "rank Write = 2"
| "rank Admin = 3"

lemma required_cases: "required_scope tool = Admin \<or> required_scope tool = Read \<or> required_scope tool = Write"
  by (simp add: required_scope_def)

lemma allowed_by_rank: "is_allowed tool (Some gs) \<longleftrightarrow> (\<exists>g \<in> set gs. rank (required_scope tool) \<le> rank g)"
proof -
  have ge: "2 \<le> rank g \<longleftrightarrow> g = Write \<or> g = Admin" "Suc 0 \<le> rank g \<longleftrightarrow> g = Read \<or> g = Write \<or> g = Admin" "3 \<le> rank g \<longleftrightarrow> g = Admin" for g
    by (cases g; simp)+
  show ?thesis using required_cases [of tool]
    by (auto simp: is_allowed_def ge)
qed

text \<open>The cascade of tests is the order of scopes: a call is allowed exactly when some granted scope
  ranks at least as high as the one the tool needs; no other scope, in particular \<open>headless-only\<close>, grants anything. A
  tool that the policy does not list as read-only is refused to every key without write or admin.\<close>

theorem scope_policy_is_the_order:
  "\<forall>tool gs. is_allowed tool gs \<longleftrightarrow>
     (\<exists>g. g \<in> set (default_to [] gs) \<and> rank (required_scope tool) \<le> rank g \<and> (tool \<in> set read_tools \<or> g = Write \<or> g = Admin))"
proof (intro allI)
  fix tool gs
  have ge: "2 \<le> rank g \<longleftrightarrow> g = Write \<or> g = Admin" for g by (cases g) simp_all
  have "tool \<in> set read_tools \<or> required_scope tool = Write" by (simp add: required_scope_def admin_tools_def)
  then show "is_allowed tool gs \<longleftrightarrow>
     (\<exists>g. g \<in> set (default_to [] gs) \<and> rank (required_scope tool) \<le> rank g \<and> (tool \<in> set read_tools \<or> g = Write \<or> g = Admin))"
    using allowed_by_rank [of tool] by (cases gs) (auto simp: is_allowed_def ge)
qed

lemma more_scopes_allow_more: "is_allowed tool (Some gs) \<Longrightarrow> set gs \<subseteq> set hs \<Longrightarrow> is_allowed tool (Some hs)"
  by (auto simp: allowed_by_rank)

lemma lists_disjoint: "set read_tools \<inter> set write_tools = {}"
  by (simp add: read_tools_def write_tools_def)

end
