(* ===== verification/Key_Store.thy ===== *)
theory Key_Store
  imports Js_Codec Scope_Policy
begin

text \<open>
  The store of API keys, \<open>src/src/auth/api-key-store.ts\<close>: a log of JSON lines in one file that several processes read and
  append to, each with an index of its own that it brings up to date from the bytes after its cursor. A record is
  the object that the line holds; what a process reads is not validated beyond its key. The steps of a process are the
  system calls between its awaits: the stat, the check of its result, the read, and the application of what was read; a
  writer holds the lock of the file (which excludes other writers), brings itself up to date, and appends bytes that
  others may see in part. A process may crash, an append may fail half-way. Replacing or removing the file is
  covered by the check only. SHA-256, argon2 and random bytes are arguments.
\<close>

section \<open>Key ids\<close>

definition base62_alphabet :: string where
  "base62_alphabet = ''0123456789ABCDEFGHIJKLMNOPQRSTUVWXYZabcdefghijklmnopqrstuvwxyz''"

definition bytes_value :: "nat list \<Rightarrow> nat" where
  "bytes_value bs = foldl (\<lambda>n b. n * 256 + b) 0 bs"

fun base62_digits :: "nat \<Rightarrow> string" where
  "base62_digits n = (if n = 0 then [] else base62_digits (n div 62) @ [base62_alphabet ! (n mod 62)])"

declare base62_digits.simps [simp del]

text \<open>The number of digits of the largest value is \<open>\<lceil>n * log 256 / log 62\<rceil>\<close>.\<close>

definition base62_width :: "nat \<Rightarrow> nat" where
  "base62_width n = length (base62_digits (256 ^ n - 1))"

definition base62_encode :: "nat list \<Rightarrow> string" where
  "base62_encode bs =
     (let out = base62_digits (bytes_value bs)
      in replicate (base62_width (length bs) - length out) (CHR ''0'') @ out)"

definition compute_key_id :: "(string \<Rightarrow> nat list) \<Rightarrow> string \<Rightarrow> string" where
  "compute_key_id sha256 plaintext = ''k_'' @ take 10 (base62_encode (sha256 plaintext))"

definition key_prefix :: string where "key_prefix = ''oc_live_''"

section \<open>Records\<close>

type_synonym key_record = "(string \<times> jsvalue) list"

definition truthy :: "jsvalue \<Rightarrow> bool" where
  "truthy v = (case v of JUndefined \<Rightarrow> False | JNull \<Rightarrow> False | JBool b \<Rightarrow> b | JNum q \<Rightarrow> q \<noteq> 0 | JNaN \<Rightarrow> False | JStr s \<Rightarrow> s \<noteq> [] | _ \<Rightarrow> True)"

definition is_revoked :: "key_record \<Rightarrow> bool" where
  "is_revoked r = (case field r ''revokedAt'' of JNum _ \<Rightarrow> True | JNaN \<Rightarrow> True | JInfinity _ \<Rightarrow> True | _ \<Rightarrow> False)"

definition is_expired :: "key_record \<Rightarrow> int \<Rightarrow> bool" where
  "is_expired r now = (case field r ''expiresAt'' of JNum q \<Rightarrow> q < of_int now | JInfinity positive \<Rightarrow> \<not> positive | _ \<Rightarrow> False)"

text \<open>The object that \<open>create\<close> stores; \<open>None\<close> for the inputs that it rejects.\<close>

definition scope_name :: "scope \<Rightarrow> string" where
  "scope_name s = (case s of Read \<Rightarrow> ''read'' | Write \<Rightarrow> ''write'' | Admin \<Rightarrow> ''admin'' | Headless_only \<Rightarrow> ''headless-only'')"

definition new_key_record :: "string \<Rightarrow> string \<Rightarrow> string \<Rightarrow> scope list \<Rightarrow> int option \<Rightarrow> string option \<Rightarrow> int \<Rightarrow> key_record option" where
  "new_key_record key_id key_hash tenant scopes expires description now =
     (if tenant = [] \<or> scopes = [] then None
      else Some [(''keyId'', JStr key_id), (''keyHash'', JStr key_hash), (''tenantId'', JStr tenant),
        (''scopes'', JArr (map (\<lambda>s. JStr (scope_name s)) scopes)), (''createdAt'', JNum (of_int now)),
        (''expiresAt'', case expires of None \<Rightarrow> JUndefined | Some t \<Rightarrow> JNum (of_int t)), (''description'', JStr (default_to [] description))])"

section \<open>Replaying lines\<close>

type_synonym key_index = "(string, key_record) jmap"

definition newline :: char where "newline = CHR 0x0A"

definition apply_record :: "key_index \<Rightarrow> jsvalue \<Rightarrow> key_index" where
  "apply_record idx v =
     (case v of
        JObj r \<Rightarrow>
          (case field r ''keyId'' of
             JStr k \<Rightarrow>
               jset k (case jget idx k of
                         Some prior \<Rightarrow>
                           if truthy (field prior ''revokedAt'') \<and> \<not> truthy (field r ''revokedAt'')
                           then jset ''revokedAt'' (field prior ''revokedAt'') r else r
                       | None \<Rightarrow> r) idx
           | _ \<Rightarrow> idx)
      | _ \<Rightarrow> idx)"

definition parse_line :: "string \<Rightarrow> jsvalue option" where
  "parse_line line = (case utf8_decode line of None \<Rightarrow> None | Some t \<Rightarrow> if trim_ws t = [] then None else json_parse t)"

definition apply_line :: "key_index \<Rightarrow> string \<Rightarrow> key_index" where
  "apply_line idx line = (case parse_line line of None \<Rightarrow> idx | Some v \<Rightarrow> apply_record idx v)"

fun split_lines :: "string \<Rightarrow> string list" where
  "split_lines [] = [[]]"
| "split_lines (c # cs) = (let ls = split_lines cs in if c = newline then [] # ls else (c # hd ls) # tl ls)"

definition apply_lines :: "string \<Rightarrow> key_index \<Rightarrow> key_index" where
  "apply_lines content idx = foldl apply_line idx (split_lines content)"

text \<open>The bytes up to the last newline.\<close>

definition complete_part :: "string \<Rightarrow> string" where
  "complete_part bytes = rev (dropWhile (\<lambda>c. c \<noteq> newline) (rev bytes))"

text \<open>\<open>Buffer.byteLength\<close> of the decoded text: a byte that belongs to no character becomes U+FFFD, three bytes.\<close>

fun decoded_width :: "string \<Rightarrow> nat" where
  "decoded_width [] = 0"
| "decoded_width (b # bs) =
     (let n = of_char b :: nat in
      if n < 128 then 1 + decoded_width bs
      else
        (case bs of
           c # cs \<Rightarrow>
             (let m = of_char c :: nat in
              if (n = 194 \<or> n = 195) \<and> 128 \<le> m \<and> m < 192 then 2 + decoded_width cs else 3 + decoded_width bs)
         | [] \<Rightarrow> 3))"

section \<open>One process\<close>

datatype sync_phase = Sync_idle | Sync_stated "(nat \<times> nat) option" | Sync_opening nat | Sync_got nat string

record key_store =
  ks_index :: key_index
  ks_size :: nat
  ks_ino :: nat
  ks_sync :: sync_phase

definition new_key_store :: key_store where
  "new_key_store = \<lparr>ks_index = [], ks_size = 0, ks_ino = 0, ks_sync = Sync_idle\<rparr>"

text \<open>\<open>doSyncFromDisk\<close> after its stat, whose result is the inode and the size of the file.\<close>

definition sync_check :: "(nat \<times> nat) option \<Rightarrow> key_store \<Rightarrow> key_store" where
  "sync_check st s =
     (case st of
        None \<Rightarrow> s\<lparr>ks_index := [], ks_size := 0, ks_ino := 0, ks_sync := Sync_idle\<rparr>
      | Some (ino, sz) \<Rightarrow>
          (let s1 = (if (ks_ino s \<noteq> 0 \<and> ino \<noteq> ks_ino s) \<or> sz < ks_size s then s\<lparr>ks_index := [], ks_size := 0\<rparr> else s);
               s2 = s1\<lparr>ks_ino := ino\<rparr>
           in if sz = ks_size s2 then s2\<lparr>ks_sync := Sync_idle\<rparr> else s2\<lparr>ks_sync := Sync_opening (sz - ks_size s2)\<rparr>))"

definition sync_apply :: "nat \<Rightarrow> string \<Rightarrow> key_store \<Rightarrow> key_store" where
  "sync_apply n bytes s =
     (let s0 = s\<lparr>ks_sync := Sync_idle\<rparr>; complete = complete_part bytes in
      if bytes = [] then s0
      else if length bytes < n then s0\<lparr>ks_index := [], ks_size := 0, ks_ino := 0\<rparr>
      else if complete = [] then s0
      else s0\<lparr>ks_index := apply_lines complete (ks_index s0), ks_size := ks_size s0 + decoded_width complete\<rparr>)"

text \<open>\<open>verify\<close> after its synchronisation; \<open>argon\<close> says whether a hash belongs to a text (and \<open>False\<close> when it throws).\<close>

definition verify_key :: "(string \<Rightarrow> nat list) \<Rightarrow> (string \<Rightarrow> string \<Rightarrow> bool) \<Rightarrow> int \<Rightarrow> string \<Rightarrow> key_store \<Rightarrow> key_record option" where
  "verify_key sha256 argon now plaintext s =
     (if starts_with key_prefix plaintext then
        (case jget (ks_index s) (compute_key_id sha256 plaintext) of
           None \<Rightarrow> None
         | Some r \<Rightarrow>
             if \<not> is_revoked r \<and> \<not> is_expired r now
               \<and> (case field r ''keyHash'' of JStr h \<Rightarrow> argon h plaintext | _ \<Rightarrow> False) then Some r else None)
      else None)"

section \<open>All processes\<close>

datatype intent = Create_key key_record | Revoke_key string int | Touch_key string int

datatype writer_phase = Locked | Syncing | Synced | Appending string key_record string

record writer =
  wr_proc :: nat
  wr_intent :: intent
  wr_phase :: writer_phase

record key_world =
  kw_ino :: nat
  kw_content :: string
  kw_procs :: "key_store list"
  kw_lock :: "writer option"

definition key_id_of :: "key_record \<Rightarrow> string" where
  "key_id_of r = default_to [] (as_string (field r ''keyId''))"

text \<open>What a writer stores once it is up to date; \<open>None\<close> when there is nothing to store.\<close>

definition record_to_write :: "intent \<Rightarrow> key_index \<Rightarrow> (string \<times> key_record) option" where
  "record_to_write i idx =
     (case i of
        Create_key r \<Rightarrow> Some (key_id_of r, r)
      | Revoke_key k now \<Rightarrow>
          (case jget idx k of
             None \<Rightarrow> None
           | Some r \<Rightarrow> if truthy (field r ''revokedAt'') then None else Some (k, jset ''revokedAt'' (JNum (of_int now)) r))
      | Touch_key k now \<Rightarrow> (case jget idx k of None \<Rightarrow> None | Some r \<Rightarrow> Some (k, jset ''lastUsedAt'' (JNum (of_int now)) r)))"

definition line_bytes :: "key_record \<Rightarrow> string" where
  "line_bytes r = utf8_encode (json_text (JObj r))"

definition bytes_to_append :: "string \<Rightarrow> key_record \<Rightarrow> string" where
  "bytes_to_append content r =
     (if content \<noteq> [] \<and> last content \<noteq> newline then newline # line_bytes r @ [newline] else line_bytes r @ [newline])"

definition set_proc :: "nat \<Rightarrow> key_store \<Rightarrow> key_world \<Rightarrow> key_world" where
  "set_proc p s w = w\<lparr>kw_procs := (kw_procs w)[p := s]\<rparr>"

definition sync_start :: "nat \<Rightarrow> key_world \<Rightarrow> key_world" where
  "sync_start p w =
     (let s = kw_procs w ! p in
      if ks_sync s = Sync_idle then set_proc p (s\<lparr>ks_sync := Sync_stated (Some (kw_ino w, length (kw_content w)))\<rparr>) w else w)"

text \<open>A writer whose own synchronisation has ended goes on.\<close>

definition sync_ended :: "nat \<Rightarrow> key_world \<Rightarrow> key_world" where
  "sync_ended p w =
     (case kw_lock w of
        Some l \<Rightarrow> if wr_proc l = p \<and> wr_phase l = Syncing \<and> ks_sync (kw_procs w ! p) = Sync_idle
                  then w\<lparr>kw_lock := Some (l\<lparr>wr_phase := Synced\<rparr>)\<rparr> else w
      | None \<Rightarrow> w)"

definition sync_step :: "nat \<Rightarrow> key_world \<Rightarrow> key_world" where
  "sync_step p w =
     (let s = kw_procs w ! p in
      case ks_sync s of
        Sync_idle \<Rightarrow> w
      | Sync_stated st \<Rightarrow> sync_ended p (set_proc p (sync_check st s) w)
      | Sync_opening n \<Rightarrow> set_proc p (s\<lparr>ks_sync := Sync_got n (take n (drop (ks_size s) (kw_content w)))\<rparr>) w
      | Sync_got n bytes \<Rightarrow> sync_ended p (set_proc p (sync_apply n bytes s) w))"

definition write_lock :: "nat \<Rightarrow> intent \<Rightarrow> key_world \<Rightarrow> key_world" where
  "write_lock p i w = (if kw_lock w = None \<and> p < length (kw_procs w) then w\<lparr>kw_lock := Some \<lparr>wr_proc = p, wr_intent = i, wr_phase = Locked\<rparr>\<rparr> else w)"

definition write_step :: "nat \<Rightarrow> key_world \<Rightarrow> key_world" where
  "write_step n w =
     (case kw_lock w of
        None \<Rightarrow> w
      | Some l \<Rightarrow>
          (let p = wr_proc l; s = kw_procs w ! p in
           case wr_phase l of
             Locked \<Rightarrow> if ks_sync s = Sync_idle then sync_start p (w\<lparr>kw_lock := Some (l\<lparr>wr_phase := Syncing\<rparr>)\<rparr>) else w
           | Syncing \<Rightarrow> w
           | Synced \<Rightarrow>
               (case record_to_write (wr_intent l) (ks_index s) of
                  None \<Rightarrow> w\<lparr>kw_lock := None\<rparr>
                | Some (k, r) \<Rightarrow> w\<lparr>kw_lock := Some (l\<lparr>wr_phase := Appending k r (bytes_to_append (kw_content w) r)\<rparr>)\<rparr>)
           | Appending k r rest \<Rightarrow>
               w\<lparr>kw_content := kw_content w @ take n rest, kw_lock := Some (l\<lparr>wr_phase := Appending k r (drop n rest)\<rparr>)\<rparr>))"

text \<open>The append has ended: the cursor moves to the end of the file, the record enters the index, the lock is released.\<close>

definition write_done :: "key_world \<Rightarrow> key_world" where
  "write_done w =
     (case kw_lock w of
        Some l \<Rightarrow>
          (case wr_phase l of
             Appending k r rest \<Rightarrow>
               (let content = kw_content w @ rest; s = kw_procs w ! wr_proc l
                in set_proc (wr_proc l) (s\<lparr>ks_size := length content, ks_ino := kw_ino w, ks_index := jset k r (ks_index s)\<rparr>)
                     (w\<lparr>kw_content := content, kw_lock := None\<rparr>))
           | _ \<Rightarrow> w)
      | None \<Rightarrow> w)"

definition write_fails :: "key_world \<Rightarrow> key_world" where
  "write_fails w = w\<lparr>kw_lock := None\<rparr>"

definition proc_crashes :: "nat \<Rightarrow> key_world \<Rightarrow> key_world" where
  "proc_crashes p w =
     (let w' = set_proc p new_key_store w in
      case kw_lock w of Some l \<Rightarrow> if wr_proc l = p then w'\<lparr>kw_lock := None\<rparr> else w' | None \<Rightarrow> w')"

datatype key_op = Start_sync nat | Go_on nat | Want nat intent | Write_on nat | Write_done | Write_fails | Crash nat

fun key_step :: "key_world \<Rightarrow> key_op \<Rightarrow> key_world" where
  "key_step w (Start_sync p) = sync_start p w"
| "key_step w (Go_on p) = sync_step p w"
| "key_step w (Want p i) = write_lock p i w"
| "key_step w (Write_on n) = write_step n w"
| "key_step w Write_done = write_done w"
| "key_step w Write_fails = write_fails w"
| "key_step w (Crash p) = proc_crashes p w"

definition new_key_world :: "nat \<Rightarrow> nat \<Rightarrow> key_world" where
  "new_key_world ino procs = \<lparr>kw_ino = ino, kw_content = [], kw_procs = replicate procs new_key_store, kw_lock = None\<rparr>"

end
