(* ===== verification/Key_Safety.thy ===== *)
theory Key_Safety
  imports Key_Store
begin

text \<open>
  What the log of the key store guarantees: the lines that are in the file, what a line that was cut off can be, and that
  a revocation, once it is in the file, reaches every process that synchronises.
\<close>

section \<open>Lines\<close>

lemma newline_char [simp]: "newline = CHR 0x0A"
  by (simp add: newline_def)

lemma quote_no_newline: "newline \<notin> set (quote_char c)"
proof -
  have "CHR 0x0A \<noteq> hex_digit d" if "d < 16" for d
  proof
    assume "CHR 0x0A = hex_digit d"
    then have "hex_val (CHR 0x0A) = Some d" using hex_digit_val [OF that] by simp
    then show False by (simp add: hex_val_def)
  qed
  moreover have "of_char c div 16 < (16 :: nat)" using byte_parts(2) [OF of_char_less] .
  ultimately show ?thesis by (auto simp: quote_char_def Let_def)
qed

lemma string_no_newline: "newline \<notin> set (json_string s)"
  using quote_no_newline by (auto simp: json_string_def)

lemma commas_set: "c \<in> set (commas xs) \<Longrightarrow> c = CHR '','' \<or> (\<exists>x \<in> set xs. c \<in> set x)"
  by (induction xs rule: commas.induct) auto

lemma dec_no_newline: "newline \<notin> set (dec n)"
  using dec_digits [of n] unfolding list_all_iff by (auto simp: is_digit_def)

lemma text_no_newline: "newline \<notin> set (json_text v)"
proof (induction v)
  case (JArr vs)
  then show ?case by (auto dest!: commas_set)
next
  case (JObj fs)
  show ?case
  proof
    assume "newline \<in> set (json_text (JObj fs))"
    then obtain k v where kv: "(k, v) \<in> set fs" "newline \<in> set (json_string k @ CHR '':'' # json_text v)"
      by (auto dest!: commas_set split: prod.splits)
    then show False using JObj [of "(k, v)" v] string_no_newline [of k] by (auto simp: snds.simps)
  qed
next
  case (JNum q)
  then show ?case using dec_no_newline by (auto simp: int_str_def)
qed (use string_no_newline in auto)

lemma code_not_newline: "10 < m \<Longrightarrow> m < 256 \<Longrightarrow> CHR 0x0A \<noteq> char_of m" for m :: nat
proof
  assume "10 < m" "m < 256" "CHR 0x0A = char_of m"
  then have "(of_char (CHR 0x0A) :: nat) = m" by simp
  then show False using \<open>10 < m\<close> by simp
qed

lemma utf8_no_newline: "newline \<notin> set s \<Longrightarrow> newline \<notin> set (utf8_encode s)"
proof -
  have "CHR 0x0A \<notin> set (utf8_char c)" if "c \<noteq> CHR 0x0A" for c
  proof (cases "of_char c < (128 :: nat)")
    case False
    define h l where "h = 192 + of_char c div (64 :: nat)" and "l = 128 + of_char c mod (64 :: nat)"
    have "of_char c div 64 < (4 :: nat)" "of_char c mod 64 < (64 :: nat)" using byte_parts(3) [OF of_char_less] by simp_all
    then have "10 < h" "h < 256" "10 < l" "l < 256" unfolding h_def l_def by linarith+
    then have "CHR 0x0A \<noteq> char_of h" and "CHR 0x0A \<noteq> char_of l" by (simp_all only: code_not_newline not_False_eq_True)
    then show ?thesis using False by (simp add: utf8_char_def Let_def h_def l_def)
  qed (use that in \<open>simp add: utf8_char_def\<close>)
  then have "\<forall>c \<in> set s. newline \<notin> set (utf8_char c)" if "newline \<notin> set s" using that by (metis newline_char)
  then show "newline \<notin> set s \<Longrightarrow> newline \<notin> set (utf8_encode s)" by (simp add: utf8_encode_def)
qed

lemma split_lines_Cons [simp]:
  "split_lines (c # cs) = (if c = newline then [] # split_lines cs else (c # hd (split_lines cs)) # tl (split_lines cs))"
  by (simp add: Let_def)

declare split_lines.simps(2) [simp del]

lemma split_lines_nonempty [simp]: "split_lines s \<noteq> []"
  by (cases s) auto

lemma split_lines_append [simplified, simp]: "split_lines (a @ newline # b) = split_lines a @ split_lines b"
  by (induction a) (auto simp: hd_append)

lemma split_lines_one: "newline \<notin> set s \<Longrightarrow> split_lines s = [s]"
  by (induction s) auto

lemma split_lines_extend: "newline \<notin> set b \<Longrightarrow> split_lines (a @ b) = butlast (split_lines a) @ [last (split_lines a) @ b]"
proof (induction a)
  case Nil
  then show ?case using split_lines_one by simp
next
  case (Cons c a)
  then show ?case by (cases "split_lines a" rule: list.exhaust) (auto simp: hd_append butlast_append)
qed

lemma split_lines_empty [simp]: "split_lines s = [[]] \<longleftrightarrow> s = []"
  by (cases s) auto

lemma lines_set: "c \<in> set s \<Longrightarrow> c = newline \<or> (\<exists>l \<in> set (split_lines s). c \<in> set l)"
proof (induction s)
  case (Cons d s)
  then show ?case by (cases "split_lines s" rule: list.exhaust) auto
qed simp

lemma last_line_empty: "last (split_lines s) = [] \<longleftrightarrow> s = [] \<or> last s = newline"
proof (induction s)
  case (Cons c s)
  then show ?case by (cases "split_lines s" rule: list.exhaust) auto
qed simp

section \<open>ASCII text\<close>

definition plain :: "string \<Rightarrow> bool" where
  "plain s \<longleftrightarrow> (\<forall>c \<in> set s. of_char c < (128 :: nat))"

lemma plain_simps [simp]: "plain []" "plain (c # s) \<longleftrightarrow> of_char c < (128 :: nat) \<and> plain s" "plain (s @ t) \<longleftrightarrow> plain s \<and> plain t"
  by (auto simp: plain_def)

lemma plain_width: "plain s \<Longrightarrow> decoded_width s = length s"
  by (induction s) (simp_all add: Let_def)

lemma plain_utf8: "plain s \<Longrightarrow> utf8_encode s = s"
  by (induction s) (simp_all add: utf8_encode_def utf8_char_def Let_def)

lemma plain_lines: "\<forall>l \<in> set (split_lines s). plain l \<Longrightarrow> plain s"
  using lines_set [of _ s] by (fastforce simp: plain_def)

lemma plain_commas: "\<forall>x \<in> set xs. plain x \<Longrightarrow> plain (commas xs)"
  by (induction xs rule: commas.induct) auto

lemma digit_plain: "is_digit c \<Longrightarrow> of_char c < (128 :: nat)"
  by (simp add: is_digit_def Let_def)

lemma plain_number: "plain (json_text (JNum q))"
proof -
  have "plain (dec n)" for n using dec_digits [of n] digit_plain by (auto simp: plain_def list_all_iff)
  then show ?thesis by (simp add: int_str_def)
qed

section \<open>Records and what is read back of them\<close>

definition good_record :: "key_record \<Rightarrow> bool" where
  "good_record r \<longleftrightarrow> distinct (map fst r) \<and> (\<forall>(k, v) \<in> set r. v = JUndefined \<or> printable v) \<and>
     (\<forall>(k, v) \<in> set r. plain (json_string k) \<and> plain (json_text v)) \<and> (\<exists>k. field r ''keyId'' = JStr k) \<and> (truthy (field r ''revokedAt'') \<longrightarrow> (\<exists>q. field r ''revokedAt'' = JNum q))"

definition stored :: "key_record \<Rightarrow> key_record" where
  "stored r = filter (\<lambda>(k, v). v \<noteq> JUndefined) r"

lemma field_stored: "distinct (map fst r) \<Longrightarrow> field (stored r) f = field r f"
proof (induction r)
  case (Cons p r)
  obtain k v where p: "p = (k, v)" by (cases p)
  have "field r k = JUndefined" if "k \<notin> fst ` set r" using that by (simp add: field_def map_of_eq_None_iff [THEN iffD2])
  then show ?case using Cons p by (auto simp: stored_def)
qed (simp add: stored_def)

lemma stored_printable: "good_record r \<Longrightarrow> printable (JObj (stored r))"
  by (auto simp: good_record_def stored_def distinct_map_filter)

lemma text_stored: "json_text (JObj r) = json_text (JObj (stored r))"
  by (simp add: stored_def)

lemma text_brace: "\<exists>cs. json_text (JObj r) = CHR ''{'' # cs"
  by simp

lemma trim_text: "trim_ws (json_text (JObj r)) \<noteq> []"
proof -
  obtain cs where t: "json_text (JObj r) = CHR ''{'' # cs" using text_brace by blast
  have "\<not> is_space (CHR ''{'')" by (simp add: is_space_def)
  then have "dropWhile is_space (rev (CHR ''{'' # cs)) \<noteq> []" by (simp add: dropWhile_eq_Nil_conv)
  then show ?thesis unfolding t trim_ws_def by (simp add: is_space_def)
qed

lemma parse_line_bytes: "good_record r \<Longrightarrow> parse_line (line_bytes r) = Some (JObj (stored r))"
  using json_roundtrip [OF stored_printable, of r] trim_text [of r]
  by (simp add: parse_line_def line_bytes_def flip: text_stored del: json_text.simps)

lemma line_no_newline: "newline \<notin> set (line_bytes r)"
  unfolding line_bytes_def by (rule utf8_no_newline) (rule text_no_newline)

lemma line_plain: "good_record r \<Longrightarrow> plain (line_bytes r)"
proof -
  assume "good_record r"
  then have "plain (json_text (JObj r))" by (fastforce simp: good_record_def intro!: plain_commas)
  then show ?thesis by (simp add: line_bytes_def plain_utf8 del: json_text.simps)
qed

lemma utf8_prefix:
  "utf8_encode s = p @ q \<Longrightarrow> utf8_decode p = Some t \<Longrightarrow> \<exists>u. s = t @ u \<and> (q \<noteq> [] \<longrightarrow> u \<noteq> [])"
proof (induction s arbitrary: p t)
  case Nil
  then show ?case by (simp add: utf8_encode_def)
next
  case (Cons c s)
  show ?case
  proof (cases p)
    case Nil
    then show ?thesis using Cons.prems by simp
  next
    case (Cons b bs)
    have enc: "utf8_char c @ utf8_encode s = b # bs @ q" using Cons.prems(1) Cons by (simp add: utf8_encode_def)
    show ?thesis
    proof (cases "length (utf8_char c) \<le> length p")
      case True
      then have "utf8_char c = take (length (utf8_char c)) p" using enc Cons by (metis append_Cons append_eq_append_conv_if)
      then have p: "p = utf8_char c @ drop (length (utf8_char c)) p" by (metis append_take_drop_id)
      define p' where "p' = drop (length (utf8_char c)) p"
      have "utf8_encode s = p' @ q" using Cons.prems(1) p by (metis append_assoc p'_def same_append_eq utf8_encode_def concat.simps(2) list.simps(9))
      moreover obtain t' where "utf8_decode p' = Some t'" "t = c # t'"
        using Cons.prems(2) utf8_char_decode [of c p'] p unfolding p'_def by (metis (no_types, lifting) map_option_eq_Some)
      ultimately show ?thesis using Cons.IH by fastforce
    next
      case False
      then have "bs = []" "\<not> of_char c < (128 :: nat)" using Cons by (cases bs; auto simp: utf8_char_def Let_def split: if_splits)+
      then have "b = char_of (192 + of_char c div 64 :: nat)" using enc by (simp add: utf8_char_def Let_def)
      moreover have "192 + of_char c div 64 < (256 :: nat)" using byte_parts(3) [OF of_char_less, of c] by simp
      ultimately have "utf8_decode p = None" using Cons \<open>bs = []\<close> by simp
      then show ?thesis using Cons.prems(2) by simp
    qed
  qed
qed

text \<open>A line that was cut off is no record.\<close>

lemma cut_line_ignored:
  assumes "good_record r" "line_bytes r = p @ q" "q \<noteq> []"
  shows "parse_line p = None"
proof (cases "utf8_decode p")
  case (Some t)
  have "utf8_encode (json_text (JObj (stored r))) = p @ q" using assms(2) unfolding line_bytes_def text_stored [of r] .
  from utf8_prefix [OF this Some] assms(3) obtain u where "json_text (JObj (stored r)) = t @ u" "u \<noteq> []" by blast
  then have "json_parse t = None" using object_text_prefix_free [OF stored_printable [OF assms(1)]] by blast
  then show ?thesis using Some by (simp add: parse_line_def)
qed (simp add: parse_line_def)

definition tame_line :: "string \<Rightarrow> bool" where
  "tame_line l \<longleftrightarrow> l = [] \<or> (\<exists>r q. good_record r \<and> line_bytes r = l @ q)"

lemma tame_cases:
  assumes "tame_line l"
  obtains "parse_line l = None" | r where "good_record r" "l = line_bytes r" "parse_line l = Some (JObj (stored r))"
proof (cases "l = []")
  case True
  then have "parse_line l = None" by (simp add: parse_line_def trim_ws_def)
  then show ?thesis by (rule that(1))
next
  case False
  then obtain r q where r: "good_record r" "line_bytes r = l @ q" using assms by (auto simp: tame_line_def)
  show ?thesis
  proof (cases "q = []")
    case True
    then show ?thesis using r that(2) [of r] parse_line_bytes [OF r(1)] by simp
  next
    case False
    then show ?thesis using that(1) cut_line_ignored [OF r False] by simp
  qed
qed

section \<open>Indexes\<close>

definition good_index :: "key_index \<Rightarrow> bool" where
  "good_index idx \<longleftrightarrow> (\<forall>k r. jget idx k = Some r \<longrightarrow> good_record r \<and> field r ''keyId'' = JStr k)"

definition revoked_in :: "string \<Rightarrow> key_index \<Rightarrow> bool" where
  "revoked_in k idx \<longleftrightarrow> (\<exists>r. jget idx k = Some r \<and> truthy (field r ''revokedAt''))"

lemma field_jset: "field (jset f v r) g = (if g = f then v else field r g)"
  by (simp add: field_def jget_set)

lemma good_jset:
  assumes "good_record r" "v = JUndefined \<or> printable v" "plain (json_string f)" "plain (json_text v)" "f \<noteq> ''keyId''" "f = ''revokedAt'' \<Longrightarrow> \<exists>q. v = JNum q"
  shows "good_record (jset f v r)"
proof -
  have r: "jwf r" using assms(1) by (simp add: good_record_def jwf_def)
  have "\<forall>(k, w) \<in> set (jset f v r). w = JUndefined \<or> printable w"
    using assms(1,2) r by (auto simp: jmem_set good_record_def split: if_splits)
  moreover have "\<forall>(k, w) \<in> set (jset f v r). plain (json_string k) \<and> plain (json_text w)"
    using assms(1,3,4) r by (auto simp: jmem_set good_record_def split: if_splits)
  moreover have "distinct (map fst (jset f v r))" using r jwf_set [of r f v] by (simp add: jwf_def)
  ultimately show ?thesis using assms(1,5,6) by (auto simp: good_record_def field_jset)
qed

lemma good_stored: "good_record r \<Longrightarrow> good_record (stored r)"
  using field_stored [of r] by (auto simp: good_record_def stored_def distinct_map_filter)

lemma plain_revoked: "plain (json_string ''revokedAt'')" "plain (json_string ''lastUsedAt'')"
  by (simp_all add: json_string_def quote_char_def)

lemma apply_line_good:
  assumes "good_index idx" "tame_line l"
  shows "good_index (apply_line idx l)"
  using assms(2)
proof (cases rule: tame_cases)
  case 1
  then show ?thesis using assms(1) by (simp add: apply_line_def)
next
  case (2 r)
  have s: "good_record (stored r)" using good_stored [OF 2(1)] .
  then obtain k where k: "field (stored r) ''keyId'' = JStr k" by (auto simp: good_record_def)
  have "good_record (jset ''revokedAt'' (field prior ''revokedAt'') (stored r))"
    if p: "jget idx k = Some prior" and t: "truthy (field prior ''revokedAt'')" for prior
  proof -
    have g: "good_record prior" using assms(1) p by (simp add: good_index_def)
    then obtain q where q: "field prior ''revokedAt'' = JNum q" using t by (auto simp: good_record_def)
    then have "(''revokedAt'', JNum q) \<in> set prior"
      by (auto simp: field_def default_to_def split: option.splits dest: map_of_SomeD)
    then have "printable (JNum q)" using g by (auto simp: good_record_def)
    then show ?thesis using s q plain_revoked plain_number by (intro good_jset) auto
  qed
  then show ?thesis using assms(1) s k 2(3)
    by (auto simp: apply_line_def apply_record_def good_index_def jget_set field_jset split: option.splits)
qed

lemma apply_line_sticky: "revoked_in k idx \<Longrightarrow> revoked_in k (apply_line idx l)"
  by (auto simp: apply_line_def apply_record_def revoked_in_def jget_set field_jset split: option.split jsvalue.split)

lemma apply_line_revokes:
  assumes "good_record r" "field r ''keyId'' = JStr k" "truthy (field r ''revokedAt'')"
  shows "revoked_in k (apply_line idx (line_bytes r))"
  using parse_line_bytes [OF assms(1)] field_stored [of r] assms
  by (auto simp: apply_line_def apply_record_def revoked_in_def jget_set good_record_def split: option.split)

lemma apply_all_good: "good_index idx \<Longrightarrow> \<forall>l \<in> set ls. tame_line l \<Longrightarrow> good_index (foldl apply_line idx ls)"
  by (induction ls arbitrary: idx) (simp_all add: apply_line_good)

lemma apply_all_sticky: "revoked_in k idx \<Longrightarrow> revoked_in k (foldl apply_line idx ls)"
  by (rule foldl_inv) (auto intro: apply_line_sticky)

lemma apply_all_revokes:
  assumes "line_bytes r \<in> set ls" "good_record r" "field r ''keyId'' = JStr k" "truthy (field r ''revokedAt'')"
  shows "revoked_in k (foldl apply_line idx ls)"
proof -
  obtain xs ys where "ls = xs @ line_bytes r # ys" using assms(1) by (meson split_list)
  then show ?thesis using apply_line_revokes [OF assms(2-4)] apply_all_sticky by simp
qed

lemma revoked_never_verifies:
  assumes "good_index (ks_index s)" "revoked_in (compute_key_id sha256 text) (ks_index s)"
  shows "verify_key sha256 argon now text s = None"
proof -
  obtain r where r: "jget (ks_index s) (compute_key_id sha256 text) = Some r" "truthy (field r ''revokedAt'')"
    using assms(2) by (auto simp: revoked_in_def)
  then have "is_revoked r" using assms(1) by (fastforce simp: good_index_def good_record_def is_revoked_def)
  then show ?thesis using r(1) by (simp add: verify_key_def)
qed

section \<open>The bytes of the file\<close>

definition at_boundary :: "string \<Rightarrow> bool" where
  "at_boundary a \<longleftrightarrow> a = [] \<or> last a = newline"

lemma boundary_cases: "at_boundary a \<Longrightarrow> a = [] \<or> (\<exists>b. a = b @ [newline])"
  by (metis append_butlast_last_id at_boundary_def)

lemma segment_lines: "at_boundary x \<Longrightarrow> set (split_lines c) \<subseteq> set (split_lines (x @ c @ newline # y))"
  using split_lines_append [of c y] split_lines_append [of _ "c @ newline # y"] by (auto dest!: boundary_cases)

lemma segment_line: "at_boundary x \<Longrightarrow> newline \<notin> set l \<Longrightarrow> l \<in> set (split_lines (x @ l @ newline # y))"
  using segment_lines [of x l y] split_lines_one [of l] by auto

lemma complete_part_cases:
  "(newline \<notin> set b \<and> complete_part b = []) \<or> (\<exists>c y. b = c @ newline # y \<and> newline \<notin> set y \<and> complete_part b = c @ [newline])"
proof (cases "newline \<in> set b")
  case True
  then obtain c y where b: "b = c @ newline # y" "newline \<notin> set y" by (meson split_list_last)
  then have "dropWhile (\<lambda>c. c \<noteq> newline) (rev b) = newline # rev c" by (auto simp: dropWhile_append)
  then show ?thesis using b by (auto simp: complete_part_def)
next
  case False
  then have "dropWhile (\<lambda>c. c \<noteq> newline) (rev b) = []" by (auto simp: dropWhile_eq_Nil_conv)
  then show ?thesis using False by (simp add: complete_part_def)
qed

definition tame_content :: "string \<Rightarrow> bool" where
  "tame_content c \<longleftrightarrow> (\<forall>l \<in> set (split_lines c). tame_line l)"

lemma tame_plain:
  assumes "tame_content (x @ c @ newline # y)" "at_boundary x"
  shows "plain (c @ [newline])"
proof -
  have "plain l" if "l \<in> set (split_lines c)" for l
  proof -
    have "tame_line l" using that assms(1) segment_lines [OF assms(2), of c y] by (auto simp: tame_content_def)
    then show ?thesis using line_plain by (force simp: tame_line_def)
  qed
  moreover have "plain c" if "\<forall>l \<in> set (split_lines c). plain l" using that plain_lines by blast
  ultimately show ?thesis by simp
qed

definition current_line :: "string \<Rightarrow> string" where
  "current_line c = last (split_lines c)"

lemma current_line_split: "\<exists>a. c = a @ current_line c \<and> at_boundary a \<and> newline \<notin> set (current_line c)"
proof (cases "newline \<in> set c")
  case True
  then obtain b y where c: "c = b @ newline # y" "newline \<notin> set y" by (meson split_list_last)
  then have "current_line c = y" by (simp add: current_line_def split_lines_append split_lines_one)
  then show ?thesis using c by (intro exI [of _ "b @ [newline]"]) (simp add: at_boundary_def)
next
  case False
  then show ?thesis by (intro exI [of _ "[]"]) (simp add: current_line_def split_lines_one at_boundary_def)
qed

text \<open>What is left to append of a line: everything after a newline, the rest of the line, or nothing.\<close>

definition appending_ok :: "string \<Rightarrow> key_record \<Rightarrow> string \<Rightarrow> bool" where
  "appending_ok c r rest \<longleftrightarrow> good_record r \<and>
     (rest = newline # line_bytes r @ [newline] \<or> current_line c @ rest = line_bytes r @ [newline] \<or>
      (rest = [] \<and> (\<exists>a. c = a @ line_bytes r @ [newline] \<and> at_boundary a)))"

lemma append_begins: "good_record r \<Longrightarrow> appending_ok c r (bytes_to_append c r)"
  by (auto simp: appending_ok_def bytes_to_append_def current_line_def last_line_empty)

lemma append_done:
  assumes "appending_ok c r rest"
  shows "\<exists>a. c @ rest = a @ line_bytes r @ [newline] \<and> at_boundary a"
  using assms unfolding appending_ok_def
proof (elim conjE disjE)
  assume "rest = newline # line_bytes r @ [newline]"
  then show ?thesis by (intro exI [of _ "c @ [newline]"]) (simp add: at_boundary_def)
next
  assume cur: "current_line c @ rest = line_bytes r @ [newline]"
  obtain a where "c = a @ current_line c" "at_boundary a" using current_line_split by blast
  then show ?thesis using cur by (intro exI [of _ a]) (metis append_assoc)
qed auto

lemma tame_prefix: "good_record r \<Longrightarrow> line_bytes r = l @ q \<Longrightarrow> tame_line l"
  by (auto simp: tame_line_def)

lemma tame_append_newline: "tame_content c \<Longrightarrow> tame_content (c @ [newline])"
  by (simp add: tame_content_def split_lines_append tame_line_def)

lemma tame_append_line:
  assumes "tame_content c" "good_record r" "line_bytes r = current_line c @ x @ q"
  shows "tame_content (c @ x)"
proof -
  have "newline \<notin> set x" using line_no_newline [of r] assms(3) by auto
  then have "split_lines (c @ x) = butlast (split_lines c) @ [current_line c @ x]" by (simp add: split_lines_extend current_line_def)
  moreover have "tame_line (current_line c @ x)" using tame_prefix [OF assms(2), of "current_line c @ x" q] assms(3) by simp
  ultimately show ?thesis using assms(1) by (auto simp: tame_content_def dest: in_set_butlastD)
qed

lemma current_line_extend: "newline \<notin> set x \<Longrightarrow> current_line (c @ x) = current_line c @ x"
  by (simp add: current_line_def split_lines_extend)

lemma current_line_newline [simplified, simp]: "current_line (c @ newline # x) = current_line x"
  by (simp add: current_line_def)

lemma current_line_Nil [simp]: "current_line [] = []"
  by (simp add: current_line_def)

lemma append_in_line:
  assumes "tame_content c" "good_record r" "current_line c @ rest = line_bytes r @ [newline]"
  shows "tame_content (c @ take n rest) \<and> appending_ok (c @ take n rest) r (drop n rest)"
proof -
  obtain x where x: "rest = x @ [newline]" "line_bytes r = current_line c @ x"
    using assms(3) current_line_split [of c]
    by (metis append_Nil2 append_butlast_last_id butlast_append last_appendR last_snoc snoc_eq_iff_butlast in_set_conv_decomp)
  have nl: "newline \<notin> set x" using line_no_newline [of r] x(2) by auto
  show ?thesis
  proof (cases "n \<le> length x")
    case True
    have "newline \<notin> set (take n x)" using nl by (auto dest: in_set_takeD)
    then have "current_line (c @ take n x) = current_line c @ take n x" by (rule current_line_extend)
    moreover have "tame_content (c @ take n x)" using assms(1,2) x(2) by (intro tame_append_line [of c r _ "drop n x"]) simp_all
    ultimately show ?thesis using True x assms(2) by (simp add: appending_ok_def)
  next
    case False
    have t: "tame_content (c @ x)" using assms(1,2) x(2) by (intro tame_append_line [of c r _ "[]"]) simp_all
    obtain a where "c = a @ current_line c" "at_boundary a" using current_line_split by blast
    then have "c @ x @ [newline] = a @ line_bytes r @ [newline]" using x(2) by (metis append_assoc)
    then show ?thesis using False x tame_append_newline [OF t] assms(2) \<open>at_boundary a\<close> by (auto simp: appending_ok_def)
  qed
qed

lemma append_step:
  assumes "tame_content c" "appending_ok c r rest"
  shows "tame_content (c @ take n rest) \<and> appending_ok (c @ take n rest) r (drop n rest)"
proof -
  have r: "good_record r" using assms(2) by (simp add: appending_ok_def)
  consider "rest = newline # line_bytes r @ [newline]" | "current_line c @ rest = line_bytes r @ [newline]" | "rest = []"
    using assms(2) by (auto simp: appending_ok_def)
  then show ?thesis
  proof cases
    case 1
    show ?thesis
    proof (cases n)
      case (Suc m)
      have "tame_content (c @ [newline])" using tame_append_newline assms(1) .
      from append_in_line [OF this r, of "line_bytes r @ [newline]" m] show ?thesis using 1 Suc by (simp del: take_append drop_append)
    qed (use assms in simp)
  next
    case 2
    then show ?thesis using append_in_line [OF assms(1) r] by blast
  next
    case 3
    then show ?thesis using assms by simp
  qed
qed

section \<open>A process and the file\<close>

text \<open>How far a process will have read when its current synchronisation ends.\<close>

definition sync_bound :: "key_store \<Rightarrow> nat" where
  "sync_bound s = (case ks_sync s of Sync_idle \<Rightarrow> ks_size s | Sync_stated st \<Rightarrow> (case st of Some (_, sz) \<Rightarrow> sz | None \<Rightarrow> 0)
     | Sync_opening n \<Rightarrow> ks_size s + n | Sync_got n _ \<Rightarrow> ks_size s + n)"

definition phase_ok :: "nat \<Rightarrow> string \<Rightarrow> key_store \<Rightarrow> bool" where
  "phase_ok ino c s \<longleftrightarrow>
     (case ks_sync s of
        Sync_idle \<Rightarrow> True
      | Sync_stated st \<Rightarrow> (\<exists>sz. st = Some (ino, sz))
      | Sync_opening n \<Rightarrow> 0 < n
      | Sync_got n b \<Rightarrow> 0 < n \<and> b = take n (drop (ks_size s) c))"

definition proc_ok :: "nat \<Rightarrow> string \<Rightarrow> key_store \<Rightarrow> bool" where
  "proc_ok ino c s \<longleftrightarrow> good_index (ks_index s) \<and> at_boundary (take (ks_size s) c) \<and> (ks_ino s = 0 \<or> ks_ino s = ino) \<and>
     ks_size s \<le> sync_bound s \<and> sync_bound s \<le> length c \<and> phase_ok ino c s"

lemma proc_ok_new: "proc_ok ino c new_key_store"
  by (simp add: proc_ok_def new_key_store_def good_index_def at_boundary_def sync_bound_def phase_ok_def)

lemma proc_ok_grows: "proc_ok ino c s \<Longrightarrow> proc_ok ino (c @ x) s"
  by (auto simp: proc_ok_def phase_ok_def sync_bound_def split: sync_phase.splits)

lemma proc_ok_start:
  "proc_ok ino c s \<Longrightarrow> ks_sync s = Sync_idle \<Longrightarrow>
   proc_ok ino c (s\<lparr>ks_sync := Sync_stated (Some (ino, length c))\<rparr>)"
  by (simp add: proc_ok_def phase_ok_def sync_bound_def)

lemma proc_ok_check:
  assumes "proc_ok ino c s" "ks_sync s = Sync_stated st"
  shows "proc_ok ino c (sync_check st s) \<and> sync_bound (sync_check st s) = sync_bound s \<and>
    ks_index (sync_check st s) = ks_index s \<and> ks_size (sync_check st s) = ks_size s"
proof -
  obtain sz where st: "st = Some (ino, sz)" "ks_size s \<le> sz" "sz \<le> length c" "ks_ino s = 0 \<or> ks_ino s = ino"
    using assms by (auto simp: proc_ok_def phase_ok_def sync_bound_def)
  then have "sync_check st s = s\<lparr>ks_ino := ino, ks_sync := (if sz = ks_size s then Sync_idle else Sync_opening (sz - ks_size s))\<rparr>"
    by (auto simp: sync_check_def)
  then show ?thesis using assms st by (auto simp: proc_ok_def phase_ok_def sync_bound_def)
qed

lemma proc_ok_read:
  assumes "proc_ok ino c s" "ks_sync s = Sync_opening n"
  shows "proc_ok ino c (s\<lparr>ks_sync := Sync_got n (take n (drop (ks_size s) c))\<rparr>)"
  using assms by (simp add: proc_ok_def phase_ok_def sync_bound_def)

text \<open>Where the revocation of a key stands in the file: its line ends before position \<open>e\<close>.\<close>

definition revocation_at :: "string \<Rightarrow> nat \<Rightarrow> string \<Rightarrow> bool" where
  "revocation_at k e c \<longleftrightarrow> (\<exists>a r b. c = a @ line_bytes r @ newline # b \<and> e = length (a @ line_bytes r @ [newline]) \<and> at_boundary a \<and>
     good_record r \<and> field r ''keyId'' = JStr k \<and> truthy (field r ''revokedAt''))"

definition knows :: "string \<Rightarrow> nat \<Rightarrow> key_store \<Rightarrow> bool" where
  "knows k e s \<longleftrightarrow> (e \<le> ks_size s \<longrightarrow> revoked_in k (ks_index s))"

lemma revocation_at_grows: "revocation_at k e c \<Longrightarrow> revocation_at k e (c @ x)"
  by (fastforce simp: revocation_at_def)

lemma revocation_at_length: "revocation_at k e c \<Longrightarrow> e \<le> length c"
  by (auto simp: revocation_at_def)

text \<open>A boundary inside the line is impossible, so a cursor before \<open>e\<close> stands at its beginning or before.\<close>

lemma cursor_before_line:
  assumes "at_boundary (take z (a @ l @ newline # b))" "newline \<notin> set l" "z < length (a @ l @ [newline])"
  shows "z \<le> length a"
proof (rule ccontr)
  assume "\<not> z \<le> length a"
  then obtain d where d: "z = length a + Suc d" "d < length l" using assms(3) by (auto simp: not_le less_iff_Suc_add)
  then have "take z (a @ l @ newline # b) = a @ take (Suc d) l" by simp
  moreover have "last (take (Suc d) l) \<in> set l" using d(2) by (metis Zero_not_Suc in_set_takeD last_in_set length_greater_0_conv less_nat_zero_code list.size(3) take_eq_Nil)
  moreover have "take (Suc d) l \<noteq> []" using d(2) by auto
  ultimately show False using assms(1,2) by (auto simp: at_boundary_def)
qed

text \<open>The end of a revocation is a newline of the file; if it was read, it is in the complete part.\<close>

lemma revocation_newline: "revocation_at k e c \<Longrightarrow> 0 < e \<and> e \<le> length c \<and> c ! (e - 1) = newline"
  by (auto simp: revocation_at_def nth_append)

lemma read_newline:
  assumes "c ! (e - 1) = newline" "z < e" "e \<le> z + n" "z + n \<le> length c" "take n (drop z c) = d @ rest" "newline \<notin> set rest"
  shows "e \<le> z + length d"
proof (rule ccontr)
  assume "\<not> e \<le> z + length d"
  then have i: "e - 1 - z - length d < length rest" "length d \<le> e - 1 - z"
    using assms(2-4) arg_cong [OF assms(5), of length] by simp_all
  have "(d @ rest) ! (e - 1 - z) = newline" using assms(1-4) by (simp add: assms(5) [symmetric])
  then have "rest ! (e - 1 - z - length d) = newline" using i(2) by (simp add: nth_append)
  then show False using assms(6) i(1) by (metis nth_mem)
qed

text \<open>The lines between the cursor and a later boundary contain the revocation, if it ends there or before.\<close>

lemma revocation_line_read:
  assumes rev: "revocation_at k e c" and z: "at_boundary (take z c)" "z < e" and d: "drop z c = d @ newline # y" "e \<le> z + Suc (length d)"
  shows "\<exists>r. line_bytes r \<in> set (split_lines (d @ [newline])) \<and> good_record r \<and> field r ''keyId'' = JStr k \<and> truthy (field r ''revokedAt'')"
proof -
  obtain a r x where r: "c = a @ line_bytes r @ newline # x" "e = length (a @ line_bytes r @ [newline])" "at_boundary a"
    "good_record r" "field r ''keyId'' = JStr k" "truthy (field r ''revokedAt'')" using rev by (auto simp: revocation_at_def)
  have za: "z \<le> length a"
  proof (rule cursor_before_line)
    show "at_boundary (take z (a @ line_bytes r @ newline # x))" using z(1) r(1) by simp
    show "z < length (a @ line_bytes r @ [newline])" using r(2) z(2) by simp
  qed (rule line_no_newline)
  have bd: "at_boundary (drop z a)" using r(3) by (cases "length a \<le> z") (auto simp: at_boundary_def last_drop)
  have len: "length (drop z a @ line_bytes r) \<le> length d" using d(2) r(2) za by simp
  have "d @ [newline] = take (Suc (length d)) (drop z c)" unfolding d(1) by simp
  also have "\<dots> = drop z a @ line_bytes r @ newline # take (length d - length (drop z a @ line_bytes r)) x"
    using len za unfolding r(1) by (simp add: Suc_diff_le)
  finally have "line_bytes r \<in> set (split_lines (d @ [newline]))" using segment_line [OF bd line_no_newline] by simp
  then show ?thesis using r(4-6) by blast
qed

text \<open>What a process has read, and what applying it does.\<close>

lemma got_bytes:
  assumes "proc_ok ino c s" "ks_sync s = Sync_got n b"
  shows "ks_size s + n \<le> length c" "0 < n" "b = take n (drop (ks_size s) c)" "at_boundary (take (ks_size s) c)" "length b = n"
    "sync_bound s = ks_size s + n" "good_index (ks_index s)" "ks_ino s = 0 \<or> ks_ino s = ino"
  using assms by (auto simp: proc_ok_def phase_ok_def sync_bound_def)

lemma apply_cases:
  assumes ok: "proc_ok ino c s" and got: "ks_sync s = Sync_got n b" and tame: "tame_content c"
  obtains "newline \<notin> set b" "sync_apply n b s = s\<lparr>ks_sync := Sync_idle\<rparr>"
    | d y where "b = (d @ [newline]) @ y" "newline \<notin> set y" "drop (ks_size s) c = d @ newline # (y @ drop (ks_size s + n) c)"
        "\<forall>l \<in> set (split_lines (d @ [newline])). tame_line l"
        "sync_apply n b s = s\<lparr>ks_sync := Sync_idle, ks_index := foldl apply_line (ks_index s) (split_lines (d @ [newline])),
           ks_size := ks_size s + length (d @ [newline])\<rparr>"
proof -
  note g = got_bytes [OF ok got]
  have ne: "b \<noteq> []" "\<not> length b < n" using g(2,5) by auto
  consider (none) "newline \<notin> set b" "complete_part b = []"
    | (some) d y where "b = d @ newline # y" "newline \<notin> set y" "complete_part b = d @ [newline]"
    using complete_part_cases by blast
  then show ?thesis
  proof cases
    case none
    then show ?thesis using that(1) ne by (simp add: sync_apply_def)
  next
    case some
    have "drop (ks_size s) c = b @ drop (ks_size s + n) c" using g(3) by (metis append_take_drop_id drop_drop add.commute)
    then have dr: "drop (ks_size s) c = d @ newline # (y @ drop (ks_size s + n) c)" using some(1) by simp
    then have seg: "c = take (ks_size s) c @ d @ newline # (y @ drop (ks_size s + n) c)" by (metis append_take_drop_id)
    have "set (split_lines d) \<subseteq> set (split_lines c)" using segment_lines [OF g(4)] seg by metis
    then have t: "\<forall>l \<in> set (split_lines (d @ [newline])). tame_line l"
      using tame by (auto simp: tame_content_def tame_line_def split_lines_append)
    have "plain (d @ [newline])" using tame_plain [OF _ g(4)] seg tame by metis
    then have width: "decoded_width (d @ [newline]) = length (d @ [newline])" by (rule plain_width)
    show ?thesis using that(2) [of d y] some dr t ne width by (simp add: sync_apply_def apply_lines_def)
  qed
qed

lemma proc_ok_apply:
  assumes ok: "proc_ok ino c s" and got: "ks_sync s = Sync_got n b" and tame: "tame_content c"
  shows "proc_ok ino c (sync_apply n b s) \<and> ks_sync (sync_apply n b s) = Sync_idle"
proof (cases rule: apply_cases [OF ok got tame])
  case 1
  then show ?thesis using ok got by (simp add: proc_ok_def phase_ok_def sync_bound_def)
next
  case (2 d y)
  note g = got_bytes [OF ok got]
  have "take (ks_size s + length (d @ [newline])) c = take (ks_size s) c @ d @ [newline]"
    unfolding take_add using 2(3) by simp
  then have "at_boundary (take (ks_size s + length (d @ [newline])) c)" by (simp add: at_boundary_def)
  moreover have "good_index (foldl apply_line (ks_index s) (split_lines (d @ [newline])))" using g(7) 2(4) by (rule apply_all_good)
  moreover have "length (d @ [newline]) \<le> n" using g(5) 2(1) by simp
  ultimately show ?thesis using 2(5) g(1,8) by (simp add: proc_ok_def phase_ok_def sync_bound_def)
qed

lemma apply_learns:
  assumes ok: "proc_ok ino c s" and got: "ks_sync s = Sync_got n b" and tame: "tame_content c"
    and rev: "revocation_at k e c" and kn: "knows k e s"
  shows "(e \<le> sync_bound s \<longrightarrow> e \<le> ks_size (sync_apply n b s)) \<and> knows k e (sync_apply n b s)"
proof -
  note g = got_bytes [OF ok got] and nl = revocation_newline [OF rev]
  show ?thesis
  proof (cases rule: apply_cases [OF ok got tame])
    case 1
    have "e \<le> ks_size s + length ([] :: string)" if "ks_size s < e" "e \<le> ks_size s + n"
      using nl that g(1,3) 1(1) by (intro read_newline [of c e "ks_size s" n "[]" b]) simp_all
    then have "e \<le> sync_bound s \<longrightarrow> e \<le> ks_size s" using g(6) by (cases "ks_size s < e") auto
    then show ?thesis using 1(2) kn by (simp add: knows_def)
  next
    case (2 d y)
    have "e \<le> ks_size s + length (d @ [newline])" if "ks_size s < e" "e \<le> ks_size s + n"
      using nl that g(1,3) 2(1,2) by (intro read_newline [of c e "ks_size s" n "d @ [newline]" y]) simp_all
    then have bound: "e \<le> sync_bound s \<longrightarrow> e \<le> ks_size (sync_apply n b s)" using 2(5) g(6) by (cases "e \<le> ks_size s") auto
    have "revoked_in k (ks_index (sync_apply n b s))" if "e \<le> ks_size (sync_apply n b s)"
    proof (cases "e \<le> ks_size s")
      case True
      then have "revoked_in k (foldl apply_line (ks_index s) (split_lines (d @ [newline])))"
        using kn by (intro apply_all_sticky) (simp add: knows_def)
      then show ?thesis using 2(5) by simp
    next
      case False
      then have "ks_size s < e" "e \<le> ks_size s + Suc (length d)" using that 2(5) by simp_all
      from revocation_line_read [OF rev g(4) this(1) 2(3) this(2)]
      obtain r where "line_bytes r \<in> set (split_lines (d @ [newline]))" "good_record r" "field r ''keyId'' = JStr k" "truthy (field r ''revokedAt'')"
        by blast
      then have "revoked_in k (foldl apply_line (ks_index s) (split_lines (d @ [newline])))" by (rule apply_all_revokes)
      then show ?thesis using 2(5) by simp
    qed
    then show ?thesis using bound by (simp add: knows_def)
  qed
qed

end
