(* ===== verification/Key_Runs.thy ===== *)
theory Key_Runs
  imports Key_Safety
begin

text \<open>
  Runs of the processes that share the file of API keys: the invariant of the file, the indexes and the lock, what a
  completed revocation means for every later check, and two interleavings in which a process misses one.
\<close>

section \<open>All processes\<close>

definition good_intent :: "intent \<Rightarrow> bool" where
  "good_intent i \<longleftrightarrow> (case i of Create_key r \<Rightarrow> good_record r | Revoke_key _ now \<Rightarrow> 0 < now \<and> now < 10 ^ 21 | Touch_key _ now \<Rightarrow> \<bar>now\<bar> < 10 ^ 21)"

definition proc_of :: "writer \<Rightarrow> key_world \<Rightarrow> key_store" where
  "proc_of l w = kw_procs w ! wr_proc l"

definition lock_ok :: "key_world \<Rightarrow> bool" where
  "lock_ok w \<longleftrightarrow> (case kw_lock w of None \<Rightarrow> True | Some l \<Rightarrow> wr_proc l < length (kw_procs w) \<and> good_intent (wr_intent l) \<and>
     (case wr_phase l of
        Locked \<Rightarrow> True
      | Syncing \<Rightarrow> True
      | Synced \<Rightarrow> ks_sync (proc_of l w) = Sync_idle
      | Appending k r rest \<Rightarrow> ks_sync (proc_of l w) = Sync_idle \<and> appending_ok (kw_content w) r rest \<and> field r ''keyId'' = JStr k \<and>
          (rest = [] \<longrightarrow> truthy (field r ''revokedAt'') \<longrightarrow> (\<forall>s \<in> set (kw_procs w). knows k (length (kw_content w)) s))))"

definition key_inv :: "key_world \<Rightarrow> bool" where
  "key_inv w \<longleftrightarrow> tame_content (kw_content w) \<and> (\<forall>s \<in> set (kw_procs w). proc_ok (kw_ino w) (kw_content w) s) \<and> lock_ok w"

definition writing :: "nat \<Rightarrow> key_world \<Rightarrow> bool" where
  "writing p w \<longleftrightarrow> (case kw_lock w of None \<Rightarrow> False | Some l \<Rightarrow> wr_proc l = p \<and>
     (case wr_phase l of Synced \<Rightarrow> True | Appending _ _ _ \<Rightarrow> True | _ \<Rightarrow> False))"

text \<open>An operation that the theorems allow: no synchronisation of a process begins while it is writing, and the clock
  shows a whole number of milliseconds after 1970.\<close>

definition calm_op :: "key_world \<Rightarrow> key_op \<Rightarrow> bool" where
  "calm_op w op \<longleftrightarrow> (case op of Start_sync p \<Rightarrow> \<not> writing p w | Want p i \<Rightarrow> good_intent i | _ \<Rightarrow> True)"

fun calm_run :: "key_world \<Rightarrow> key_op list \<Rightarrow> bool" where
  "calm_run w [] = True"
| "calm_run w (op # ops) = (calm_op w op \<and> calm_run (key_step w op) ops)"

lemma set_proc_simps [simp]:
  "kw_ino (set_proc p s w) = kw_ino w" "kw_content (set_proc p s w) = kw_content w" "kw_lock (set_proc p s w) = kw_lock w"
  "kw_procs (set_proc p s w) = (kw_procs w)[p := s]"
  by (simp_all add: set_proc_def)

lemma all_set_proc: "\<forall>s \<in> set xs. P s \<Longrightarrow> (p < length xs \<Longrightarrow> P s') \<Longrightarrow> \<forall>s \<in> set (xs[p := s']). P s"
  by (cases "p < length xs") (auto simp: list_update_beyond dest!: set_update_subset_insert [THEN subsetD])

text \<open>A process changes by itself, its index and cursor only learn; nobody else notices.\<close>

definition learns :: "string \<Rightarrow> key_store \<Rightarrow> key_store \<Rightarrow> bool" where
  "learns c s s' \<longleftrightarrow> (\<forall>k e. revocation_at k e c \<longrightarrow> knows k e s \<longrightarrow> knows k e s' \<and> (e \<le> sync_bound s \<longrightarrow> e \<le> sync_bound s'))"

lemma learns_refl: "learns c s s"
  by (simp add: learns_def)

definition sync_next :: "string \<Rightarrow> key_store \<Rightarrow> key_store" where
  "sync_next c s = (case ks_sync s of Sync_idle \<Rightarrow> s | Sync_stated st \<Rightarrow> sync_check st s
     | Sync_opening n \<Rightarrow> s\<lparr>ks_sync := Sync_got n (take n (drop (ks_size s) c))\<rparr> | Sync_got n b \<Rightarrow> sync_apply n b s)"

lemma sync_next_learns:
  assumes "proc_ok ino c s" "tame_content c"
  shows "proc_ok ino c (sync_next c s) \<and> learns c s (sync_next c s)"
proof (cases "ks_sync s")
  case Sync_idle
  then show ?thesis using assms by (simp add: sync_next_def learns_refl)
next
  case (Sync_stated st)
  then show ?thesis using assms proc_ok_check [OF assms(1) Sync_stated] by (simp add: sync_next_def learns_def knows_def)
next
  case (Sync_opening n)
  then show ?thesis using assms proc_ok_read [OF assms(1) Sync_opening] by (simp add: sync_next_def learns_def knows_def sync_bound_def)
next
  case (Sync_got n b)
  note app = proc_ok_apply [OF assms(1) Sync_got assms(2)]
  have "learns c s (sync_apply n b s)"
    using app apply_learns [OF assms(1) Sync_got assms(2)] by (auto simp: learns_def sync_bound_def [of "sync_apply n b s"])
  then show ?thesis using app Sync_got by (simp add: sync_next_def)
qed

lemma sync_step_cases:
  obtains "sync_step p w = w" "ks_sync (kw_procs w ! p) = Sync_idle"
    | "sync_step p w = set_proc p (sync_next (kw_content w) (kw_procs w ! p)) w" "ks_sync (kw_procs w ! p) \<noteq> Sync_idle"
    | "sync_step p w = sync_ended p (set_proc p (sync_next (kw_content w) (kw_procs w ! p)) w)" "ks_sync (kw_procs w ! p) \<noteq> Sync_idle"
  by (cases "ks_sync (kw_procs w ! p)") (auto simp: sync_step_def sync_next_def Let_def)

lemma start_learns: "proc_ok ino c s \<Longrightarrow> learns c s (s\<lparr>ks_sync := Sync_stated (Some (ino', length c))\<rparr>)"
  by (auto simp: learns_def knows_def sync_bound_def [of "_\<lparr>ks_sync := _\<rparr>"] dest: revocation_at_length)

lemma knows_learns: "learns c s s' \<Longrightarrow> revocation_at k e c \<Longrightarrow> knows k e s \<Longrightarrow> knows k e s'"
  by (simp add: learns_def)

lemma appended_revocation:
  assumes "appending_ok c r []" "field r ''keyId'' = JStr k" "truthy (field r ''revokedAt'')"
  shows "revocation_at k (length c) c"
proof -
  obtain a where "c = a @ line_bytes r @ [newline]" "at_boundary a" using append_done [OF assms(1)] by auto
  moreover have "good_record r" using assms(1) by (simp add: appending_ok_def)
  ultimately show ?thesis using assms(2,3) unfolding revocation_at_def by (intro exI [of _ a] exI [of _ r] exI [of _ "[]"]) simp
qed

lemma set_proc_inv:
  assumes w: "key_inv w" and s': "p < length (kw_procs w) \<Longrightarrow> proc_ok (kw_ino w) (kw_content w) s' \<and> learns (kw_content w) (kw_procs w ! p) s'"
    and idle: "writing p w \<Longrightarrow> ks_sync s' = Sync_idle"
  shows "key_inv (set_proc p s' w)"
proof -
  have procs: "\<forall>s \<in> set ((kw_procs w)[p := s']). proc_ok (kw_ino w) (kw_content w) s"
    using w s' by (intro all_set_proc) (auto simp: key_inv_def)
  have "lock_ok (set_proc p s' w)"
  proof (cases "kw_lock w")
    case (Some l)
    have l: "lock_ok w" using w by (simp add: key_inv_def)
    have p: "proc_of l (set_proc p s' w) = (if wr_proc l = p then s' else proc_of l w)" if "wr_proc l < length (kw_procs w)"
      using that by (simp add: proc_of_def)
    have kn: "\<forall>s \<in> set ((kw_procs w)[p := s']). knows k (length (kw_content w)) s"
      if "appending_ok (kw_content w) r []" "field r ''keyId'' = JStr k" "truthy (field r ''revokedAt'')"
        "\<forall>s \<in> set (kw_procs w). knows k (length (kw_content w)) s" for k r
      using that(4) knows_learns [OF conjunct2 [OF s'] appended_revocation [OF that(1-3)]] by (intro all_set_proc) auto
    show ?thesis using l Some p idle kn by (auto simp: lock_ok_def writing_def split: writer_phase.splits)
  qed (simp add: lock_ok_def)
  then show ?thesis using w procs by (simp add: key_inv_def)
qed

lemma lock_free_inv: "key_inv w \<Longrightarrow> key_inv (w\<lparr>kw_lock := None\<rparr>)"
  by (simp add: key_inv_def lock_ok_def)

lemma sync_ended_inv: "key_inv w \<Longrightarrow> key_inv (sync_ended p w)"
  by (auto simp: sync_ended_def key_inv_def lock_ok_def proc_of_def split: option.split)

lemma sync_start_inv: "key_inv w \<Longrightarrow> \<not> writing p w \<Longrightarrow> key_inv (sync_start p w)"
  by (auto simp: sync_start_def Let_def key_inv_def [of w] intro!: set_proc_inv proc_ok_start start_learns)

lemma sync_next_inv:
  assumes w: "key_inv w" and s: "ks_sync (kw_procs w ! p) \<noteq> Sync_idle"
  shows "key_inv (set_proc p (sync_next (kw_content w) (kw_procs w ! p)) w)"
proof -
  have nw: "\<not> writing p w"
    using w s by (auto simp: key_inv_def lock_ok_def writing_def proc_of_def split: option.splits writer_phase.splits)
  show ?thesis using w nw by (intro set_proc_inv) (auto simp: key_inv_def intro!: sync_next_learns)
qed

lemma sync_step_inv: "key_inv w \<Longrightarrow> key_inv (sync_step p w)"
  by (rule sync_step_cases [of p w]) (simp_all add: sync_next_inv sync_ended_inv)

lemma sync_ends_idle: "ks_sync (sync_apply n b s) = Sync_idle"
  by (simp add: sync_apply_def Let_def)

lemma intent_record:
  assumes "record_to_write i idx = Some (k, r)" "good_index idx" "good_intent i"
  shows "good_record r \<and> field r ''keyId'' = JStr k"
proof (cases i)
  case (Create_key r0)
  then obtain k0 where "field r0 ''keyId'' = JStr k0" using assms(3) by (auto simp: good_intent_def good_record_def)
  then show ?thesis using assms Create_key by (auto simp: record_to_write_def good_intent_def key_id_of_def)
next
  case (Revoke_key k0 now)
  have "printable (JNum (of_int now))" using assms(3) Revoke_key
    by (simp add: good_intent_def)
  then show ?thesis using assms Revoke_key
    by (auto simp: record_to_write_def good_index_def field_jset intro!: good_jset plain_revoked plain_number split: option.splits if_splits)
next
  case (Touch_key k0 now)
  have "printable (JNum (of_int now))" using assms(3) Touch_key
    by (simp add: good_intent_def)
  then show ?thesis using assms Touch_key
    by (auto simp: record_to_write_def good_index_def field_jset intro!: good_jset plain_revoked plain_number split: option.splits)
qed

lemma write_lock_inv: "key_inv w \<Longrightarrow> good_intent i \<Longrightarrow> key_inv (write_lock p i w)"
  by (auto simp: write_lock_def key_inv_def lock_ok_def)

lemma proc_crashes_inv:
  assumes w: "key_inv w"
  shows "key_inv (proc_crashes p w)"
proof -
  have procs: "\<forall>s \<in> set ((kw_procs w)[p := new_key_store]). proc_ok (kw_ino w) (kw_content w) s"
    using w proc_ok_new by (intro all_set_proc) (auto simp: key_inv_def)
  have "lock_ok (set_proc p new_key_store w)" if l: "kw_lock w = Some l" "wr_proc l \<noteq> p" for l
  proof -
    have fresh: "knows k (length (kw_content w)) new_key_store" if "appending_ok (kw_content w) r []" for k r
      using append_done [OF that] by (auto simp: knows_def new_key_store_def)
    have "\<forall>s \<in> set ((kw_procs w)[p := new_key_store]). knows k (length (kw_content w)) s"
      if "appending_ok (kw_content w) r []" "\<forall>s \<in> set (kw_procs w). knows k (length (kw_content w)) s" for k r
      using that(2) fresh [OF that(1)] by (intro all_set_proc) auto
    moreover have "lock_ok w" using w by (simp add: key_inv_def)
    ultimately show ?thesis using l by (auto simp: lock_ok_def proc_of_def split: writer_phase.splits)
  qed
  then show ?thesis using w procs
    by (auto simp: proc_crashes_def Let_def key_inv_def lock_ok_def [of "_\<lparr>kw_lock := None\<rparr>"] split: option.split)
      (simp_all add: lock_ok_def)
qed

text \<open>Bytes are appended: the invariant of the file and of the writer moves on, the processes see a longer file.\<close>

lemma append_inv:
  assumes w: "key_inv w" and l: "kw_lock w = Some l" "wr_phase l = Appending k r rest"
  shows "key_inv (w\<lparr>kw_content := kw_content w @ take n rest, kw_lock := Some (l\<lparr>wr_phase := Appending k r (drop n rest)\<rparr>)\<rparr>)"
proof -
  have app: "appending_ok (kw_content w) r rest" and tame: "tame_content (kw_content w)"
    and kn: "rest = [] \<Longrightarrow> truthy (field r ''revokedAt'') \<Longrightarrow> \<forall>s \<in> set (kw_procs w). knows k (length (kw_content w)) s"
    using w l by (auto simp: key_inv_def lock_ok_def)
  have "knows k (length (kw_content w @ take n rest)) s" if "rest \<noteq> []" "drop n rest = []" "s \<in> set (kw_procs w)" for s
  proof -
    have "ks_size s \<le> length (kw_content w)" using w that(3) by (auto simp: key_inv_def proc_ok_def)
    then show ?thesis using that by (cases rest) (auto simp: knows_def)
  qed
  then show ?thesis using append_step [OF tame app, of n] kn w l
    by (cases "rest = []") (auto simp: key_inv_def lock_ok_def proc_of_def intro!: proc_ok_grows)
qed

lemma write_step_inv:
  assumes w: "key_inv w"
  shows "key_inv (write_step n w)"
proof (cases "kw_lock w")
  case (Some l)
  let ?p = "wr_proc l"
  have l: "lock_ok w" using w by (simp add: key_inv_def)
  show ?thesis
  proof (cases "wr_phase l")
    case Locked
    have "key_inv (w\<lparr>kw_lock := Some (l\<lparr>wr_phase := Syncing\<rparr>)\<rparr>)"
      using w Some by (simp add: key_inv_def lock_ok_def)
    then show ?thesis using w Some Locked by (auto simp: write_step_def Let_def writing_def intro!: sync_start_inv)
  next
    case Synced
    have p: "?p < length (kw_procs w)" "good_intent (wr_intent l)" "ks_sync (proc_of l w) = Sync_idle"
      using l Some Synced by (auto simp: lock_ok_def)
    then have idx: "good_index (ks_index (kw_procs w ! ?p))" using w by (auto simp: key_inv_def proc_ok_def)
    show ?thesis
    proof (cases "record_to_write (wr_intent l) (ks_index (kw_procs w ! ?p))")
      case None
      then show ?thesis using Some Synced lock_free_inv [OF w] by (simp add: write_step_def)
    next
      case (Some kr)
      obtain k r where kr: "kr = (k, r)" by (cases kr)
      have r: "good_record r" "field r ''keyId'' = JStr k" using intent_record [OF Some [unfolded kr] idx p(2)] by auto
      have "bytes_to_append (kw_content w) r \<noteq> []" by (simp add: bytes_to_append_def)
      then have "lock_ok (w\<lparr>kw_lock := Some (l\<lparr>wr_phase := Appending k r (bytes_to_append (kw_content w) r)\<rparr>)\<rparr>)"
        using p r append_begins by (simp add: lock_ok_def proc_of_def)
      then show ?thesis using \<open>kw_lock w = Some l\<close> Synced Some kr w by (simp add: write_step_def key_inv_def)
    qed
  next
    case (Appending k r rest)
    then show ?thesis using append_inv [OF w Some Appending] Some by (simp add: write_step_def Let_def)
  qed (use w Some in \<open>simp add: write_step_def\<close>)
qed (use w in \<open>simp add: write_step_def\<close>)

lemma good_index_jset: "good_index idx \<Longrightarrow> good_record r \<Longrightarrow> field r ''keyId'' = JStr k \<Longrightarrow> good_index (jset k r idx)"
  by (simp add: good_index_def jget_set)

lemma write_done_cases:
  obtains "write_done w = w"
    | l k r rest where "kw_lock w = Some l" "wr_phase l = Appending k r rest"
        "write_done w = set_proc (wr_proc l) (proc_of l w\<lparr>ks_size := length (kw_content w @ rest), ks_ino := kw_ino w,
           ks_index := jset k r (ks_index (proc_of l w))\<rparr>) (w\<lparr>kw_content := kw_content w @ rest, kw_lock := None\<rparr>)"
proof (cases "\<exists>l k r rest. kw_lock w = Some l \<and> wr_phase l = Appending k r rest")
  case True
  then show ?thesis using that(2) by (auto simp: write_done_def proc_of_def Let_def)
next
  case False
  then show ?thesis using that(1) by (auto simp: write_done_def split: option.split writer_phase.split)
qed

lemma write_done_inv:
  assumes w: "key_inv w"
  shows "key_inv (write_done w)"
proof (cases rule: write_done_cases [of w])
  case (2 l k r rest)
  define s c where "s = proc_of l w" and "c = kw_content w @ rest"
  let ?s' = "s\<lparr>ks_size := length c, ks_ino := kw_ino w, ks_index := jset k r (ks_index s)\<rparr>"
  have p: "wr_proc l < length (kw_procs w)" "ks_sync s = Sync_idle" "field r ''keyId'' = JStr k"
    and app: "appending_ok (kw_content w) r rest" and tame: "tame_content (kw_content w)"
    using w 2(1,2) by (auto simp: key_inv_def lock_ok_def s_def)
  have ok: "proc_ok (kw_ino w) (kw_content w) s" using w p(1) by (simp add: key_inv_def s_def proc_of_def)
  have r: "good_record r" using app by (simp add: appending_ok_def)
  obtain a where a: "c = a @ line_bytes r @ [newline]" using append_done [OF app] c_def by auto
  have "at_boundary c" unfolding a at_boundary_def by simp
  then have s': "proc_ok (kw_ino w) c ?s'"
    using ok p r good_index_jset [of "ks_index s" r k] by (simp add: proc_ok_def sync_bound_def phase_ok_def)
  have "\<forall>t \<in> set ((kw_procs w)[wr_proc l := ?s']). proc_ok (kw_ino w) c t"
    using w s' proc_ok_grows unfolding c_def by (intro all_set_proc) (auto simp: key_inv_def)
  moreover have "tame_content c" using append_step [OF tame app, of "length rest"] by (simp add: c_def)
  ultimately show ?thesis using 2(3) by (simp add: key_inv_def lock_ok_def c_def s_def)
qed (use w in simp)

lemma key_inv_step: "key_inv w \<Longrightarrow> calm_op w op \<Longrightarrow> key_inv (key_step w op)"
  by (cases op) (simp_all add: calm_op_def sync_start_inv sync_step_inv write_lock_inv write_step_inv write_done_inv
      proc_crashes_inv write_fails_def lock_free_inv)

lemma key_inv_run: "key_inv w \<Longrightarrow> calm_run w ops \<Longrightarrow> key_inv (foldl key_step w ops)"
  by (induction ops arbitrary: w) (simp_all add: key_inv_step)

lemma key_inv_new: "key_inv (new_key_world ino n)"
  using proc_ok_new by (simp add: new_key_world_def key_inv_def lock_ok_def tame_content_def tame_line_def)

section \<open>After a revocation\<close>

text \<open>The revocation of \<open>k\<close> is in the file, up to position \<open>e\<close>: whoever has read that far knows it, a writer that is up to
  date has read that far, and what it is about to write does not take it back.\<close>

definition writer_respects :: "string \<Rightarrow> nat \<Rightarrow> key_world \<Rightarrow> bool" where
  "writer_respects k e w \<longleftrightarrow> (case kw_lock w of None \<Rightarrow> True | Some l \<Rightarrow>
     (\<forall>r. wr_intent l = Create_key r \<longrightarrow> key_id_of r \<noteq> k) \<and>
     (case wr_phase l of
        Locked \<Rightarrow> True
      | Syncing \<Rightarrow> e \<le> sync_bound (proc_of l w)
      | Synced \<Rightarrow> e \<le> sync_bound (proc_of l w)
      | Appending k' r _ \<Rightarrow> e \<le> sync_bound (proc_of l w) \<and> (k' = k \<longrightarrow> truthy (field r ''revokedAt''))))"

definition revoked_up_to :: "string \<Rightarrow> nat \<Rightarrow> key_world \<Rightarrow> bool" where
  "revoked_up_to k e w \<longleftrightarrow> revocation_at k e (kw_content w) \<and> (\<forall>s \<in> set (kw_procs w). knows k e s) \<and> writer_respects k e w"

text \<open>An operation that does not create the key again.\<close>

definition keeps_revoked :: "string \<Rightarrow> key_op \<Rightarrow> bool" where
  "keeps_revoked k op \<longleftrightarrow> (case op of Want _ (Create_key r) \<Rightarrow> key_id_of r \<noteq> k | _ \<Rightarrow> True)"

lemma set_proc_revoked:
  assumes "revoked_up_to k e w" "p < length (kw_procs w) \<Longrightarrow> learns (kw_content w) (kw_procs w ! p) s'"
  shows "revoked_up_to k e (set_proc p s' w)"
proof -
  have rev: "revocation_at k e (kw_content w)" using assms(1) by (simp add: revoked_up_to_def)
  have "\<forall>s \<in> set ((kw_procs w)[p := s']). knows k e s"
    using assms rev by (intro all_set_proc) (auto simp: revoked_up_to_def learns_def)
  moreover have "e \<le> sync_bound (proc_of l (set_proc p s' w))" if "e \<le> sync_bound (proc_of l w)" for l
  proof (cases "wr_proc l = p \<and> p < length (kw_procs w)")
    case True
    then have "knows k e (proc_of l w)" using assms(1) by (auto simp: revoked_up_to_def proc_of_def)
    then show ?thesis using True assms(2) rev that by (auto simp: proc_of_def learns_def)
  next
    case False
    then show ?thesis using that by (auto simp: proc_of_def list_update_beyond)
  qed
  ultimately show ?thesis using assms(1)
    by (auto simp: revoked_up_to_def writer_respects_def split: option.splits writer_phase.splits)
qed

lemma revoked_lock_free: "revoked_up_to k e w \<Longrightarrow> revoked_up_to k e (w\<lparr>kw_lock := None\<rparr>)"
  by (simp add: revoked_up_to_def writer_respects_def)

lemma sync_ended_revoked: "revoked_up_to k e w \<Longrightarrow> revoked_up_to k e (sync_ended p w)"
  by (auto simp: sync_ended_def revoked_up_to_def writer_respects_def proc_of_def split: option.split)

lemma sync_start_revoked:
  assumes "key_inv w" "revoked_up_to k e w"
  shows "revoked_up_to k e (sync_start p w)"
proof -
  have "learns (kw_content w) (kw_procs w ! p) ((kw_procs w ! p)\<lparr>ks_sync := Sync_stated (Some (kw_ino w, length (kw_content w)))\<rparr>)"
    if "p < length (kw_procs w)" using assms(1) that by (auto simp: key_inv_def intro: start_learns)
  then show ?thesis using set_proc_revoked [OF assms(2)] assms(2) by (simp add: sync_start_def Let_def)
qed

lemma sync_next_of: "key_inv w \<Longrightarrow> p < length (kw_procs w) \<Longrightarrow> learns (kw_content w) (kw_procs w ! p) (sync_next (kw_content w) (kw_procs w ! p))"
  by (rule conjunct2 [OF sync_next_learns]) (auto simp: key_inv_def)

lemma sync_step_revoked: "key_inv w \<Longrightarrow> revoked_up_to k e w \<Longrightarrow> revoked_up_to k e (sync_step p w)"
  by (rule sync_step_cases [of p w]) (simp_all add: set_proc_revoked sync_next_of sync_ended_revoked)

lemma write_lock_revoked: "revoked_up_to k e w \<Longrightarrow> keeps_revoked k (Want p i) \<Longrightarrow> revoked_up_to k e (write_lock p i w)"
  by (auto simp: write_lock_def revoked_up_to_def writer_respects_def keeps_revoked_def)

lemma proc_crashes_revoked:
  assumes "revoked_up_to k e w"
  shows "revoked_up_to k e (proc_crashes p w)"
proof -
  have "0 < e" using assms by (auto simp: revoked_up_to_def revocation_at_def)
  then have "\<forall>s \<in> set ((kw_procs w)[p := new_key_store]). knows k e s"
    using assms by (intro all_set_proc) (auto simp: revoked_up_to_def knows_def new_key_store_def)
  then show ?thesis using assms
    by (auto simp: proc_crashes_def Let_def revoked_up_to_def writer_respects_def proc_of_def split: option.splits writer_phase.splits)
qed

text \<open>A writer that is up to date with the revocation does not take it back.\<close>

lemma record_respects:
  assumes "record_to_write i idx = Some (k', r)" "revoked_in k idx" "\<forall>r. i = Create_key r \<longrightarrow> key_id_of r \<noteq> k" "k' = k"
  shows "truthy (field r ''revokedAt'')"
  using assms by (auto simp: record_to_write_def revoked_in_def field_jset split: intent.splits option.splits if_splits)

lemma write_step_revoked:
  assumes w: "key_inv w" and r: "revoked_up_to k e w"
  shows "revoked_up_to k e (write_step n w)"
proof (cases "kw_lock w")
  case (Some l)
  have p: "wr_proc l < length (kw_procs w)" using w Some by (simp add: key_inv_def lock_ok_def)
  have resp: "writer_respects k e w" and rev: "revocation_at k e (kw_content w)" using r by (simp_all add: revoked_up_to_def)
  show ?thesis
  proof (cases "wr_phase l")
    case Locked
    have "e \<le> length (kw_content w)" using rev by (rule revocation_at_length)
    then have "writer_respects k e (sync_start (wr_proc l) (w\<lparr>kw_lock := Some (l\<lparr>wr_phase := Syncing\<rparr>)\<rparr>))"
      if "ks_sync (kw_procs w ! wr_proc l) = Sync_idle"
      using that resp Some p by (simp add: writer_respects_def sync_start_def Let_def proc_of_def sync_bound_def)
    then show ?thesis using sync_start_revoked [OF w r, of "wr_proc l"] r Some Locked
      by (auto simp: write_step_def Let_def sync_start_def revoked_up_to_def)
  next
    case Synced
    have bound: "e \<le> sync_bound (proc_of l w)" and c: "\<forall>r. wr_intent l = Create_key r \<longrightarrow> key_id_of r \<noteq> k"
      using resp Some Synced by (simp_all add: writer_respects_def)
    moreover have "ks_sync (proc_of l w) = Sync_idle" using w Some Synced by (simp add: key_inv_def lock_ok_def)
    moreover have "knows k e (proc_of l w)" using r p by (simp add: revoked_up_to_def proc_of_def)
    ultimately have "revoked_in k (ks_index (kw_procs w ! wr_proc l))" by (simp add: knows_def sync_bound_def proc_of_def)
    then have keeps: "truthy (field r' ''revokedAt'')" if "record_to_write (wr_intent l) (ks_index (kw_procs w ! wr_proc l)) = Some (k, r')" for r'
      using record_respects [OF that _ c] by simp
    show ?thesis
    proof (cases "record_to_write (wr_intent l) (ks_index (kw_procs w ! wr_proc l))")
      case None
      then show ?thesis using Some Synced revoked_lock_free [OF r] by (simp add: write_step_def)
    next
      case (Some kr)
      then show ?thesis using \<open>kw_lock w = Some l\<close> Synced keeps bound c r
        by (cases kr) (auto simp: write_step_def revoked_up_to_def writer_respects_def proc_of_def)
    qed
  next
    case (Appending k' r' rest)
    then show ?thesis using Some r revocation_at_grows [OF rev]
      by (auto simp: write_step_def Let_def revoked_up_to_def writer_respects_def proc_of_def)
  qed (use r Some in \<open>simp add: write_step_def\<close>)
qed (use r in \<open>simp add: write_step_def\<close>)

lemma write_done_revoked:
  assumes w: "key_inv w" and r: "revoked_up_to k e w"
  shows "revoked_up_to k e (write_done w)"
proof (cases rule: write_done_cases [of w])
  case (2 l k' r' rest)
  let ?s = "proc_of l w"
  have l: "wr_proc l < length (kw_procs w)" "ks_sync ?s = Sync_idle" using w 2 by (auto simp: key_inv_def lock_ok_def)
  then have "knows k e ?s" "e \<le> ks_size ?s" "k' = k \<longrightarrow> truthy (field r' ''revokedAt'')"
    using r 2(1,2) by (auto simp: revoked_up_to_def writer_respects_def proc_of_def sync_bound_def)
  then have "revoked_in k (jset k' r' (ks_index ?s))" by (auto simp: knows_def revoked_in_def jget_set)
  then have "\<forall>s \<in> set ((kw_procs w)[wr_proc l := ?s\<lparr>ks_size := length (kw_content w @ rest), ks_ino := kw_ino w, ks_index := jset k' r' (ks_index ?s)\<rparr>]). knows k e s"
    using r by (intro all_set_proc) (auto simp: revoked_up_to_def knows_def)
  then show ?thesis using r 2 by (auto simp: revoked_up_to_def writer_respects_def intro: revocation_at_grows)
qed (use r in simp)

lemma revoked_up_to_step:
  "key_inv w \<Longrightarrow> revoked_up_to k e w \<Longrightarrow> keeps_revoked k op \<Longrightarrow> revoked_up_to k e (key_step w op)"
  by (cases op) (simp_all add: sync_start_revoked sync_step_revoked write_lock_revoked write_step_revoked write_done_revoked
      proc_crashes_revoked write_fails_def revoked_lock_free)

lemma revoked_up_to_run:
  "key_inv w \<Longrightarrow> revoked_up_to k e w \<Longrightarrow> calm_run w ops \<Longrightarrow> \<forall>op \<in> set ops. keeps_revoked k op \<Longrightarrow>
   revoked_up_to k e (foldl key_step w ops)"
  by (induction ops arbitrary: w) (simp_all add: key_inv_step revoked_up_to_step)

text \<open>The append of a revocation has ended.\<close>

lemma revocation_written:
  assumes w: "key_inv w" and l: "kw_lock w = Some l" "wr_phase l = Appending k r rest" "truthy (field r ''revokedAt'')"
  shows "revoked_up_to k (length (kw_content (write_done w))) (write_done w)"
proof -
  have app: "appending_ok (kw_content w) r rest" "field r ''keyId'' = JStr k" "wr_proc l < length (kw_procs w)"
    and kn: "rest = [] \<Longrightarrow> \<forall>s \<in> set (kw_procs w). knows k (length (kw_content w)) s"
    using w l by (auto simp: key_inv_def lock_ok_def)
  define c where "c = kw_content w @ rest"
  have "appending_ok c r []" using append_done [OF app(1)] app(1) by (auto simp: appending_ok_def c_def)
  then have rev: "revocation_at k (length c) c" using app(2) l(3) by (rule appended_revocation)
  have others: "knows k (length c) s" if "s \<in> set (kw_procs w)" for s
  proof -
    have "ks_size s \<le> length (kw_content w)" using w that by (auto simp: key_inv_def proc_ok_def)
    then show ?thesis using kn that by (cases rest) (auto simp: knows_def c_def)
  qed
  have "\<forall>s \<in> set ((kw_procs w)[wr_proc l := proc_of l w\<lparr>ks_size := length c, ks_ino := kw_ino w, ks_index := jset k r (ks_index (proc_of l w))\<rparr>]). knows k (length c) s"
    using others l(3) by (intro all_set_proc) (auto simp: knows_def revoked_in_def jget_set)
  then show ?thesis using l rev
    by (simp add: write_done_def Let_def revoked_up_to_def writer_respects_def c_def proc_of_def)
qed

section \<open>Checks after a revocation\<close>

lemma sync_ended_procs [simp]: "kw_procs (sync_ended p w) = kw_procs w"
  by (simp add: sync_ended_def split: option.split)

lemma sync_step_procs: "length (kw_procs (sync_step p w)) = length (kw_procs w)"
  by (rule sync_step_cases [of p w]) simp_all

lemma sync_start_procs: "length (kw_procs (sync_start p w)) = length (kw_procs w)"
  by (simp add: sync_start_def Let_def)

lemma write_step_as_start:
  obtains "kw_procs (write_step n w) = kw_procs w" | q where "kw_procs (write_step n w) = kw_procs (sync_start q w)"
proof (cases "\<exists>l. kw_lock w = Some l \<and> wr_phase l = Locked")
  case True
  then obtain l where l: "kw_lock w = Some l" "wr_phase l = Locked" by blast
  then have "kw_procs (write_step n w) = kw_procs (sync_start (wr_proc l) w)"
    by (simp add: write_step_def Let_def sync_start_def)
  then show ?thesis by (rule that(2))
next
  case False
  then have "kw_procs (write_step n w) = kw_procs w"
    by (auto simp: write_step_def Let_def split: option.split writer_phase.split)
  then show ?thesis by (rule that(1))
qed

lemma key_step_procs: "length (kw_procs (key_step w op)) = length (kw_procs w)"
proof (cases op)
  case (Write_on n)
  then show ?thesis by (cases rule: write_step_as_start [of n w]) (simp_all add: sync_start_procs)
next
  case Write_done
  then show ?thesis by (cases rule: write_done_cases [of w]) simp_all
next
  case (Crash p)
  then show ?thesis by (simp add: proc_crashes_def Let_def split: option.split)
qed (simp_all add: sync_start_procs sync_step_procs write_lock_def write_fails_def)

lemma key_run_procs: "length (kw_procs (foldl key_step w ops)) = length (kw_procs w)"
  by (induction ops arbitrary: w) (simp_all add: key_step_procs)

text \<open>A process that has read, or is about to have read, the revocation stays so until it crashes.\<close>

definition reaches :: "nat \<Rightarrow> nat \<Rightarrow> key_world \<Rightarrow> bool" where
  "reaches e p w \<longleftrightarrow> e \<le> sync_bound (kw_procs w ! p)"

lemma start_reaches: "e \<le> length (kw_content w) \<Longrightarrow> p < length (kw_procs w) \<Longrightarrow> reaches e p w \<or> q = p \<and> ks_sync (kw_procs w ! p) = Sync_idle
    \<Longrightarrow> reaches e p (sync_start q w)"
  by (cases "q = p") (auto simp: reaches_def sync_start_def Let_def sync_bound_def [of "_\<lparr>ks_sync := _\<rparr>"])

lemma sync_step_reaches:
  assumes w: "key_inv w" "revoked_up_to k e w" "p < length (kw_procs w)" "reaches e p w"
  shows "reaches e p (sync_step q w)"
proof (cases "q = p")
  case True
  have "revocation_at k e (kw_content w)" "knows k e (kw_procs w ! p)" using w by (simp_all add: revoked_up_to_def)
  then have "e \<le> sync_bound (sync_next (kw_content w) (kw_procs w ! p))"
    using sync_next_of [OF w(1,3)] w(4) by (simp add: learns_def reaches_def)
  then show ?thesis using w(3,4) True by (cases rule: sync_step_cases [of q w]) (simp_all add: reaches_def)
next
  case False
  then show ?thesis using w(4) by (cases rule: sync_step_cases [of q w]) (simp_all add: reaches_def)
qed

lemma write_done_reaches:
  assumes w: "key_inv w" "p < length (kw_procs w)" "reaches e p w" "e \<le> length (kw_content w)"
  shows "reaches e p (write_done w)"
proof (cases rule: write_done_cases [of w])
  case (2 l k r rest)
  have "ks_sync (proc_of l w) = Sync_idle" using w(1) 2(1,2) by (simp add: key_inv_def lock_ok_def)
  then show ?thesis using w 2 by (cases "wr_proc l = p") (simp_all add: reaches_def proc_of_def sync_bound_def)
qed (use w in simp)

lemma key_step_reaches:
  assumes w: "key_inv w" "revoked_up_to k e w" "p < length (kw_procs w)" "reaches e p w" and op: "op \<noteq> Crash p"
  shows "reaches e p (key_step w op)"
proof -
  have e: "e \<le> length (kw_content w)" using w(2) revocation_at_length by (auto simp: revoked_up_to_def)
  show ?thesis
  proof (cases op)
    case (Write_on n)
    have "reaches e p (sync_start q w)" for q using start_reaches [OF e w(3)] w(4) by blast
    then show ?thesis using Write_on w(4) by (cases rule: write_step_as_start [of n w]) (simp_all add: reaches_def)
  next
    case (Crash q)
    then show ?thesis using op w(4) by (simp add: proc_crashes_def Let_def reaches_def split: option.split)
  qed (use w e in \<open>simp_all add: start_reaches sync_step_reaches write_done_reaches write_lock_def write_fails_def reaches_def [of _ _ "_\<lparr>kw_lock := _\<rparr>"]\<close>,
      simp_all add: reaches_def)
qed

lemma key_run_reaches:
  "key_inv w \<Longrightarrow> revoked_up_to k e w \<Longrightarrow> p < length (kw_procs w) \<Longrightarrow> reaches e p w \<Longrightarrow> calm_run w ops \<Longrightarrow>
   \<forall>op \<in> set ops. keeps_revoked k op \<Longrightarrow> Crash p \<notin> set ops \<Longrightarrow> reaches e p (foldl key_step w ops)"
proof (induction ops arbitrary: w)
  case (Cons op ops)
  then show ?case using key_step_reaches [of w k e p op]
    by (auto simp: key_inv_step revoked_up_to_step key_step_procs)
qed simp

lemma calm_run_append: "calm_run w (xs @ ys) \<longleftrightarrow> calm_run w xs \<and> calm_run (foldl key_step w xs) ys"
  by (induction xs arbitrary: w) simp_all


section \<open>The types of the records\<close>

definition typed_record :: "string \<Rightarrow> key_record \<Rightarrow> bool" where
  "typed_record k r \<longleftrightarrow> distinct (map fst r) \<and> (\<forall>(f, v) \<in> set r. v = JUndefined \<or> printable v) \<and> field r ''keyId'' = JStr k \<and>
     (truthy (field r ''revokedAt'') \<longrightarrow> (\<exists>q. field r ''revokedAt'' = JNum q))"


section \<open>Concrete runs\<close>

lemma good_record_code [code]:
  "good_record r \<longleftrightarrow> distinct (map fst r) \<and> (\<forall>(k, v) \<in> set r. v = JUndefined \<or> printable v) \<and>
     (\<forall>(k, v) \<in> set r. plain (json_string k) \<and> plain (json_text v)) \<and> (case field r ''keyId'' of JStr k \<Rightarrow> True | _ \<Rightarrow> False) \<and>
     (truthy (field r ''revokedAt'') \<longrightarrow> (case field r ''revokedAt'' of JNum q \<Rightarrow> True | _ \<Rightarrow> False))"
  by (auto simp: good_record_def split: jsvalue.splits)

definition key_created :: "key_op list" where
  "key_created = [Want 0 (Create_key [(''keyId'', JStr ''k_''), (''keyHash'', JStr ''h'')]), Write_on 0, Go_on 0, Write_on 0, Write_done]"

text \<open>Process \<open>p\<close> synchronises; it takes the lock, synchronises and begins to append.\<close>

definition syncs :: "nat \<Rightarrow> key_op list" where
  "syncs p = [Start_sync p, Go_on p, Go_on p, Go_on p]"

definition begins :: "nat \<Rightarrow> intent \<Rightarrow> key_op list" where
  "begins p i = [Want p i, Write_on 0, Go_on p, Go_on p, Go_on p, Write_on 0]"

definition accepted_by :: "nat \<Rightarrow> key_op list \<Rightarrow> bool" where
  "accepted_by p ops \<longleftrightarrow> verify_key (\<lambda>_. []) (\<lambda>_ _. True) 5 ''oc_live_x'' (kw_procs (foldl key_step (new_key_world 1 3) ops) ! p) \<noteq> None"

definition revoking :: "key_op list" where
  "revoking = key_created @ begins 1 (Revoke_key ''k_'' 2)"



text \<open>Why no synchronisation may begin while the process writes: one that has seen the new bytes before the append is over
  and applies them after it adds their length to a cursor that has moved past them already. The next revocation of another process
  is then read from its middle, and never learned.\<close>

lemma own_append_hides_revocation:
  "accepted_by 0 (key_created @ [Want 0 (Touch_key ''k_'' 1), Write_on 0, Go_on 0, Write_on 0, Write_on 60] @ [Start_sync 0, Go_on 0, Go_on 0]
     @ [Write_done, Go_on 0] @ begins 1 (Revoke_key ''k_'' 2) @ [Write_done] @ syncs 0)"
  by code_simp

text \<open>A check that joins a synchronisation begun before the revocation still accepts the key (\<open>pendingSync\<close>).\<close>

lemma joined_sync_misses_revocation:
  "accepted_by 2 (key_created @ [Start_sync 2] @ begins 0 (Revoke_key ''k_'' 2) @ [Write_done] @ [Go_on 2, Go_on 2, Go_on 2])"
  by code_simp

text \<open>A writer that crashes before its last newline: the next writer completes the line and moves its cursor past it, so it goes on
  accepting a key that every other process takes to be revoked.\<close>

lemma completed_line_unread:
  "accepted_by 0 (revoking @ [Write_on 42, Crash 1] @ begins 0 (Touch_key ''k_'' 1) @ [Write_done] @ syncs 0) \<and>
   \<not> accepted_by 2 (revoking @ [Write_on 42, Crash 1] @ begins 0 (Touch_key ''k_'' 1) @ [Write_done] @ syncs 2)"
  by code_simp

text \<open>A crash inside a character of two bytes: the cursor advances by the three bytes of U+FFFD instead of one, and the next
  revocation is read from its third byte on.\<close>

lemma torn_character_hides_revocation:
  "accepted_by 2 (key_created @ begins 1 (Create_key [(''keyId'', JStr ''x''), (''description'', JStr [CHR 0xE9])]) @ [Write_on 29, Crash 1]
     @ begins 0 (Touch_key ''k_'' 1) @ [Write_done] @ syncs 2 @ begins 0 (Revoke_key ''k_'' 2) @ [Write_done] @ syncs 2)"
  by code_simp

end
