(* ===== verification/Named_Contexts.thy ===== *)
theory Named_Contexts
  imports Js_Strings
begin

text \<open>
  The registry of named browser contexts, \<open>src/src/chrome/contexts.ts\<close>: one context per browser and name, shared by its
  tabs and destroyed when its last tab is closed and no resume token refers to it. Browsers and contexts are
  numbers. A creation is split at its await; the contexts that a browser still knows are an argument of the lookup.
  \<open>nc_closed\<close> lists the contexts that the registry has closed.
\<close>

section \<open>Names\<close>

definition default_context_name :: string where "default_context_name = ''default''"

definition name_char :: "char \<Rightarrow> bool" where
  "name_char c \<longleftrightarrow> (let n = of_char c :: nat in
     (65 \<le> n \<and> n \<le> 90) \<or> (97 \<le> n \<and> n \<le> 122) \<or> (48 \<le> n \<and> n \<le> 57) \<or> n = 95 \<or> n = 45)"

definition valid_context_name :: "string \<Rightarrow> bool" where
  "valid_context_name name \<longleftrightarrow> 1 \<le> length name \<and> length name \<le> 64 \<and> list_all name_char name \<and> name \<noteq> default_context_name"

section \<open>State\<close>

record context_entry =
  ce_browser :: nat
  ce_name :: string
  ce_context :: nat
  ce_created :: int
  ce_tabs :: nat
  ce_refs :: nat

record context_registry =
  nc_entries :: "(string, context_entry) jmap"
  nc_inflight :: "(string, nat \<times> string) jmap"
  nc_browsers :: "(nat, nat) jmap"
  nc_next :: nat
  nc_closed :: "nat list"

definition new_contexts :: context_registry where
  "new_contexts = \<lparr>nc_entries = [], nc_inflight = [], nc_browsers = [], nc_next = 1, nc_closed = []\<rparr>"

definition browser_id_for :: "nat \<Rightarrow> context_registry \<Rightarrow> nat \<times> context_registry" where
  "browser_id_for b r =
     (case jget (nc_browsers r) b of
        Some i \<Rightarrow> (i, r)
      | None \<Rightarrow> (nc_next r, r\<lparr>nc_browsers := jset b (nc_next r) (nc_browsers r), nc_next := Suc (nc_next r)\<rparr>))"

definition context_key :: "nat \<Rightarrow> string \<Rightarrow> string" where
  "context_key i name = ''b'' @ dec i @ CHR 0x00 # name"

definition key_of :: "nat \<Rightarrow> string \<Rightarrow> context_registry \<Rightarrow> string \<times> context_registry" where
  "key_of b name r = (let (i, r') = browser_id_for b r in (context_key i name, r'))"

section \<open>Operations\<close>

datatype context_answer = Has_context nat | Awaits string | Bad_name

definition context_get_or_create :: "nat \<Rightarrow> string \<Rightarrow> nat list \<Rightarrow> context_registry \<Rightarrow> context_answer \<times> context_registry" where
  "context_get_or_create b name known r =
     (if \<not> valid_context_name name then (Bad_name, r)
      else
        (let (key, r1) = key_of b name r in
         case jget (nc_entries r1) key of
           Some e \<Rightarrow>
             if ce_context e \<in> set known then (Has_context (ce_context e), r1)
             else
               (let r2 = r1\<lparr>nc_entries := jdel key (nc_entries r1)\<rparr>
                in (Awaits key, if jhas (nc_inflight r2) key then r2 else r2\<lparr>nc_inflight := jset key (fst (browser_id_for b r2), name) (nc_inflight r2)\<rparr>))
         | None \<Rightarrow>
             (Awaits key, if jhas (nc_inflight r1) key then r1
                          else r1\<lparr>nc_inflight := jset key (fst (browser_id_for b r1), name) (nc_inflight r1)\<rparr>)))"

text \<open>The creation under way for a key ends, with a context or with an exception.\<close>

definition context_created :: "string \<Rightarrow> nat option \<Rightarrow> int \<Rightarrow> context_registry \<Rightarrow> context_registry" where
  "context_created key result now r =
     (case jget (nc_inflight r) key of
        None \<Rightarrow> r
      | Some (i, name) \<Rightarrow>
          (let r' = r\<lparr>nc_inflight := jdel key (nc_inflight r)\<rparr> in
           case result of
             None \<Rightarrow> r'
           | Some c \<Rightarrow> r'\<lparr>nc_entries := jset key \<lparr>ce_browser = i, ce_name = name, ce_context = c, ce_created = now, ce_tabs = 0, ce_refs = 0\<rparr>
                             (nc_entries r')\<rparr>))"

record context_info =
  ci_name :: string
  ci_created :: int
  ci_tabs :: nat

definition info_of :: "context_entry \<Rightarrow> context_info" where
  "info_of e = \<lparr>ci_name = ce_name e, ci_created = ce_created e, ci_tabs = ce_tabs e\<rparr>"

definition context_list :: "nat option \<Rightarrow> context_registry \<Rightarrow> context_info list \<times> context_registry" where
  "context_list browser r =
     (case browser of
        None \<Rightarrow> (map (\<lambda>(_, e). info_of e) (nc_entries r), r)
      | Some b \<Rightarrow>
          (let (i, r') = browser_id_for b r
           in (map (\<lambda>(_, e). info_of e) (filter (\<lambda>(_, e). ce_browser e = i) (nc_entries r')), r')))"

text \<open>\<open>Some n\<close> is the exception for a context with \<open>n\<close> tabs.\<close>

definition context_close :: "nat \<Rightarrow> string \<Rightarrow> bool \<Rightarrow> context_registry \<Rightarrow> nat option \<times> context_registry" where
  "context_close b name force r =
     (let (key, r1) = key_of b name r in
      case jget (nc_entries r1) key of
        None \<Rightarrow> (None, r1)
      | Some e \<Rightarrow>
          if 0 < ce_tabs e \<and> \<not> force then (Some (ce_tabs e), r1)
          else (None, r1\<lparr>nc_entries := jdel key (nc_entries r1), nc_closed := nc_closed r1 @ [ce_context e]\<rparr>))"

definition maybe_destroy :: "string \<Rightarrow> context_entry \<Rightarrow> context_registry \<Rightarrow> bool \<times> context_registry" where
  "maybe_destroy key e r =
     (if 0 < ce_tabs e \<or> 0 < ce_refs e then (False, r)
      else if \<not> jhas (nc_entries r) key then (False, r)
      else (True, r\<lparr>nc_entries := jdel key (nc_entries r), nc_closed := nc_closed r @ [ce_context e]\<rparr>))"

definition change_entry :: "(context_entry \<Rightarrow> context_entry) \<Rightarrow> nat \<Rightarrow> string \<Rightarrow> context_registry \<Rightarrow> (string \<times> context_entry) option \<times> context_registry" where
  "change_entry f b name r =
     (let (key, r1) = key_of b name r in
      case jget (nc_entries r1) key of
        None \<Rightarrow> (None, r1)
      | Some e \<Rightarrow> (Some (key, f e), r1\<lparr>nc_entries := jset key (f e) (nc_entries r1)\<rparr>))"

definition increment_tabs :: "nat \<Rightarrow> string \<Rightarrow> context_registry \<Rightarrow> context_registry" where
  "increment_tabs b name r = snd (change_entry (\<lambda>e. e\<lparr>ce_tabs := Suc (ce_tabs e)\<rparr>) b name r)"

definition destroy_if_unused :: "(string \<times> context_entry) option \<times> context_registry \<Rightarrow> bool \<times> context_registry" where
  "destroy_if_unused er = (case er of (None, r) \<Rightarrow> (False, r) | (Some (key, e), r) \<Rightarrow> maybe_destroy key e r)"

definition decrement_tabs :: "nat \<Rightarrow> string \<Rightarrow> context_registry \<Rightarrow> bool \<times> context_registry" where
  "decrement_tabs b name r = destroy_if_unused (change_entry (\<lambda>e. e\<lparr>ce_tabs := ce_tabs e - 1\<rparr>) b name r)"

definition add_resume_ref :: "nat \<Rightarrow> string \<Rightarrow> context_registry \<Rightarrow> context_registry" where
  "add_resume_ref b name r = snd (change_entry (\<lambda>e. e\<lparr>ce_refs := Suc (ce_refs e)\<rparr>) b name r)"

definition release_resume_ref :: "nat \<Rightarrow> string \<Rightarrow> context_registry \<Rightarrow> bool \<times> context_registry" where
  "release_resume_ref b name r = destroy_if_unused (change_entry (\<lambda>e. e\<lparr>ce_refs := ce_refs e - 1\<rparr>) b name r)"

definition context_info_of :: "nat \<Rightarrow> string \<Rightarrow> context_registry \<Rightarrow> context_info option \<times> context_registry" where
  "context_info_of b name r = (let (key, r1) = key_of b name r in (map_option info_of (jget (nc_entries r1) key), r1))"

datatype context_op =
    Get_or_create nat string "nat list"
  | Created string "nat option" int
  | Close_context nat string bool
  | Tab_opened nat string
  | Tab_closed nat string
  | Ref_added nat string
  | Ref_released nat string

fun context_step :: "context_registry \<Rightarrow> context_op \<Rightarrow> context_registry" where
  "context_step r (Get_or_create b name known) = snd (context_get_or_create b name known r)"
| "context_step r (Created key result now) = context_created key result now r"
| "context_step r (Close_context b name force) = snd (context_close b name force r)"
| "context_step r (Tab_opened b name) = increment_tabs b name r"
| "context_step r (Tab_closed b name) = snd (decrement_tabs b name r)"
| "context_step r (Ref_added b name) = add_resume_ref b name r"
| "context_step r (Ref_released b name) = snd (release_resume_ref b name r)"

end
