(* ===== verification/Session_State.thy ===== *)
theory Session_State
  imports Target_Lease Target_Creation Command_Queue Ref_Ids Named_Contexts
begin

text \<open>
  The state of \<open>SessionManager\<close>, \<open>src/src/session/manager.ts\<close>, and its operations without awaits. The manager holds the
  sessions, their workers and the targets of each worker, the owner of every target
  (\<open>session/target-registry.ts\<close>), and drives the lease registry, the popup ledger, the target queues, the element references
  and the named contexts, whose states are fields of this one. Sessions and workers are objects that
  pending calls refer to after they have left the maps, so they live on heaps. A worker's targets are a Set: the number with
  each is the time of its insertion, which orders the iterations that later insertions join. Storage snapshots, metrics and
  routing decisions are left out; the browser of a worker is its port, 0 for the primary one.
\<close>

section \<open>Data\<close>

record worker_obj =
  wo_id :: string
  wo_targets :: "(string, nat) jmap"
  wo_reserved :: nat
  wo_context :: "nat option"
  wo_activity :: int
  wo_port :: "nat option"

record session_obj =
  so_id :: string
  so_workers :: "(string, nat) jmap"
  so_default :: string
  so_created :: int
  so_activity :: int
  so_tenant :: string

record session_config =
  sc_max_sessions :: nat
  sc_max_workers :: nat
  sc_max_targets :: nat
  sc_lease_ttl :: int

datatype session_event =
    Session_created string
  | Session_deleted string
  | Worker_created string string
  | Worker_deleted string string
  | Target_added string string string
  | Target_removed string string string
  | Target_closed string string string

record worker_deletion =
  wd_session :: nat
  wd_worker :: string
  wd_ref :: nat
  wd_cursor :: nat
  wd_closing :: "string option"

text \<open>A call that is suspended at an await, with its local variables.\<close>

datatype task =
    Connecting string string bool
  | Making_room string string bool
  | Resolving string string bool
  | Worker_context nat string
  | Opening string nat "string option" bool
  | Fetching string string
  | Recovering string string "string option"
  | Popup string string string string
  | Closing string string string
  | Deleting_worker worker_deletion
  | Deleting_session nat "worker_deletion option"
  | Reclaiming "lease list"
  | Reconciling string "string \<times> string" "string list" "string list" "(string, string) jmap" "string list"
  | Indexing

record session_manager =
  sm_config :: session_config
  sm_workers :: "worker_obj list"
  sm_objects :: "session_obj list"
  sm_sessions :: "(string, nat) jmap"
  sm_owner :: "(string, string \<times> string) jmap"
  sm_leases :: lease_map
  sm_ledger :: ledger
  sm_queues :: queue_map
  sm_refs :: ref_state
  sm_contexts :: "(string, nat \<times> string) jmap"
  sm_registry :: context_registry
  sm_borrowed :: "string list"
  sm_held :: "string list"
  sm_stealth :: "string list"
  sm_pending :: "string list"
  sm_deleting_sessions :: "string list"
  sm_deleting_workers :: "string list"
  sm_stamp :: nat
  sm_created :: nat
  sm_events :: "session_event list"
  sm_tasks :: "task list"

definition default_session_id :: string where "default_session_id = ''default''"
definition default_worker_id :: string where "default_worker_id = ''default''"

definition new_session_manager :: "session_config \<Rightarrow> ledger \<Rightarrow> session_manager" where
  "new_session_manager c lg = \<lparr>sm_config = c, sm_workers = [], sm_objects = [], sm_sessions = [], sm_owner = [], sm_leases = [],
     sm_ledger = lg, sm_queues = [], sm_refs = no_refs, sm_contexts = [], sm_registry = new_contexts, sm_borrowed = [], sm_held = [],
     sm_stealth = [], sm_pending = [], sm_deleting_sessions = [], sm_deleting_workers = [], sm_stamp = 0, sm_created = 0,
     sm_events = [], sm_tasks = []\<rparr>"

section \<open>Objects and lookups\<close>

definition session_of :: "session_manager \<Rightarrow> string \<Rightarrow> session_obj option" where
  "session_of m s = map_option ((!) (sm_objects m)) (jget (sm_sessions m) s)"

definition worker_ref :: "session_manager \<Rightarrow> string \<Rightarrow> string \<Rightarrow> nat option" where
  "worker_ref m s w = (case session_of m s of None \<Rightarrow> None | Some so \<Rightarrow> jget (so_workers so) w)"

definition on_worker :: "nat \<Rightarrow> (worker_obj \<Rightarrow> worker_obj) \<Rightarrow> session_manager \<Rightarrow> session_manager" where
  "on_worker wr f m = m\<lparr>sm_workers := (sm_workers m)[wr := f (sm_workers m ! wr)]\<rparr>"

definition on_session :: "nat \<Rightarrow> (session_obj \<Rightarrow> session_obj) \<Rightarrow> session_manager \<Rightarrow> session_manager" where
  "on_session sr f m = m\<lparr>sm_objects := (sm_objects m)[sr := f (sm_objects m ! sr)]\<rparr>"

definition touch_session :: "string \<Rightarrow> int \<Rightarrow> session_manager \<Rightarrow> session_manager" where
  "touch_session s now m =
     (case jget (sm_sessions m) s of None \<Rightarrow> m | Some sr \<Rightarrow> on_session sr (\<lambda>so. so\<lparr>so_activity := now\<rparr>) m)"

definition emit :: "session_event \<Rightarrow> session_manager \<Rightarrow> session_manager" where
  "emit ev m = m\<lparr>sm_events := sm_events m @ [ev]\<rparr>"

definition validate_ownership :: "session_manager \<Rightarrow> string \<Rightarrow> string \<Rightarrow> bool" where
  "validate_ownership m s t = (case jget (sm_owner m) t of Some (s', _) \<Rightarrow> s' = s | None \<Rightarrow> False)"

definition session_targets :: "session_manager \<Rightarrow> string \<Rightarrow> string list" where
  "session_targets m s =
     (case session_of m s of
        None \<Rightarrow> []
      | Some so \<Rightarrow> concat (map (\<lambda>(_, wr). jkeys (wo_targets (sm_workers m ! wr))) (so_workers so)))"

text \<open>\<open>Set.add\<close> and \<open>Set.delete\<close> on the targets of a worker.\<close>

definition add_target :: "string \<Rightarrow> nat \<Rightarrow> session_manager \<Rightarrow> session_manager" where
  "add_target t wr m =
     (if jhas (wo_targets (sm_workers m ! wr)) t then m
      else (on_worker wr (\<lambda>wo. wo\<lparr>wo_targets := jset t (sm_stamp m) (wo_targets wo)\<rparr>) m)\<lparr>sm_stamp := Suc (sm_stamp m)\<rparr>)"

definition remove_target :: "string \<Rightarrow> nat \<Rightarrow> session_manager \<Rightarrow> session_manager" where
  "remove_target t wr = on_worker wr (\<lambda>wo. wo\<lparr>wo_targets := jdel t (wo_targets wo)\<rparr>)"

definition worker_active :: "nat \<Rightarrow> int \<Rightarrow> session_manager \<Rightarrow> session_manager" where
  "worker_active wr now = on_worker wr (\<lambda>wo. wo\<lparr>wo_activity := now\<rparr>)"

definition worker_browser :: "worker_obj \<Rightarrow> nat" where
  "worker_browser wo = default_to 0 (wo_port wo)"

text \<open>\<open>reserveTargetSlot\<close>; \<open>None\<close> is its exception.\<close>

definition reserve_slot :: "nat \<Rightarrow> session_manager \<Rightarrow> session_manager option" where
  "reserve_slot wr m =
     (let wo = sm_workers m ! wr in
      if sc_max_targets (sm_config m) \<le> length (wo_targets wo) + wo_reserved wo then None
      else Some (on_worker wr (\<lambda>wo. wo\<lparr>wo_reserved := Suc (wo_reserved wo)\<rparr>) m))"

definition release_slot :: "nat \<Rightarrow> session_manager \<Rightarrow> session_manager" where
  "release_slot wr = on_worker wr (\<lambda>wo. wo\<lparr>wo_reserved := wo_reserved wo - 1\<rparr>)"

section \<open>Leases\<close>

definition lease_ttl_of :: "session_manager \<Rightarrow> string \<Rightarrow> int option" where
  "lease_ttl_of m s = (if s = default_session_id \<or> sc_lease_ttl (sm_config m) = 0 then None else Some (sc_lease_ttl (sm_config m)))"

definition lease_input :: "string \<Rightarrow> string \<Rightarrow> string \<Rightarrow> string option \<Rightarrow> int option \<Rightarrow> acquire_input" where
  "lease_input t s w ctx ttl = \<lparr>ai_target = t, ai_session = s, ai_client = None, ai_worker = Some w, ai_lane = None, ai_context = ctx,
     ai_now = None, ai_ttl = ttl, ai_cleanup = None\<rparr>"

definition inherit_overrides :: "string \<Rightarrow> string \<Rightarrow> string option \<Rightarrow> int option \<Rightarrow> lease_overrides" where
  "inherit_overrides s w ctx ttl = \<lparr>ov_session = Some s, ov_client = None, ov_worker = Some w, ov_lane = None, ov_context = ctx,
     ov_now = None, ov_ttl = ttl, ov_cleanup = None\<rparr>"

text \<open>A lease of another session is transferred; the result is false when \<open>inherit\<close> throws the conflict out of the call.\<close>

definition take_lease :: "string \<Rightarrow> string \<Rightarrow> string \<Rightarrow> string option \<Rightarrow> int \<Rightarrow> session_manager \<Rightarrow> session_manager" where
  "take_lease t s w ctx now m =
     (let inp = lease_input t s w ctx (lease_ttl_of m s) in
      case acquire now inp (sm_leases m) of
        Inr (_, ls) \<Rightarrow> m\<lparr>sm_leases := ls\<rparr>
      | Inl _ \<Rightarrow>
          (case acquire now inp (snd (release t None (sm_leases m))) of
             Inr (_, ls) \<Rightarrow> m\<lparr>sm_leases := ls\<rparr>
           | Inl _ \<Rightarrow> m\<lparr>sm_leases := snd (release t None (sm_leases m))\<rparr>))"

definition acquire_target_lease ::
  "string \<Rightarrow> string \<Rightarrow> string \<Rightarrow> string option \<Rightarrow> string option \<Rightarrow> int \<Rightarrow> session_manager \<Rightarrow> bool \<times> session_manager" where
  "acquire_target_lease t s w ctx parent now m =
     (case truthy_str parent of
        None \<Rightarrow> (True, take_lease t s w ctx now m)
      | Some p \<Rightarrow>
          (case inherit now t p (inherit_overrides s w ctx (lease_ttl_of m s)) (sm_leases m) of
             Inl _ \<Rightarrow> (False, m)
           | Inr (Some _, ls) \<Rightarrow> (True, m\<lparr>sm_leases := ls\<rparr>)
           | Inr (None, ls) \<Rightarrow> (True, take_lease t s w ctx now (m\<lparr>sm_leases := ls\<rparr>))))"

section \<open>Targets that are gone\<close>

definition forget_context :: "string \<Rightarrow> session_manager \<Rightarrow> session_manager" where
  "forget_context t m =
     (case jget (sm_contexts m) t of
        None \<Rightarrow> m
      | Some (b, name) \<Rightarrow> m\<lparr>sm_contexts := jdel t (sm_contexts m), sm_registry := snd (decrement_tabs b name (sm_registry m))\<rparr>)"

text \<open>What \<open>onTargetClosed\<close> does with the session of the owner, if it still exists.\<close>

definition leave_worker :: "string \<Rightarrow> string \<Rightarrow> string \<Rightarrow> session_manager \<Rightarrow> session_manager" where
  "leave_worker s w t m =
     (case session_of m s of
        None \<Rightarrow> m
      | Some so \<Rightarrow>
          (let m' = (case jget (so_workers so) w of None \<Rightarrow> m | Some wr \<Rightarrow> remove_target t wr m)
           in emit (Target_removed s w t) (m'\<lparr>sm_refs := clear_target_refs s t (sm_refs m')\<rparr>)))"

definition on_target_closed :: "string \<Rightarrow> int \<Rightarrow> session_manager \<Rightarrow> session_manager" where
  "on_target_closed t now m =
     (let owner = jget (sm_owner m) t;
          m1 = m\<lparr>sm_borrowed := removeAll t (sm_borrowed m), sm_held := removeAll t (sm_held m),
                 sm_ledger := snd (mark_closed t now (sm_ledger m))\<rparr>;
          m2 = (case owner of None \<Rightarrow> m1 | Some (s, w) \<Rightarrow> leave_worker s w t m1)
      in forget_context t (m2\<lparr>sm_owner := jdel t (sm_owner m2),
           sm_leases := snd (release t (map_option fst owner) (sm_leases m2)),
           sm_queues := cancel_target t (sm_queues m2), sm_stealth := removeAll t (sm_stealth m2)\<rparr>))"

definition release_borrowed :: "string \<Rightarrow> string \<Rightarrow> int \<Rightarrow> session_manager \<Rightarrow> bool \<times> session_manager" where
  "release_borrowed s t now m =
     (if t \<notin> set (sm_borrowed m) \<or> \<not> validate_ownership m s t then (False, m) else (True, on_target_closed t now m))"

definition evict_target :: "string \<Rightarrow> int \<Rightarrow> session_manager \<Rightarrow> bool \<times> session_manager" where
  "evict_target t now m = (jhas (sm_owner m) t, on_target_closed t now m)"

section \<open>Registering targets\<close>

text \<open>The tail that the registrations share.\<close>

definition note_added :: "string \<Rightarrow> string \<Rightarrow> string \<Rightarrow> int \<Rightarrow> session_manager \<Rightarrow> session_manager" where
  "note_added s w t now m = touch_session s now (emit (Target_added s w t) m)"

definition set_owner :: "string \<Rightarrow> string \<Rightarrow> string \<Rightarrow> session_manager \<Rightarrow> session_manager" where
  "set_owner t s w m = m\<lparr>sm_owner := jset t (s, w) (sm_owner m)\<rparr>"

text \<open>\<open>false\<close> is the exception for a session or worker that does not exist.\<close>

definition register_existing :: "string \<Rightarrow> string \<Rightarrow> string \<Rightarrow> int \<Rightarrow> session_manager \<Rightarrow> bool \<times> session_manager" where
  "register_existing s w t now m =
     (case worker_ref m s w of
        None \<Rightarrow> (False, m)
      | Some wr \<Rightarrow> (True, note_added s w t now (snd (acquire_target_lease t s w None None now
                      (set_owner t s w (worker_active wr now (add_target t wr m)))))))"

definition deletion_key :: "string \<Rightarrow> string \<Rightarrow> string" where
  "deletion_key s w = s @ '':'' @ w"

record external_options =
  eo_borrow :: "bool option"
  eo_inherit :: "string option"
  eo_opener :: "string option"

datatype external_answer = Registered bool | Lease_conflict

text \<open>\<open>registerExternalTargetLocked\<close>, which has no await. \<open>eo_borrow\<close> is set when a user tab is borrowed, to the outcome of the
  checks on the page and on the mode of operation.\<close>

definition register_external :: "string \<Rightarrow> string \<Rightarrow> string \<Rightarrow> external_options \<Rightarrow> int \<Rightarrow> session_manager \<Rightarrow> external_answer \<times> session_manager" where
  "register_external t s w opts now m =
     (if s \<in> set (sm_deleting_sessions m) \<or> deletion_key s w \<in> set (sm_deleting_workers m) then (Registered False, m)
      else if truthy_str (eo_opener opts) \<noteq> None \<and> \<not> can_commit_ownership t (sm_ledger m) then (Registered False, m)
      else
        (case jget (sm_owner m) t of
           Some (s', w') \<Rightarrow> (Registered (s' = s \<and> w' = w \<and> (eo_borrow opts = None \<or> t \<in> set (sm_borrowed m))), m)
         | None \<Rightarrow>
             (case worker_ref m s w of
                None \<Rightarrow> (Registered False, m)
              | Some wr \<Rightarrow>
                  if eo_borrow opts = Some False then (Registered False, m)
                  else if (case truthy_str (eo_opener opts) of None \<Rightarrow> False | Some p \<Rightarrow> jget (sm_owner m) p \<noteq> Some (s, w)) then (Registered False, m)
                  else if sc_max_targets (sm_config m) \<le> length (wo_targets (sm_workers m ! wr)) + wo_reserved (sm_workers m ! wr)
                  then (Registered False, m)
                  else
                    (let inherited = Option.bind (truthy_str (eo_inherit opts)) (jget (sm_contexts m));
                         m1 = set_owner t s w (worker_active wr now (add_target t wr m));
                         m2 = (if eo_borrow opts = None then m1 else m1\<lparr>sm_borrowed := List.insert t (sm_borrowed m1)\<rparr>);
                         (ok, m3) = acquire_target_lease t s w None (eo_inherit opts) now m2
                     in if \<not> ok then (Lease_conflict, m3)
                        else
                          (let m4 = (case inherited of None \<Rightarrow> m3
                                     | Some (b, name) \<Rightarrow> m3\<lparr>sm_contexts := jset t (b, name) (sm_contexts m3),
                                                              sm_registry := increment_tabs b name (sm_registry m3)\<rparr>)
                           in (Registered True, note_added s w t now m4))))))"

definition set_human_control :: "string \<Rightarrow> string \<Rightarrow> bool \<Rightarrow> int \<Rightarrow> session_manager \<Rightarrow> bool \<times> session_manager" where
  "set_human_control s t held now m =
     (if \<not> validate_ownership m s t then (False, m)
      else if held then (True, m\<lparr>sm_held := List.insert t (sm_held m)\<rparr>)
      else (True, m\<lparr>sm_held := removeAll t (sm_held m), sm_leases := touch t now (sm_leases m)\<rparr>))"

end
