(* ===== verification/Session_Manager.thy ===== *)
theory Session_Manager
  imports Session_State
begin

text \<open>
  The calls of \<open>SessionManager\<close> (\<open>src/src/session/manager.ts\<close>) that await, split at their awaits. A suspended call is a task;
  its next step is an operation with the number of the task and the answer that it waited for (a connection, a
  context, a page, the end of a close). Every interleaving of the calls is a sequence of operations.
  Two loops are left to the run: the sweep visits the sessions in any order, and a reclaimed lease is closed by a
  task of its own. The microtask between the end of an awaited function and its caller is no point of interleaving,
  except after the deletion of a worker within the deletion of its session.
\<close>

definition drop_task :: "nat \<Rightarrow> session_manager \<Rightarrow> session_manager" where
  "drop_task k m = m\<lparr>sm_tasks := take k (sm_tasks m) @ drop (Suc k) (sm_tasks m)\<rparr>"

definition add_task :: "task \<Rightarrow> session_manager \<Rightarrow> session_manager" where
  "add_task tk m = m\<lparr>sm_tasks := sm_tasks m @ [tk]\<rparr>"

section \<open>Creating sessions\<close>

definition creation_over :: "string \<Rightarrow> bool \<Rightarrow> session_manager \<Rightarrow> session_manager" where
  "creation_over s dedup m = (if dedup then m\<lparr>sm_pending := removeAll s (sm_pending m)\<rparr> else m)"

definition create_session :: "string \<Rightarrow> string \<Rightarrow> session_manager \<Rightarrow> session_manager" where
  "create_session s tenant m = add_task (Connecting s tenant False) m"

definition get_or_create_session :: "string \<Rightarrow> string \<Rightarrow> int \<Rightarrow> session_manager \<Rightarrow> session_manager" where
  "get_or_create_session s tenant now m =
     (if jhas (sm_sessions m) s then touch_session s now m
      else if s \<in> set (sm_pending m) then m
      else add_task (Connecting s tenant True) (m\<lparr>sm_pending := s # sm_pending m\<rparr>))"

definition connected :: "nat \<Rightarrow> bool \<Rightarrow> session_manager \<Rightarrow> session_manager" where
  "connected k ok m =
     (case sm_tasks m ! k of
        Connecting s tenant dedup \<Rightarrow>
          (let m' = drop_task k m in
           if \<not> ok \<or> jhas (sm_sessions m') s then creation_over s dedup m'
           else if sc_max_sessions (sm_config m') \<le> length (sm_sessions m') then add_task (Making_room s tenant dedup) m'
           else add_task (Resolving s tenant dedup) m')
      | _ \<Rightarrow> m)"

text \<open>The cleanup that a creation at the limit awaits has deleted \<open>deleted\<close> sessions.\<close>

definition room_made :: "nat \<Rightarrow> nat \<Rightarrow> session_manager \<Rightarrow> session_manager" where
  "room_made k deleted m =
     (case sm_tasks m ! k of
        Making_room s tenant dedup \<Rightarrow>
          (let m' = drop_task k m in
           if deleted = 0 \<and> sc_max_sessions (sm_config m') \<le> length (sm_sessions m') then creation_over s dedup m'
           else add_task (Resolving s tenant dedup) m')
      | _ \<Rightarrow> m)"

definition new_worker :: "string \<Rightarrow> nat option \<Rightarrow> nat option \<Rightarrow> int \<Rightarrow> worker_obj" where
  "new_worker w ctx port now = \<lparr>wo_id = w, wo_targets = [], wo_reserved = 0, wo_context = ctx, wo_activity = now, wo_port = port\<rparr>"

definition install_session :: "string \<Rightarrow> string \<Rightarrow> nat option \<Rightarrow> int \<Rightarrow> session_manager \<Rightarrow> session_manager" where
  "install_session s tenant ctx now m =
     (let so = \<lparr>so_id = s, so_workers = [(default_worker_id, length (sm_workers m))], so_default = default_worker_id,
                so_created = now, so_activity = now, so_tenant = tenant\<rparr>
      in emit (Session_created s)
           (m\<lparr>sm_workers := sm_workers m @ [new_worker default_worker_id ctx None now], sm_objects := sm_objects m @ [so],
              sm_sessions := jset s (length (sm_objects m)) (sm_sessions m), sm_created := Suc (sm_created m)\<rparr>))"

text \<open>The browser context of the session is resolved: \<open>None\<close> for the exception, \<open>Some None\<close> for the default one.\<close>

definition context_resolved :: "nat \<Rightarrow> nat option option \<Rightarrow> int \<Rightarrow> session_manager \<Rightarrow> session_manager" where
  "context_resolved k result now m =
     (case sm_tasks m ! k of
        Resolving s tenant dedup \<Rightarrow>
          (let m' = creation_over s dedup (drop_task k m) in
           case result of None \<Rightarrow> m' | Some ctx \<Rightarrow> install_session s tenant ctx now m')
      | _ \<Rightarrow> m)"

section \<open>Creating workers\<close>

text \<open>\<open>createWorker\<close> once its session is there: nothing when the limit is reached or the worker exists.\<close>

definition create_worker :: "string \<Rightarrow> string \<Rightarrow> session_manager \<Rightarrow> session_manager" where
  "create_worker s w m =
     (case jget (sm_sessions m) s of
        None \<Rightarrow> m
      | Some sr \<Rightarrow>
          if sc_max_workers (sm_config m) \<le> length (so_workers (sm_objects m ! sr)) \<or> jhas (so_workers (sm_objects m ! sr)) w then m
          else add_task (Worker_context sr w) m)"

definition worker_made :: "nat \<Rightarrow> (nat option \<times> nat option) option \<Rightarrow> int \<Rightarrow> session_manager \<Rightarrow> session_manager" where
  "worker_made k result now m =
     (case sm_tasks m ! k of
        Worker_context sr w \<Rightarrow>
          (let m' = drop_task k m in
           case result of
             None \<Rightarrow> m'
           | Some (ctx, port) \<Rightarrow>
               (let s = so_id (sm_objects m' ! sr);
                    m1 = on_session sr (\<lambda>so. so\<lparr>so_workers := jset w (length (sm_workers m')) (so_workers so)\<rparr>)
                           (m'\<lparr>sm_workers := sm_workers m' @ [new_worker w ctx port now]\<rparr>)
                in emit (Worker_created s w) (touch_session s now m1)))
      | _ \<Rightarrow> m)"

section \<open>Deleting workers and sessions\<close>

text \<open>The loop over the targets of the worker, up to the next close that is awaited: borrowed tabs are let go of.\<close>

fun next_close :: "(string \<times> nat) list \<Rightarrow> int \<Rightarrow> worker_deletion \<Rightarrow> session_manager \<Rightarrow> worker_deletion \<times> session_manager" where
  "next_close [] now wd m = (wd\<lparr>wd_closing := None\<rparr>, m)"
| "next_close ((t, stamp) # ts) now wd m =
     (let wd' = wd\<lparr>wd_cursor := Suc stamp\<rparr> in
      if t \<in> set (sm_borrowed m) then next_close ts now wd' (snd (release_borrowed (so_id (sm_objects m ! wd_session wd)) t now m))
      else (wd'\<lparr>wd_closing := Some t\<rparr>, m))"

definition go_on_closing :: "int \<Rightarrow> worker_deletion \<Rightarrow> session_manager \<Rightarrow> worker_deletion \<times> session_manager" where
  "go_on_closing now wd m =
     next_close (filter (\<lambda>(_, stamp). wd_cursor wd \<le> stamp) (wo_targets (sm_workers m ! wd_ref wd))) now wd m"

definition begin_worker_deletion :: "nat \<Rightarrow> string \<Rightarrow> int \<Rightarrow> session_manager \<Rightarrow> worker_deletion option \<times> session_manager" where
  "begin_worker_deletion sr w now m =
     (let so = sm_objects m ! sr in
      case jget (so_workers so) w of
        None \<Rightarrow> (None, m)
      | Some wr \<Rightarrow>
          (let (wd, m') = go_on_closing now \<lparr>wd_session = sr, wd_worker = w, wd_ref = wr, wd_cursor = 0, wd_closing = None\<rparr>
                            (m\<lparr>sm_deleting_workers := List.insert (deletion_key (so_id so) w) (sm_deleting_workers m)\<rparr>)
           in (Some wd, m')))"

text \<open>The page of the target has been closed, or its close has failed.\<close>

definition page_closed :: "int \<Rightarrow> worker_deletion \<Rightarrow> session_manager \<Rightarrow> worker_deletion \<times> session_manager" where
  "page_closed now wd m =
     (case wd_closing wd of
        None \<Rightarrow> (wd, m)
      | Some t \<Rightarrow> go_on_closing now wd (m\<lparr>sm_owner := jdel t (sm_owner m),
                    sm_leases := snd (release t (Some (so_id (sm_objects m ! wd_session wd))) (sm_leases m))\<rparr>))"

definition finish_worker :: "worker_deletion \<Rightarrow> session_manager \<Rightarrow> session_manager" where
  "finish_worker wd m =
     (let s = so_id (sm_objects m ! wd_session wd) in
      on_session (wd_session wd) (\<lambda>so. so\<lparr>so_workers := jdel (wd_worker wd) (so_workers so)\<rparr>)
        (m\<lparr>sm_refs := foldl (\<lambda>r t. clear_target_refs s t r) (sm_refs m) (jkeys (wo_targets (sm_workers m ! wd_ref wd))),
           sm_ledger := clear_worker s (wd_worker wd) (sm_ledger m),
           sm_deleting_workers := removeAll (deletion_key s (wd_worker wd)) (sm_deleting_workers m)\<rparr>))"

text \<open>After the loop a worker with a context of its own awaits its close; another one is done at once.\<close>

definition at_end :: "worker_deletion \<Rightarrow> session_manager \<Rightarrow> bool" where
  "at_end wd m \<longleftrightarrow> wd_closing wd = None \<and> wo_context (sm_workers m ! wd_ref wd) = None"

definition settle_worker :: "worker_deletion \<times> session_manager \<Rightarrow> worker_deletion option \<times> session_manager" where
  "settle_worker wm = (case wm of (wd, m) \<Rightarrow> if at_end wd m then (None, finish_worker wd m) else (Some wd, m))"

definition worker_deletion_step :: "int \<Rightarrow> worker_deletion \<Rightarrow> session_manager \<Rightarrow> worker_deletion option \<times> session_manager" where
  "worker_deletion_step now wd m =
     (if wd_closing wd = None then (None, finish_worker wd m) else settle_worker (page_closed now wd m))"

definition start_worker_deletion :: "nat \<Rightarrow> string \<Rightarrow> int \<Rightarrow> session_manager \<Rightarrow> worker_deletion option \<times> session_manager" where
  "start_worker_deletion sr w now m =
     (case begin_worker_deletion sr w now m of (None, m') \<Rightarrow> (None, m') | (Some wd, m') \<Rightarrow> settle_worker (wd, m'))"

definition note_worker_deleted :: "string \<Rightarrow> string \<Rightarrow> worker_deletion option \<times> session_manager \<Rightarrow> session_manager" where
  "note_worker_deleted s w wm =
     (case wm of (None, m) \<Rightarrow> emit (Worker_deleted s w) m | (Some wd, m) \<Rightarrow> add_task (Deleting_worker wd) m)"

text \<open>\<open>false\<close> is the exception for the default worker.\<close>

definition delete_worker :: "string \<Rightarrow> string \<Rightarrow> int \<Rightarrow> session_manager \<Rightarrow> bool \<times> session_manager" where
  "delete_worker s w now m =
     (case jget (sm_sessions m) s of
        None \<Rightarrow> (True, m)
      | Some sr \<Rightarrow>
          if w = so_default (sm_objects m ! sr) then (False, m)
          else (True, note_worker_deleted s w (start_worker_deletion sr w now m)))"

definition worker_deletion_goes_on :: "nat \<Rightarrow> int \<Rightarrow> session_manager \<Rightarrow> session_manager" where
  "worker_deletion_goes_on k now m =
     (case sm_tasks m ! k of
        Deleting_worker wd \<Rightarrow>
          note_worker_deleted (so_id (sm_objects m ! wd_session wd)) (wd_worker wd) (worker_deletion_step now wd (drop_task k m))
      | _ \<Rightarrow> m)"

definition finish_session :: "nat \<Rightarrow> session_manager \<Rightarrow> session_manager" where
  "finish_session sr m =
     (let s = so_id (sm_objects m ! sr) in
      emit (Session_deleted s)
        (m\<lparr>sm_refs := clear_session_refs s (sm_refs m), sm_ledger := clear_session s (sm_ledger m),
           sm_sessions := jdel s (sm_sessions m), sm_leases := snd (release_session s (sm_leases m)),
           sm_deleting_sessions := removeAll s (sm_deleting_sessions m)\<rparr>))"

text \<open>The loop over the workers: a worker leaves the map when it is deleted, so the next one is the first.\<close>

definition next_worker :: "nat \<Rightarrow> int \<Rightarrow> session_manager \<Rightarrow> session_manager" where
  "next_worker sr now m =
     (case so_workers (sm_objects m ! sr) of
        [] \<Rightarrow> finish_session sr m
      | (w, _) # _ \<Rightarrow> (case start_worker_deletion sr w now m of (wd, m') \<Rightarrow> add_task (Deleting_session sr wd) m'))"

definition delete_session :: "string \<Rightarrow> int \<Rightarrow> session_manager \<Rightarrow> session_manager" where
  "delete_session s now m =
     (case jget (sm_sessions m) s of
        None \<Rightarrow> m
      | Some sr \<Rightarrow>
          (let m1 = m\<lparr>sm_deleting_sessions := List.insert s (sm_deleting_sessions m)\<rparr>;
               m2 = foldl (\<lambda>m t. if t \<in> set (sm_borrowed m) then snd (release_borrowed s t now m) else m) m1 (session_targets m1 s)
           in next_worker sr now m2))"

definition session_deletion_goes_on :: "nat \<Rightarrow> int \<Rightarrow> session_manager \<Rightarrow> session_manager" where
  "session_deletion_goes_on k now m =
     (case sm_tasks m ! k of
        Deleting_session sr None \<Rightarrow> next_worker sr now (drop_task k m)
      | Deleting_session sr (Some wd) \<Rightarrow>
          (case worker_deletion_step now wd (drop_task k m) of
             (Some wd', m') \<Rightarrow> add_task (Deleting_session sr (Some wd')) m'
           | (None, m') \<Rightarrow> next_worker sr now m')
      | _ \<Rightarrow> m)"

section \<open>Creating targets\<close>

text \<open>\<open>createTarget\<close> and \<open>createTargetStealth\<close> once their worker is there. The result is false for the exceptions: a bad context name,
  no room.\<close>

definition create_target :: "string \<Rightarrow> string \<Rightarrow> string option \<Rightarrow> bool \<Rightarrow> nat list \<Rightarrow> session_manager \<Rightarrow> bool \<times> session_manager" where
  "create_target s w ctx stealth known m =
     (let named = (case truthy_str ctx of Some name \<Rightarrow> if name = default_context_name then None else Some name | None \<Rightarrow> None) in
      if (ctx \<noteq> None \<and> ctx \<noteq> Some default_context_name \<and> \<not> valid_context_name (the ctx)) then (False, m)
      else
        (case worker_ref m s w of
           None \<Rightarrow> (False, m)
         | Some wr \<Rightarrow>
             (case reserve_slot wr m of
                None \<Rightarrow> (False, m)
              | Some m' \<Rightarrow>
                  (True, add_task (Opening s wr named stealth)
                     (case named of
                        None \<Rightarrow> m'
                      | Some name \<Rightarrow> m'\<lparr>sm_registry := snd (context_get_or_create (worker_browser (sm_workers m' ! wr)) name known (sm_registry m'))\<rparr>)))))"

definition join_context :: "string \<Rightarrow> nat \<Rightarrow> string option \<Rightarrow> session_manager \<Rightarrow> session_manager" where
  "join_context t b named m =
     (case named of
        None \<Rightarrow> m
      | Some name \<Rightarrow> m\<lparr>sm_contexts := jset t (b, name) (sm_contexts m), sm_registry := increment_tabs b name (sm_registry m)\<rparr>)"

definition mark_stealth :: "bool \<Rightarrow> string \<Rightarrow> session_manager \<Rightarrow> session_manager" where
  "mark_stealth stealth t m = (if stealth then m\<lparr>sm_stealth := List.insert t (sm_stealth m)\<rparr> else m)"

text \<open>What a creation does with the new target \<open>t\<close> of the worker \<open>w\<close> on \<open>wr\<close>.\<close>

definition settle_target ::
  "string \<Rightarrow> string \<Rightarrow> nat \<Rightarrow> string option \<Rightarrow> bool \<Rightarrow> string \<Rightarrow> int \<Rightarrow> session_manager \<Rightarrow> session_manager" where
  "settle_target s w wr named stealth t now m =
     note_added s w t now
       (mark_stealth stealth t
         (snd (acquire_target_lease t s w (if stealth then None else Some (default_to default_context_name named)) None now
           (join_context t (worker_browser (sm_workers m ! wr)) named
             (set_owner t s w (worker_active wr now (release_slot wr (add_target t wr m))))))))"

text \<open>The page is open, as target \<open>t\<close>, or its creation has failed.\<close>

definition target_opened :: "nat \<Rightarrow> string option \<Rightarrow> int \<Rightarrow> session_manager \<Rightarrow> session_manager" where
  "target_opened k result now m =
     (case sm_tasks m ! k of
        Opening s wr named stealth \<Rightarrow>
          (case result of
             None \<Rightarrow> release_slot wr (drop_task k m)
           | Some t \<Rightarrow> settle_target s (wo_id (sm_workers m ! wr)) wr named stealth t now (drop_task k m))
      | _ \<Rightarrow> m)"

section \<open>Fetching and recovering pages\<close>

datatype access = Human_control | Untracked | Stale_target | Wrong_worker | Access_granted

definition page_access :: "session_manager \<Rightarrow> string \<Rightarrow> string \<Rightarrow> string option \<Rightarrow> bool \<Rightarrow> access" where
  "page_access m s t w navigate =
     (if navigate \<and> t \<in> set (sm_held m) then Human_control
      else
        (case jget (sm_owner m) t of
           None \<Rightarrow> Untracked
         | Some (s', w') \<Rightarrow>
             if s' \<noteq> s then Stale_target
             else if (case truthy_str w of None \<Rightarrow> False | Some x \<Rightarrow> w' \<noteq> x) then Wrong_worker else Access_granted))"

text \<open>\<open>user_tabs\<close> is the environment variable that forbids the recovery.\<close>

definition get_page :: "string \<Rightarrow> string \<Rightarrow> string option \<Rightarrow> bool \<Rightarrow> bool \<Rightarrow> int \<Rightarrow> session_manager \<Rightarrow> access \<times> session_manager" where
  "get_page s t w navigate user_tabs now m =
     (let a = page_access m s t w navigate in
      (a, case a of
            Untracked \<Rightarrow> if user_tabs then m else add_task (Recovering s t w) m
          | Access_granted \<Rightarrow> add_task (Fetching s t) ((touch_session s now m)\<lparr>sm_leases := touch t now (sm_leases (touch_session s now m))\<rparr>)
          | _ \<Rightarrow> m))"

text \<open>A page that cannot be had is given up.\<close>

definition page_fetched :: "nat \<Rightarrow> bool \<Rightarrow> int \<Rightarrow> session_manager \<Rightarrow> session_manager" where
  "page_fetched k alive now m =
     (case sm_tasks m ! k of
        Fetching s t \<Rightarrow> (let m' = drop_task k m in if alive then m' else on_target_closed t now m')
      | _ \<Rightarrow> m)"

text \<open>\<open>tryRecoverTarget\<close> after its page has been looked up: it is there and no internal page of Chrome, or not.\<close>

definition target_recovered :: "nat \<Rightarrow> bool \<Rightarrow> int \<Rightarrow> session_manager \<Rightarrow> session_manager" where
  "target_recovered k usable now m =
     (case sm_tasks m ! k of
        Recovering s t w \<Rightarrow>
          (let m' = drop_task k m in
           if \<not> usable then m'
           else
             (case session_of m' s of
                None \<Rightarrow> m'
              | Some so \<Rightarrow>
                  (let w' = default_to (so_default so) (truthy_str w) in
                   case jget (so_workers so) w' of
                     None \<Rightarrow> m'
                   | Some wr \<Rightarrow>
                       if wo_targets (sm_workers m' ! wr) = [] \<and> length (so_workers so) \<le> 1 then m'
                       else
                         (let m1 = set_owner t s w' (add_target t wr m');
                              m2 = m1\<lparr>sm_leases := snd (release t None (sm_leases m1))\<rparr>
                          in snd (acquire_target_lease t s w' None None now m2)))))
      | _ \<Rightarrow> m)"

section \<open>Popups\<close>

definition popup_registration :: "string \<Rightarrow> string \<Rightarrow> string \<Rightarrow> string \<Rightarrow> registration_state \<Rightarrow> string option \<Rightarrow> string option \<Rightarrow> registration" where
  "popup_registration t s w opener st url title = \<lparr>rg_target = t, rg_session = s, rg_worker = w, rg_opener = opener, rg_state = st,
     rg_url = url, rg_title = title, rg_created = None, rg_committed = Some False\<rparr>"

definition popup_begins ::
  "(string \<Rightarrow> string option) \<Rightarrow> string \<Rightarrow> string \<Rightarrow> registration_state \<Rightarrow> string option \<Rightarrow> string option \<Rightarrow> int \<Rightarrow> session_manager \<Rightarrow> session_manager" where
  "popup_begins canon t opener st url title now m =
     (case jget (sm_owner m) opener of
        None \<Rightarrow> m
      | Some (s, w) \<Rightarrow>
          if s \<in> set (sm_deleting_sessions m) \<or> deletion_key s w \<in> set (sm_deleting_workers m) then m
          else
            (let m' = m\<lparr>sm_ledger := snd (register canon now (popup_registration t s w opener st url title) (sm_ledger m))\<rparr>
             in if st = RegBlocked then m' else add_task (Popup t s w opener) m'))"

definition popup_ends :: "nat \<Rightarrow> int \<Rightarrow> session_manager \<Rightarrow> session_manager" where
  "popup_ends k now m =
     (case sm_tasks m ! k of
        Popup t s w opener \<Rightarrow>
          (case register_external t s w \<lparr>eo_borrow = None, eo_inherit = Some opener, eo_opener = Some opener\<rparr> now (drop_task k m) of
             (Lease_conflict, m') \<Rightarrow> m'
           | (Registered False, m') \<Rightarrow> m'\<lparr>sm_ledger := snd (mark_blocked t now (sm_ledger m'))\<rparr>
           | (Registered True, m') \<Rightarrow>
               (case mark_ownership_committed t now (sm_ledger m') of
                  (True, lg) \<Rightarrow> m'\<lparr>sm_ledger := lg\<rparr>
                | (False, _) \<Rightarrow> on_target_closed t now m'))
      | _ \<Rightarrow> m)"

section \<open>Closing\<close>

definition close_target :: "string \<Rightarrow> string \<Rightarrow> int \<Rightarrow> session_manager \<Rightarrow> bool \<times> session_manager" where
  "close_target s t now m =
     (if t \<in> set (sm_borrowed m) then (False, m)
      else
        (case jget (sm_owner m) t of
           None \<Rightarrow> (False, m)
         | Some (s', w) \<Rightarrow>
             if s' \<noteq> s then (False, m)
             else (True, add_task (Closing s t w) (m\<lparr>sm_ledger := snd (mark_closed t now (sm_ledger m))\<rparr>))))"

definition target_closed :: "nat \<Rightarrow> bool \<Rightarrow> int \<Rightarrow> session_manager \<Rightarrow> session_manager" where
  "target_closed k ok now m =
     (case sm_tasks m ! k of
        Closing s t w \<Rightarrow>
          (let m0 = drop_task k m in
           if \<not> ok then on_target_closed t now m0
           else
             (let m1 = (case worker_ref m0 s w of None \<Rightarrow> m0 | Some wr \<Rightarrow> remove_target t wr m0);
                  m2 = m1\<lparr>sm_refs := clear_target_refs s t (sm_refs m1), sm_owner := jdel t (sm_owner m1),
                          sm_leases := snd (release t (Some s) (sm_leases m1)), sm_queues := cancel_target t (sm_queues m1)\<rparr>
              in emit (Target_closed s w t) (forget_context t m2)))
      | _ \<Rightarrow> m)"

section \<open>Cleaning up\<close>

text \<open>The visit of one session by \<open>cleanupInactiveSessions\<close>.\<close>

definition sweep_session :: "string \<Rightarrow> int \<Rightarrow> int \<Rightarrow> bool \<Rightarrow> session_manager \<Rightarrow> session_manager" where
  "sweep_session s now max_age force m =
     (case session_of m s of
        None \<Rightarrow> m
      | Some so \<Rightarrow>
          if list_ex (validate_ownership m s) (sm_held m) then m
          else if s = default_session_id \<and> \<not> force then m
          else if max_age < now - so_activity so then delete_session s now m
          else m)"

definition sweep_leases :: "int \<Rightarrow> session_manager \<Rightarrow> session_manager" where
  "sweep_leases now m =
     (let (expired, ls) = expire now (set (sm_held m)) (sm_leases m) in add_task (Reclaiming expired) (m\<lparr>sm_leases := ls\<rparr>))"

definition reclaim_next :: "nat \<Rightarrow> int \<Rightarrow> session_manager \<Rightarrow> session_manager" where
  "reclaim_next k now m =
     (case sm_tasks m ! k of
        Reclaiming (l # rest) \<Rightarrow>
          (let m1 = add_task (Reclaiming rest) (drop_task k m); t = ls_target l;
               m2 = m1\<lparr>sm_queues := cancel_target t (sm_queues m1)\<rparr>
           in if ls_cleanup l = Preserve then m2
              else if t \<in> set (sm_borrowed m2) then snd (release_borrowed (ls_session l) t now m2)
              else snd (close_target (ls_session l) t now m2))
      | _ \<Rightarrow> m)"

section \<open>Reconnecting\<close>

text \<open>Chrome is gone for good.\<close>

definition give_up_target :: "int \<Rightarrow> session_manager \<Rightarrow> string \<Rightarrow> session_manager" where
  "give_up_target now m t =
     (let m' = on_target_closed t now m in m'\<lparr>sm_leases := snd (release t None (sm_leases m')), sm_owner := jdel t (sm_owner m')\<rparr>)"

definition reconnect_failed :: "int \<Rightarrow> session_manager \<Rightarrow> session_manager" where
  "reconnect_failed now m = foldl (give_up_target now) m (jkeys (sm_owner m))"

definition url_internal :: "string \<Rightarrow> bool" where
  "url_internal url \<longleftrightarrow> url = [] \<or> url = ''about:blank'' \<or> starts_with ''chrome://'' url"

text \<open>The loop over the tracked targets, up to the next dead one whose last URL is asked for. Without one, the dead ones go.\<close>

fun reconcile_on :: "string list \<Rightarrow> string list \<Rightarrow> (string, string) jmap \<Rightarrow> string list \<Rightarrow> int \<Rightarrow> session_manager \<Rightarrow> session_manager" where
  "reconcile_on [] alive untracked dead now m =
     (let m' = foldl (\<lambda>m t. on_target_closed t now m) m dead
      in add_task Indexing (m'\<lparr>sm_ledger := reconcile_alive (set alive) now (sm_ledger m')\<rparr>))"
| "reconcile_on (t # rest) alive untracked dead now m =
     (case jget (sm_owner m) t of
        None \<Rightarrow> reconcile_on rest alive untracked dead now m
      | Some owner \<Rightarrow>
          if t \<in> set alive then reconcile_on rest alive untracked dead now m
          else if t \<in> set (sm_borrowed m) then reconcile_on rest alive untracked dead now (on_target_closed t now m)
          else add_task (Reconciling t owner rest alive untracked dead) m)"

definition reconnected :: "(string \<times> string) list \<Rightarrow> int \<Rightarrow> session_manager \<Rightarrow> session_manager" where
  "reconnected targets now m =
     (let tracked = jkeys (sm_owner m); alive = map fst targets in
      if tracked = [] then m
      else
        (let m1 = m\<lparr>sm_leases := snd (reconcile_leases (set alive) (sm_leases m)),
                    sm_queues := snd (snd (reconcile_queues (set alive) (sm_queues m)))\<rparr>;
             untracked = foldl (\<lambda>u (t, url). if jhas (sm_owner m1) t \<or> url_internal url then u else jset url t u) [] targets
         in reconcile_on tracked alive untracked [] now m1))"

definition remap_target :: "string \<Rightarrow> string \<Rightarrow> string \<times> string \<Rightarrow> int \<Rightarrow> session_manager \<Rightarrow> session_manager" where
  "remap_target t t' owner now m =
     (let (s, w) = owner;
          m1 = m\<lparr>sm_owner := jset t' owner (jdel t (sm_owner m)), sm_ledger := snd (remap_target_id t t' (sm_ledger m))\<rparr>;
          m2 = snd (acquire_target_lease t' s w None None now m1);
          m3 = (case worker_ref m2 s w of None \<Rightarrow> m2 | Some wr \<Rightarrow> add_target t' wr (remove_target t wr m2))
      in m3\<lparr>sm_refs := clear_target_refs s t (sm_refs m3)\<rparr>)"

text \<open>\<open>url\<close> is the last known URL of the dead target.\<close>

definition reconcile_url :: "nat \<Rightarrow> string option \<Rightarrow> int \<Rightarrow> session_manager \<Rightarrow> session_manager" where
  "reconcile_url k url now m =
     (case sm_tasks m ! k of
        Reconciling t owner rest alive untracked dead \<Rightarrow>
          (let m' = drop_task k m in
           case (case truthy_str url of None \<Rightarrow> None | Some u \<Rightarrow> if u = ''about:blank'' then None else map_option (Pair u) (jget untracked u)) of
             Some (u, t') \<Rightarrow> reconcile_on rest alive (jdel u untracked) dead now (remap_target t t' owner now m')
           | None \<Rightarrow> reconcile_on rest alive untracked (dead @ [t]) now m')
      | _ \<Rightarrow> m)"

definition indexed :: "nat \<Rightarrow> int \<Rightarrow> session_manager \<Rightarrow> session_manager" where
  "indexed k now m =
     (case sm_tasks m ! k of
        Indexing \<Rightarrow> foldl (\<lambda>m (_, (s, _)). touch_session s now m) (drop_task k m) (sm_owner m)
      | _ \<Rightarrow> m)"

section \<open>Commands on a target\<close>

text \<open>\<open>runTargetExclusive\<close>: false for the exception; the command checks the ownership again when its turn comes.\<close>

definition run_exclusive :: "string \<Rightarrow> string \<Rightarrow> int \<Rightarrow> jsnum option \<Rightarrow> bool \<Rightarrow> drain_env \<Rightarrow> session_manager \<Rightarrow> bool \<times> session_manager" where
  "run_exclusive s t now deadline aborted env m =
     (if \<not> validate_ownership m s t then (False, m)
      else
        (let m' = touch_session s now m
         in (True, m'\<lparr>sm_leases := touch t now (sm_leases m'), sm_queues := manager_enqueue t now deadline aborted env (sm_queues m')\<rparr>)))"

definition pin_context :: "string \<Rightarrow> session_manager \<Rightarrow> session_manager" where
  "pin_context t m =
     (case jget (sm_contexts m) t of None \<Rightarrow> m | Some (b, name) \<Rightarrow> m\<lparr>sm_registry := add_resume_ref b name (sm_registry m)\<rparr>)"

definition unpin_context :: "string \<Rightarrow> session_manager \<Rightarrow> session_manager" where
  "unpin_context t m =
     (case jget (sm_contexts m) t of None \<Rightarrow> m | Some (b, name) \<Rightarrow> m\<lparr>sm_registry := snd (release_resume_ref b name (sm_registry m))\<rparr>)"

section \<open>Steps\<close>

datatype (plugins only: code size) session_op =
    Create_session string string
  | Get_session string string int
  | Connected nat bool
  | Room_made nat nat
  | Context_resolved nat "nat option option" int
  | Create_worker string string
  | Worker_made nat "(nat option \<times> nat option) option" int
  | Delete_worker string string int
  | Worker_goes_on nat int
  | Delete_session string int
  | Session_goes_on nat int
  | Create_target string string "string option" bool "nat list"
  | Context_made string "nat option" int
  | Target_opened nat "string option" int
  | Register_existing string string string int
  | Register_external string string string external_options int
  | Get_page string string "string option" bool bool int
  | Page_fetched nat bool int
  | Target_recovered nat bool int
  | Popup_begins "string \<Rightarrow> string option" string string registration_state "string option" "string option" int
  | Popup_ends nat int
  | Popup_ready "string \<Rightarrow> string option" string "string option" "string option" int
  | Popup_blocked string int
  | Close_target string string int
  | Target_closes nat bool int
  | Destroyed string int
  | Release_borrowed string string int
  | Human_control_set string string bool int
  | Sweep_session string int int bool
  | Sweep_leases int
  | Reclaim_next nat int
  | Reconnect_failed int
  | Reconnected "(string \<times> string) list" int
  | Reconcile_url nat "string option" int
  | Indexed nat int
  | Run_exclusive string string int "jsnum option" bool drain_env
  | Pin string
  | Unpin string

fun session_step :: "session_manager \<Rightarrow> session_op \<Rightarrow> session_manager" where
  "session_step m (Create_session s tenant) = create_session s tenant m"
| "session_step m (Get_session s tenant now) = get_or_create_session s tenant now m"
| "session_step m (Connected k ok) = (if k < length (sm_tasks m) then connected k ok m else m)"
| "session_step m (Room_made k n) = (if k < length (sm_tasks m) then room_made k n m else m)"
| "session_step m (Context_resolved k r now) = (if k < length (sm_tasks m) then context_resolved k r now m else m)"
| "session_step m (Create_worker s w) = create_worker s w m"
| "session_step m (Worker_made k r now) = (if k < length (sm_tasks m) then worker_made k r now m else m)"
| "session_step m (Delete_worker s w now) = snd (delete_worker s w now m)"
| "session_step m (Worker_goes_on k now) = (if k < length (sm_tasks m) then worker_deletion_goes_on k now m else m)"
| "session_step m (Delete_session s now) = delete_session s now m"
| "session_step m (Session_goes_on k now) = (if k < length (sm_tasks m) then session_deletion_goes_on k now m else m)"
| "session_step m (Create_target s w ctx stealth known) = snd (create_target s w ctx stealth known m)"
| "session_step m (Context_made key r now) = m\<lparr>sm_registry := context_created key r now (sm_registry m)\<rparr>"
| "session_step m (Target_opened k r now) = (if k < length (sm_tasks m) then target_opened k r now m else m)"
| "session_step m (Register_existing s w t now) = snd (register_existing s w t now m)"
| "session_step m (Register_external t s w opts now) = snd (register_external t s w opts now m)"
| "session_step m (Get_page s t w nav user now) = snd (get_page s t w nav user now m)"
| "session_step m (Page_fetched k alive now) = (if k < length (sm_tasks m) then page_fetched k alive now m else m)"
| "session_step m (Target_recovered k usable now) = (if k < length (sm_tasks m) then target_recovered k usable now m else m)"
| "session_step m (Popup_begins canon t opener st url title now) = popup_begins canon t opener st url title now m"
| "session_step m (Popup_ends k now) = (if k < length (sm_tasks m) then popup_ends k now m else m)"
| "session_step m (Popup_ready canon t url title now) = m\<lparr>sm_ledger := snd (mark_ready canon t url title now (sm_ledger m))\<rparr>"
| "session_step m (Popup_blocked t now) = m\<lparr>sm_ledger := snd (mark_blocked t now (sm_ledger m))\<rparr>"
| "session_step m (Close_target s t now) = snd (close_target s t now m)"
| "session_step m (Target_closes k ok now) = (if k < length (sm_tasks m) then target_closed k ok now m else m)"
| "session_step m (Destroyed t now) = on_target_closed t now m"
| "session_step m (Release_borrowed s t now) = snd (release_borrowed s t now m)"
| "session_step m (Human_control_set s t held now) = snd (set_human_control s t held now m)"
| "session_step m (Sweep_session s now max_age force) = sweep_session s now max_age force m"
| "session_step m (Sweep_leases now) = sweep_leases now m"
| "session_step m (Reclaim_next k now) = (if k < length (sm_tasks m) then reclaim_next k now m else m)"
| "session_step m (Reconnect_failed now) = reconnect_failed now m"
| "session_step m (Reconnected targets now) = reconnected targets now m"
| "session_step m (Reconcile_url k url now) = (if k < length (sm_tasks m) then reconcile_url k url now m else m)"
| "session_step m (Indexed k now) = (if k < length (sm_tasks m) then indexed k now m else m)"
| "session_step m (Run_exclusive s t now d a env) = snd (run_exclusive s t now d a env m)"
| "session_step m (Pin t) = pin_context t m"
| "session_step m (Unpin t) = unpin_context t m"

section \<open>Evaluation\<close>

text \<open>The definitions that concrete runs unfold, with \<open>let_weak_cong\<close>: the arguments are values before they are substituted.
  The steps of large tasks are unfolded for a task that is given.\<close>

lemma opened_eval:
  "sm_tasks m ! k = Opening s wr named st \<Longrightarrow>
   target_opened k (Some t) now m = settle_target s (wo_id (sm_workers m ! wr)) wr named st t now (drop_task k m)"
  by (simp add: target_opened_def)

lemmas manager_eval =
  new_session_manager_def session_of_def worker_ref_def on_worker_def on_session_def touch_session_def emit_def validate_ownership_def
  session_targets_def add_target_def remove_target_def worker_active_def worker_browser_def reserve_slot_def release_slot_def
  lease_ttl_of_def lease_input_def inherit_overrides_def take_lease_def acquire_target_lease_def forget_context_def leave_worker_def
  on_target_closed_def release_borrowed_def note_added_def set_owner_def register_existing_def deletion_key_def register_external_def
  set_human_control_def drop_task_def add_task_def creation_over_def create_session_def get_or_create_session_def connected_def
  room_made_def new_worker_def install_session_def context_resolved_def create_worker_def worker_made_def go_on_closing_def
  begin_worker_deletion_def page_closed_def finish_worker_def at_end_def settle_worker_def worker_deletion_step_def
  start_worker_deletion_def note_worker_deleted_def delete_worker_def worker_deletion_goes_on_def finish_session_def next_worker_def
  delete_session_def session_deletion_goes_on_def create_target_def join_context_def settle_target_def mark_stealth_def page_access_def get_page_def
  page_fetched_def target_recovered_def close_target_def target_closed_def remap_target_def reconnected_def reconcile_url_def
  acquire_def lease_record_def release_def release_session_def default_session_id_def default_worker_id_def jhas_def jkeys_def
  truthy_str_def truthy_int_def touch_def touched_def Let_def

end
