(* ===== verification/Session_Capacity.thy ===== *)
theory Session_Capacity
  imports Session_Manager
begin

text \<open>
  The capacity of workers. A creation reserves its slot before it awaits the page and gives it back when it has
  added the target, so however calls interleave, a worker exceeds \<open>maxTargetsPerWorker\<close> only by the
  targets that the manager registers without looking at the limit: registrations of existing targets, recoveries,
  and remappings after a reconnect. Most changes that the manager makes only take targets from workers: they are
  \<open>shrinks\<close> steps, and the invariant is carried over those once for all.
\<close>

section \<open>Changes that make no worker fuller\<close>

definition lighter :: "worker_obj \<Rightarrow> worker_obj \<Rightarrow> bool" where
  "lighter wo wo' \<longleftrightarrow> length (wo_targets wo') \<le> length (wo_targets wo) \<and> wo_reserved wo' = wo_reserved wo"

definition fewer_workers :: "session_obj \<Rightarrow> session_obj \<Rightarrow> bool" where
  "fewer_workers so so' \<longleftrightarrow> set (so_workers so') \<subseteq> set (so_workers so)"

definition shrinks :: "session_manager \<Rightarrow> session_manager \<Rightarrow> bool" where
  "shrinks m m' \<longleftrightarrow> sm_config m' = sm_config m \<and> sm_tasks m' = sm_tasks m \<and> set (sm_sessions m') \<subseteq> set (sm_sessions m) \<and>
     list_all2 lighter (sm_workers m) (sm_workers m') \<and> list_all2 fewer_workers (sm_objects m) (sm_objects m')"

named_theorems shrink \<open>changes that make no worker fuller\<close>

lemma lighter_refl [simp]: "lighter wo wo"
  by (simp add: lighter_def)

lemma fewer_refl [simp]: "fewer_workers so so"
  by (simp add: fewer_workers_def)

lemma list_all2_same_refl [simp]: "list_all2 lighter wos wos" "list_all2 fewer_workers sos sos"
  by (simp_all add: list_all2_refl)

lemma shrinks_refl [simp, intro]: "shrinks m m"
  by (simp add: shrinks_def)

lemma shrinks_trans [trans]: "shrinks m m1 \<Longrightarrow> shrinks m1 m2 \<Longrightarrow> shrinks m m2"
  unfolding shrinks_def
  by (auto 0 3 elim: list_all2_trans [rotated -2] simp: lighter_def fewer_workers_def)

lemma shrinks_frame:
  "shrinks m (m'\<lparr>sm_owner := a\<rparr>) = shrinks m m'" "shrinks m (m'\<lparr>sm_leases := b\<rparr>) = shrinks m m'"
  "shrinks m (m'\<lparr>sm_ledger := c\<rparr>) = shrinks m m'" "shrinks m (m'\<lparr>sm_queues := d\<rparr>) = shrinks m m'"
  "shrinks m (m'\<lparr>sm_refs := e\<rparr>) = shrinks m m'" "shrinks m (m'\<lparr>sm_contexts := f\<rparr>) = shrinks m m'"
  "shrinks m (m'\<lparr>sm_registry := g\<rparr>) = shrinks m m'" "shrinks m (m'\<lparr>sm_borrowed := h\<rparr>) = shrinks m m'"
  "shrinks m (m'\<lparr>sm_held := i\<rparr>) = shrinks m m'" "shrinks m (m'\<lparr>sm_stealth := j\<rparr>) = shrinks m m'"
  "shrinks m (m'\<lparr>sm_pending := k\<rparr>) = shrinks m m'" "shrinks m (m'\<lparr>sm_deleting_sessions := l\<rparr>) = shrinks m m'"
  "shrinks m (m'\<lparr>sm_deleting_workers := n\<rparr>) = shrinks m m'" "shrinks m (m'\<lparr>sm_events := p\<rparr>) = shrinks m m'"
  "shrinks m (m'\<lparr>sm_stamp := q\<rparr>) = shrinks m m'" "shrinks m (m'\<lparr>sm_created := r\<rparr>) = shrinks m m'"
  by (simp_all add: shrinks_def)

lemmas [simp] = shrinks_frame

lemma shrinks_on_worker: "(\<And>wo. lighter wo (f wo)) \<Longrightarrow> shrinks m (on_worker wr f m)"
  unfolding shrinks_def on_worker_def
  by (cases "wr < length (sm_workers m)") (auto simp: list_all2_conv_all_nth nth_list_update)

lemma shrinks_on_session: "(\<And>so. fewer_workers so (f so)) \<Longrightarrow> shrinks m (on_session sr f m)"
  unfolding shrinks_def on_session_def
  by (cases "sr < length (sm_objects m)") (auto simp: list_all2_conv_all_nth nth_list_update)

lemma shrinks_touch [shrink]: "shrinks m (touch_session s now m)"
  by (auto simp: touch_session_def fewer_workers_def intro!: shrinks_on_session split: option.split)

lemma shrinks_remove_target [shrink]: "shrinks m (remove_target t wr m)"
  by (auto simp: remove_target_def lighter_def length_jdel_le intro!: shrinks_on_worker)

lemma shrinks_worker_active [shrink]: "shrinks m (worker_active wr now m)"
  by (auto simp: worker_active_def lighter_def intro!: shrinks_on_worker)

lemma shrinks_emit [simp]: "shrinks m (emit ev m') = shrinks m m'"
  by (simp add: emit_def)

lemma shrinks_owner [simp]: "shrinks m (set_owner t s w m') = shrinks m m'"
  by (simp add: set_owner_def)

lemma shrinks_note [shrink]: "shrinks m (note_added s w t now m)"
  unfolding note_added_def by (rule shrinks_trans [OF _ shrinks_touch]) simp

lemma shrinks_take_lease [simp]: "shrinks m (take_lease t s w ctx now m') = shrinks m m'"
  by (simp add: take_lease_def Let_def split: sum.split prod.split)

lemma shrinks_acquire [simp]: "shrinks m (snd (acquire_target_lease t s w ctx p now m')) = shrinks m m'"
  by (simp add: acquire_target_lease_def split: option.split sum.split prod.split)

lemma shrinks_forget_context [simp]: "shrinks m (forget_context t m') = shrinks m m'"
  by (simp add: forget_context_def split: option.split prod.split)

lemma shrinks_leave_worker [shrink]: "shrinks m (leave_worker s w t m)"
  by (auto simp: leave_worker_def Let_def shrink split: option.split)

lemma shrinks_on_target_closed [shrink]: "shrinks m (on_target_closed t now m)"
proof -
  have "shrinks m (leave_worker s w t (m\<lparr>sm_borrowed := a, sm_held := b, sm_ledger := c\<rparr>))" for s w a b c
    by (rule shrinks_trans [OF _ shrinks_leave_worker]) simp
  then show ?thesis by (auto simp: on_target_closed_def Let_def split: option.split prod.split)
qed

lemma shrinks_release_borrowed [shrink]: "shrinks m (snd (release_borrowed s t now m))"
  by (simp add: release_borrowed_def shrink)

lemma shrinks_foldl: "(\<And>m x. shrinks m (f m x)) \<Longrightarrow> shrinks m (foldl f m xs)"
  by (rule foldl_inv) (auto intro: shrinks_trans)

section \<open>The invariant\<close>

definition openings :: "nat \<Rightarrow> task list \<Rightarrow> nat" where
  "openings wr tks = length (filter (\<lambda>tk. case tk of Opening _ r _ _ \<Rightarrow> r = wr | _ \<Rightarrow> False) tks)"

definition task_refs :: "nat \<Rightarrow> nat \<Rightarrow> task \<Rightarrow> bool" where
  "task_refs workers objects tk \<longleftrightarrow>
     (case tk of
        Opening _ wr _ _ \<Rightarrow> wr < workers
      | Worker_context sr _ \<Rightarrow> sr < objects
      | _ \<Rightarrow> True)"

definition refs_ok :: "session_manager \<Rightarrow> bool" where
  "refs_ok m \<longleftrightarrow> (\<forall>(s, sr) \<in> set (sm_sessions m). sr < length (sm_objects m)) \<and>
     (\<forall>so \<in> set (sm_objects m). \<forall>(w, wr) \<in> set (so_workers so). wr < length (sm_workers m)) \<and>
     (\<forall>tk \<in> set (sm_tasks m). task_refs (length (sm_workers m)) (length (sm_objects m)) tk)"

definition capacity_inv :: "session_config \<Rightarrow> nat \<Rightarrow> session_manager \<Rightarrow> bool" where
  "capacity_inv c n m \<longleftrightarrow> c = sm_config m \<and> refs_ok m \<and>
     (\<forall>wr < length (sm_workers m). openings wr (sm_tasks m) \<le> wo_reserved (sm_workers m ! wr) \<and>
        length (wo_targets (sm_workers m ! wr)) + wo_reserved (sm_workers m ! wr) \<le> sc_max_targets (sm_config m) + n)"

lemma shrinks_lengths: "shrinks m m' \<Longrightarrow> length (sm_workers m') = length (sm_workers m) \<and> length (sm_objects m') = length (sm_objects m)"
  by (auto simp: shrinks_def dest: list_all2_lengthD)

lemma refs_ok_shrinks:
  assumes "shrinks m m'" "refs_ok m"
  shows "refs_ok m'"
proof -
  have len: "length (sm_workers m') = length (sm_workers m)" "length (sm_objects m') = length (sm_objects m)"
    using shrinks_lengths [OF assms(1)] by simp_all
  have "wr < length (sm_workers m)" if so: "so \<in> set (sm_objects m')" and w: "(w, wr) \<in> set (so_workers so)" for so w wr
  proof -
    from so obtain i where i: "i < length (sm_objects m')" "so = sm_objects m' ! i" by (auto simp: in_set_conv_nth)
    then have "(w, wr) \<in> set (so_workers (sm_objects m ! i))"
      using assms(1) w by (auto simp: shrinks_def list_all2_conv_all_nth fewer_workers_def)
    then show ?thesis using assms(2) i(1) len(2) nth_mem [of i "sm_objects m"] by (fastforce simp: refs_ok_def)
  qed
  then show ?thesis
    using assms len by (auto simp: refs_ok_def shrinks_def)
qed

lemma capacity_shrinks:
  assumes "shrinks m m'" "capacity_inv c n m"
  shows "capacity_inv c n m'"
proof -
  have "lighter (sm_workers m ! wr) (sm_workers m' ! wr)" if "wr < length (sm_workers m)" for wr
    using assms(1) that by (simp add: shrinks_def list_all2_nthD)
  then show ?thesis
    using assms refs_ok_shrinks [OF assms(1)]
    by (force simp: capacity_inv_def lighter_def shrinks_def dest: list_all2_lengthD)
qed

lemma capacity_Suc: "capacity_inv c n m \<Longrightarrow> capacity_inv c (Suc n) m"
  by (auto simp: capacity_inv_def le_SucI)

section \<open>Tasks and targets come and go\<close>

lemma openings_append [simp]: "openings wr (xs @ ys) = openings wr xs + openings wr ys"
  by (simp add: openings_def)

lemma openings_Cons: "openings wr (tk # tks) = openings wr [tk] + openings wr tks"
  by (simp add: openings_def)

lemma openings_drop:
  "k < length tks \<Longrightarrow> openings wr tks = openings wr (take k tks @ drop (Suc k) tks) + openings wr [tks ! k]"
  using openings_append [of wr "take k tks" "drop k tks"] openings_Cons [of wr "tks ! k" "drop (Suc k) tks"]
  by (simp add: Cons_nth_drop_Suc)

lemma capacity_drop:
  assumes "k < length (sm_tasks m)" "capacity_inv c n m"
  shows "capacity_inv c n (drop_task k m)"
proof -
  have "openings wr (take k (sm_tasks m) @ drop (Suc k) (sm_tasks m)) \<le> openings wr (sm_tasks m)" for wr
    using openings_drop [OF assms(1), of wr] by simp
  moreover have "set (take k (sm_tasks m) @ drop (Suc k) (sm_tasks m)) \<subseteq> set (sm_tasks m)"
    using set_take_subset [of k "sm_tasks m"] set_drop_subset [of "Suc k" "sm_tasks m"] by auto
  ultimately show ?thesis
    using assms(2) by (auto simp: capacity_inv_def refs_ok_def drop_task_def simp del: openings_append set_append) (meson le_trans)
qed

lemma capacity_add_task:
  assumes "capacity_inv c n m" "task_refs (length (sm_workers m)) (length (sm_objects m)) tk" "\<And>wr. openings wr [tk] = 0"
  shows "capacity_inv c n (add_task tk m)"
  using assms by (simp add: capacity_inv_def refs_ok_def add_task_def)

lemma capacity_worker:
  assumes "capacity_inv c n m" "n \<le> n'"
    and "wr < length (sm_workers m) \<Longrightarrow> openings wr (sm_tasks m) \<le> wo_reserved (f (sm_workers m ! wr)) \<and>
      length (wo_targets (f (sm_workers m ! wr))) + wo_reserved (f (sm_workers m ! wr)) \<le> sc_max_targets (sm_config m) + n'"
  shows "capacity_inv c n' (on_worker wr f m)"
proof -
  have "openings r (sm_tasks m) \<le> wo_reserved (sm_workers (on_worker wr f m) ! r) \<and>
      length (wo_targets (sm_workers (on_worker wr f m) ! r)) + wo_reserved (sm_workers (on_worker wr f m) ! r) \<le> sc_max_targets (sm_config m) + n'"
    if "r < length (sm_workers m)" for r
    using assms that by (cases "r = wr") (auto simp: capacity_inv_def on_worker_def intro: order_trans)
  then show ?thesis using assms(1) by (simp add: capacity_inv_def on_worker_def refs_ok_def)
qed

lemma capacity_stamp [simp]: "capacity_inv c n (m\<lparr>sm_stamp := x\<rparr>) = capacity_inv c n m"
  by (simp add: capacity_inv_def refs_ok_def)

lemma capacity_add_target:
  assumes "capacity_inv c n m" "n \<le> n'" "length (wo_targets (sm_workers m ! wr)) + wo_reserved (sm_workers m ! wr) < sc_max_targets (sm_config m) + n'"
  shows "capacity_inv c n' (add_target t wr m)"
proof -
  have mono: "capacity_inv c n' m" using assms(1,2) by (force simp: capacity_inv_def)
  have "capacity_inv c n' (on_worker wr (\<lambda>wo. wo\<lparr>wo_targets := jset t (sm_stamp m) (wo_targets wo)\<rparr>) m)"
    by (rule capacity_worker [OF assms(1,2)]) (use assms in \<open>auto simp: capacity_inv_def length_jset\<close>)
  then show ?thesis using mono by (simp add: add_target_def)
qed

lemma capacity_more: "capacity_inv c n m \<Longrightarrow> wr < length (sm_workers m) \<Longrightarrow> capacity_inv c (Suc n) (add_target t wr m)"
  by (rule capacity_add_target [of c n]) (auto simp: capacity_inv_def less_Suc_eq_le)

lemma capacity_opened:
  assumes inv: "capacity_inv c n m" and k: "k < length (sm_tasks m)" "sm_tasks m ! k = Opening s wr named st"
  shows "capacity_inv c n (release_slot wr (drop_task k m))" "capacity_inv c n (release_slot wr (add_target t wr (drop_task k m)))"
proof -
  have task: "openings wr (sm_tasks m) = Suc (openings wr (sm_tasks (drop_task k m)))"
    using openings_drop [OF k(1), of wr] k(2) by (simp add: drop_task_def openings_def)
  have d: "sm_workers (drop_task k m) = sm_workers m" "sm_config (drop_task k m) = sm_config m" by (simp_all add: drop_task_def)
  have wr: "wr < length (sm_workers m)" using inv nth_mem [OF k(1)] k(2) by (force simp: capacity_inv_def refs_ok_def task_refs_def)
  have room: "openings wr (sm_tasks m) \<le> wo_reserved (sm_workers m ! wr)"
    "length (wo_targets (sm_workers m ! wr)) + wo_reserved (sm_workers m ! wr) \<le> sc_max_targets (sm_config m) + n"
    using inv wr by (simp_all add: capacity_inv_def)
  note dropped = capacity_drop [OF k(1) inv]
  show "capacity_inv c n (release_slot wr (drop_task k m))"
    unfolding release_slot_def by (rule capacity_worker [OF dropped]) (use room task d in auto)
  have "release_slot wr (add_target t wr (drop_task k m)) = (if jhas (wo_targets (sm_workers m ! wr)) t then release_slot wr (drop_task k m)
      else (on_worker wr (\<lambda>wo. wo\<lparr>wo_targets := jset t (sm_stamp m) (wo_targets wo), wo_reserved := wo_reserved wo - 1\<rparr>)
        (drop_task k m))\<lparr>sm_stamp := Suc (sm_stamp m)\<rparr>)"
    using wr by (simp add: release_slot_def add_target_def on_worker_def drop_task_def)
  moreover have "capacity_inv c n (on_worker wr (\<lambda>wo. wo\<lparr>wo_targets := jset t (sm_stamp m) (wo_targets wo), wo_reserved := wo_reserved wo - 1\<rparr>) (drop_task k m))"
    by (rule capacity_worker [OF dropped]) (use room task d in \<open>auto simp: length_jset\<close>)
  ultimately show "capacity_inv c n (release_slot wr (add_target t wr (drop_task k m)))"
    using \<open>capacity_inv c n (release_slot wr (drop_task k m))\<close> by simp
qed

section \<open>The operations\<close>

lemma capacity_shrink_task:
  assumes "capacity_inv c n m" "shrinks m m'" "task_refs (length (sm_workers m)) (length (sm_objects m)) tk" "\<And>wr. openings wr [tk] = 0"
  shows "capacity_inv c n (add_task tk m')"
  using capacity_add_task [OF capacity_shrinks [OF assms(2,1)]] assms(3,4) shrinks_lengths [OF assms(2)] by simp

lemma drop_task_simps [simp]:
  "sm_workers (drop_task k m) = sm_workers m" "sm_objects (drop_task k m) = sm_objects m" "sm_sessions (drop_task k m) = sm_sessions m"
  "sm_config (drop_task k m) = sm_config m" "sm_owner (drop_task k m) = sm_owner m"
  by (simp_all add: drop_task_def)

lemma openings_other [simp]:
  "openings wr [Connecting a b c] = 0" "openings wr [Making_room a b c] = 0" "openings wr [Resolving a b c] = 0"
  "openings wr [Worker_context d a] = 0" "openings wr [Fetching a b] = 0" "openings wr [Recovering a b e] = 0" "openings wr [Popup a b f g] = 0"
  "openings wr [Closing a b f] = 0" "openings wr [Deleting_worker h] = 0" "openings wr [Deleting_session d i] = 0"
  "openings wr [Reclaiming j] = 0" "openings wr [Reconciling a k l z p q] = 0" "openings wr [Indexing] = 0"
  by (simp_all add: openings_def)

lemma refs_other [simp]:
  "task_refs x y (Connecting a b c)" "task_refs x y (Making_room a b c)" "task_refs x y (Resolving a b c)"
  "task_refs x y (Fetching a b)" "task_refs x y (Recovering a b e)" "task_refs x y (Popup a b f g)"
  "task_refs x y (Closing a b f)" "task_refs x y (Deleting_worker h)" "task_refs x y (Deleting_session d i)"
  "task_refs x y (Reclaiming j)" "task_refs x y (Reconciling a k l z p q)" "task_refs x y Indexing"
  by (simp_all add: task_refs_def)

lemma shrinks_creation_over [simp]: "shrinks m (creation_over s d m') = shrinks m m'"
  by (simp add: creation_over_def)

lemma capacity_creation_over [simp]: "capacity_inv c n (creation_over s d m) = capacity_inv c n m"
  by (simp add: creation_over_def capacity_inv_def refs_ok_def)

lemma capacity_creation: "k < length (sm_tasks m) \<Longrightarrow> capacity_inv c n m \<Longrightarrow> capacity_inv c n (connected k ok m)"
  using capacity_drop [of k m c n]
  by (auto simp: connected_def Let_def intro: capacity_add_task capacity_shrinks split: task.split)

lemma capacity_room: "k < length (sm_tasks m) \<Longrightarrow> capacity_inv c n m \<Longrightarrow> capacity_inv c n (room_made k d m)"
  using capacity_drop [of k m c n]
  by (auto simp: room_made_def Let_def intro: capacity_add_task capacity_shrinks split: task.split)

lemma capacity_new_worker:
  assumes "capacity_inv c n m" "wo_targets wo = []" "wo_reserved wo = 0"
  shows "capacity_inv c n (m\<lparr>sm_workers := sm_workers m @ [wo]\<rparr>)"
proof -
  have "openings (length (sm_workers m)) (sm_tasks m) = 0"
  proof -
    have "\<not> (case tk of Opening _ r _ _ \<Rightarrow> r = length (sm_workers m) | _ \<Rightarrow> False)" if "tk \<in> set (sm_tasks m)" for tk
      using assms(1) that by (cases tk) (auto simp: capacity_inv_def refs_ok_def task_refs_def dest!: bspec)
    then show ?thesis by (simp add: openings_def filter_empty_conv)
  qed
  moreover have "task_refs (Suc w) u tk" if "task_refs w u tk" for w u tk
    using that by (auto simp: task_refs_def split: task.splits)
  ultimately show ?thesis using assms by (force simp: capacity_inv_def refs_ok_def nth_append less_Suc_eq)
qed

lemma set_jset: "set (jset k v xs) \<subseteq> insert (k, v) (set xs)"
  by (induction xs) auto

lemma capacity_object:
  assumes "capacity_inv c n m" "\<forall>(w, wr) \<in> set (so_workers so). wr < length (sm_workers m)"
  shows "capacity_inv c n (m\<lparr>sm_objects := sm_objects m @ [so], sm_sessions := jset s (length (sm_objects m)) (sm_sessions m)\<rparr>)"
proof -
  have "task_refs w (Suc u) tk" if "task_refs w u tk" for w u tk
    using that by (auto simp: task_refs_def split: task.splits)
  moreover have "sr < Suc (length (sm_objects m))" if "(s', sr) \<in> set (jset s (length (sm_objects m)) (sm_sessions m))" for s' sr
    using that set_jset [of s "length (sm_objects m)" "sm_sessions m"] assms(1) by (fastforce simp: capacity_inv_def refs_ok_def)
  ultimately show ?thesis using assms by (auto simp: capacity_inv_def refs_ok_def)
qed

lemma capacity_resolved: "k < length (sm_tasks m) \<Longrightarrow> capacity_inv c n m \<Longrightarrow> capacity_inv c n (context_resolved k r now m)"
proof -
  assume k: "k < length (sm_tasks m)" and inv: "capacity_inv c n m"
  have install: "capacity_inv c n (install_session s tenant ctx now m')" if "capacity_inv c n m'" for s tenant ctx m'
  proof -
    let ?w = "new_worker default_worker_id ctx None now"
    let ?so = "\<lparr>so_id = s, so_workers = [(default_worker_id, length (sm_workers m'))], so_default = default_worker_id,
                so_created = now, so_activity = now, so_tenant = tenant\<rparr>"
    let ?m = "m'\<lparr>sm_workers := sm_workers m' @ [?w]\<rparr>"
    have "capacity_inv c n (?m\<lparr>sm_objects := sm_objects ?m @ [?so], sm_sessions := jset s (length (sm_objects ?m)) (sm_sessions ?m)\<rparr>)"
      by (rule capacity_object [OF capacity_new_worker [OF that]]) (simp_all add: new_worker_def)
    then show ?thesis by (rule capacity_shrinks [rotated]) (simp add: install_session_def shrinks_def emit_def)
  qed
  have over: "capacity_inv c n (creation_over s d (drop_task k m))" for s d
    using capacity_drop [OF k inv] by (rule capacity_shrinks [rotated]) simp
  then show ?thesis using inv by (auto simp: context_resolved_def Let_def intro: install split: task.split option.split)
qed

lemma session_ref: "capacity_inv c n m \<Longrightarrow> jget (sm_sessions m) s = Some sr \<Longrightarrow> sr < length (sm_objects m)"
  by (auto simp: capacity_inv_def refs_ok_def dest: map_of_SomeD)

lemma capacity_worker_ref: "capacity_inv c n m \<Longrightarrow> worker_ref m s w = Some wr \<Longrightarrow> wr < length (sm_workers m)"
  using session_ref [of c n m s]
  by (fastforce simp: worker_ref_def session_of_def capacity_inv_def refs_ok_def dest!: map_of_SomeD split: option.splits)

lemma capacity_create_worker: "capacity_inv c n m \<Longrightarrow> capacity_inv c n (create_worker s w m)"
  using session_ref [of c n m s] by (auto simp: create_worker_def task_refs_def intro!: capacity_add_task split: option.split)

lemma capacity_worker_made:
  assumes k: "k < length (sm_tasks m)" and inv: "capacity_inv c n m"
  shows "capacity_inv c n (worker_made k r now m)"
proof (cases "sm_tasks m ! k")
  case (Worker_context sr w)
  let ?d = "drop_task k m"
  have d: "capacity_inv c n ?d" by (rule capacity_drop [OF k inv])
  have "capacity_inv c n (emit ev (touch_session s now (on_session sr (\<lambda>so. so\<lparr>so_workers := jset w (length (sm_workers ?d)) (so_workers so)\<rparr>)
      (?d\<lparr>sm_workers := sm_workers ?d @ [new_worker w ctx port now]\<rparr>))))" for ctx port ev s
  proof (rule capacity_shrinks)
    let ?m = "?d\<lparr>sm_workers := sm_workers ?d @ [new_worker w ctx port now]\<rparr>"
    have m: "capacity_inv c n ?m" by (rule capacity_new_worker [OF d]) (simp_all add: new_worker_def)
    let ?so = "sm_objects ?m ! sr"
    have "wr < length (sm_workers ?m)"
      if "so \<in> set ((sm_objects ?m)[sr := ?so\<lparr>so_workers := jset w (length (sm_workers ?d)) (so_workers ?so)\<rparr>])" "(v, wr) \<in> set (so_workers so)" for so v wr
    proof (cases "sr < length (sm_objects ?m)")
      case True
      have old: "wr < length (sm_workers ?m)" if "so \<in> set (sm_objects ?m)" "(v, wr) \<in> set (so_workers so)" for so v wr
        using m that by (auto simp: capacity_inv_def refs_ok_def)
      from that(1) have "so \<in> set (sm_objects ?m) \<or> so = ?so\<lparr>so_workers := jset w (length (sm_workers ?d)) (so_workers ?so)\<rparr>"
        using set_update_subset_insert by fastforce
      then show ?thesis
        using old that(2) set_jset [of w "length (sm_workers ?d)" "so_workers ?so"] nth_mem [OF True] by fastforce
    next
      case False
      then show ?thesis using m that by (auto simp: capacity_inv_def refs_ok_def list_update_beyond)
    qed
    then show "capacity_inv c n (on_session sr (\<lambda>so. so\<lparr>so_workers := jset w (length (sm_workers ?d)) (so_workers so)\<rparr>) ?m)"
      using m by (auto simp: capacity_inv_def refs_ok_def on_session_def)
  qed (simp add: shrink)
  then show ?thesis using d Worker_context by (simp add: worker_made_def Let_def split: option.split prod.split)
qed (use inv in \<open>simp_all add: worker_made_def\<close>)

lemma shrinks_next_close: "shrinks m (snd (next_close ts now wd m))"
proof (induction ts now wd m rule: next_close.induct)
  case (2 t stamp ts now wd m)
  then show ?case
    by (auto simp: Let_def split: if_splits) (metis shrinks_release_borrowed shrinks_trans)
qed simp

lemma shrinks_go_on [shrink]: "shrinks m (snd (go_on_closing now wd m))"
  by (simp add: go_on_closing_def shrinks_next_close)

lemma shrinks_begin_deletion [shrink]: "shrinks m (snd (begin_worker_deletion sr w now m))"
proof -
  have "shrinks m (snd (go_on_closing now wd (m\<lparr>sm_deleting_workers := x\<rparr>)))" for wd x
    by (rule shrinks_trans [OF _ shrinks_go_on]) simp
  then show ?thesis by (auto simp: begin_worker_deletion_def Let_def split: option.split prod.split) (metis snd_conv)
qed

lemma shrinks_page_closed [shrink]: "shrinks m (snd (page_closed now wd m))"
  by (auto simp: page_closed_def intro: shrinks_trans [OF _ shrinks_go_on] split: option.split)

lemma shrinks_finish_worker [shrink]: "shrinks m (finish_worker wd m)"
  unfolding finish_worker_def Let_def
  by (rule shrinks_trans [OF _ shrinks_on_session]) (auto simp: fewer_workers_def jmem_del)

lemma shrinks_settle [shrink]: "shrinks m (snd wm) \<Longrightarrow> shrinks m (snd (settle_worker wm))"
  by (auto simp: settle_worker_def intro: shrinks_trans shrinks_finish_worker split: prod.split)

lemma shrinks_deletion_step [shrink]: "shrinks m (snd (worker_deletion_step now wd m))"
  by (simp add: worker_deletion_step_def shrink)

lemma shrinks_start_deletion [shrink]: "shrinks m (snd (start_worker_deletion sr w now m))"
  using shrinks_begin_deletion [of m sr w now]
  by (auto simp: start_worker_deletion_def intro!: shrinks_settle split: prod.split option.split)

lemma capacity_note_deleted: "capacity_inv c n m \<Longrightarrow> shrinks m (snd wm) \<Longrightarrow> capacity_inv c n (note_worker_deleted s w wm)"
  by (auto simp: note_worker_deleted_def intro: capacity_shrink_task capacity_shrinks split: prod.split option.split)

lemma capacity_delete_worker: "capacity_inv c n m \<Longrightarrow> capacity_inv c n (snd (delete_worker s w now m))"
  by (auto simp: delete_worker_def intro: capacity_note_deleted shrink split: option.split)

lemma capacity_worker_goes_on: "k < length (sm_tasks m) \<Longrightarrow> capacity_inv c n m \<Longrightarrow> capacity_inv c n (worker_deletion_goes_on k now m)"
  using capacity_drop [of k m c n] by (auto simp: worker_deletion_goes_on_def intro: capacity_note_deleted shrink split: task.split)

lemma shrinks_finish_session [shrink]: "shrinks m (finish_session sr m)"
  by (auto simp: finish_session_def Let_def shrinks_def emit_def jmem_del)

lemma capacity_next_worker: "capacity_inv c n m \<Longrightarrow> capacity_inv c n (next_worker sr now m)"
  using shrinks_start_deletion [of m sr _ now]
  by (auto simp: next_worker_def intro: capacity_shrinks shrinks_finish_session intro!: capacity_shrink_task split: list.split prod.split) (metis snd_conv)

lemma capacity_delete_session: "capacity_inv c n m \<Longrightarrow> capacity_inv c n (delete_session s now m)"
  unfolding delete_session_def Let_def
  by (auto intro!: capacity_next_worker split: option.split)
     (rule capacity_shrinks [OF shrinks_trans [OF _ shrinks_foldl]], auto simp: shrink)

lemma capacity_session_goes_on:
  assumes "k < length (sm_tasks m)" "capacity_inv c n m"
  shows "capacity_inv c n (session_deletion_goes_on k now m)"
proof (cases "\<exists>sr d. sm_tasks m ! k = Deleting_session sr d")
  case True
  then obtain sr d where task: "sm_tasks m ! k = Deleting_session sr d" by blast
  have dropped: "capacity_inv c n (drop_task k m)" by (rule capacity_drop [OF assms])
  show ?thesis
  proof (cases d)
    case (Some wd)
    obtain d' m' where step: "worker_deletion_step now wd (drop_task k m) = (d', m')" by fastforce
    then have "shrinks (drop_task k m) m'" using shrinks_deletion_step [of "drop_task k m" now wd] by simp
    note m' = capacity_shrinks [OF this dropped]
    show ?thesis using task Some step m' capacity_next_worker [OF m'] capacity_add_task [OF m']
      by (cases d') (simp_all add: session_deletion_goes_on_def)
  qed (simp add: session_deletion_goes_on_def task capacity_next_worker [OF dropped])
next
  case False
  then show ?thesis using assms by (cases "sm_tasks m ! k") (simp_all add: session_deletion_goes_on_def)
qed

lemma capacity_registry [simp]: "capacity_inv c n (m\<lparr>sm_registry := x\<rparr>) = capacity_inv c n m"
  by (simp add: capacity_inv_def refs_ok_def)

lemma capacity_reserved_task:
  assumes inv: "capacity_inv c n m" and wr: "wr < length (sm_workers m)" and slot: "reserve_slot wr m = Some m'"
  shows "capacity_inv c n (add_task (Opening s wr named st) m')"
proof -
  have room: "length (wo_targets (sm_workers m ! wr)) + wo_reserved (sm_workers m ! wr) < sc_max_targets (sm_config m)"
    and m': "m' = on_worker wr (\<lambda>wo. wo\<lparr>wo_reserved := Suc (wo_reserved wo)\<rparr>) m"
    using slot by (auto simp: reserve_slot_def Let_def split: if_splits)
  have "openings r (sm_tasks m @ [Opening s wr named st]) \<le> wo_reserved (sm_workers m' ! r) \<and>
      length (wo_targets (sm_workers m' ! r)) + wo_reserved (sm_workers m' ! r) \<le> sc_max_targets (sm_config m) + n" if "r < length (sm_workers m)" for r
    using inv that room wr by (cases "r = wr") (auto simp: m' on_worker_def capacity_inv_def openings_def)
  then show ?thesis using inv wr by (simp add: capacity_inv_def refs_ok_def add_task_def task_refs_def m' on_worker_def)
qed

lemma capacity_create_target: "capacity_inv c n m \<Longrightarrow> capacity_inv c n (snd (create_target s w ctx st known m))"
proof -
  assume inv: "capacity_inv c n m"
  have frame: "add_task tk (m'\<lparr>sm_registry := x\<rparr>) = (add_task tk m')\<lparr>sm_registry := x\<rparr>" for tk m' x by (simp add: add_task_def)
  show ?thesis
    using capacity_reserved_task [OF inv capacity_worker_ref [OF inv]] inv
    by (auto simp: create_target_def Let_def frame split: option.split)
qed

lemma shrinks_join_context [simp]: "shrinks m (join_context t b named m') = shrinks m m'"
  by (simp add: join_context_def split: option.split)

lemma shrinks_note_after: "shrinks m m' \<Longrightarrow> shrinks m (note_added s w t now m')"
  by (rule shrinks_trans [OF _ shrinks_note])

lemma capacity_target_opened:
  assumes k: "k < length (sm_tasks m)" and inv: "capacity_inv c n m"
  shows "capacity_inv c n (target_opened k r now m)"
proof (cases "sm_tasks m ! k")
  case (Opening s wr named st)
  note opened = capacity_opened [OF inv k this]
  show ?thesis
  proof (cases r)
    case (Some t)
    let ?m = "release_slot wr (add_target t wr (drop_task k m))"
    have "shrinks ?m (target_opened k r now m)"
      unfolding target_opened_def Opening Some by (simp add: settle_target_def mark_stealth_def) (intro conjI impI shrinks_note_after; simp add: shrinks_worker_active)
    then show ?thesis by (rule capacity_shrinks) (rule opened(2))
  qed (use opened(1) Opening in \<open>simp add: target_opened_def Let_def\<close>)
qed (use inv in \<open>simp_all add: target_opened_def\<close>)

lemma capacity_register_existing: "capacity_inv c n m \<Longrightarrow> capacity_inv c (Suc n) (snd (register_existing s w t now m))"
proof -
  assume inv: "capacity_inv c n m"
  have "capacity_inv c (Suc n) (note_added s w t now (snd (acquire_target_lease t s w None None now
          (set_owner t s w (worker_active wr now (add_target t wr m))))))" if "worker_ref m s w = Some wr" for wr
    by (rule capacity_shrinks [OF _ capacity_more [OF inv capacity_worker_ref [OF inv that], of t]])
      (rule shrinks_note_after, simp add: shrinks_worker_active)
  then show ?thesis using capacity_Suc [OF inv] by (simp add: register_existing_def split: option.split)
qed

lemma capacity_register_external:
  assumes inv: "capacity_inv c n m"
  shows "capacity_inv c n (snd (register_external t s w opts now m))"
proof -
  define added where "added = (\<lambda>wr. let m1 = set_owner t s w (worker_active wr now (add_target t wr m));
        m2 = (if eo_borrow opts = None then m1 else m1\<lparr>sm_borrowed := List.insert t (sm_borrowed m1)\<rparr>)
      in acquire_target_lease t s w None (eo_inherit opts) now m2)"
  have "shrinks (add_target t wr m) (snd (added wr))" for wr
    by (simp add: added_def Let_def shrinks_worker_active)
  moreover have "capacity_inv c n (add_target t wr m)"
    if "\<not> sc_max_targets (sm_config m) \<le> length (wo_targets (sm_workers m ! wr)) + wo_reserved (sm_workers m ! wr)" for wr
    by (rule capacity_add_target [OF inv]) (use that in auto)
  ultimately have added: "capacity_inv c n (snd (added wr))"
    if "\<not> sc_max_targets (sm_config m) \<le> length (wo_targets (sm_workers m ! wr)) + wo_reserved (sm_workers m ! wr)" for wr
    using that capacity_shrinks by blast
  have after: "capacity_inv c n (note_added s w t now m')" "capacity_inv c n (note_added s w t now (m'\<lparr>sm_contexts := a, sm_registry := b\<rparr>))"
    if "capacity_inv c n m'" for m' a b
    by (rule capacity_shrinks [OF _ that], rule shrinks_note_after, simp)+
  have tail: "capacity_inv c n (snd (case am of (ok, m3) \<Rightarrow> if \<not> ok then (Lease_conflict, m3)
      else (let m4 = (case inh of None \<Rightarrow> m3 | Some (b, name) \<Rightarrow>
              m3\<lparr>sm_contexts := jset t (b, name) (sm_contexts m3), sm_registry := increment_tabs b name (sm_registry m3)\<rparr>)
            in (Registered True, note_added s w t now m4))))"
    if "capacity_inv c n (snd am)" for am inh
    using that after [of "snd am"] by (auto simp: Let_def split: prod.split option.split)
  show ?thesis
    using added unfolding added_def Let_def
    by (auto simp: register_external_def Let_def inv intro!: tail split: option.split)
qed

lemma capacity_get_page: "capacity_inv c n m \<Longrightarrow> capacity_inv c n (snd (get_page s t w nav user now m))"
  by (auto simp: get_page_def Let_def intro: capacity_add_task intro!: capacity_shrink_task [where m' = "touch_session s now m\<lparr>sm_leases := x\<rparr>" for x]
      simp: shrinks_touch split: access.split)

lemma capacity_page_fetched: "k < length (sm_tasks m) \<Longrightarrow> capacity_inv c n m \<Longrightarrow> capacity_inv c n (page_fetched k alive now m)"
  using capacity_drop [of k m c n] by (auto simp: page_fetched_def Let_def intro: capacity_shrinks shrink split: task.split)

lemma capacity_target_recovered:
  assumes k: "k < length (sm_tasks m)" and inv: "capacity_inv c n m"
  shows "capacity_inv c (Suc n) (target_recovered k usable now m)"
proof (cases "sm_tasks m ! k")
  case (Recovering s t w)
  let ?m = "drop_task k m"
  have m: "capacity_inv c n ?m" by (rule capacity_drop [OF k inv])
  have "capacity_inv c (Suc n) (snd (acquire_target_lease t s w' None None now (set_owner t s w' (add_target t wr ?m)\<lparr>sm_leases := x\<rparr>)))"
    if "session_of ?m s = Some so" "jget (so_workers so) w' = Some wr" for so w' wr x
    by (rule capacity_shrinks [OF _ capacity_more [OF m capacity_worker_ref [OF m, of s w' wr], of t]])
      (use that in \<open>simp_all add: worker_ref_def\<close>)
  then show ?thesis using Recovering capacity_Suc [OF m] by (auto simp: target_recovered_def Let_def split: option.split)
qed (use capacity_Suc [OF inv] in \<open>simp_all add: target_recovered_def\<close>)

lemma capacity_ledger [simp]: "capacity_inv c n (m\<lparr>sm_ledger := x\<rparr>) = capacity_inv c n m"
  by (simp add: capacity_inv_def refs_ok_def)

lemma capacity_popup_begins: "capacity_inv c n m \<Longrightarrow> capacity_inv c n (popup_begins canon t opener st url title now m)"
  by (auto simp: popup_begins_def Let_def intro!: capacity_add_task split: option.split)

lemma capacity_popup_ends: "k < length (sm_tasks m) \<Longrightarrow> capacity_inv c n m \<Longrightarrow> capacity_inv c n (popup_ends k now m)"
  using capacity_drop [of k m c n] capacity_register_external [of c n "drop_task k m"]
  by (auto simp: popup_ends_def intro: capacity_shrinks [OF shrinks_on_target_closed] split: task.split prod.split external_answer.split bool.split)
     (metis capacity_shrinks shrinks_on_target_closed snd_conv)+

lemma capacity_close_target: "capacity_inv c n m \<Longrightarrow> capacity_inv c n (snd (close_target s t now m))"
  by (auto simp: close_target_def intro!: capacity_add_task split: option.split)

lemma capacity_target_closed: "k < length (sm_tasks m) \<Longrightarrow> capacity_inv c n m \<Longrightarrow> capacity_inv c n (target_closed k ok now m)"
proof (cases "sm_tasks m ! k")
  case (Closing s t w)
  assume "k < length (sm_tasks m)" "capacity_inv c n m"
  then have "capacity_inv c n (drop_task k m)" by (rule capacity_drop)
  moreover have "shrinks (drop_task k m) (target_closed k ok now m)"
    using Closing by (simp add: target_closed_def Let_def shrink split: option.split)
  ultimately show ?thesis by (rule capacity_shrinks [rotated])
qed (simp_all add: target_closed_def)

lemma capacity_sweep_session: "capacity_inv c n m \<Longrightarrow> capacity_inv c n (sweep_session s now max_age force m)"
  by (simp add: sweep_session_def capacity_delete_session split: option.split)

lemma capacity_leases [simp]: "capacity_inv c n (m\<lparr>sm_leases := x\<rparr>) = capacity_inv c n m" "capacity_inv c n (m\<lparr>sm_queues := y\<rparr>) = capacity_inv c n m"
  "capacity_inv c n (m\<lparr>sm_pending := z\<rparr>) = capacity_inv c n m"
  by (simp_all add: capacity_inv_def refs_ok_def)

lemma capacity_sweep_leases: "capacity_inv c n m \<Longrightarrow> capacity_inv c n (sweep_leases now m)"
  by (simp add: sweep_leases_def Let_def capacity_add_task split: prod.split)

lemma capacity_reclaim: "k < length (sm_tasks m) \<Longrightarrow> capacity_inv c n m \<Longrightarrow> capacity_inv c n (reclaim_next k now m)"
  using capacity_drop [of k m c n]
  by (auto simp: reclaim_next_def Let_def capacity_add_task capacity_close_target intro: capacity_shrinks [OF shrinks_release_borrowed]
      split: task.split list.split)

lemma shrinks_give_up: "shrinks m (give_up_target now m t)"
  by (simp add: give_up_target_def Let_def shrink)

lemma capacity_reconnect_failed: "capacity_inv c n m \<Longrightarrow> capacity_inv c n (reconnect_failed now m)"
  unfolding reconnect_failed_def by (rule capacity_shrinks) (rule shrinks_foldl, rule shrinks_give_up)

lemma capacity_reconcile_on: "capacity_inv c n m \<Longrightarrow> capacity_inv c n (reconcile_on rest alive untracked dead now m)"
proof (induction rest alive untracked dead now m rule: reconcile_on.induct)
  case (1 alive untracked dead now m)
  have "shrinks m (foldl (\<lambda>m t. on_target_closed t now m) m dead)" by (rule shrinks_foldl) (rule shrinks_on_target_closed)
  then show ?case using 1 by (simp add: Let_def capacity_add_task capacity_shrinks)
next
  case (2 t rest alive untracked dead now m)
  then show ?case by (auto simp: capacity_add_task capacity_shrinks [OF shrinks_on_target_closed] split: option.split)
qed

lemma capacity_reconnected: "capacity_inv c n m \<Longrightarrow> capacity_inv c n (reconnected targets now m)"
  by (simp add: reconnected_def Let_def capacity_reconcile_on)

lemma capacity_remap: "capacity_inv c n m \<Longrightarrow> capacity_inv c (Suc n) (remap_target t t' owner now m)"
proof -
  assume inv: "capacity_inv c n m"
  obtain s w where [simp]: "owner = (s, w)" by fastforce
  define m2 where "m2 = snd (acquire_target_lease t' s w None None now
    (m\<lparr>sm_owner := jset t' (s, w) (jdel t (sm_owner m)), sm_ledger := snd (remap_target_id t t' (sm_ledger m))\<rparr>))"
  have m2: "capacity_inv c n m2" by (rule capacity_shrinks [OF _ inv]) (simp add: m2_def)
  have "capacity_inv c (Suc n) (add_target t' wr (remove_target t wr m2))" if "worker_ref m2 s w = Some wr" for wr
    using capacity_more [OF capacity_shrinks [OF shrinks_remove_target m2]] capacity_worker_ref [OF m2 that]
    by (simp add: remove_target_def on_worker_def)
  then have "capacity_inv c (Suc n) (case worker_ref m2 s w of None \<Rightarrow> m2 | Some wr \<Rightarrow> add_target t' wr (remove_target t wr m2))"
    using capacity_Suc [OF m2] by (simp split: option.split)
  then show ?thesis by (rule capacity_shrinks [rotated]) (simp add: remap_target_def m2_def [symmetric] Let_def split: option.split)
qed

lemma capacity_reconcile_url:
  "k < length (sm_tasks m) \<Longrightarrow> capacity_inv c n m \<Longrightarrow> capacity_inv c (Suc n) (reconcile_url k url now m)"
  using capacity_drop [of k m c n] capacity_Suc [of c n m]
  by (auto simp: reconcile_url_def Let_def intro!: capacity_reconcile_on capacity_remap intro: capacity_Suc split: task.split option.split)

lemma capacity_indexed: "k < length (sm_tasks m) \<Longrightarrow> capacity_inv c n m \<Longrightarrow> capacity_inv c n (indexed k now m)"
  using capacity_drop [of k m c n] shrinks_foldl [of "\<lambda>m (_, (s, _)). touch_session s now m" "drop_task k m" "sm_owner m"]
  by (auto simp: indexed_def shrinks_touch intro: capacity_shrinks split: task.split prod.split)

lemma capacity_touch: "capacity_inv c n m \<Longrightarrow> capacity_inv c n (touch_session s now m)"
  by (rule capacity_shrinks [OF shrinks_touch])

section \<open>Runs\<close>

text \<open>The operations that add a target without looking at the limit.\<close>

definition beyond_limit :: "session_op \<Rightarrow> bool" where
  "beyond_limit op \<longleftrightarrow>
     (case op of Register_existing _ _ _ _ \<Rightarrow> True | Target_recovered _ _ _ \<Rightarrow> True | Reconcile_url _ _ _ \<Rightarrow> True | _ \<Rightarrow> False)"

lemma capacity_step: "capacity_inv c n m \<Longrightarrow> capacity_inv c (if beyond_limit op then Suc n else n) (session_step m op)"
proof (cases op)
  case (Run_exclusive s t now d a env)
  then show "capacity_inv c n m \<Longrightarrow> ?thesis" by (simp add: beyond_limit_def run_exclusive_def Let_def capacity_touch)
next
  case (Human_control_set s t held now)
  then show "capacity_inv c n m \<Longrightarrow> ?thesis" by (simp add: beyond_limit_def set_human_control_def capacity_inv_def refs_ok_def)
next
  case (Destroyed t now)
  then show "capacity_inv c n m \<Longrightarrow> ?thesis" by (simp add: beyond_limit_def capacity_shrinks [OF shrinks_on_target_closed])
next
  case (Release_borrowed s t now)
  then show "capacity_inv c n m \<Longrightarrow> ?thesis" by (simp add: beyond_limit_def capacity_shrinks [OF shrinks_release_borrowed])
next
  case (Get_session s tenant now)
  then show "capacity_inv c n m \<Longrightarrow> ?thesis"
    by (simp add: beyond_limit_def get_or_create_session_def capacity_touch capacity_add_task)
qed (simp_all add: beyond_limit_def capacity_creation capacity_room capacity_resolved capacity_create_worker capacity_worker_made
    capacity_delete_worker capacity_worker_goes_on capacity_delete_session capacity_session_goes_on capacity_create_target
    capacity_target_opened capacity_register_existing capacity_register_external capacity_get_page capacity_page_fetched
    capacity_target_recovered capacity_popup_begins capacity_popup_ends capacity_close_target capacity_target_closed
    capacity_sweep_session capacity_sweep_leases capacity_reclaim capacity_reconnect_failed capacity_reconnected
    capacity_reconcile_url capacity_indexed capacity_Suc create_session_def capacity_add_task pin_context_def unpin_context_def
    split: option.split prod.split)

lemma capacity_run: "capacity_inv c n m \<Longrightarrow> capacity_inv c (n + length (filter beyond_limit ops)) (foldl session_step m ops)"
proof (induction ops arbitrary: n m)
  case (Cons op ops)
  from Cons.IH [OF capacity_step [OF Cons.prems, of op]] show ?case by (simp split: if_splits)
qed simp

lemma capacity_new: "capacity_inv c 0 (new_session_manager c lg)"
  by (simp add: capacity_inv_def new_session_manager_def refs_ok_def)

text \<open>C31 (bounds). Under every interleaving of the manager's calls, closes, popups, sweeps and reconnects, the targets of a worker
  and the slots that pending creations hold exceed \<open>maxTargetsPerWorker\<close> by at most the number of registrations that do
  not look at it: \<open>registerExistingTarget\<close>, recoveries, and remappings after a reconnect. Without
  those, the limit holds at every moment, whatever awaits overlap.\<close>

theorem workers_keep_to_limit:
  assumes "wo \<in> set (sm_workers (foldl session_step (new_session_manager c lg) ops))"
  shows "length (wo_targets wo) + wo_reserved wo \<le> sc_max_targets c + length (filter beyond_limit ops)"
  using capacity_run [OF capacity_new [of c lg], of ops] assms by (auto simp: capacity_inv_def in_set_conv_nth)

text \<open>A run in which two creations race for the last slot: the second is refused.\<close>

definition demo_config :: session_config where
  "demo_config = \<lparr>sc_max_sessions = 2, sc_max_workers = 3, sc_max_targets = 1, sc_lease_ttl = 1000\<rparr>"

definition demo_ledger :: ledger where
  "demo_ledger = the (new_ledger 10)"

definition demo_session :: "string \<Rightarrow> session_op list" where
  "demo_session s = [Create_session s ''t'', Connected 0 True, Context_resolved 0 (Some None) 0]"

definition demo_race :: "session_op list" where
  "demo_race = demo_session ''a'' @ [Create_target ''a'' ''default'' None False [], Create_target ''a'' ''default'' None False [],
     Target_opened 0 (Some ''T'') 1]"

lemma demo_race_workers: "sm_workers (foldl session_step (new_session_manager demo_config demo_ledger) demo_race) =
    [\<lparr>wo_id = ''default'', wo_targets = [(''T'', 0)], wo_reserved = 0, wo_context = None, wo_activity = 1, wo_port = None\<rparr>]"
  by (simp cong: let_weak_cong add: opened_eval [where s = "''a''" and wr = 0 and named = None and st = False] demo_race_def demo_session_def demo_config_def manager_eval)

lemma workers_keep_to_limit_witness:
  "length (wo_targets \<lparr>wo_id = ''default'', wo_targets = [(''T'', 0)], wo_reserved = 0, wo_context = None, wo_activity = 1, wo_port = None\<rparr>)
     + wo_reserved \<lparr>wo_id = ''default'', wo_targets = [(''T'', 0)], wo_reserved = 0, wo_context = None, wo_activity = 1, wo_port = None\<rparr>
   \<le> sc_max_targets demo_config + length (filter beyond_limit demo_race)"
  by (rule workers_keep_to_limit [of _ _ demo_ledger]) (simp only: demo_race_workers list.set insert_iff simp_thms)

end
