(* ===== verification/Session_Races.thy ===== *)
theory Session_Races
  imports Session_Manager
begin

text \<open>
  What overlapping calls of the session manager do to its maps: concrete runs, evaluated. Each one shows that a condition
  under which the maps agree is needed.
\<close>

definition race_config :: session_config where
  "race_config = \<lparr>sc_max_sessions = 2, sc_max_workers = 3, sc_max_targets = 2, sc_lease_ttl = 1000\<rparr>"

definition race_run :: "session_op list \<Rightarrow> session_manager" where
  "race_run ops = foldl session_step (new_session_manager race_config (the (new_ledger 10))) ops"

definition opens_session :: "string \<Rightarrow> session_op list" where
  "opens_session s = [Create_session s ''t'', Connected 0 True, Context_resolved 0 (Some None) 0]"

lemmas race_eval = jkeep_def race_run_def opens_session_def race_config_def manager_eval

text \<open>A tab whose creation ends after its session was deleted has an owner and a lease, in a session that does not exist.\<close>

lemma creation_survives_session:
  "let m = race_run (opens_session ''a'' @ [Create_target ''a'' ''default'' None False [], Delete_session ''a'' 2, Session_goes_on 1 3,
       Target_opened 0 (Some ''T'') 4])
   in sm_sessions m = [] \<and> jget (sm_owner m) ''T'' = Some (''a'', ''default'') \<and> jhas (sm_leases m) ''T''"
  by (simp cong: let_weak_cong add: opened_eval [where s = "''a''" and wr = 0 and named = None and st = False] race_eval)

text \<open>Two overlapping creations of a worker with the same id: the tab of the first worker is owned by it, but no registered
  worker has it.\<close>

lemma worker_replaced:
  "let m = race_run (opens_session ''a'' @ [Create_worker ''a'' ''w'', Create_worker ''a'' ''w'', Worker_made 0 (Some (None, None)) 1,
       Create_target ''a'' ''w'' None False [], Worker_made 0 (Some (None, None)) 1, Target_opened 0 (Some ''T'') 4])
   in jget (sm_owner m) ''T'' = Some (''a'', ''w'') \<and> session_targets m ''a'' = []"
  by (simp cong: let_weak_cong add: opened_eval [where s = "''a''" and wr = 1 and named = None and st = False] race_eval)

text \<open>Two overlapping deletions of a session that is created again in between: the second one deletes the new session, whose
  tab keeps its owner.\<close>

lemma deletion_hits_new_session:
  "let m = race_run [Create_session ''a'' ''t'', Connected 0 True, Context_resolved 0 (Some (Some 7)) 0, Delete_session ''a'' 1, Delete_session ''a'' 1, Session_goes_on 0 2,
       Create_session ''a'' ''t'', Connected 1 True, Context_resolved 1 (Some None) 3,
       Create_target ''a'' ''default'' None False [], Target_opened 1 (Some ''T'') 4, Session_goes_on 0 5]
   in sm_sessions m = [] \<and> jget (sm_owner m) ''T'' = Some (''a'', ''default'')"
  by (simp cong: let_weak_cong add: opened_eval [where s = "''a''" and wr = 1 and named = None and st = False] race_eval)

text \<open>Creations that overlap all pass the check of the limit: three sessions where two are allowed.\<close>

lemma sessions_exceed_limit:
  "length (sm_sessions (race_run [Create_session ''a'' ''t'', Create_session ''b'' ''t'', Create_session ''c'' ''t'', Connected 0 True,
     Connected 0 True, Connected 0 True, Context_resolved 0 (Some None) 0, Context_resolved 0 (Some None) 0,
     Context_resolved 0 (Some None) 0])) = 3"
  by (simp cong: let_weak_cong add: race_eval)

text \<open>The deletion of a worker is noted under session and worker joined by a colon: while the worker \<open>c\<close> of the session \<open>a:b\<close> is
  being deleted, the worker \<open>b:c\<close> of the session \<open>a\<close> takes no popup.\<close>

lemma deletion_keys_collide: "deletion_key ''a:b'' ''c'' = deletion_key ''a'' ''b:c''"
  by (simp add: deletion_key_def)

text \<open>A recovery checks the owner before it awaits the page and not after: it takes a tab that another session has
  registered meanwhile, and the tab stays among the targets of both.\<close>

definition race_tabs :: "session_op list" where
  "race_tabs = opens_session ''a'' @ opens_session ''b'' @ [Create_target ''b'' ''default'' None False [], Target_opened 0 (Some ''S'') 1,
     Get_page ''b'' ''U'' None False False 5, Register_external ''U'' ''a'' ''default'' \<lparr>eo_borrow = None, eo_inherit = None, eo_opener = None\<rparr> 6]"

lemma recovery_takes_tab:
  "let m = race_run race_tabs; m' = session_step m (Target_recovered 0 True 7)
   in jget (sm_owner m) ''U'' = Some (''a'', ''default'') \<and> jget (sm_owner m') ''U'' = Some (''b'', ''default'') \<and>
      session_targets m' ''a'' = [''U''] \<and> session_targets m' ''b'' = [''S'', ''U'']"
  by (simp cong: let_weak_cong prod.case_cong_weak add: opened_eval [where s = "''b''" and wr = 1 and named = None and st = False]
      race_tabs_def race_eval)

text \<open>A named context is closed when its last tab is, even while another tab of it is being opened: the new tab is
  recorded in a context that is gone.\<close>

lemma first_keys [simp]: "context_key (Suc 0) ''work'' = [CHR ''b'', CHR ''1'', CHR 0x00] @ ''work''" "valid_context_name ''work''"
  by code_simp+

lemmas context_eval = context_get_or_create_def key_of_def browser_id_for_def context_created_def increment_tabs_def change_entry_def
  decrement_tabs_def destroy_if_unused_def maybe_destroy_def new_contexts_def default_context_name_def

definition race_contexts :: "session_op list" where
  "race_contexts = opens_session ''a'' @ [Create_target ''a'' ''default'' (Some ''work'') False [],
     Context_made ([CHR ''b'', CHR ''1'', CHR 0x00] @ ''work'') (Some 9) 1, Target_opened 0 (Some ''T'') 1,
     Create_target ''a'' ''default'' (Some ''work'') False [9], Destroyed ''T'' 2, Target_opened 0 (Some ''U'') 3]"

lemma context_closed_under_creation:
  "let m = race_run race_contexts
   in jget (sm_contexts m) ''U'' = Some (0, ''work'') \<and> nc_closed (sm_registry m) = [9] \<and> nc_entries (sm_registry m) = []"
  by (simp cong: let_weak_cong prod.case_cong_weak
      add: opened_eval [where s = "''a''" and wr = 0 and named = "Some ''work''" and st = False] race_contexts_def race_eval context_eval)

text \<open>A tab that comes back under another id after a reconnect loses its named context, which then never closes, and the hold of
  the human on it.\<close>

lemma remap_forgets_context_and_hold:
  "let m = race_run (opens_session ''a'' @ [Create_target ''a'' ''default'' (Some ''work'') False [],
       Context_made ([CHR ''b'', CHR ''1'', CHR 0x00] @ ''work'') (Some 9) 1, Target_opened 0 (Some ''T'') 1,
       Human_control_set ''a'' ''T'' True 2]);
     m' = remap_target ''T'' ''U'' (''a'', ''default'') 3 m
   in sm_held m = [''T''] \<and> page_access m' ''a'' ''U'' None True = Access_granted \<and> jget (sm_contexts m') ''U'' = None \<and>
      map (ce_tabs \<circ> snd) (nc_entries (sm_registry (on_target_closed ''U'' 4 m'))) = [1]"
  by (simp cong: let_weak_cong prod.case_cong_weak
      add: opened_eval [where s = "''a''" and wr = 0 and named = "Some ''work''" and st = False] race_eval context_eval)

text \<open>Registrations of existing targets pass the limit of two targets.\<close>

lemma registrations_exceed_limit:
  "map (length \<circ> wo_targets) (sm_workers (race_run (opens_session ''a'' @ map (\<lambda>t. Register_existing ''a'' ''default'' t 1) [''T'', ''U'', ''V'']))) = [3]"
  by (simp cong: let_weak_cong prod.case_cong_weak add: race_eval)

end
