(* ===== verification/Session_Owners.thy ===== *)
theory Session_Owners
  imports Session_Races
begin

text \<open>
  Who may act on a target. Most operations of the session manager either let targets go or give an owner to one that has
  none; the exceptions are named by \<open>takes_over\<close>. So a session reaches the target of another one only
  after that one has lost it.
\<close>

section \<open>Changes that only let targets go\<close>

definition lets_go :: "session_manager \<Rightarrow> session_manager \<Rightarrow> bool" where
  "lets_go m m' \<longleftrightarrow> (\<forall>t. jget (sm_owner m') t = jget (sm_owner m) t \<or> jget (sm_owner m') t = None)"

definition no_theft :: "string \<Rightarrow> session_manager \<Rightarrow> session_manager \<Rightarrow> bool" where
  "no_theft t m m' \<longleftrightarrow> (\<forall>own. jget (sm_owner m) t = Some own \<longrightarrow> jget (sm_owner m') t = Some own \<or> jget (sm_owner m') t = None)"

named_theorems go \<open>changes that only let targets go\<close>

lemma lets_go_refl [simp, intro]: "lets_go m m"
  by (simp add: lets_go_def)

lemma lets_go_trans: "lets_go m m1 \<Longrightarrow> lets_go m1 m2 \<Longrightarrow> lets_go m m2"
  unfolding lets_go_def by metis

lemma lets_go_foldl: "(\<And>m x. lets_go m (f m x)) \<Longrightarrow> lets_go m (foldl f m xs)"
  by (rule foldl_inv) (auto intro: lets_go_trans)

lemma lets_go_same: "sm_owner m' = sm_owner m \<Longrightarrow> lets_go m m'"
  by (simp add: lets_go_def)

lemma lets_go_owner: "lets_go m m1 \<Longrightarrow> sm_owner m2 = sm_owner m1 \<Longrightarrow> lets_go m m2"
  by (simp add: lets_go_def)

lemma no_theft_go: "lets_go m m' \<Longrightarrow> no_theft t m m'"
  unfolding lets_go_def no_theft_def by metis

lemma no_theft_refl [simp]: "no_theft t m m"
  by (simp add: no_theft_def)

text \<open>Most pieces leave the owners alone.\<close>

lemma owner_frame [simp]:
  "sm_owner (on_worker wr f m) = sm_owner m" "sm_owner (on_session sr g m) = sm_owner m" "sm_owner (emit ev m) = sm_owner m"
  "sm_owner (drop_task k m) = sm_owner m" "sm_owner (add_task tk m) = sm_owner m" "sm_owner (creation_over s d m) = sm_owner m"
  by (simp_all add: on_worker_def on_session_def emit_def drop_task_def add_task_def creation_over_def)

lemma owner_pieces [simp]:
  "sm_owner (touch_session s now m) = sm_owner m" "sm_owner (add_target t wr m) = sm_owner m" "sm_owner (remove_target t wr m) = sm_owner m"
  "sm_owner (worker_active wr now m) = sm_owner m" "sm_owner (release_slot wr m) = sm_owner m" "sm_owner (take_lease t s w c now m) = sm_owner m"
  "sm_owner (forget_context t m) = sm_owner m" "sm_owner (leave_worker s w t m) = sm_owner m" "sm_owner (mark_stealth st t m) = sm_owner m"
  "sm_owner (join_context t b named m) = sm_owner m" "sm_owner (install_session s tenant cx now m) = sm_owner m"
  "sm_owner (finish_worker wd m) = sm_owner m" "sm_owner (finish_session sr m) = sm_owner m"
  by (simp_all add: touch_session_def add_target_def remove_target_def worker_active_def release_slot_def take_lease_def forget_context_def
      leave_worker_def mark_stealth_def join_context_def install_session_def finish_worker_def finish_session_def Let_def
      split: option.split sum.split prod.split)

lemma owner_acquire [simp]: "sm_owner (snd (acquire_target_lease t s w c p now m)) = sm_owner m"
  by (simp add: acquire_target_lease_def split: option.split sum.split prod.split)

lemma owner_note [simp]: "sm_owner (note_added s w t now m) = sm_owner m"
  by (simp add: note_added_def)

lemma owner_set [simp]: "sm_owner (set_owner t s w m) = jset t (s, w) (sm_owner m)"
  by (simp add: set_owner_def)

lemma owner_reserve: "reserve_slot wr m = Some m' \<Longrightarrow> sm_owner m' = sm_owner m"
  by (auto simp: reserve_slot_def Let_def split: if_splits)

lemma owner_closed [simp]: "sm_owner (on_target_closed t now m) = jdel t (sm_owner m)"
  by (simp add: on_target_closed_def Let_def split: option.split prod.split)

lemma go_closed [go]: "lets_go m (on_target_closed t now m)"
  by (simp add: lets_go_def jm)

lemma go_borrowed [go]: "lets_go m (snd (release_borrowed s t now m))"
  by (simp add: release_borrowed_def go)

section \<open>Deletions\<close>

lemma go_next_close: "lets_go m (snd (next_close ts now wd m))"
proof (induction ts now wd m rule: next_close.induct)
  case (2 t stamp ts now wd m)
  then show ?case by (auto simp: Let_def split: if_splits intro: lets_go_trans [OF go_borrowed])
qed simp

lemma go_closing [go]: "sm_owner m = sm_owner m0 \<Longrightarrow> lets_go m0 (snd (go_on_closing now wd m))"
  using go_next_close [of m _ now wd] by (simp add: go_on_closing_def lets_go_def)

lemma go_page_closed [go]: "lets_go m (snd (page_closed now wd m))"
proof -
  have del: "lets_go m (m\<lparr>sm_owner := jdel t (sm_owner m), sm_leases := x\<rparr>)" for t x by (simp add: lets_go_def jm)
  then show ?thesis by (auto simp: page_closed_def intro!: lets_go_trans [OF del go_closing [OF refl]] split: option.split)
qed

lemma go_settle [go]: "lets_go m (snd wm) \<Longrightarrow> lets_go m (snd (settle_worker wm))"
  by (auto simp: settle_worker_def intro: lets_go_owner split: prod.split)

lemma go_deletion_step [go]: "lets_go m (snd (worker_deletion_step now wd m))"
  by (simp add: worker_deletion_step_def lets_go_same go)

lemma go_start_deletion [go]: "lets_go m (snd (start_worker_deletion sr w now m))"
proof -
  have go_on: "lets_go m (snd (go_on_closing now wd (m\<lparr>sm_deleting_workers := x\<rparr>)))" for wd x
    by (rule go_closing) simp
  have "lets_go m (snd (begin_worker_deletion sr w now m))"
    using go_on by (auto simp: begin_worker_deletion_def Let_def case_prod_beta split: option.split)
  then show ?thesis by (auto simp: start_worker_deletion_def intro: go_settle split: prod.split option.split)
qed

lemma go_note_deleted: "lets_go m (snd wm) \<Longrightarrow> lets_go m (note_worker_deleted s w wm)"
  by (auto simp: note_worker_deleted_def intro: lets_go_owner split: prod.split option.split)

lemma go_next_worker [go]: "lets_go m (next_worker sr now m)"
  by (auto simp: next_worker_def case_prod_beta lets_go_same intro: lets_go_owner [OF go_start_deletion] split: list.split)

lemma go_delete_session [go]: "lets_go m (delete_session s now m)"
proof -
  have "lets_go m (foldl (\<lambda>m t. if t \<in> set (sm_borrowed m) then snd (release_borrowed s t now m) else m) (m\<lparr>sm_deleting_sessions := x\<rparr>) ts)" for x ts
    by (rule lets_go_trans [OF lets_go_same lets_go_foldl]) (simp_all add: go)
  then show ?thesis by (auto simp: delete_session_def Let_def intro: lets_go_trans [OF _ go_next_worker] split: option.split)
qed

lemma go_session_goes_on [go]: "lets_go m (session_deletion_goes_on k now m)"
proof (cases "\<exists>sr wd. sm_tasks m ! k = Deleting_session sr (Some wd)")
  case True
  then obtain sr wd where task: "sm_tasks m ! k = Deleting_session sr (Some wd)" by blast
  obtain d m' where step: "worker_deletion_step now wd (drop_task k m) = (d, m')" by fastforce
  have "lets_go (drop_task k m) m'" using go_deletion_step [of "drop_task k m" now wd] step by simp
  then have "lets_go m m'" by (simp add: lets_go_def)
  then have "lets_go m (next_worker sr now m')" by (rule lets_go_trans [OF _ go_next_worker])
  with \<open>lets_go m m'\<close> show ?thesis using task step by (cases d) (simp_all add: session_deletion_goes_on_def lets_go_def)
next
  case False
  have "lets_go m (next_worker sr now (drop_task k m))" for sr by (rule lets_go_trans [OF lets_go_same go_next_worker]) simp
  with False show ?thesis by (auto simp: session_deletion_goes_on_def split: task.split option.split)
qed

section \<open>The other operations\<close>

lemma theft_register_external: "no_theft t m (snd (register_external t' s w opts now m))"
proof (cases "jget (sm_owner m) t'")
  case None
  define start where "start = set_owner t' s w"
  have fresh: "no_theft t m m'" if "sm_owner m' = sm_owner m \<or> sm_owner m' = jset t' (s, w) (sm_owner m)" for m'
    using that None by (auto simp: no_theft_def jm split: if_splits)
  show ?thesis
    by (rule fresh) (auto simp: register_external_def Let_def case_prod_beta split: option.split)
next
  case (Some own)
  then show ?thesis by (simp add: register_external_def split: prod.split)
qed

lemma theft_popup_ends: "no_theft t m (popup_ends k now m)"
proof (cases "sm_tasks m ! k")
  case (Popup t' s w opener)
  obtain a m' where r: "register_external t' s w \<lparr>eo_borrow = None, eo_inherit = Some opener, eo_opener = Some opener\<rparr> now (drop_task k m) = (a, m')"
    by fastforce
  then have "no_theft t (drop_task k m) m'" using theft_register_external by (metis snd_conv)
  then have "no_theft t m m'" by (simp add: no_theft_def)
  then have "no_theft t m m''" if "sm_owner m'' = sm_owner m' \<or> sm_owner m'' = jdel t' (sm_owner m')" for m''
    using that by (auto simp: no_theft_def jm split: if_splits)
  then show ?thesis
    using Popup r by (auto simp: popup_ends_def split: external_answer.split bool.split prod.split)
qed (simp_all add: popup_ends_def)

lemma go_target_closed [go]: "lets_go m (target_closed k ok now m)"
  by (auto simp: target_closed_def Let_def lets_go_def jm split: task.split option.split)

lemma go_close_target [go]: "lets_go m (snd (close_target s t now m))"
  by (auto simp: close_target_def lets_go_same split: option.split)

lemma go_reclaim [go]: "lets_go m (reclaim_next k now m)"
proof (cases "\<exists>l rest. sm_tasks m ! k = Reclaiming (l # rest)")
  case True
  then obtain l rest where task: "sm_tasks m ! k = Reclaiming (l # rest)" by blast
  let ?m = "(add_task (Reclaiming rest) (drop_task k m))\<lparr>sm_queues := cancel_target (ls_target l) (sm_queues (add_task (Reclaiming rest) (drop_task k m)))\<rparr>"
  have same: "lets_go m ?m" by (rule lets_go_same) simp
  show ?thesis using task same lets_go_trans [OF same go_borrowed] lets_go_trans [OF same go_close_target]
    by (simp add: reclaim_next_def Let_def)
next
  case False
  then show ?thesis by (auto simp: reclaim_next_def split: task.split list.split)
qed

lemma go_reconnect_failed [go]: "lets_go m (reconnect_failed now m)"
  unfolding reconnect_failed_def by (rule lets_go_foldl) (simp add: give_up_target_def Let_def lets_go_def jm)

lemma go_reconcile_on [go]: "lets_go m (reconcile_on rest alive untracked dead now m)"
proof (induction rest alive untracked dead now m rule: reconcile_on.induct)
  case (1 alive untracked dead now m)
  have "lets_go m (foldl (\<lambda>m t. on_target_closed t now m) m dead)" by (rule lets_go_foldl) (rule go_closed)
  then show ?case by (simp add: Let_def lets_go_owner)
next
  case (2 t rest alive untracked dead now m)
  then show ?case by (auto simp: lets_go_same intro: lets_go_trans [OF go_closed] split: option.split)
qed

lemma go_reconnected [go]: "lets_go m (reconnected targets now m)"
  by (auto simp: reconnected_def Let_def intro!: lets_go_trans [OF lets_go_same go_reconcile_on])

lemma go_sweep [go]: "lets_go m (sweep_session s now max_age force m)" "lets_go m (sweep_leases now m)"
  by (simp_all add: sweep_session_def sweep_leases_def go lets_go_same Let_def split: option.split prod.split)

lemma owner_indexed [simp]: "sm_owner (indexed k now m) = sm_owner m"
proof -
  have "sm_owner (foldl (\<lambda>m (_, s, _). touch_session s now m) m' xs) = sm_owner m'" for m' and xs :: "(string \<times> string \<times> string) list"
    by (induction xs arbitrary: m') auto
  then show ?thesis by (simp add: indexed_def split: task.split)
qed

lemma owner_others [simp]:
  "sm_owner (create_session s tenant m) = sm_owner m" "sm_owner (get_or_create_session s tenant now m) = sm_owner m"
  "sm_owner (connected k ok m) = sm_owner m" "sm_owner (room_made k n m) = sm_owner m" "sm_owner (context_resolved k r now m) = sm_owner m"
  "sm_owner (create_worker s w m) = sm_owner m" "sm_owner (worker_made k r' now m) = sm_owner m"
  "sm_owner (snd (get_page s t w' nav user now m)) = sm_owner m" "sm_owner (popup_begins canon t opener st url title now m) = sm_owner m"
  "sm_owner (snd (set_human_control s t held now m)) = sm_owner m" "sm_owner (snd (run_exclusive s t now d a env m)) = sm_owner m"
  "sm_owner (pin_context t m) = sm_owner m" "sm_owner (unpin_context t m) = sm_owner m"
  by (simp_all add: create_session_def get_or_create_session_def connected_def room_made_def context_resolved_def create_worker_def
      worker_made_def get_page_def popup_begins_def set_human_control_def run_exclusive_def pin_context_def unpin_context_def Let_def
      split: option.split prod.split task.split access.split)

lemma owner_create_target [simp]: "sm_owner (snd (create_target s w cx st known m)) = sm_owner m"
  by (auto simp: create_target_def Let_def dest!: owner_reserve split: option.split)

lemma go_page_fetched [go]: "lets_go m (page_fetched k alive now m)"
  by (auto simp: page_fetched_def Let_def lets_go_def jm split: task.split)

section \<open>Steps and runs\<close>

text \<open>The operations that give a target an owner without asking whether it has one. A page that was just opened should be new, a
  remapped target was unowned when the reconnect began.\<close>

definition takes_over :: "string \<Rightarrow> session_op \<Rightarrow> bool" where
  "takes_over t op \<longleftrightarrow>
     (case op of
        Register_existing _ _ t' _ \<Rightarrow> t' = t
      | Target_opened _ (Some t') _ \<Rightarrow> t' = t
      | Target_recovered _ _ _ \<Rightarrow> True
      | Reconcile_url _ _ _ \<Rightarrow> True
      | _ \<Rightarrow> False)"

lemma theft_opened: "r \<noteq> Some t \<Longrightarrow> no_theft t m (target_opened k r now m)"
  by (auto simp: target_opened_def settle_target_def no_theft_def jm split: task.split option.split)

lemma theft_register_existing: "t' \<noteq> t \<Longrightarrow> no_theft t m (snd (register_existing s w t' now m))"
  by (auto simp: register_existing_def no_theft_def jm split: option.split)

lemma theft_step: "\<not> takes_over t op \<Longrightarrow> no_theft t m (session_step m op)"
proof (cases op)
  case (Register_external t' s w opts now)
  then show ?thesis by (simp add: theft_register_external)
next
  case (Popup_ends k now)
  then show ?thesis by (simp add: theft_popup_ends)
next
  case (Target_opened k r now)
  then show "\<not> takes_over t op \<Longrightarrow> ?thesis" by (auto simp: takes_over_def theft_opened split: option.splits)
next
  case (Register_existing s w t' now)
  then show "\<not> takes_over t op \<Longrightarrow> ?thesis" by (simp add: takes_over_def theft_register_existing)
next
  case (Worker_goes_on k now)
  have "lets_go m (worker_deletion_goes_on k now m)"
    by (auto simp: worker_deletion_goes_on_def intro!: go_note_deleted lets_go_trans [OF lets_go_same go_deletion_step] split: task.split)
  then show ?thesis using Worker_goes_on by (simp add: no_theft_go)
next
  case (Delete_worker s w now)
  then show ?thesis by (auto simp: delete_worker_def intro!: no_theft_go go_note_deleted go_start_deletion split: option.split)
qed (auto simp: takes_over_def go lets_go_same intro!: no_theft_go)

lemma owner_until_release:
  assumes "jget (sm_owner m) t = Some own" "\<forall>op \<in> set ops. \<not> takes_over t op"
  shows "jget (sm_owner (foldl session_step m ops)) t = Some own \<or> (\<exists>k \<le> length ops. jget (sm_owner (foldl session_step m (take k ops))) t = None)"
  using assms
proof (induction ops arbitrary: m)
  case (Cons op ops)
  let ?m = "session_step m op"
  consider "jget (sm_owner ?m) t = None" | "jget (sm_owner ?m) t = Some own"
    using theft_step [of t op m] Cons.prems by (auto simp: no_theft_def)
  then show ?case
  proof cases
    case 1
    then show ?thesis by (intro disjI2 exI [of _ 1]) simp
  next
    case 2
    from Cons.IH [OF this] Cons.prems(2) show ?thesis
      by (auto intro: exI [of _ "Suc k" for k])
  qed
qed simp

text \<open>C30 (safety). A session reaches a target of another session, by fetching its page or by running a command on it, only after
  that session has lost the target: in every interleaving of the calls some moment in between has no owner for it. The exceptions
  are the calls that give a target an owner without asking whether it has one: the registration of an existing target, a creation
  whose new page has this very id, recoveries, and remappings after a reconnect.\<close>

theorem target_changes_hands_through_release:
  assumes "jget (sm_owner m) t = Some (s, w)" "\<forall>op \<in> set ops. \<not> takes_over t op" "s' \<noteq> s"
    and "fst (get_page s' t w' navigate user now (foldl session_step m ops)) = Access_granted \<or>
      fst (run_exclusive s' t now deadline aborted env (foldl session_step m ops))"
  shows "\<exists>k \<le> length ops. jget (sm_owner (foldl session_step m (take k ops))) t = None"
proof -
  have "jget (sm_owner (foldl session_step m ops)) t \<noteq> Some (s, w)"
    using assms(3,4) by (auto simp: get_page_def page_access_def run_exclusive_def validate_ownership_def Let_def split: if_splits)
  then show ?thesis using owner_until_release [OF assms(1,2)] by blast
qed

definition handed_over :: session_manager where
  "handed_over = race_run (opens_session ''a'' @ opens_session ''b'' @ [Create_target ''a'' ''default'' None False [], Target_opened 0 (Some ''T'') 1])"

definition hand_over :: "session_op list" where
  "hand_over = [Destroyed ''T'' 2, Register_external ''T'' ''b'' ''default'' \<lparr>eo_borrow = None, eo_inherit = None, eo_opener = None\<rparr> 3]"

lemma target_changes_hands_through_release_witness:
  "\<exists>k \<le> length hand_over. jget (sm_owner (foldl session_step handed_over (take k hand_over))) ''T'' = None"
proof (rule target_changes_hands_through_release [of _ _ "''a''" "''default''" _ "''b''" None False False 4])
  have a: "sm_owner handed_over = [(''T'', (''a'', ''default''))]"
    by (simp cong: let_weak_cong add: handed_over_def opened_eval [where s = "''a''" and wr = 0 and named = None and st = False] race_eval)
  then show "jget (sm_owner handed_over) ''T'' = Some (''a'', ''default'')" by simp
  have "jget (sm_owner (foldl session_step handed_over hand_over)) ''T'' = Some (''b'', ''default'')"
    by (simp cong: let_weak_cong prod.case_cong_weak
        add: hand_over_def handed_over_def opened_eval [where s = "''a''" and wr = 0 and named = None and st = False] race_eval)
  then show "fst (get_page ''b'' ''T'' None False False 4 (foldl session_step handed_over hand_over)) = Access_granted \<or>
      fst (run_exclusive ''b'' ''T'' 4 deadline aborted env (foldl session_step handed_over hand_over))" for deadline aborted env
    by (simp add: get_page_def page_access_def truthy_str_def)
qed (simp_all add: hand_over_def takes_over_def)

end
