(* ===== verification/Mrtr_State.thy ===== *)
theory Mrtr_State
  imports Js_Json "HOL-Library.List_Lexorder" "HOL-Library.Char_ord"
begin

text \<open>
  Multi-round-trip requests, \<open>src/src/mcp/mrtr-state.ts\<close> with its only caller \<open>requestClientFor\<close> of \<open>src/src/mcp/sdk-adapter.ts\<close>:
  a tool that needs an answer of the user ends its request with a question and a state, the client repeats the request
  with the state and its answers, and the tool runs again. The state travels through the client. SHA-256 is the
  argument \<open>hash\<close>. The codec that signs states is outside the sources: an event of a run carries the state that it verified,
  and \<open>codec_sound\<close> says what it is relied on for.
\<close>

section \<open>Canonical JSON\<close>

lemma member_size: "(k, v) \<in> set fs \<Longrightarrow> size v < Suc (size_list (size_prod (\<lambda>_. 0) size) fs)"
proof (induction fs)
  case (Cons f fs)
  then show ?case by (cases f) auto
qed simp

function canonical_json_text :: "jsvalue \<Rightarrow> string" where
  "canonical_json_text (JArr vs) = CHR ''['' # commas (map canonical_json_text vs) @ '']''"
| "canonical_json_text (JObj fs) = CHR ''{'' # commas (map (\<lambda>(k, v). json_string k @ CHR '':'' # canonical_json_text v)
      (sort_key fst (filter (\<lambda>(k, v). v \<noteq> JUndefined) fs))) @ ''}''"
| "canonical_json_text JUndefined = default_to ''null'' (stringify JUndefined)"
| "canonical_json_text JNull = default_to ''null'' (stringify JNull)"
| "canonical_json_text (JBool b) = default_to ''null'' (stringify (JBool b))"
| "canonical_json_text (JNum q) = default_to ''null'' (stringify (JNum q))"
| "canonical_json_text JNaN = default_to ''null'' (stringify JNaN)"
| "canonical_json_text (JInfinity s) = default_to ''null'' (stringify (JInfinity s))"
| "canonical_json_text (JStr s) = default_to ''null'' (stringify (JStr s))"
  by pat_completeness auto
termination
  by (relation "measure size") (auto simp: member_size less_Suc_eq_le size_list_estimation')

section \<open>States\<close>

record mrtr_state =
  ms_target :: string
  ms_args :: string
  ms_nonce :: string
  ms_pending :: "string list"
  ms_answers :: "(string, jsvalue) jmap"
  ms_digests :: "(string, string) jmap"

record mrtr_round =
  mr_target :: string
  mr_args :: string
  mr_answers :: "(string, jsvalue) jmap"
  mr_digests :: "(string, string) jmap"

definition input_request_digest :: "(string \<Rightarrow> string) \<Rightarrow> string \<Rightarrow> jsvalue option \<Rightarrow> string" where
  "input_request_digest hash meth params =
     hash (canonical_json_text (JObj [(''method'', JStr meth), (''params'', default_to (JObj []) params)]))"

definition param_field :: "jsvalue option \<Rightarrow> string \<Rightarrow> jsvalue" where
  "param_field params f = (case params of Some (JObj fs) \<Rightarrow> field fs f | _ \<Rightarrow> JUndefined)"

definition mrtr_target :: "(string \<Rightarrow> string) \<Rightarrow> string \<Rightarrow> jsvalue option \<Rightarrow> string \<times> string" where
  "mrtr_target hash meth params =
     (let name = (case as_string (param_field params ''name'') of
                    Some n \<Rightarrow> n
                  | None \<Rightarrow> default_to [] (as_string (param_field params ''uri'')));
          args = (if meth = ''tools/call''
                  then (if param_field params ''arguments'' \<in> {JUndefined, JNull} then JObj [] else param_field params ''arguments'')
                  else JObj [(''uri'', param_field params ''uri'')])
      in (meth @ '':'' @ name, hash (canonical_json_text args)))"

text \<open>The answer to a nonce, and the nonces that count as used afterwards.\<close>

definition consume_nonce :: "string \<Rightarrow> int \<Rightarrow> int \<Rightarrow> (string, int) jmap \<Rightarrow> bool \<times> (string, int) jmap" where
  "consume_nonce nonce ttl_seconds now consumed =
     (if nonce = [] then (False, consumed)
      else
        (let live = jkeep (\<lambda>_ expires. now < expires) consumed
         in if jhas live nonce then (False, live) else (True, jset nonce (now + ttl_seconds * 1000) live)))"

definition merge_responses :: "string list \<Rightarrow> (string, jsvalue) jmap \<Rightarrow> (string, jsvalue) jmap \<Rightarrow> (string, jsvalue) jmap" where
  "merge_responses pending responses answers =
     foldl (\<lambda>a k. case jget responses k of None \<Rightarrow> a | Some v \<Rightarrow> jset k v a) answers pending"

text \<open>The begin of a request; \<open>st\<close> is the state that the codec has verified, if there is one.\<close>

definition mrtr_begin ::
  "(string \<Rightarrow> string) \<Rightarrow> string \<Rightarrow> jsvalue option \<Rightarrow> mrtr_state option \<Rightarrow> (string, jsvalue) jmap \<Rightarrow> int \<Rightarrow> int \<Rightarrow> (string, int) jmap
   \<Rightarrow> mrtr_round \<times> (string, int) jmap" where
  "mrtr_begin hash meth params st responses ttl_seconds now consumed =
     (let (target, args) = mrtr_target hash meth params;
          round = \<lparr>mr_target = target, mr_args = args, mr_answers = [], mr_digests = []\<rparr>
      in case st of
           None \<Rightarrow> (round, consumed)
         | Some s \<Rightarrow>
             if ms_target s \<noteq> target \<or> ms_args s \<noteq> args then (round, consumed)
             else
               (let (fresh, consumed') = consume_nonce (ms_nonce s) ttl_seconds now consumed
                in if \<not> fresh then (round, consumed')
                   else (round\<lparr>mr_answers := merge_responses (ms_pending s) responses (ms_answers s), mr_digests := ms_digests s\<rparr>,
                         consumed')))"

definition answer_for :: "mrtr_round \<Rightarrow> string \<Rightarrow> string \<Rightarrow> jsvalue option \<times> mrtr_round" where
  "answer_for r key digest =
     (case jget (mr_answers r) key of
        None \<Rightarrow> (None, r)
      | Some v \<Rightarrow>
          if jget (mr_digests r) key = Some digest then (Some v, r)
          else (None, r\<lparr>mr_answers := jdel key (mr_answers r)\<rparr>))"

definition max_state_answer_bytes :: nat where "max_state_answer_bytes = 256 * 1024"

text \<open>\<open>None\<close> is the exception for answers that are too large.\<close>

definition mrtr_mint :: "string \<Rightarrow> mrtr_round \<Rightarrow> (string, string) jmap \<Rightarrow> mrtr_state option" where
  "mrtr_mint nonce r pending =
     (if max_state_answer_bytes < length (canonical_json_text (JObj (mr_answers r))) then None
      else Some \<lparr>ms_target = mr_target r, ms_args = mr_args r, ms_nonce = nonce, ms_pending = jkeys pending,
                 ms_answers = mr_answers r, ms_digests = foldl (\<lambda>d (k, v). jset k v d) (mr_digests r) pending\<rparr>)"

section \<open>Asking the client\<close>

definition alnum :: "char \<Rightarrow> bool" where
  "alnum c \<longleftrightarrow> (let n = of_char c :: nat in (65 \<le> n \<and> n \<le> 90) \<or> (97 \<le> n \<and> n \<le> 122) \<or> (48 \<le> n \<and> n \<le> 57))"

text \<open>Each run of other characters becomes one underscore; \<open>inside\<close> says whether the character before was one of them.\<close>

fun underscored :: "bool \<Rightarrow> string \<Rightarrow> string" where
  "underscored inside [] = []"
| "underscored inside (c # cs) =
     (if alnum c then c # underscored False cs else if inside then underscored True cs else CHR ''_'' # underscored True cs)"

definition input_key :: "nat \<Rightarrow> string \<Rightarrow> string" where
  "input_key ordinal meth = ''openchrome_'' @ dec ordinal @ ''_'' @ underscored False meth"

datatype ask_answer = Answered jsvalue | Input_required mrtr_state | Too_large | Unsupported

definition ask_client ::
  "(string \<Rightarrow> string) \<Rightarrow> nat \<Rightarrow> string \<Rightarrow> jsvalue option \<Rightarrow> string \<Rightarrow> mrtr_round \<Rightarrow> ask_answer \<times> mrtr_round" where
  "ask_client hash ordinal meth params nonce r =
     (let key = input_key ordinal meth; digest = input_request_digest hash meth params in
      case answer_for r key digest of
        (Some v, r') \<Rightarrow> (Answered v, r')
      | (None, r') \<Rightarrow>
          if meth \<notin> set [''sampling/createMessage'', ''elicitation/create'', ''roots/list''] then (Unsupported, r')
          else (case mrtr_mint nonce r' [(key, digest)] of
             None \<Rightarrow> (Too_large, r')
           | Some s \<Rightarrow> (Input_required s, r')))"

section \<open>Runs\<close>

record mrtr_world =
  mw_consumed :: "(string, int) jmap"
  mw_rounds :: "mrtr_round list"
  mw_minted :: "(mrtr_state \<times> int) list"

datatype mrtr_event =
    Begins string "jsvalue option" "mrtr_state option" "(string, jsvalue) jmap" int
  | Asks nat nat string "jsvalue option" string int

definition new_mrtr :: mrtr_world where
  "new_mrtr = \<lparr>mw_consumed = [], mw_rounds = [], mw_minted = []\<rparr>"

fun mrtr_step :: "(string \<Rightarrow> string) \<Rightarrow> int \<Rightarrow> mrtr_world \<Rightarrow> mrtr_event \<Rightarrow> mrtr_world" where
  "mrtr_step hash ttl w (Begins meth params st responses now) =
     (let (r, consumed) = mrtr_begin hash meth params st responses ttl now (mw_consumed w)
      in w\<lparr>mw_consumed := consumed, mw_rounds := mw_rounds w @ [r]\<rparr>)"
| "mrtr_step hash ttl w (Asks i ordinal meth params nonce now) =
     (if i < length (mw_rounds w) then
        (case ask_client hash ordinal meth params nonce (mw_rounds w ! i) of
           (a, r) \<Rightarrow> w\<lparr>mw_rounds := (mw_rounds w)[i := r],
                        mw_minted := (case a of Input_required s \<Rightarrow> mw_minted w @ [(s, now)] | _ \<Rightarrow> mw_minted w)\<rparr>)
      else w)"

definition mrtr_run :: "(string \<Rightarrow> string) \<Rightarrow> int \<Rightarrow> mrtr_event list \<Rightarrow> mrtr_world" where
  "mrtr_run hash ttl es = foldl (mrtr_step hash ttl) new_mrtr es"

section \<open>What the codec is relied on for\<close>

text \<open>A verified state was minted in this run, less than the time to live ago; \<open>randomUUID\<close> gives no nonce twice, nor an empty one.\<close>

definition codec_allows :: "int \<Rightarrow> mrtr_world \<Rightarrow> mrtr_event \<Rightarrow> bool" where
  "codec_allows ttl w e =
     (case e of
        Begins _ _ (Some s) _ now \<Rightarrow> list_ex (\<lambda>(s', minted). s' = s \<and> now < minted + ttl * 1000) (mw_minted w)
      | Begins _ _ None _ _ \<Rightarrow> True
      | Asks _ _ _ _ nonce _ \<Rightarrow> nonce \<noteq> [] \<and> nonce \<notin> set (map (ms_nonce \<circ> fst) (mw_minted w)))"

fun codec_sound :: "(string \<Rightarrow> string) \<Rightarrow> int \<Rightarrow> mrtr_world \<Rightarrow> mrtr_event list \<Rightarrow> bool" where
  "codec_sound hash ttl w [] = True"
| "codec_sound hash ttl w (e # es) = (codec_allows ttl w e \<and> codec_sound hash ttl (mrtr_step hash ttl w e) es)"

lemma codec_sound_append:
  "codec_sound hash ttl w (es @ fs) \<longleftrightarrow> codec_sound hash ttl w es \<and> codec_sound hash ttl (foldl (mrtr_step hash ttl) w es) fs"
  by (induction es arbitrary: w) auto

section \<open>Answers belong to their question\<close>

text \<open>In the run, a request for \<open>target\<close> and \<open>args\<close> brought the answer \<open>v\<close> for \<open>key\<close> with a state that was minted for the
  same target and arguments and asked \<open>key\<close> with this very digest.\<close>

definition given :: "(string \<Rightarrow> string) \<Rightarrow> mrtr_event list \<Rightarrow> string \<times> string \<Rightarrow> string \<Rightarrow> string \<Rightarrow> jsvalue \<Rightarrow> bool" where
  "given hash es request key digest v \<longleftrightarrow>
     (\<exists>meth params s responses now. Begins meth params (Some s) responses now \<in> set es \<and> mrtr_target hash meth params = request \<and>
        (ms_target s, ms_args s) = request \<and> key \<in> set (ms_pending s) \<and> jget (ms_digests s) key = Some digest \<and> jget responses key = Some v)"

lemma givenI:
  "Begins meth params (Some s) responses now \<in> set es \<Longrightarrow> mrtr_target hash meth params = request \<Longrightarrow> (ms_target s, ms_args s) = request \<Longrightarrow>
   key \<in> set (ms_pending s) \<Longrightarrow> jget (ms_digests s) key = Some digest \<Longrightarrow> jget responses key = Some v \<Longrightarrow> given hash es request key digest v"
  unfolding given_def by blast

lemma given_mono: "given hash es request key digest v \<Longrightarrow> given hash (es @ [e]) request key digest v"
  by (subst (asm) given_def) (auto intro: givenI)

definition answers_given :: "(string \<Rightarrow> string) \<Rightarrow> mrtr_event list \<Rightarrow> string \<times> string \<Rightarrow> (string, jsvalue) jmap \<Rightarrow> (string, string) jmap \<Rightarrow> bool" where
  "answers_given hash es request answers digests \<longleftrightarrow>
     (\<forall>key v digest. jget answers key = Some v \<longrightarrow> jget digests key = Some digest \<longrightarrow> given hash es request key digest v)"

lemma answers_given_empty [simp]: "answers_given hash es request [] digests"
  by (simp add: answers_given_def)

lemma answers_given_mono: "answers_given hash es request a d \<Longrightarrow> answers_given hash (es @ [e]) request a d"
  by (auto simp: answers_given_def intro: given_mono)

definition answers_inv :: "(string \<Rightarrow> string) \<Rightarrow> mrtr_event list \<Rightarrow> mrtr_world \<Rightarrow> bool" where
  "answers_inv hash es w \<longleftrightarrow>
     (\<forall>r \<in> set (mw_rounds w). answers_given hash es (mr_target r, mr_args r) (mr_answers r) (mr_digests r)) \<and>
     (\<forall>(s, m) \<in> set (mw_minted w). answers_given hash es (ms_target s, ms_args s) (ms_answers s) (ms_digests s))"

lemma merged_from:
  "jget (merge_responses pending responses answers) key = Some v \<Longrightarrow>
   key \<in> set pending \<and> jget responses key = Some v \<or> jget answers key = Some v"
  unfolding merge_responses_def
proof (induction pending arbitrary: answers)
  case (Cons k pending)
  let ?a = "case jget responses k of None \<Rightarrow> answers | Some v \<Rightarrow> jset k v answers"
  from Cons.IH [of ?a] Cons.prems have "key \<in> set pending \<and> jget responses key = Some v \<or> jget ?a key = Some v" by simp
  then show ?case by (auto simp: jm split: option.splits if_splits)
qed simp

lemma begin_given:
  assumes "\<And>s. st = Some s \<Longrightarrow> answers_given hash es (ms_target s, ms_args s) (ms_answers s) (ms_digests s)"
    and "mrtr_begin hash meth params st responses ttl now consumed = (r, consumed')"
  shows "answers_given hash (es @ [Begins meth params st responses now]) (mr_target r, mr_args r) (mr_answers r) (mr_digests r)"
    "(mr_target r, mr_args r) = mrtr_target hash meth params"
proof -
  show target: "(mr_target r, mr_args r) = mrtr_target hash meth params"
    using assms(2) by (auto simp: mrtr_begin_def Let_def split: prod.splits option.splits if_splits)
  show "answers_given hash (es @ [Begins meth params st responses now]) (mr_target r, mr_args r) (mr_answers r) (mr_digests r)"
  proof (cases "mr_answers r = []")
    case False
    then obtain s where s: "st = Some s" "(ms_target s, ms_args s) = mrtr_target hash meth params"
      "mr_answers r = merge_responses (ms_pending s) responses (ms_answers s)" "mr_digests r = ms_digests s"
      using assms(2) by (auto simp: mrtr_begin_def Let_def split: prod.splits option.splits if_splits)
    have "given hash (es @ [Begins meth params st responses now]) (mr_target r, mr_args r) key digest v"
      if "jget (mr_answers r) key = Some v" "jget (ms_digests s) key = Some digest" for key v digest
    proof (cases "key \<in> set (ms_pending s) \<and> jget responses key = Some v")
      case True
      then show ?thesis using s(1,2) target that(2) by (auto intro: givenI)
    next
      case False
      then have "jget (ms_answers s) key = Some v" using merged_from [of "ms_pending s" responses "ms_answers s" key v] that(1) s(3) by auto
      then have "given hash es (ms_target s, ms_args s) key digest v" using assms(1) [OF s(1)] that(2) by (simp add: answers_given_def)
      then show ?thesis using given_mono s(2) target by metis
    qed
    then show ?thesis using s(4) by (simp add: answers_given_def)
  qed simp
qed

lemma answer_for_missing: "answer_for r key digest = (None, r') \<Longrightarrow> jget (mr_answers r') key = None"
  by (auto simp: answer_for_def jm split: option.splits if_splits)

lemma answer_for_frame:
  "answer_for r key digest = (a, r') \<Longrightarrow>
   mr_target r' = mr_target r \<and> mr_args r' = mr_args r \<and> mr_digests r' = mr_digests r \<and> (jget (mr_answers r') k = Some v \<longrightarrow> jget (mr_answers r) k = Some v)"
  by (auto simp: answer_for_def jm split: option.splits if_splits)

lemma ask_given:
  assumes "answers_given hash es (mr_target r, mr_args r) (mr_answers r) (mr_digests r)" "ask_client hash ordinal meth params nonce r = (a, r')"
  shows "answers_given hash es (mr_target r', mr_args r') (mr_answers r') (mr_digests r')"
    "a = Input_required s \<Longrightarrow> answers_given hash es (ms_target s, ms_args s) (ms_answers s) (ms_digests s) \<and> ms_nonce s = nonce"
proof -
  let ?key = "input_key ordinal meth" and ?digest = "input_request_digest hash meth params"
  obtain b r1 where b: "answer_for r ?key ?digest = (b, r1)" by fastforce
  then have r': "r' = r1" using assms(2) by (auto simp: ask_client_def Let_def split: option.splits if_splits)
  note frame = answer_for_frame [OF b]
  have 1: "answers_given hash es (mr_target r1, mr_args r1) (mr_answers r1) (mr_digests r1)"
    using assms(1) frame by (simp add: answers_given_def)
  then show "answers_given hash es (mr_target r', mr_args r') (mr_answers r') (mr_digests r')" by (simp add: r')
  assume "a = Input_required s"
  then have m: "b = None" "mrtr_mint nonce r1 [(?key, ?digest)] = Some s"
    using assms(2) b by (auto simp: ask_client_def Let_def split: option.splits if_splits)
  then have s: "ms_target s = mr_target r1" "ms_args s = mr_args r1" "ms_answers s = mr_answers r1" "ms_nonce s = nonce"
    "ms_digests s = jset ?key ?digest (mr_digests r1)"
    by (auto simp: mrtr_mint_def split: if_splits)
  have "jget (mr_answers r1) ?key = None" using answer_for_missing b m(1) by blast
  then show "answers_given hash es (ms_target s, ms_args s) (ms_answers s) (ms_digests s) \<and> ms_nonce s = nonce"
    using 1 by (auto simp: s answers_given_def jm)
qed

lemma step_answers:
  assumes "codec_allows ttl w e" "answers_inv hash es w"
  shows "answers_inv hash (es @ [e]) (mrtr_step hash ttl w e)"
proof (cases e)
  case (Begins meth params st responses now)
  obtain r c where b: "mrtr_begin hash meth params st responses ttl now (mw_consumed w) = (r, c)" by fastforce
  have "answers_given hash es (ms_target s, ms_args s) (ms_answers s) (ms_digests s)" if "st = Some s" for s
    using assms that Begins by (fastforce simp: codec_allows_def list_ex_iff answers_inv_def)
  from begin_given(1) [OF this b] show ?thesis
    using assms(2) b Begins by (auto simp: answers_inv_def intro: answers_given_mono)
next
  case (Asks i ordinal meth params nonce now)
  show ?thesis
  proof (cases "i < length (mw_rounds w)")
    case True
    let ?r = "mw_rounds w ! i"
    obtain a r' where a: "ask_client hash ordinal meth params nonce ?r = (a, r')" by fastforce
    have "answers_given hash es (mr_target ?r, mr_args ?r) (mr_answers ?r) (mr_digests ?r)"
      using assms(2) True by (simp add: answers_inv_def)
    note given = ask_given [OF this a]
    have "answers_given hash (es @ [e]) (mr_target r, mr_args r) (mr_answers r) (mr_digests r)"
      if "r \<in> set ((mw_rounds w)[i := r'])" for r
      using that given(1) assms(2) set_update_subset_insert [of "mw_rounds w" i r']
      by (auto simp: answers_inv_def intro!: answers_given_mono)
    moreover have "answers_given hash (es @ [e]) (ms_target s, ms_args s) (ms_answers s) (ms_digests s)" if "a = Input_required s" for s
      using given(2) [OF that] by (simp add: answers_given_mono)
    ultimately show ?thesis
      using assms(2) True a Asks by (cases a) (auto simp: answers_inv_def intro: answers_given_mono)
  next
    case False
    then show ?thesis using assms(2) Asks by (auto simp: answers_inv_def intro: answers_given_mono)
  qed
qed

lemma run_answers: "codec_sound hash ttl new_mrtr es \<Longrightarrow> answers_inv hash es (mrtr_run hash ttl es)"
proof (induction es rule: rev_induct)
  case (snoc e es)
  then have "codec_allows ttl (mrtr_run hash ttl es) e" "answers_inv hash es (mrtr_run hash ttl es)"
    by (simp_all add: codec_sound_append mrtr_run_def)
  then show ?case using step_answers by (simp add: mrtr_run_def)
qed (simp add: mrtr_run_def new_mrtr_def answers_inv_def)

text \<open>The requests of a run, in the order in which they open rounds.\<close>

definition requests :: "(string \<Rightarrow> string) \<Rightarrow> mrtr_event list \<Rightarrow> (string \<times> string) list" where
  "requests hash es = concat (map (\<lambda>e. case e of Begins meth params _ _ _ \<Rightarrow> [mrtr_target hash meth params] | _ \<Rightarrow> []) es)"

lemma run_requests: "map (\<lambda>r. (mr_target r, mr_args r)) (mw_rounds (mrtr_run hash ttl es)) = requests hash es"
proof (induction es rule: rev_induct)
  case (snoc e es)
  let ?w = "mrtr_run hash ttl es"
  show ?case
  proof (cases e)
    case (Begins meth params st responses now)
    obtain r c where "mrtr_begin hash meth params st responses ttl now (mw_consumed ?w) = (r, c)" by fastforce
    with begin_given(2) [OF _ this] this snoc Begins show ?thesis
      by (cases st) (simp_all add: mrtr_run_def requests_def mrtr_begin_def Let_def split: prod.splits if_splits, auto)
  next
    case (Asks i ordinal meth params nonce now)
    obtain a r where a: "ask_client hash ordinal meth params nonce (mw_rounds ?w ! i) = (a, r)" by fastforce
    have "mr_target r = mr_target (mw_rounds ?w ! i) \<and> mr_args r = mr_args (mw_rounds ?w ! i)"
      using a answer_for_frame by (fastforce simp: ask_client_def Let_def split: option.splits prod.splits if_splits)
    then have "map (\<lambda>r. (mr_target r, mr_args r)) ((mw_rounds ?w)[i := r]) = map (\<lambda>r. (mr_target r, mr_args r)) (mw_rounds ?w)" if "i < length (mw_rounds ?w)"
      using that by (simp add: map_update list_update_same_conv)
    then show ?thesis using snoc a Asks by (simp add: mrtr_run_def requests_def)
  qed
qed (simp add: mrtr_run_def new_mrtr_def requests_def)


definition mrtr_demo_call :: "jsvalue option" where
  "mrtr_demo_call = Some (JObj [(''name'', JStr ''cookies''), (''arguments'', JObj [(''action'', JStr ''clear'')])])"

definition mrtr_demo_question :: "jsvalue option" where
  "mrtr_demo_question = Some (JObj [(''message'', JStr ''clear 5 cookies?'')])"

definition mrtr_demo_hash :: "string \<Rightarrow> string" where
  "mrtr_demo_hash s = take 6 (rev s)"

definition mrtr_demo_state :: mrtr_state where
  "mrtr_demo_state = \<lparr>ms_target = ''tools/call:cookies'', ms_args = [CHR ''}'', CHR 0x22] @ ''rael'', ms_nonce = ''n1'', ms_pending = [''openchrome_1_elicitation_create''],
     ms_answers = [], ms_digests = [(''openchrome_1_elicitation_create'', [CHR ''}'', CHR ''}'', CHR 0x22] @ ''?se'')]\<rparr>"

definition mrtr_demo_rounds :: "mrtr_event list" where
  "mrtr_demo_rounds = [Begins ''tools/call'' mrtr_demo_call None [] 0, Asks 0 1 ''elicitation/create'' mrtr_demo_question ''n1'' 1,
     Begins ''tools/call'' mrtr_demo_call (Some mrtr_demo_state) [(''openchrome_1_elicitation_create'', JBool True)] 2]"

lemma dec_one [simp]: "dec (Suc 0) = ''1''"
  by code_simp

lemmas mrtr_eval = mrtr_run_def new_mrtr_def mrtr_begin_def mrtr_target_def param_field_def as_string_def field_def mrtr_demo_call_def mrtr_demo_question_def
  mrtr_demo_rounds_def mrtr_demo_state_def mrtr_demo_hash_def ask_client_def answer_for_def mrtr_mint_def input_request_digest_def input_key_def
  max_state_answer_bytes_def jkeys_def json_string_def quote_char_def alnum_def Let_def stringify_def codec_allows_def requests_def
  consume_nonce_def jkeep_def jhas_def merge_responses_def


section \<open>States are used once\<close>

text \<open>The nonce of the state that the begin of a request accepts.\<close>

definition accepted :: "(string \<Rightarrow> string) \<Rightarrow> int \<Rightarrow> mrtr_world \<Rightarrow> mrtr_event \<Rightarrow> string list" where
  "accepted hash ttl w e =
     (case e of
        Begins meth params (Some s) _ now \<Rightarrow>
          (if (ms_target s, ms_args s) = mrtr_target hash meth params \<and> fst (consume_nonce (ms_nonce s) ttl now (mw_consumed w)) then [ms_nonce s] else [])
      | _ \<Rightarrow> [])"

fun used_nonces :: "(string \<Rightarrow> string) \<Rightarrow> int \<Rightarrow> mrtr_world \<Rightarrow> mrtr_event list \<Rightarrow> string list" where
  "used_nonces hash ttl w [] = []"
| "used_nonces hash ttl w (e # es) = accepted hash ttl w e @ used_nonces hash ttl (mrtr_step hash ttl w e) es"

lemma not_accepted_empty:
  "accepted hash ttl w (Begins meth params st responses now) = [] \<Longrightarrow>
   mr_answers (fst (mrtr_begin hash meth params st responses ttl now (mw_consumed w))) = []"
  by (auto simp: accepted_def mrtr_begin_def Let_def split: option.splits prod.splits if_splits)

definition event_time :: "mrtr_event \<Rightarrow> int" where
  "event_time e = (case e of Begins _ _ _ _ now \<Rightarrow> now | Asks _ _ _ _ _ now \<Rightarrow> now)"

definition once_inv :: "int \<Rightarrow> string set \<Rightarrow> int \<Rightarrow> mrtr_world \<Rightarrow> bool" where
  "once_inv ttl used before w \<longleftrightarrow> jwf (mw_consumed w) \<and> distinct (map (ms_nonce \<circ> fst) (mw_minted w)) \<and>
     used \<subseteq> set (map (ms_nonce \<circ> fst) (mw_minted w)) \<and>
     (\<forall>(s, m) \<in> set (mw_minted w). m \<le> before \<and> (ms_nonce s \<in> used \<longrightarrow>
        m + ttl * 1000 \<le> before \<or> (\<exists>expires. jget (mw_consumed w) (ms_nonce s) = Some expires \<and> m + ttl * 1000 \<le> expires)))"

lemma once_minted:
  "once_inv ttl used before w \<Longrightarrow> (s, m) \<in> set (mw_minted w) \<Longrightarrow> m \<le> before \<and> (ms_nonce s \<in> used \<longrightarrow>
     m + ttl * 1000 \<le> before \<or> (\<exists>expires. jget (mw_consumed w) (ms_nonce s) = Some expires \<and> m + ttl * 1000 \<le> expires))"
  by (auto simp: once_inv_def)

lemma same_nonce:
  "distinct (map (ms_nonce \<circ> fst) minted) \<Longrightarrow> (s, m) \<in> set minted \<Longrightarrow> (s', m') \<in> set minted \<Longrightarrow> ms_nonce s = ms_nonce s' \<Longrightarrow> s = s' \<and> m = m'"
  by (auto simp: distinct_map dest: inj_onD [of "ms_nonce \<circ> fst" _ "(s, m)" "(s', m')"])

lemma once_rounds [simp]: "once_inv ttl used before (w\<lparr>mw_rounds := x\<rparr>) = once_inv ttl used before w"
  by (simp add: once_inv_def)

lemma once_later: "once_inv ttl used before w \<Longrightarrow> before \<le> now \<Longrightarrow> once_inv ttl used now w"
  by (fastforce simp: once_inv_def)

lemma consume_state: "mw_consumed (mrtr_step hash ttl w (Begins meth params (Some s) responses now)) =
   (if (ms_target s, ms_args s) = mrtr_target hash meth params then snd (consume_nonce (ms_nonce s) ttl now (mw_consumed w)) else mw_consumed w)"
  by (auto simp: mrtr_begin_def Let_def split: prod.splits)

lemma consume_keeps:
  "jwf consumed \<Longrightarrow> jget consumed k = Some e \<Longrightarrow> e \<le> now \<or> (k = n \<and> fst (consume_nonce n ttl now consumed)) \<or> jget (snd (consume_nonce n ttl now consumed)) k = Some e"
  by (auto simp: consume_nonce_def Let_def jm)

lemma step_once:
  assumes inv: "once_inv ttl used before w" and ok: "codec_allows ttl w e" and time: "before \<le> event_time e"
  shows "set (accepted hash ttl w e) \<inter> used = {}" "distinct (accepted hash ttl w e)"
    "once_inv ttl (used \<union> set (accepted hash ttl w e)) (event_time e) (mrtr_step hash ttl w e)"
proof -
  show "distinct (accepted hash ttl w e)" by (auto simp: accepted_def split: mrtr_event.split option.split)
  have "set (accepted hash ttl w e) \<inter> used = {} \<and> once_inv ttl (used \<union> set (accepted hash ttl w e)) (event_time e) (mrtr_step hash ttl w e)"
  proof (cases e)
    case (Asks i ordinal meth params nonce now)
    obtain a r where a: "ask_client hash ordinal meth params nonce (mw_rounds w ! i) = (a, r)" by fastforce
    have fresh: "ms_nonce s = nonce" if "a = Input_required s" for s
      using a that by (auto simp: ask_client_def mrtr_mint_def Let_def split: option.splits prod.splits if_splits)
    show ?thesis
      using inv ok time Asks a fresh
      by (cases a) (auto simp: once_inv_def accepted_def codec_allows_def event_time_def intro: order_trans)
  next
    case (Begins meth params st responses now)
    show ?thesis
    proof (cases "\<exists>s. st = Some s \<and> (ms_target s, ms_args s) = mrtr_target hash meth params")
      case False
      then have "mrtr_step hash ttl w e = w\<lparr>mw_rounds := mw_rounds (mrtr_step hash ttl w e)\<rparr>" "accepted hash ttl w e = []"
        using Begins by (auto simp: mrtr_begin_def accepted_def Let_def split: prod.splits option.splits)
      moreover from this(1) have "once_inv ttl used (event_time e) (mrtr_step hash ttl w e)"
        by (rule ssubst [where P = "once_inv ttl used (event_time e)"]) (use once_later [OF inv time] in simp)
      ultimately show ?thesis by simp
    next
      case True
      then obtain s where s: "st = Some s" "(ms_target s, ms_args s) = mrtr_target hash meth params" by blast
      let ?n = "ms_nonce s" and ?c = "mw_consumed w"
      obtain m where m: "(s, m) \<in> set (mw_minted w)" "now < m + ttl * 1000"
        using ok Begins s(1) by (auto simp: codec_allows_def list_ex_iff)
      have before: "before \<le> now" using time Begins by (simp add: event_time_def)
      have wf: "jwf ?c" and dist: "distinct (map (ms_nonce \<circ> fst) (mw_minted w))" using inv by (simp_all add: once_inv_def)
      have new: "?n \<notin> used" if "fst (consume_nonce ?n ttl now ?c)"
        using once_minted [OF inv m(1)] m(2) before that wf by (auto simp: consume_nonce_def Let_def jhas_def jm split: if_splits)
      have acc: "accepted hash ttl w e = (if fst (consume_nonce ?n ttl now ?c) then [?n] else [])"
        using Begins s by (simp add: accepted_def)
      have minted: "mw_minted (mrtr_step hash ttl w e) = mw_minted w" using Begins by (simp add: Let_def split: prod.split)
      have consumed: "mw_consumed (mrtr_step hash ttl w e) = snd (consume_nonce ?n ttl now ?c)"
        using Begins s consume_state [of hash ttl w meth params s responses now] by simp
      have "m' \<le> now \<and> (ms_nonce s' \<in> used \<union> set (accepted hash ttl w e) \<longrightarrow> m' + ttl * 1000 \<le> now \<or>
          (\<exists>expires. jget (snd (consume_nonce ?n ttl now ?c)) (ms_nonce s') = Some expires \<and> m' + ttl * 1000 \<le> expires))"
        if s': "(s', m') \<in> set (mw_minted w)" for s' m'
      proof (cases "ms_nonce s' = ?n \<and> fst (consume_nonce ?n ttl now ?c)")
        case True
        then have "m' = m" using same_nonce [OF dist s' m(1)] by simp
        then show ?thesis using True once_minted [OF inv m(1)] before by (auto simp: consume_nonce_def Let_def jm split: if_splits)
      next
        case False
        show ?thesis
          using once_minted [OF inv s'] before False acc consume_keeps [OF wf, of "ms_nonce s'" _ now ?n ttl] by (auto split: if_splits)
      qed
      moreover have "jwf (snd (consume_nonce ?n ttl now ?c))" using wf by (auto simp: consume_nonce_def Let_def)
      moreover have "?n \<in> (\<lambda>x. ms_nonce (fst x)) ` set (mw_minted w)" using m(1) by force
      ultimately have "once_inv ttl (used \<union> set (accepted hash ttl w e)) now (mrtr_step hash ttl w e)"
        using inv m(1) by (auto simp: once_inv_def minted consumed acc split: if_splits)
      then show ?thesis using new acc Begins by (auto simp: event_time_def split: if_splits)
    qed
  qed
  then show "set (accepted hash ttl w e) \<inter> used = {}" "once_inv ttl (used \<union> set (accepted hash ttl w e)) (event_time e) (mrtr_step hash ttl w e)"
    by simp_all
qed

lemma used_once:
  assumes "once_inv ttl used before w" "codec_sound hash ttl w es" "sorted (before # map event_time es)"
  shows "distinct (used_nonces hash ttl w es) \<and> set (used_nonces hash ttl w es) \<inter> used = {}"
  using assms
proof (induction es arbitrary: w used before)
  case (Cons e es)
  have e: "codec_allows ttl w e" "before \<le> event_time e" using Cons.prems(2,3) by simp_all
  note step = step_once [OF Cons.prems(1) e]
  have "codec_sound hash ttl (mrtr_step hash ttl w e) es" "sorted (event_time e # map event_time es)" using Cons.prems(2,3) by simp_all
  from Cons.IH [OF step(3) this] step(1,2) show ?case by auto
qed simp

text \<open>C33 (safety). No state is used twice: whatever states the client repeats and in whatever order, the nonces that requests accept
  are distinct (and a request that does not accept its state starts without answers, \<open>not_accepted_empty\<close>). The memory of used
  nonces, which forgets them after the time to live, is long enough for that, since the codec refuses a state once its own
  time is over.\<close>

theorem states_are_used_once:
  assumes "codec_sound hash ttl new_mrtr es" "sorted (map event_time es)"
  shows "distinct (used_nonces hash ttl new_mrtr es)"
proof -
  have "\<exists>before. sorted (before # map event_time es)"
    using assms(2) by (cases es) (auto intro: exI [of _ "event_time (hd es)"])
  then obtain before where "sorted (before # map event_time es)" ..
  moreover have "once_inv ttl {} before new_mrtr" by (simp add: once_inv_def new_mrtr_def)
  ultimately show ?thesis using used_once [of ttl "{}"] assms(1) by blast
qed

lemma states_are_used_once_witness:
  "distinct (used_nonces mrtr_demo_hash 600 new_mrtr (mrtr_demo_rounds @ [Begins ''tools/call'' mrtr_demo_call (Some mrtr_demo_state) [] 3]))"
proof (rule states_are_used_once)
  show "codec_sound mrtr_demo_hash 600 new_mrtr (mrtr_demo_rounds @ [Begins ''tools/call'' mrtr_demo_call (Some mrtr_demo_state) [] 3])"
    by (simp cong: let_weak_cong prod.case_cong_weak add: mrtr_eval)
qed (simp add: mrtr_demo_rounds_def event_time_def)

end
