(* ===== verification/Canonical_Json.thy ===== *)
theory Canonical_Json
  imports Mrtr_State
begin

text \<open>
  What the canonical text of arguments and questions distinguishes. \<open>same_json\<close> compares two values member by member, without regard
  to the order of members; the texts are equal exactly when the values are the same in this sense. So the hash that
  binds a state of \<open>Mrtr_State\<close> to its arguments tells apart what should be, and only that.
\<close>

section \<open>Equality up to the order of members\<close>

function same_json :: "jsvalue \<Rightarrow> jsvalue \<Rightarrow> bool" where
  "same_json (JArr vs) w = (case w of JArr ws \<Rightarrow> length vs = length ws \<and> (\<forall>(v, w) \<in> set (zip vs ws). same_json v w) | _ \<Rightarrow> False)"
| "same_json (JObj fs) w =
     (case w of
        JObj gs \<Rightarrow> set (map fst fs) = set (map fst gs) \<and> (\<forall>(k, v) \<in> set fs. same_json v (field gs k))
      | _ \<Rightarrow> False)"
| "same_json JUndefined w = (w = JUndefined)"
| "same_json JNull w = (w = JNull)"
| "same_json (JBool b) w = (w = JBool b)"
| "same_json (JNum q) w = (w = JNum q)"
| "same_json JNaN w = (w = JNaN)"
| "same_json (JInfinity b) w = (w = JInfinity b)"
| "same_json (JStr s) w = (w = JStr s)"
  by pat_completeness auto
termination
  by (relation "measure (size \<circ> fst)") (auto dest!: set_zip_leftD simp: member_size less_Suc_eq_le size_list_estimation')

section \<open>Sorted values\<close>

function canon_value :: "jsvalue \<Rightarrow> jsvalue" where
  "canon_value (JArr vs) = JArr (map canon_value vs)"
| "canon_value (JObj fs) = JObj (sort_key fst (map (\<lambda>(k, v). (k, canon_value v)) fs))"
| "canon_value JUndefined = JUndefined"
| "canon_value JNull = JNull"
| "canon_value (JBool b) = JBool b"
| "canon_value (JNum q) = JNum q"
| "canon_value JNaN = JNaN"
| "canon_value (JInfinity b) = JInfinity b"
| "canon_value (JStr s) = JStr s"
  by pat_completeness auto
termination
  by (relation "measure size") (auto simp: member_size less_Suc_eq_le size_list_estimation')

lemma map_fst_canon: "map fst (map (\<lambda>(k, v). (k, canon_value v)) fs) = map fst fs"
  by (induction fs) auto

lemma insort_map_members: "insort_key fst (k, f v) (map (\<lambda>(k, v). (k, f v)) xs) = map (\<lambda>(k, v). (k, f v)) (insort_key fst (k, v) xs)"
  by (induction xs) auto

lemma sort_map_members: "sort_key fst (map (\<lambda>(k, v). (k, f v)) fs) = map (\<lambda>(k, v). (k, f v)) (sort_key fst fs)"
proof (induction fs)
  case (Cons x fs)
  then show ?case by (cases x) (simp add: insort_map_members)
qed simp

lemma distinct_sort_members: "distinct (map fst fs) \<Longrightarrow> distinct (map fst (sort_key fst fs))"
  by (simp add: distinct_map)

lemma printable_members: "printable (JObj fs) \<Longrightarrow> filter (\<lambda>(k, v). v \<noteq> JUndefined) fs = fs"
  by (induction fs) auto

lemma printable_canon: "printable v \<Longrightarrow> printable (canon_value v)"
proof (induction v rule: canon_value.induct)
  case (2 fs)
  have "distinct (map fst (sort_key fst (map (\<lambda>(k, v). (k, canon_value v)) fs)))"
    using 2 distinct_sort_members [of "map (\<lambda>(k, v). (k, canon_value v)) fs"] by (simp only: map_fst_canon printable.simps)
  then show ?case using 2 by auto
qed auto

lemma canonical_text: "printable v \<Longrightarrow> canonical_json_text v = json_text (canon_value v)"
proof (induction v rule: canon_value.induct)
  case (1 vs)
  then have "map canonical_json_text vs = map json_text (map canon_value vs)" by simp
  then show ?case by (simp only: canonical_json_text.simps canon_value.simps json_text.simps)
next
  case (2 fs)
  have ih: "canonical_json_text v = json_text (canon_value v)" "canon_value v \<noteq> JUndefined" if "(k, v) \<in> set fs" for k v
    using 2 that printable_canon [of v] by fastforce+
  have texts: "map (\<lambda>(k, v). json_string k @ CHR '':'' # canonical_json_text v) (sort_key fst fs) =
      map (\<lambda>(k, v). json_string k @ CHR '':'' # json_text v) (map (\<lambda>(k, v). (k, canon_value v)) (sort_key fst fs))"
    using ih(1) by auto
  have "filter (\<lambda>(k, v). v \<noteq> JUndefined) (map (\<lambda>(k, v). (k, canon_value v)) (sort_key fst fs)) = map (\<lambda>(k, v). (k, canon_value v)) (sort_key fst fs)"
    using ih(2) by (auto simp: filter_id_conv)
  then show ?case using printable_members [OF "2.prems"] by (simp only: canonical_json_text.simps canon_value.simps json_text.simps sort_map_members texts)
qed (simp_all add: stringify_def)

lemma sorted_members_eq:
  assumes "distinct (map fst fs)" "distinct (map fst gs)"
  shows "sort_key fst fs = sort_key fst gs \<longleftrightarrow> set fs = set (gs :: (('k :: linorder) \<times> 'v) list)"
proof
  assume "sort_key fst fs = sort_key fst gs"
  then show "set fs = set gs" by (metis set_sort)
next
  assume set: "set fs = set gs"
  show "sort_key fst fs = sort_key fst gs"
  proof (rule map_sorted_distinct_set_unique [where f = fst])
    show "inj_on fst (set (sort_key fst fs) \<union> set (sort_key fst gs))" using assms set by (simp add: distinct_map)
  qed (simp_all add: assms set distinct_sort_members)
qed

lemma sorted_canon_eq:
  assumes "distinct (map fst fs)" "distinct (map fst gs)"
  shows "sort_key fst (map (\<lambda>(k, v). (k, f v)) fs) = sort_key fst (map (\<lambda>(k, v). (k, f v)) gs) \<longleftrightarrow>
    set (map fst fs) = set (map fst gs) \<and> (\<forall>(k, v) \<in> set fs. f v = f (field gs k))"
proof -
  let ?m = "map (\<lambda>(k, v). (k, f v))"
  have keys: "map fst (?m xs) = map fst xs" for xs by (induction xs) auto
  have got: "(k, v) \<in> set gs \<longleftrightarrow> k \<in> set (map fst gs) \<and> field gs k = v" for k v
    using assms(2) map_of_eq_Some_iff [of gs k] by (cases "map_of gs k") (force simp: field_def map_of_eq_None_iff)+
  have "sort_key fst (?m fs) = sort_key fst (?m gs) \<longleftrightarrow> set (?m fs) = set (?m gs)"
    using sorted_members_eq [of "?m fs" "?m gs"] by (simp only: assms keys)
  also have "\<dots> \<longleftrightarrow> set (map fst fs) = set (map fst gs) \<and> (\<forall>(k, v) \<in> set fs. f v = f (field gs k))"
  proof
    assume same: "set (?m fs) = set (?m gs)"
    have "fst ` set (?m xs) = set (map fst xs)" for xs by (force simp: image_image)
    then have "set (map fst fs) = set (map fst gs)" using same by metis
    moreover have "f v = f (field gs k)" if "(k, v) \<in> set fs" for k v
    proof -
      have "(k, f v) \<in> set (?m fs)" using that by force
      then have "(k, f v) \<in> set (?m gs)" by (simp only: same)
      then show ?thesis using got by auto
    qed
    ultimately show "set (map fst fs) = set (map fst gs) \<and> (\<forall>(k, v) \<in> set fs. f v = f (field gs k))" by blast
  next
    assume r: "set (map fst fs) = set (map fst gs) \<and> (\<forall>(k, v) \<in> set fs. f v = f (field gs k))"
    have "(k, f v) \<in> set (?m gs)" if "(k, v) \<in> set fs" for k v
    proof -
      have "k \<in> set (map fst gs)" using that r by force
      then have "(k, field gs k) \<in> set gs" using got by blast
      then show ?thesis using r that by force
    qed
    moreover have "(k, f v) \<in> set (?m fs)" if "(k, v) \<in> set gs" for k v
    proof -
      have "k \<in> set (map fst fs)" using that r by force
      then obtain u where "(k, u) \<in> set fs" by auto
      moreover have "field gs k = v" using that got by blast
      ultimately show ?thesis using r by force
    qed
    ultimately show "set (?m fs) = set (?m gs)" by auto
  qed
  finally show ?thesis .
qed

lemma printable_field: "\<forall>(k, v) \<in> set gs. printable v \<Longrightarrow> k \<in> set (map fst gs) \<Longrightarrow> printable (field gs k)"
  unfolding field_def by (cases "map_of gs k") (auto simp: map_of_eq_None_iff dest: map_of_SomeD)

lemma canon_same: "printable v \<Longrightarrow> printable w \<Longrightarrow> canon_value v = canon_value w \<longleftrightarrow> same_json v w"
proof (induction v w rule: same_json.induct)
  case (1 vs w)
  show ?case
  proof (cases w)
    case (JArr ws)
    have "canon_value (vs ! i) = canon_value (ws ! i) \<longleftrightarrow> same_json (vs ! i) (ws ! i)" if "i < length vs" "length vs = length ws" for i
    proof -
      have "(vs ! i, ws ! i) \<in> set (zip vs ws)" using that by (auto simp: set_zip)
      then show ?thesis using 1 JArr that by fastforce
    qed
    moreover have "(\<forall>(v, w) \<in> set (zip vs ws). same_json v w) \<longleftrightarrow> (\<forall>i < length vs. same_json (vs ! i) (ws ! i))" if "length vs = length ws"
      using that by (force simp: set_zip)
    ultimately show ?thesis using JArr by (auto simp: list_eq_iff_nth_eq)
  qed auto
next
  case (2 fs w)
  show ?case
  proof (cases w)
    case (JObj gs)
    have "canon_value v = canon_value (field gs k) \<longleftrightarrow> same_json v (field gs k)" if "(k, v) \<in> set fs" "set (map fst fs) = set (map fst gs)" for k v
    proof -
      have "k \<in> set (map fst gs)" using that by force
      then have "printable (field gs k)" using 2(3) JObj printable_field by simp
      moreover have "printable v" using 2(2) that(1) by auto
      ultimately show ?thesis using 2(1) [OF JObj that(1)] by auto
    qed
    then show ?thesis using 2(2,3) JObj sorted_canon_eq [of fs gs canon_value] by (auto split: prod.splits)
  qed auto
qed (case_tac w; auto)+



end
