(* ===== verification/Node_Registry.thy ===== *)
theory Node_Registry
  imports Js_Strings
begin

text \<open>
  Stable identifiers of DOM nodes, \<open>src/src/core/perception/backend-node-registry.ts\<close>. The three indexes of a registry share
  mutable entries, so an entry is a position in \<open>nr_heap\<close> and the indexes hold positions. A node id is an integer. The page
  objects of the browser are numbers.
\<close>

section \<open>One registry\<close>

record stable_uid =
  su_uid :: string
  su_node :: int
  su_loader :: string
  su_first :: int
  su_last :: int

record uid_entry = stable_uid +
  ne_key :: string

record node_registry =
  nr_heap :: "uid_entry list"
  nr_composite :: "(string, nat) jmap"
  nr_uids :: "(string, nat) jmap"
  nr_loaders :: "(string, nat list) jmap"
  nr_counter :: nat

definition new_registry :: node_registry where
  "new_registry = \<lparr>nr_heap = [], nr_composite = [], nr_uids = [], nr_loaders = [], nr_counter = 0\<rparr>"

definition composite_key :: "string \<Rightarrow> int \<Rightarrow> string" where
  "composite_key loader n = loader @ CHR ''_'' # int_str n"

datatype registry_error = Bad_loader | Bad_node int

definition registry_get :: "int \<Rightarrow> string \<Rightarrow> int \<Rightarrow> node_registry \<Rightarrow> (registry_error + stable_uid) \<times> node_registry" where
  "registry_get now loader n r =
     (if loader = [] then (Inl Bad_loader, r)
      else if n \<le> 0 then (Inl (Bad_node n), r)
      else
        (let key = composite_key loader n in
         case jget (nr_composite r) key of
           Some a \<Rightarrow>
             (let e = (nr_heap r ! a)\<lparr>su_last := now\<rparr> in (Inr (stable_uid.truncate e), r\<lparr>nr_heap := (nr_heap r)[a := e]\<rparr>))
         | None \<Rightarrow>
             (let c = nr_counter r + 1; a = length (nr_heap r); uid = ''n_'' @ dec c;
                  e = \<lparr>su_uid = uid, su_node = n, su_loader = loader, su_first = now, su_last = now, ne_key = key\<rparr>
              in (Inr (stable_uid.truncate e),
                  r\<lparr>nr_counter := c, nr_heap := nr_heap r @ [e], nr_composite := jset key a (nr_composite r), nr_uids := jset uid a (nr_uids r),
                    nr_loaders := jset loader (default_to [] (jget (nr_loaders r) loader) @ [a]) (nr_loaders r)\<rparr>))))"

definition evict_entry :: "node_registry \<Rightarrow> nat \<Rightarrow> node_registry" where
  "evict_entry r a = r\<lparr>nr_composite := jdel (ne_key (nr_heap r ! a)) (nr_composite r), nr_uids := jdel (su_uid (nr_heap r ! a)) (nr_uids r)\<rparr>"

definition evict_loader :: "string \<Rightarrow> nat \<times> node_registry \<Rightarrow> string \<times> nat list \<Rightarrow> nat \<times> node_registry" where
  "evict_loader current = (\<lambda>(evicted, r) (loader, as).
     if loader = current then (evicted, r)
     else (evicted + length as, (foldl evict_entry r as)\<lparr>nr_loaders := jdel loader (nr_loaders r)\<rparr>))"

definition registry_rotate :: "string \<Rightarrow> node_registry \<Rightarrow> (registry_error + nat \<times> nat) \<times> node_registry" where
  "registry_rotate current r =
     (if current = [] then (Inl Bad_loader, r)
      else
        (let kept = length (default_to [] (jget (nr_loaders r) current));
             (evicted, r') = foldl (evict_loader current) (0, r) (nr_loaders r)
         in (Inr (evicted, kept), r')))"

definition registry_resolve :: "string \<Rightarrow> node_registry \<Rightarrow> (string \<times> int) option" where
  "registry_resolve uid r = map_option (\<lambda>a. (su_loader (nr_heap r ! a), su_node (nr_heap r ! a))) (jget (nr_uids r) uid)"

definition registry_size :: "node_registry \<Rightarrow> nat" where
  "registry_size r = length (nr_uids r)"

section \<open>The registries of the pages\<close>

text \<open>A page gets its registry, and its listener for navigations, with the first access.\<close>

record page_registries =
  pr_registries :: "(nat, node_registry) jmap"
  pr_hooked :: "nat list"

definition page_registry :: "nat \<Rightarrow> page_registries \<Rightarrow> node_registry \<times> page_registries" where
  "page_registry p w =
     (let w1 = (case jget (pr_registries w) p of None \<Rightarrow> w\<lparr>pr_registries := jset p new_registry (pr_registries w)\<rparr> | Some _ \<Rightarrow> w);
          w2 = (if p \<in> set (pr_hooked w1) then w1 else w1\<lparr>pr_hooked := p # pr_hooked w1\<rparr>)
      in (default_to new_registry (jget (pr_registries w2) p), w2))"

definition frame_loader :: "string option \<Rightarrow> string option \<Rightarrow> string" where
  "frame_loader loader frame =
     (case truthy_str loader of Some l \<Rightarrow> l | None \<Rightarrow> (case truthy_str frame of Some f \<Rightarrow> f | None \<Rightarrow> ''unknown-loader''))"

definition frame_navigated :: "nat \<Rightarrow> bool \<Rightarrow> string option \<Rightarrow> string option \<Rightarrow> page_registries \<Rightarrow> page_registries" where
  "frame_navigated p main loader frame w =
     (if p \<in> set (pr_hooked w) \<and> main
      then w\<lparr>pr_registries := jset p (snd (registry_rotate (frame_loader loader frame) (default_to new_registry (jget (pr_registries w) p))))
               (pr_registries w)\<rparr>
      else w)"

section \<open>Runs\<close>

datatype registry_op = Get string int int | Rotate string

fun registry_step :: "node_registry \<Rightarrow> registry_op \<Rightarrow> node_registry" where
  "registry_step r (Get loader n now) = snd (registry_get now loader n r)"
| "registry_step r (Rotate loader) = snd (registry_rotate loader r)"

definition registry_run :: "registry_op list \<Rightarrow> node_registry" where
  "registry_run ops = foldl registry_step new_registry ops"

datatype node_op = On_page nat registry_op | Navigated nat bool "string option" "string option"

fun node_step :: "page_registries \<Rightarrow> node_op \<Rightarrow> page_registries" where
  "node_step w (On_page p op) = (let (r, w') = page_registry p w in w'\<lparr>pr_registries := jset p (registry_step r op) (pr_registries w')\<rparr>)"
| "node_step w (Navigated p main loader frame) = frame_navigated p main loader frame w"

definition node_run :: "node_op list \<Rightarrow> page_registries" where
  "node_run ops = foldl node_step \<lparr>pr_registries = [], pr_hooked = []\<rparr> ops"

text \<open>What a run of the pages does to the registry of one of them.\<close>

definition node_ops :: "nat \<Rightarrow> node_op list \<Rightarrow> registry_op list" where
  "node_ops p ops = List.map_filter (\<lambda>op. case op of
     On_page q op' \<Rightarrow> if q = p then Some op' else None
   | Navigated q main loader frame \<Rightarrow> if q = p \<and> main then Some (Rotate (frame_loader loader frame)) else None) ops"

section \<open>Keys\<close>

lemma key_digits:
  assumes "0 < n"
  shows "takeWhile is_digit (rev (composite_key l n)) = rev (int_str n)"
proof -
  have "\<forall>c \<in> set (rev (int_str n)). is_digit c" using assms dec_digits [of "nat n"] by (simp add: int_str_def list_all_iff)
  moreover have "\<not> is_digit CHR ''_''" by (simp add: is_digit_def)
  ultimately show ?thesis by (simp add: composite_key_def takeWhile_append)
qed

lemma composite_key_inj:
  assumes "0 < m" "0 < n"
  shows "composite_key l m = composite_key l' n \<longleftrightarrow> l = l' \<and> m = n"
proof
  assume same: "composite_key l m = composite_key l' n"
  then have "int_str m = int_str n" using key_digits [OF assms(1), of l] key_digits [OF assms(2), of l'] by simp
  then show "l = l' \<and> m = n" using same int_str_inj by (simp add: composite_key_def)
qed simp

section \<open>The indexes agree\<close>

definition live :: "node_registry \<Rightarrow> nat \<Rightarrow> bool" where
  "live r a \<longleftrightarrow> a < length (nr_heap r) \<and> jget (nr_uids r) (su_uid (nr_heap r ! a)) = Some a"

definition registry_inv :: "node_registry \<Rightarrow> bool" where
  "registry_inv r \<longleftrightarrow> nr_counter r = length (nr_heap r) \<and> jwf (nr_loaders r) \<and>
     (\<forall>a < length (nr_heap r). su_uid (nr_heap r ! a) = ''n_'' @ dec (Suc a) \<and> 0 < su_node (nr_heap r ! a) \<and>
        ne_key (nr_heap r ! a) = composite_key (su_loader (nr_heap r ! a)) (su_node (nr_heap r ! a))) \<and>
     (\<forall>u a. jget (nr_uids r) u = Some a \<longrightarrow> a < length (nr_heap r) \<and> su_uid (nr_heap r ! a) = u) \<and>
     (\<forall>k a. jget (nr_composite r) k = Some a \<longleftrightarrow> live r a \<and> ne_key (nr_heap r ! a) = k) \<and>
     (\<forall>l a. a \<in> set (default_to [] (jget (nr_loaders r) l)) \<longleftrightarrow> live r a \<and> su_loader (nr_heap r ! a) = l)"

lemma registry_inv_new: "registry_inv new_registry"
  by (simp add: registry_inv_def new_registry_def live_def)

lemma inv_length: "registry_inv r \<Longrightarrow> nr_counter r = length (nr_heap r)"
  and inv_entry: "registry_inv r \<Longrightarrow> a < length (nr_heap r) \<Longrightarrow> su_uid (nr_heap r ! a) = ''n_'' @ dec (Suc a) \<and> 0 < su_node (nr_heap r ! a) \<and>
    ne_key (nr_heap r ! a) = composite_key (su_loader (nr_heap r ! a)) (su_node (nr_heap r ! a))"
  and inv_uid: "registry_inv r \<Longrightarrow> jget (nr_uids r) u = Some a \<Longrightarrow> a < length (nr_heap r) \<and> su_uid (nr_heap r ! a) = u"
  and inv_composite: "registry_inv r \<Longrightarrow> jget (nr_composite r) k = Some a \<longleftrightarrow> live r a \<and> ne_key (nr_heap r ! a) = k"
  and inv_bucket: "registry_inv r \<Longrightarrow> a \<in> set (default_to [] (jget (nr_loaders r) l)) \<longleftrightarrow> live r a \<and> su_loader (nr_heap r ! a) = l"
  unfolding registry_inv_def by blast+

lemma new_uid:
  assumes "registry_inv r"
  shows "jget (nr_uids r) (''n_'' @ dec (Suc (nr_counter r))) = None"
proof (rule ccontr)
  assume "jget (nr_uids r) (''n_'' @ dec (Suc (nr_counter r))) \<noteq> None"
  then obtain a where "jget (nr_uids r) (''n_'' @ dec (Suc (nr_counter r))) = Some a" by blast
  from inv_uid [OF assms this] inv_entry [OF assms] inv_length [OF assms] show False by auto
qed

lemma get_cases:
  obtains (refused) e where "registry_get now l n r = (Inl e, r)" "l = [] \<or> n \<le> 0"
  | (found) a where "l \<noteq> []" "0 < n" "jget (nr_composite r) (composite_key l n) = Some a"
      "registry_get now l n r = (Inr (stable_uid.truncate ((nr_heap r ! a)\<lparr>su_last := now\<rparr>)),
         r\<lparr>nr_heap := (nr_heap r)[a := (nr_heap r ! a)\<lparr>su_last := now\<rparr>]\<rparr>)"
  | (minted) e where "l \<noteq> []" "0 < n" "jget (nr_composite r) (composite_key l n) = None"
      "e = \<lparr>su_uid = ''n_'' @ dec (Suc (nr_counter r)), su_node = n, su_loader = l, su_first = now, su_last = now, ne_key = composite_key l n\<rparr>"
      "registry_get now l n r = (Inr (stable_uid.truncate e),
         r\<lparr>nr_counter := Suc (nr_counter r), nr_heap := nr_heap r @ [e], nr_composite := jset (composite_key l n) (length (nr_heap r)) (nr_composite r),
           nr_uids := jset (su_uid e) (length (nr_heap r)) (nr_uids r),
           nr_loaders := jset l (default_to [] (jget (nr_loaders r) l) @ [length (nr_heap r)]) (nr_loaders r)\<rparr>)"
proof (cases "l = [] \<or> n \<le> 0")
  case True
  then have "\<exists>e. registry_get now l n r = (Inl e, r)" by (auto simp: registry_get_def)
  then show ?thesis using that(1) True by blast
next
  case False
  then show ?thesis
  proof (cases "jget (nr_composite r) (composite_key l n)")
    case None
    then show ?thesis using that(3) False by (simp add: registry_get_def Let_def)
  next
    case (Some a)
    then show ?thesis using that(2) False by (simp add: registry_get_def Let_def)
  qed
qed

lemma seen_same [simp]:
  "su_uid (xs[a := (xs ! a)\<lparr>su_last := now\<rparr>] ! b) = su_uid (xs ! b)" "su_node (xs[a := (xs ! a)\<lparr>su_last := now\<rparr>] ! b) = su_node (xs ! b)"
  "su_loader (xs[a := (xs ! a)\<lparr>su_last := now\<rparr>] ! b) = su_loader (xs ! b)" "ne_key (xs[a := (xs ! a)\<lparr>su_last := now\<rparr>] ! b) = ne_key (xs ! b)"
  by (cases "a < length xs"; simp add: nth_list_update list_update_beyond)+

lemma seen_inv:
  assumes "registry_inv r"
  shows "registry_inv (r\<lparr>nr_heap := (nr_heap r)[a := (nr_heap r ! a)\<lparr>su_last := now\<rparr>]\<rparr>)"
proof -
  let ?h = "(nr_heap r)[a := (nr_heap r ! a)\<lparr>su_last := now\<rparr>]"
  have "live (r\<lparr>nr_heap := ?h\<rparr>) b = live r b" for b by (simp add: live_def)
  moreover have "jwf (nr_loaders r)" using assms by (simp add: registry_inv_def)
  ultimately show ?thesis
    unfolding registry_inv_def
    by (auto simp: inv_length [OF assms] inv_composite [OF assms] inv_bucket [OF assms] dest: inv_uid [OF assms] inv_entry [OF assms])
qed

lemma minted_inv:
  assumes inv: "registry_inv r" and n: "0 < n" and free: "jget (nr_composite r) (composite_key l n) = None"
    and e: "su_uid e = ''n_'' @ dec (Suc (nr_counter r))" "su_node e = n" "su_loader e = l" "ne_key e = composite_key l n"
    and r': "r' = r\<lparr>nr_counter := Suc (nr_counter r), nr_heap := nr_heap r @ [e], nr_composite := jset (composite_key l n) (length (nr_heap r)) (nr_composite r),
      nr_uids := jset (su_uid e) (length (nr_heap r)) (nr_uids r),
      nr_loaders := jset l (default_to [] (jget (nr_loaders r) l) @ [length (nr_heap r)]) (nr_loaders r)\<rparr>"
  shows "registry_inv r'"
proof -
  let ?a = "length (nr_heap r)"
  have len: "nr_counter r = ?a" using inv_length [OF inv] .
  have fresh: "jget (nr_uids r) (su_uid e) = None" using new_uid [OF inv] e by simp
  have here: "nr_heap r' ! b = (if b = ?a then e else nr_heap r ! b)" if "b \<le> ?a" for b using that by (simp add: r' nth_append)
  have uids: "jget (nr_uids r') u = (if u = su_uid e then Some ?a else jget (nr_uids r) u)" for u by (simp add: r' jm)
  have old: "b < ?a" if "jget (nr_uids r) u = Some b" for u b using inv_uid [OF inv that] by simp
  have live: "live r' b \<longleftrightarrow> live r b \<or> b = ?a" for b
  proof (cases "b < ?a")
    case True
    then have "su_uid (nr_heap r ! b) \<noteq> su_uid e" using inv_entry [OF inv True] e len by simp
    then show ?thesis using True here [of b] uids by (simp add: live_def) (simp add: r')
  next
    case False
    then show ?thesis using here [of ?a] by (auto simp: live_def uids) (auto simp: r')
  qed
  have lb: "live r b \<Longrightarrow> b < ?a" for b by (simp add: live_def)
  have "jget (nr_composite r') k = Some b \<longleftrightarrow> live r' b \<and> ne_key (nr_heap r' ! b) = k" for k b
  proof -
    note old = inv_composite [OF inv, of k b]
    have new: "jget (nr_composite r') k = (if k = composite_key l n then Some ?a else jget (nr_composite r) k)" by (simp add: r' jm)
    show ?thesis
    proof (cases "b = ?a")
      case True
      then show ?thesis using new old live [of b] here [of b] lb [of b] e by auto
    next
      case False
      then show ?thesis using new old live [of b] here [of b] lb [of b] free inv_composite [OF inv, of "composite_key l n" b] by auto
    qed
  qed
  moreover have "b \<in> set (default_to [] (jget (nr_loaders r') l')) \<longleftrightarrow> live r' b \<and> su_loader (nr_heap r' ! b) = l'" for l' b
  proof -
    note inv_bucket [OF inv]
    moreover have "jget (nr_loaders r') l' = (if l' = l then Some (default_to [] (jget (nr_loaders r) l) @ [?a]) else jget (nr_loaders r) l')"
      by (simp add: r' jm)
    ultimately show ?thesis using live here [of b] lb [of b] e by (cases "b = ?a") auto
  qed
  moreover have "nr_counter r' = length (nr_heap r')" "jwf (nr_loaders r')" using inv by (simp_all add: r' registry_inv_def)
  moreover have "su_uid (nr_heap r' ! b) = ''n_'' @ dec (Suc b) \<and> 0 < su_node (nr_heap r' ! b) \<and>
      ne_key (nr_heap r' ! b) = composite_key (su_loader (nr_heap r' ! b)) (su_node (nr_heap r' ! b))" if "b < length (nr_heap r')" for b
  proof (cases "b = ?a")
    case True
    then show ?thesis using here [of b] e n len by simp
  next
    case False
    then have "b < ?a" using that by (simp add: r')
    then show ?thesis using here [of b] inv_entry [OF inv] by simp
  qed
  moreover have "b < length (nr_heap r') \<and> su_uid (nr_heap r' ! b) = u" if "jget (nr_uids r') u = Some b" for u b
  proof (cases "u = su_uid e")
    case True
    then have "b = ?a" using that uids by simp
    then show ?thesis using True here [of ?a] by (simp add: r')
  next
    case False
    then have b: "jget (nr_uids r) u = Some b" using that uids by simp
    show ?thesis using inv_uid [OF inv b] here [of b] by (simp add: r')
  qed
  ultimately show ?thesis unfolding registry_inv_def by blast
qed

lemma get_inv:
  assumes "registry_inv r"
  shows "registry_inv (snd (registry_get now l n r))"
proof (cases rule: get_cases [of now l n r])
  case (minted e)
  then show ?thesis using minted_inv [OF assms minted(2,3) _ _ _ _ refl, of e] by simp
qed (simp_all add: assms seen_inv)

section \<open>Rotation\<close>

lemma evict_all:
  "nr_heap (foldl evict_entry r as) = nr_heap r" "nr_counter (foldl evict_entry r as) = nr_counter r" "nr_loaders (foldl evict_entry r as) = nr_loaders r"
  "jget (nr_uids (foldl evict_entry r as)) u = (if \<exists>a \<in> set as. su_uid (nr_heap r ! a) = u then None else jget (nr_uids r) u)"
  "jget (nr_composite (foldl evict_entry r as)) k = (if \<exists>a \<in> set as. ne_key (nr_heap r ! a) = k then None else jget (nr_composite r) k)"
  by (induction as arbitrary: r) (auto simp: evict_entry_def jm)

lemma evict_loaders:
  fixes buckets ev r current
  defines "r' \<equiv> snd (foldl (evict_loader current) (ev, r) buckets)"
  shows "nr_heap r' = nr_heap r \<and> nr_counter r' = nr_counter r \<and> (jwf (nr_loaders r) \<longrightarrow> jwf (nr_loaders r')) \<and>
    jget (nr_loaders r') l = (if l \<noteq> current \<and> l \<in> fst ` set buckets then None else jget (nr_loaders r) l) \<and>
    jget (nr_uids r') u = (if \<exists>(l, as) \<in> set buckets. l \<noteq> current \<and> (\<exists>a \<in> set as. su_uid (nr_heap r ! a) = u) then None else jget (nr_uids r) u) \<and>
    jget (nr_composite r') k = (if \<exists>(l, as) \<in> set buckets. l \<noteq> current \<and> (\<exists>a \<in> set as. ne_key (nr_heap r ! a) = k) then None else jget (nr_composite r) k)"
  unfolding r'_def
proof (induction buckets arbitrary: ev r)
  case (Cons b buckets)
  obtain m as where b: "b = (m, as)" by (cases b)
  show ?case
  proof (cases "m = current")
    case True
    then show ?thesis using Cons [of ev r] b by (simp add: evict_loader_def)
  next
    case False
    then show ?thesis
      using Cons [of "ev + length as" "(foldl evict_entry r as)\<lparr>nr_loaders := jdel m (nr_loaders r)\<rparr>"] b
      by (auto simp: evict_loader_def evict_all jm)
  qed
qed simp

lemma rotate_effect:
  assumes inv: "registry_inv r" and cur: "current \<noteq> []"
  defines "r' \<equiv> snd (registry_rotate current r)"
  shows "nr_heap r' = nr_heap r" "nr_counter r' = nr_counter r" "jwf (nr_loaders r')"
    "jget (nr_loaders r') l = (if l = current then jget (nr_loaders r) l else None)"
    "jget (nr_uids r') u = Some a \<longleftrightarrow> jget (nr_uids r) u = Some a \<and> su_loader (nr_heap r ! a) = current"
    "jget (nr_composite r') k = Some a \<longleftrightarrow> jget (nr_composite r) k = Some a \<and> su_loader (nr_heap r ! a) = current"
proof -
  have r': "r' = snd (foldl (evict_loader current) (0, r) (nr_loaders r))"
    using cur by (simp add: r'_def registry_rotate_def Let_def split: prod.split)
  note eff = evict_loaders [of current 0 r "nr_loaders r", folded r']
  have wf: "jwf (nr_loaders r)" using inv by (simp add: registry_inv_def)
  have gone: "(\<exists>(l, as) \<in> set (nr_loaders r). l \<noteq> current \<and> (\<exists>a \<in> set as. P a)) \<longleftrightarrow> (\<exists>a. live r a \<and> su_loader (nr_heap r ! a) \<noteq> current \<and> P a)" for P
  proof
    assume "\<exists>(l, as) \<in> set (nr_loaders r). l \<noteq> current \<and> (\<exists>a \<in> set as. P a)"
    then obtain l as a where "jget (nr_loaders r) l = Some as" "l \<noteq> current" "a \<in> set as" "P a" using jget_in_set [OF wf] by blast
    then show "\<exists>a. live r a \<and> su_loader (nr_heap r ! a) \<noteq> current \<and> P a" using inv_bucket [OF inv, of a l] by auto
  next
    assume "\<exists>a. live r a \<and> su_loader (nr_heap r ! a) \<noteq> current \<and> P a"
    then obtain a where a: "live r a" "su_loader (nr_heap r ! a) \<noteq> current" "P a" by blast
    then have "a \<in> set (default_to [] (jget (nr_loaders r) (su_loader (nr_heap r ! a))))" using inv_bucket [OF inv] by blast
    then obtain as where "jget (nr_loaders r) (su_loader (nr_heap r ! a)) = Some as" "a \<in> set as"
      by (cases "jget (nr_loaders r) (su_loader (nr_heap r ! a))") auto
    then show "\<exists>(l, as) \<in> set (nr_loaders r). l \<noteq> current \<and> (\<exists>a \<in> set as. P a)" using a jget_in_set [OF wf] by blast
  qed
  show "nr_heap r' = nr_heap r" "nr_counter r' = nr_counter r" "jwf (nr_loaders r')" using eff wf by simp_all
  show "jget (nr_loaders r') l = (if l = current then jget (nr_loaders r) l else None)" using eff by (auto simp: map_of_eq_None_iff)
  have "jget (nr_uids r') u = (if \<exists>a. live r a \<and> su_loader (nr_heap r ! a) \<noteq> current \<and> su_uid (nr_heap r ! a) = u then None else jget (nr_uids r) u)"
    using eff unfolding gone by simp
  moreover have "live r a \<and> su_uid (nr_heap r ! a) = u \<longleftrightarrow> jget (nr_uids r) u = Some a" for a using inv_uid [OF inv, of u a] by (auto simp: live_def)
  ultimately show "jget (nr_uids r') u = Some a \<longleftrightarrow> jget (nr_uids r) u = Some a \<and> su_loader (nr_heap r ! a) = current"
    by (smt (verit) option.inject option.distinct(1))
  have "jget (nr_composite r') k = (if \<exists>a. live r a \<and> su_loader (nr_heap r ! a) \<noteq> current \<and> ne_key (nr_heap r ! a) = k then None else jget (nr_composite r) k)"
    using eff unfolding gone by simp
  then show "jget (nr_composite r') k = Some a \<longleftrightarrow> jget (nr_composite r) k = Some a \<and> su_loader (nr_heap r ! a) = current"
    using inv_composite [OF inv, of k] by (smt (verit) option.inject option.distinct(1))
qed

lemma rotate_inv:
  assumes "registry_inv r"
  shows "registry_inv (snd (registry_rotate current r))"
proof (cases "current = []")
  case False
  let ?r' = "snd (registry_rotate current r)"
  note eff = rotate_effect [OF assms False]
  have live: "live ?r' a \<longleftrightarrow> live r a \<and> su_loader (nr_heap r ! a) = current" for a
    by (simp add: live_def eff(1,5) conj_assoc)
  show ?thesis
    unfolding registry_inv_def live eff(1-3)
    by (auto simp: eff(3-6) inv_length [OF assms] inv_composite [OF assms] inv_bucket [OF assms] dest: inv_uid [OF assms] inv_entry [OF assms])
qed (simp add: assms registry_rotate_def)

interpretation registry: machine registry_step registry_inv
proof
  fix r op
  assume "registry_inv r"
  then show "registry_inv (registry_step r op)" by (cases op) (simp_all add: get_inv rotate_inv)
qed

lemma registry_inv_run: "registry_inv (registry_run ops)"
  unfolding registry_run_def by (rule registry.run_inv) (rule registry_inv_new)

section \<open>What an identifier means\<close>

definition got :: "registry_error + stable_uid \<Rightarrow> string option" where
  "got answer = (case answer of Inl _ \<Rightarrow> None | Inr s \<Rightarrow> Some (su_uid s))"

definition keeps :: "string \<Rightarrow> registry_op \<Rightarrow> bool" where
  "keeps l op = (case op of Get _ _ _ \<Rightarrow> True | Rotate current \<Rightarrow> current = [] \<or> current = l)"

text \<open>A get of node \<open>n\<close> of document \<open>l\<close> issued \<open>u\<close>; and no rotation to another document came after it.\<close>

definition issued :: "registry_op list \<Rightarrow> string \<Rightarrow> string \<Rightarrow> int \<Rightarrow> bool" where
  "issued ops u l n \<longleftrightarrow> (\<exists>xs now ys. ops = xs @ Get l n now # ys \<and> got (fst (registry_get now l n (registry_run xs))) = Some u)"

definition holds_for :: "registry_op list \<Rightarrow> string \<Rightarrow> string \<Rightarrow> int \<Rightarrow> bool" where
  "holds_for ops u l n \<longleftrightarrow>
     (\<exists>xs now ys. ops = xs @ Get l n now # ys \<and> got (fst (registry_get now l n (registry_run xs))) = Some u \<and> list_all (keeps l) ys)"

lemma snoc_split: "xs @ [x] = ys @ z # zs \<longleftrightarrow> (ys = xs \<and> z = x \<and> zs = []) \<or> (\<exists>zs'. zs = zs' @ [x] \<and> xs = ys @ z # zs')"
proof (cases zs rule: rev_cases)
  case (snoc zs' w)
  then show ?thesis using append1_eq_conv [of xs x "ys @ z # zs'" w] by simp blast
qed auto

lemma split_snoc_iff:
  "(\<exists>xs now ys. ops @ [op] = xs @ Get l n now # ys \<and> P now xs \<and> Q ys) \<longleftrightarrow>
   (\<exists>xs now ys. ops = xs @ Get l n now # ys \<and> P now xs \<and> Q (ys @ [op])) \<or> (\<exists>now. op = Get l n now \<and> P now ops \<and> Q [])"
  unfolding snoc_split by blast

lemma holds_for_snoc:
  "holds_for (ops @ [op]) u l n \<longleftrightarrow> (holds_for ops u l n \<and> keeps l op) \<or>
     (\<exists>now. op = Get l n now \<and> got (fst (registry_get now l n (registry_run ops))) = Some u)"
  unfolding holds_for_def split_snoc_iff by auto

lemma issued_snoc:
  "issued (ops @ [op]) u l n \<longleftrightarrow> issued ops u l n \<or> (\<exists>now. op = Get l n now \<and> got (fst (registry_get now l n (registry_run ops))) = Some u)"
  using split_snoc_iff [of ops op l n _ "\<lambda>_. True"] by (simp add: issued_def)

lemma truncate_uid [simp]: "su_uid (stable_uid.truncate e) = su_uid e"
  by (simp add: stable_uid.truncate_def)

lemma resolve_get:
  assumes inv: "registry_inv r"
  shows "registry_resolve u (snd (registry_get now l' n' r)) = Some (l, n) \<longleftrightarrow>
    registry_resolve u r = Some (l, n) \<or> (l = l' \<and> n = n' \<and> got (fst (registry_get now l' n' r)) = Some u)"
proof (cases rule: get_cases [of now l' n' r])
  case (refused e)
  then show ?thesis by (simp add: got_def)
next
  case (found a)
  have a: "live r a" "ne_key (nr_heap r ! a) = composite_key l' n'" using inv_composite [OF inv] found(3) by simp_all
  then have e: "su_loader (nr_heap r ! a) = l' \<and> su_node (nr_heap r ! a) = n'"
    using inv_entry [OF inv, of a] composite_key_inj found(2) by (simp add: live_def)
  have same: "registry_resolve u (snd (registry_get now l' n' r)) = registry_resolve u r"
    by (simp add: found registry_resolve_def)
  show ?thesis
  proof (cases "u = su_uid (nr_heap r ! a)")
    case True
    then show ?thesis using a(1) e same by (auto simp: found got_def registry_resolve_def live_def)
  next
    case False
    then show ?thesis using same by (simp add: found got_def)
  qed
next
  case (minted e)
  have fresh: "jget (nr_uids r) (su_uid e) = None" using new_uid [OF inv] minted(4) by simp
  show ?thesis
  proof (cases "u = su_uid e")
    case True
    then show ?thesis using fresh minted(4) by (auto simp: minted(5) got_def registry_resolve_def jm)
  next
    case False
    moreover have "map_option (\<lambda>a. (su_loader ((nr_heap r @ [e]) ! a), su_node ((nr_heap r @ [e]) ! a))) (jget (nr_uids r) u) = registry_resolve u r"
      using inv_uid [OF inv, of u] by (cases "jget (nr_uids r) u") (simp_all add: registry_resolve_def nth_append)
    moreover have "registry_resolve u (snd (registry_get now l' n' r)) =
        map_option (\<lambda>a. (su_loader ((nr_heap r @ [e]) ! a), su_node ((nr_heap r @ [e]) ! a))) (jget (nr_uids r) u)"
      using False by (simp add: minted(5) registry_resolve_def jm)
    ultimately show ?thesis by (simp add: minted(5) got_def)
  qed
qed

lemma resolve_rotate:
  assumes inv: "registry_inv r"
  shows "registry_resolve u (snd (registry_rotate current r)) = Some (l, n) \<longleftrightarrow> registry_resolve u r = Some (l, n) \<and> (current = [] \<or> current = l)"
proof (cases "current = []")
  case False
  then show ?thesis using rotate_effect(1,5) [OF inv False] by (auto simp: registry_resolve_def)
qed (simp add: registry_rotate_def)

lemma registry_run_snoc: "registry_run (ops @ [op]) = registry_step (registry_run ops) op"
  by (simp add: registry_run_def)

lemma resolve_run: "registry_resolve u (registry_run ops) = Some (l, n) \<longleftrightarrow> holds_for ops u l n"
proof (induction ops rule: rev_induct)
  case Nil
  then show ?case by (simp add: registry_run_def new_registry_def registry_resolve_def holds_for_def)
next
  case (snoc op ops)
  show ?case
  proof (cases op)
    case (Get l' n' now)
    then show ?thesis using snoc by (auto simp: registry_run_snoc holds_for_snoc keeps_def resolve_get [OF registry_inv_run])
  next
    case (Rotate current)
    then show ?thesis using snoc by (simp add: registry_run_snoc holds_for_snoc keeps_def resolve_rotate [OF registry_inv_run])
  qed
qed

section \<open>Identifiers are never reissued\<close>

lemma get_allocates:
  fixes now l n r
  defines "r' \<equiv> snd (registry_get now l n r)"
  shows "length (nr_heap r) \<le> length (nr_heap r') \<and> (\<forall>a < length (nr_heap r). su_uid (nr_heap r' ! a) = su_uid (nr_heap r ! a) \<and>
      su_loader (nr_heap r' ! a) = su_loader (nr_heap r ! a) \<and> su_node (nr_heap r' ! a) = su_node (nr_heap r ! a))"
  unfolding r'_def by (cases rule: get_cases [of now l n r]) (simp_all add: nth_append)

lemma got_allocated:
  assumes inv: "registry_inv r" and got: "got (fst (registry_get now l n r)) = Some u"
  shows "\<exists>a < length (nr_heap (snd (registry_get now l n r))). (let e = nr_heap (snd (registry_get now l n r)) ! a in su_uid e = u \<and> su_loader e = l \<and> su_node e = n)"
proof (cases rule: get_cases [of now l n r])
  case (refused e)
  then show ?thesis using got by (simp add: got_def)
next
  case (found a)
  then have "a < length (nr_heap r)" "su_loader (nr_heap r ! a) = l \<and> su_node (nr_heap r ! a) = n"
    using inv_composite [OF inv, of "composite_key l n" a] inv_entry [OF inv, of a] composite_key_inj by (auto simp: live_def)
  then show ?thesis using got by (intro exI [of _ a]) (simp add: found got_def)
next
  case (minted e)
  then show ?thesis using got by (intro exI [of _ "length (nr_heap r)"]) (simp add: got_def)
qed

lemma issued_allocated:
  "issued ops u l n \<Longrightarrow> \<exists>a < length (nr_heap (registry_run ops)).
     (let e = nr_heap (registry_run ops) ! a in su_uid e = u \<and> su_loader e = l \<and> su_node e = n)"
proof (induction ops rule: rev_induct)
  case Nil
  then show ?case by (simp add: issued_def)
next
  case (snoc op ops)
  let ?r = "registry_run ops"
  show ?case
  proof (cases "issued ops u l n")
    case True
    then obtain a where a: "a < length (nr_heap ?r)" "su_uid (nr_heap ?r ! a) = u" "su_loader (nr_heap ?r ! a) = l" "su_node (nr_heap ?r ! a) = n"
      using snoc.IH by (auto simp: Let_def)
    show ?thesis
    proof (cases op)
      case (Get l' n' now)
      then show ?thesis using a get_allocates [where r = "registry_run ops" and now = now and l = l' and n = n'] by (intro exI [of _ a]) (simp add: registry_run_snoc)
    next
      case (Rotate current)
      then show ?thesis using a rotate_effect(1) [OF registry_inv_run, of current ops]
        by (cases "current = []") (auto simp: registry_run_snoc registry_rotate_def intro!: exI [of _ a])
    qed
  next
    case False
    then obtain now where "op = Get l n now" "got (fst (registry_get now l n ?r)) = Some u" using snoc.prems issued_snoc by blast
    then show ?thesis using got_allocated [OF registry_inv_run] by (simp add: registry_run_snoc)
  qed
qed

text \<open>One identifier is given to one node of one document only, even after it has been evicted.\<close>

lemma uid_never_reissued:
  assumes "issued ops u l n" "issued ops u l' n'"
  shows "l = l' \<and> n = n'"
proof -
  have uid: "su_uid (nr_heap (registry_run ops) ! a) = ''n_'' @ dec (Suc a)" if "a < length (nr_heap (registry_run ops))" for a
    using inv_entry [OF registry_inv_run that] by blast
  show ?thesis using issued_allocated [OF assms(1)] issued_allocated [OF assms(2)] uid by (auto simp: Let_def)
qed

section \<open>Pages\<close>

lemma rotate_new: "snd (registry_rotate current new_registry) = new_registry"
  by (simp add: registry_rotate_def new_registry_def Let_def)

lemma page_registry_of:
  "fst (page_registry p w) = default_to new_registry (jget (pr_registries w) p)"
  "default_to new_registry (jget (pr_registries (snd (page_registry p w))) q) = default_to new_registry (jget (pr_registries w) q)"
  "p \<in> set (pr_hooked (snd (page_registry p w)))" "set (pr_hooked w) \<subseteq> set (pr_hooked (snd (page_registry p w)))"
  by (auto simp: page_registry_def Let_def jm split: option.splits)

lemma node_run_is_registry_run:
  "default_to new_registry (jget (pr_registries (node_run es)) p) = registry_run (node_ops p es) \<and>
   (p \<notin> set (pr_hooked (node_run es)) \<longrightarrow> registry_run (node_ops p es) = new_registry)"
proof (induction es rule: rev_induct)
  case Nil
  then show ?case by (simp add: node_run_def node_ops_def registry_run_def List.map_filter_def)
next
  case (snoc e es)
  let ?w = "node_run es"
  have run: "node_run (es @ [x]) = node_step ?w x" for x by (simp add: node_run_def)
  have ops: "node_ops p (es @ [x]) = node_ops p es @ node_ops p [x]" for x by (simp add: node_ops_def List.map_filter_def)
  show ?case
  proof (cases e)
    case (On_page q op)
    then show ?thesis using snoc page_registry_of [where p = q and w = ?w]
      by (auto simp: run ops node_ops_def [of p "[_]"] List.map_filter_def Let_def registry_run_def jm split: prod.splits)
  next
    case (Navigated q main loader frame)
    then show ?thesis using snoc rotate_new
      by (auto simp: run ops node_ops_def [of p "[_]"] List.map_filter_def frame_navigated_def registry_run_def jm)
  qed
qed

text \<open>C36 (equivalence). What an identifier of a page means is determined by the history of that page alone: it resolves to a node of
  a document exactly when a snapshot got it for that node and the page has not been rotated to another document since.
  In particular it is not resolved to a node of another page or of a document that has been left, and it is not lost
  by whatever else is asked of this page or of others.\<close>

theorem uid_means_its_node:
  "registry_resolve u (default_to new_registry (jget (pr_registries (node_run es)) p)) = Some (l, n) \<longleftrightarrow> holds_for (node_ops p es) u l n"
  using node_run_is_registry_run resolve_run by simp

end
