(* ===== verification/Snapshot_Cache.thy ===== *)
theory Snapshot_Cache
  imports Js_Strings
begin

text \<open>
  The cache of page snapshots, \<open>src/src/core/perception/snapshot-cache.ts\<close>, and its wiring,
  \<open>src/src/core/perception/snapshot-cache-helper.ts\<close>. A read looks up its key, and on a miss computes its value and stores it:
  the two ends of the computation are two steps, and anything may happen in between. Lengths of a viewport are integers.
\<close>

section \<open>Keys\<close>

datatype snapshot_kind = Read_page_ax | Read_page_dom | Read_page_css | Find_kind | Query_dom

fun kind_str :: "snapshot_kind \<Rightarrow> string" where
  "kind_str Read_page_ax = ''read_page.ax''"
| "kind_str Read_page_dom = ''read_page.dom''"
| "kind_str Read_page_css = ''read_page.css''"
| "kind_str Find_kind = ''find''"
| "kind_str Query_dom = ''query_dom''"

record viewport_rect =
  vp_w :: int
  vp_h :: int
  vp_dpr :: int

record snapshot_parts =
  sk_kind :: snapshot_kind
  sk_frame :: string
  sk_viewport :: viewport_rect
  sk_params :: string

record snapshot_key = snapshot_parts +
  sk_epoch :: nat

definition viewport_key :: "viewport_rect \<Rightarrow> string" where
  "viewport_key v = int_str (vp_w v) @ CHR ''x'' # int_str (vp_h v) @ CHR ''@'' # int_str (vp_dpr v)"

definition entry_key :: "snapshot_key \<Rightarrow> string" where
  "entry_key k = kind_str (sk_kind k) @ CHR ''|'' # sk_frame k @ CHR ''|'' # dec (sk_epoch k) @ CHR ''|'' # viewport_key (sk_viewport k) @
     CHR ''|'' # sk_params k"

section \<open>The cache\<close>

datatype evict_reason = Document_updated | Frame_resized | Frame_navigated

record 'v snapshot_entry =
  sn_value :: 'v
  sn_at :: int
  sn_epoch :: nat
  sn_frame :: string

record 'v snapshot_cache =
  sc_max :: nat
  sc_ttl :: int
  sc_epochs :: "(string, nat) jmap"
  sc_entries :: "(string, 'v snapshot_entry) jmap"
  sc_hits :: nat
  sc_misses :: nat
  sc_evictions :: nat
  sc_reasons :: "(evict_reason, nat) jmap"

definition new_snapshot_cache :: "nat option \<Rightarrow> int option \<Rightarrow> 'v snapshot_cache" where
  "new_snapshot_cache max_entries ttl = \<lparr>sc_max = max 1 (default_to 32 max_entries), sc_ttl = max 0 (default_to 30000 ttl), sc_epochs = [],
     sc_entries = [], sc_hits = 0, sc_misses = 0, sc_evictions = 0, sc_reasons = []\<rparr>"

definition doc_epoch :: "string \<Rightarrow> 'v snapshot_cache \<Rightarrow> nat" where
  "doc_epoch f c = default_to 0 (jget (sc_epochs c) f)"

definition build_key :: "snapshot_parts \<Rightarrow> 'v snapshot_cache \<Rightarrow> snapshot_key" where
  "build_key p c = snapshot_parts.extend p (snapshot_key.fields (doc_epoch (sk_frame p) c))"

record 'v cache_hit =
  ch_value :: 'v
  ch_at :: int
  ch_age :: int

definition missed :: "'v snapshot_cache \<Rightarrow> 'v snapshot_cache" where
  "missed c = c\<lparr>sc_misses := sc_misses c + 1\<rparr>"

definition cache_get :: "int \<Rightarrow> snapshot_key \<Rightarrow> 'v snapshot_cache \<Rightarrow> 'v cache_hit option \<times> 'v snapshot_cache" where
  "cache_get now k c =
     (if sk_epoch k \<noteq> doc_epoch (sk_frame k) c then (None, missed c)
      else
        (let key = entry_key k in
         case jget (sc_entries c) key of
           None \<Rightarrow> (None, missed c)
         | Some e \<Rightarrow>
             (let age = now - sn_at e; rest = jdel key (sc_entries c)
              in if 0 < sc_ttl c \<and> sc_ttl c < age then (None, (missed c)\<lparr>sc_entries := rest, sc_evictions := sc_evictions c + 1\<rparr>)
                 else (Some \<lparr>ch_value = sn_value e, ch_at = sn_at e, ch_age = age\<rparr>,
                       c\<lparr>sc_entries := jset key e rest, sc_hits := sc_hits c + 1\<rparr>))))"

text \<open>The loop deletes the first entry of the map, the one used least recently.\<close>

function enforce_capacity :: "'v snapshot_cache \<Rightarrow> 'v snapshot_cache" where
  "enforce_capacity c =
     (if length (sc_entries c) \<le> sc_max c then c
      else
        (case sc_entries c of
           [] \<Rightarrow> c
         | (oldest, e) # rest \<Rightarrow> enforce_capacity (c\<lparr>sc_entries := jdel oldest (sc_entries c), sc_evictions := sc_evictions c + 1\<rparr>)))"
  by pat_completeness auto
termination
  by (relation "measure (\<lambda>c. length (sc_entries c))") (auto simp: less_Suc_eq_le length_jdel_le)

declare enforce_capacity.simps [simp del]

definition cache_set :: "int \<Rightarrow> snapshot_key \<Rightarrow> 'v \<Rightarrow> 'v snapshot_cache \<Rightarrow> 'v snapshot_cache" where
  "cache_set now k v c =
     (if sk_epoch k \<noteq> doc_epoch (sk_frame k) c then c
      else
        (let key = entry_key k; entries = (if jhas (sc_entries c) key then jdel key (sc_entries c) else sc_entries c)
         in enforce_capacity (c\<lparr>sc_entries := jset key \<lparr>sn_value = v, sn_at = now, sn_epoch = sk_epoch k, sn_frame = sk_frame k\<rparr> entries\<rparr>)))"

definition drop_frame_entries :: "string \<Rightarrow> 'v snapshot_cache \<Rightarrow> 'v snapshot_cache" where
  "drop_frame_entries f c =
     c\<lparr>sc_entries := jkeep (\<lambda>_ e. sn_frame e \<noteq> f) (sc_entries c),
       sc_evictions := sc_evictions c + length (filter (\<lambda>(_, e). sn_frame e = f) (sc_entries c))\<rparr>"

definition mark_frame_dirty :: "string \<Rightarrow> 'v snapshot_cache \<Rightarrow> 'v snapshot_cache" where
  "mark_frame_dirty f c = drop_frame_entries f (c\<lparr>sc_epochs := jset f (doc_epoch f c + 1) (sc_epochs c)\<rparr>)"

definition evict_frame :: "string \<Rightarrow> evict_reason \<Rightarrow> 'v snapshot_cache \<Rightarrow> 'v snapshot_cache" where
  "evict_frame f reason c =
     (let before = sc_evictions c; c' = mark_frame_dirty f c; dropped = sc_evictions c' - before
      in c'\<lparr>sc_reasons := jset reason (default_to 0 (jget (sc_reasons c') reason) + dropped) (sc_reasons c')\<rparr>)"

definition destroy_cache :: "'v snapshot_cache \<Rightarrow> 'v snapshot_cache" where
  "destroy_cache c = c\<lparr>sc_evictions := sc_evictions c + length (sc_entries c), sc_entries := [], sc_epochs := []\<rparr>"

section \<open>Reads and mutations of one cache\<close>

text \<open>\<open>lookupOrSet\<close> up to its await, which answers a hit or leaves a computation to be done, and from there on. The number of a
  call names its computation while there is one.\<close>

definition lookup_begins :: "nat \<Rightarrow> snapshot_parts \<Rightarrow> int \<Rightarrow> 'v snapshot_cache \<times> (nat, snapshot_key) jmap
    \<Rightarrow> 'v cache_hit option \<times> 'v snapshot_cache \<times> (nat, snapshot_key) jmap" where
  "lookup_begins i p now = (\<lambda>(c, reads).
     let key = build_key p c in
     case cache_get now key c of
       (Some hit, c') \<Rightarrow> (Some hit, c', jdel i reads)
     | (None, c') \<Rightarrow> (None, c', jset i key reads))"

definition lookup_ends :: "nat \<Rightarrow> 'v \<Rightarrow> bool \<Rightarrow> int \<Rightarrow> 'v snapshot_cache \<times> (nat, snapshot_key) jmap \<Rightarrow> 'v snapshot_cache \<times> (nat, snapshot_key) jmap" where
  "lookup_ends i v should_cache now = (\<lambda>(c, reads).
     case jget reads i of
       None \<Rightarrow> (c, reads)
     | Some key \<Rightarrow> (if should_cache then cache_set now key v c else c, jdel i reads))"

datatype 'v cache_op =
    Read_begins nat snapshot_parts int
  | Read_ends nat 'v bool int
  | Dirty string
  | Evicted string evict_reason

fun cache_step :: "'v snapshot_cache \<times> (nat, snapshot_key) jmap \<Rightarrow> 'v cache_op \<Rightarrow> 'v snapshot_cache \<times> (nat, snapshot_key) jmap" where
  "cache_step s (Read_begins i p now) = snd (lookup_begins i p now s)"
| "cache_step s (Read_ends i v should_cache now) = lookup_ends i v should_cache now s"
| "cache_step (c, reads) (Dirty f) = (mark_frame_dirty f c, reads)"
| "cache_step (c, reads) (Evicted f reason) = (evict_frame f reason c, reads)"

definition cache_run :: "nat option \<Rightarrow> int option \<Rightarrow> 'v cache_op list \<Rightarrow> 'v snapshot_cache \<times> (nat, snapshot_key) jmap" where
  "cache_run max_entries ttl ops = foldl cache_step (new_snapshot_cache max_entries ttl, []) ops"

section \<open>Keys of different reads differ\<close>

lemma split_last: "c \<notin> set b \<Longrightarrow> c \<notin> set b' \<Longrightarrow> a @ c # b = a' @ c # b' \<longleftrightarrow> a = a' \<and> b = b'"
proof
  assume b: "c \<notin> set b" "c \<notin> set b'" and same: "a @ c # b = a' @ c # b'"
  have "takeWhile ((\<noteq>) c) (rev (x @ c # y)) = rev y" if "c \<notin> set y" for x y :: "'a list"
    using that by (simp add: takeWhile_append takeWhile_tail)
  then have "rev b = rev b'" using b same by metis
  then show "a = a' \<and> b = b'" using same by simp
qed simp

lemma split_first: "c \<notin> set a \<Longrightarrow> c \<notin> set a' \<Longrightarrow> a @ c # b = a' @ c # b' \<longleftrightarrow> a = a' \<and> b = b'"
  using split_last [of c "rev a" "rev a'" "rev b" "rev b'"] by (metis append.assoc append_Cons append_Nil rev.simps(2) rev_append rev_rev_ident set_rev)

lemma no_separator: "c \<in> set ''|x@'' \<Longrightarrow> c \<notin> set (int_str n)"
  using int_str_chars [of c n] by (auto simp: is_digit_def)

lemma viewport_key_inj: "viewport_key v = viewport_key w \<longleftrightarrow> v = w"
proof
  assume same: "viewport_key v = viewport_key w"
  have x: "CHR ''x'' \<notin> set (int_str n)" and at: "CHR ''@'' \<notin> set (int_str n)" for n by (rule no_separator, simp)+
  show "v = w" using same by (auto simp: viewport_key_def split_first [OF x x] split_first [OF at at] int_str_inj)
qed simp

lemma viewport_key_bar: "CHR ''|'' \<notin> set (viewport_key v)"
  using no_separator [of "CHR ''|''"] by (simp add: viewport_key_def)

lemma dec_bar: "CHR ''|'' \<notin> set (dec n)"
  using no_separator [of "CHR ''|''" "int n"] by simp

lemma kind_str_inj: "kind_str a = kind_str b \<longleftrightarrow> a = b"
  by (cases a; cases b) simp_all

lemma kind_str_bar: "CHR ''|'' \<notin> set (kind_str a)"
  by (cases a) simp_all

lemma entry_key_inj:
  assumes "CHR ''|'' \<notin> set (sk_params k)" "CHR ''|'' \<notin> set (sk_params k')"
  shows "entry_key k = entry_key k' \<longleftrightarrow> k = k'"
proof
  assume same: "entry_key k = entry_key k'"
  have shape: "kind_str (sk_kind k) @ CHR ''|'' # (((sk_frame k @ CHR ''|'' # dec (sk_epoch k)) @ CHR ''|'' # viewport_key (sk_viewport k)) @ CHR ''|'' # sk_params k)
    = entry_key k" for k :: snapshot_key by (simp add: entry_key_def)
  from same [folded shape] show "k = k'"
    unfolding split_first [OF kind_str_bar kind_str_bar] split_last [OF assms] split_last [OF viewport_key_bar viewport_key_bar] split_last [OF dec_bar dec_bar]
    by (simp add: kind_str_inj viewport_key_inj)
qed simp

section \<open>Histories\<close>

definition invalidates :: "string \<Rightarrow> 'v cache_op \<Rightarrow> bool" where
  "invalidates f op = (case op of Dirty g \<Rightarrow> g = f | Evicted g _ \<Rightarrow> g = f | _ \<Rightarrow> False)"

definition begins_read :: "nat \<Rightarrow> 'v cache_op \<Rightarrow> bool" where
  "begins_read i op = (case op of Read_begins j _ _ \<Rightarrow> j = i | _ \<Rightarrow> False)"

text \<open>A read of the parts \<open>p\<close> has begun as number \<open>i\<close>, and its frame has not been invalidated since; and it has ended with the
  value \<open>v\<close> at the time \<open>at\<close>, again without an invalidation from its begin to now.\<close>

definition under_way :: "'v cache_op list \<Rightarrow> nat \<Rightarrow> snapshot_parts \<Rightarrow> bool" where
  "under_way ops i p \<longleftrightarrow>
     (\<exists>xs now ys. ops = xs @ Read_begins i p now # ys \<and> list_all (\<lambda>op. \<not> invalidates (sk_frame p) op \<and> \<not> begins_read i op) ys)"

definition computed :: "'v cache_op list \<Rightarrow> snapshot_parts \<Rightarrow> 'v \<Rightarrow> int \<Rightarrow> bool" where
  "computed ops p v at \<longleftrightarrow>
     (\<exists>xs i ys. under_way xs i p \<and> ops = xs @ Read_ends i v True at # ys \<and> list_all (\<lambda>op. \<not> invalidates (sk_frame p) op) ys)"

lemma under_way_begin: "under_way (ops @ [Read_begins i p now]) i p"
  unfolding under_way_def by (intro exI [of _ ops] exI [of _ now] exI [of _ "[]"]) simp

lemma under_way_snoc: "under_way ops i p \<Longrightarrow> \<not> invalidates (sk_frame p) op \<Longrightarrow> \<not> begins_read i op \<Longrightarrow> under_way (ops @ [op]) i p"
  unfolding under_way_def by fastforce

lemma computed_end: "under_way ops i p \<Longrightarrow> computed (ops @ [Read_ends i v True at]) p v at"
  unfolding computed_def by (intro exI [of _ ops] exI [of _ i] exI [of _ "[]"]) simp

lemma computed_snoc: "computed ops p v at \<Longrightarrow> \<not> invalidates (sk_frame p) op \<Longrightarrow> computed (ops @ [op]) p v at"
  unfolding computed_def by fastforce

section \<open>What the entries are\<close>

definition key_parts :: "snapshot_key \<Rightarrow> snapshot_parts" where
  "key_parts k = snapshot_parts.truncate k"

lemma key_parts_simps [simp]:
  "sk_kind (key_parts k) = sk_kind k" "sk_frame (key_parts k) = sk_frame k" "sk_viewport (key_parts k) = sk_viewport k" "sk_params (key_parts k) = sk_params k"
  by (simp_all add: key_parts_def snapshot_parts.truncate_def)

lemma build_key_simps [simp]:
  "sk_frame (build_key p c) = sk_frame p" "sk_params (build_key p c) = sk_params p" "sk_epoch (build_key p c) = doc_epoch (sk_frame p) c"
  "key_parts (build_key p c) = p"
  by (simp_all add: build_key_def key_parts_def snapshot_parts.defs snapshot_key.defs)

definition entries_ok :: "'v cache_op list \<Rightarrow> 'v snapshot_cache \<Rightarrow> bool" where
  "entries_ok ops c \<longleftrightarrow> jwf (sc_entries c) \<and> length (sc_entries c) \<le> sc_max c \<and>
     (\<forall>id e. jget (sc_entries c) id = Some e \<longrightarrow>
        (\<exists>k. id = entry_key k \<and> CHR ''|'' \<notin> set (sk_params k) \<and> sn_frame e = sk_frame k \<and> sk_epoch k = doc_epoch (sk_frame k) c \<and>
           computed ops (key_parts k) (sn_value e) (sn_at e)))"

definition reads_ok :: "'v cache_op list \<Rightarrow> 'v snapshot_cache \<times> (nat, snapshot_key) jmap \<Rightarrow> bool" where
  "reads_ok ops = (\<lambda>(c, reads). \<forall>i k. jget reads i = Some k \<longrightarrow>
     CHR ''|'' \<notin> set (sk_params k) \<and> sk_epoch k \<le> doc_epoch (sk_frame k) c \<and>
     (sk_epoch k = doc_epoch (sk_frame k) c \<longrightarrow> under_way ops i (key_parts k)))"

definition cache_inv :: "'v cache_op list \<Rightarrow> 'v snapshot_cache \<times> (nat, snapshot_key) jmap \<Rightarrow> bool" where
  "cache_inv ops s \<longleftrightarrow> entries_ok ops (fst s) \<and> reads_ok ops s \<and> 0 < sc_max (fst s)"

text \<open>Entries go; the frame and the rest of the cache stay.\<close>

lemma entries_sub:
  assumes "entries_ok ops c" "jwf (sc_entries c')" "length (sc_entries c') \<le> length (sc_entries c)" "sc_max c' = sc_max c" "sc_epochs c' = sc_epochs c"
    and "\<And>id e. jget (sc_entries c') id = Some e \<Longrightarrow> jget (sc_entries c) id = Some e"
  shows "entries_ok ops c'"
  using assms by (fastforce simp: entries_ok_def doc_epoch_def)

lemma entries_ok_snoc:
  assumes "entries_ok ops c" "\<And>f. \<not> invalidates f op"
  shows "entries_ok (ops @ [op]) c"
  using assms computed_snoc unfolding entries_ok_def by meson

lemma get_entries:
  assumes "entries_ok ops c"
  shows "entries_ok ops (snd (cache_get now k c))"
proof -
  let ?e = "sc_entries c" and ?k = "entry_key k"
  have wf: "jwf ?e" using assms by (simp add: entries_ok_def)
  have "length (jset ?k x (jdel ?k ?e)) \<le> length ?e" if "jget ?e ?k = Some y" for x y
    using length_jdel [OF wf that] by (simp add: length_jset jhas_def jm)
  then show ?thesis
    using wf length_jdel_le [of ?k ?e]
    by (intro entries_sub [OF assms]) (auto simp: cache_get_def missed_def Let_def jm split: option.splits if_splits)
qed

lemma get_frame: "sc_max (snd (cache_get now k c)) = sc_max c" "sc_epochs (snd (cache_get now k c)) = sc_epochs c"
  by (auto simp: cache_get_def missed_def Let_def split: option.splits)

lemma enforce_frame [simp]: "sc_max (enforce_capacity c) = sc_max c" "sc_epochs (enforce_capacity c) = sc_epochs c"
proof -
  have "sc_max (enforce_capacity c) = sc_max c \<and> sc_epochs (enforce_capacity c) = sc_epochs c"
    by (induction c rule: enforce_capacity.induct) (subst (1 2) enforce_capacity.simps, auto split: list.splits)
  then show "sc_max (enforce_capacity c) = sc_max c" "sc_epochs (enforce_capacity c) = sc_epochs c" by simp_all
qed

lemma enforce_entries:
  "jwf (sc_entries c) \<Longrightarrow> jwf (sc_entries (enforce_capacity c)) \<and> length (sc_entries (enforce_capacity c)) \<le> sc_max c \<and>
    (\<forall>id e. jget (sc_entries (enforce_capacity c)) id = Some e \<longrightarrow> jget (sc_entries c) id = Some e)"
proof (induction c rule: enforce_capacity.induct)
  case (1 c)
  show ?case
  proof (cases "length (sc_entries c) \<le> sc_max c")
    case True
    then show ?thesis using 1(2) by (simp add: enforce_capacity.simps [of c])
  next
    case False
    then obtain k e rest where entries: "sc_entries c = (k, e) # rest" by (cases "sc_entries c") auto
    let ?c = "c\<lparr>sc_entries := jdel k (sc_entries c), sc_evictions := sc_evictions c + 1\<rparr>"
    have "enforce_capacity c = enforce_capacity ?c" using False entries by (simp add: enforce_capacity.simps [of c])
    moreover have "jget (sc_entries c) id = Some e" if "jget (sc_entries ?c) id = Some e" for id e using that by (simp add: jm split: if_splits)
    moreover have "jwf (sc_entries ?c)" using 1(2) by simp
    ultimately show ?thesis using 1(1) [OF False entries refl] by simp
  qed
qed

lemma set_entries:
  assumes ok: "entries_ok ops c" and k: "CHR ''|'' \<notin> set (sk_params k)" and new: "sk_epoch k = doc_epoch (sk_frame k) c \<Longrightarrow> computed ops (key_parts k) v now"
  shows "entries_ok ops (cache_set now k v c)"
proof (cases "sk_epoch k = doc_epoch (sk_frame k) c")
  case False
  then show ?thesis using ok by (simp add: cache_set_def)
next
  case True
  let ?entries = "if jhas (sc_entries c) (entry_key k) then jdel (entry_key k) (sc_entries c) else sc_entries c"
  let ?e = "\<lparr>sn_value = v, sn_at = now, sn_epoch = sk_epoch k, sn_frame = sk_frame k\<rparr>"
  let ?c = "c\<lparr>sc_entries := jset (entry_key k) ?e ?entries\<rparr>"
  have wf: "jwf (sc_entries ?c)" using ok by (simp add: entries_ok_def)
  have "\<exists>k'. id = entry_key k' \<and> CHR ''|'' \<notin> set (sk_params k') \<and> sn_frame e = sk_frame k' \<and> sk_epoch k' = doc_epoch (sk_frame k') c \<and>
      computed ops (key_parts k') (sn_value e) (sn_at e)" if "jget (sc_entries ?c) id = Some e" for id e
  proof (cases "id = entry_key k")
    case True
    then have "e = ?e" using that by (simp add: jm)
    then show ?thesis using True k new \<open>sk_epoch k = _\<close> by (intro exI [of _ k]) simp
  next
    case False
    then have "jget (sc_entries c) id = Some e" using that by (simp add: jm split: if_splits)
    then show ?thesis using ok by (simp add: entries_ok_def)
  qed
  then show ?thesis
    using True enforce_entries [OF wf] by (fastforce simp: cache_set_def Let_def entries_ok_def doc_epoch_def)
qed

lemma set_frame: "sc_max (cache_set now k v c) = sc_max c" "sc_epochs (cache_set now k v c) = sc_epochs c"
  by (simp_all add: cache_set_def Let_def)

lemma dirty_ok:
  assumes inv: "cache_inv ops (c, reads)" and op: "invalidates f op" "\<And>g. invalidates g op \<Longrightarrow> g = f" "\<And>i. \<not> begins_read i op"
  shows "cache_inv (ops @ [op]) (mark_frame_dirty f c, reads)"
proof -
  have epoch: "doc_epoch g (mark_frame_dirty f c) = (if g = f then Suc (doc_epoch f c) else doc_epoch g c)" for g
    by (simp add: mark_frame_dirty_def drop_frame_entries_def doc_epoch_def jm)
  have wf: "jwf (sc_entries c)" "length (sc_entries c) \<le> sc_max c" using inv by (simp_all add: cache_inv_def entries_ok_def)
  have entries: "sc_entries (mark_frame_dirty f c) = jkeep (\<lambda>_ e. sn_frame e \<noteq> f) (sc_entries c)" "sc_max (mark_frame_dirty f c) = sc_max c"
    by (simp_all add: mark_frame_dirty_def drop_frame_entries_def)
  have "\<exists>k. id = entry_key k \<and> CHR ''|'' \<notin> set (sk_params k) \<and> sn_frame e = sk_frame k \<and> sk_epoch k = doc_epoch (sk_frame k) (mark_frame_dirty f c) \<and>
      computed (ops @ [op]) (key_parts k) (sn_value e) (sn_at e)" if "jget (sc_entries (mark_frame_dirty f c)) id = Some e" for id e
  proof -
    have e: "jget (sc_entries c) id = Some e" "sn_frame e \<noteq> f" using that wf by (auto simp: entries jm split: option.splits if_splits)
    then obtain k where k: "id = entry_key k" "CHR ''|'' \<notin> set (sk_params k)" "sn_frame e = sk_frame k" "sk_epoch k = doc_epoch (sk_frame k) c"
      "computed ops (key_parts k) (sn_value e) (sn_at e)" using inv by (auto simp: cache_inv_def entries_ok_def)
    have "computed (ops @ [op]) (key_parts k) (sn_value e) (sn_at e)" using k(3,5) e(2) op(2) by (intro computed_snoc) auto
    then show ?thesis using k e(2) epoch by auto
  qed
  moreover have "length (sc_entries (mark_frame_dirty f c)) \<le> sc_max c" using wf(2) length_jkeep_le order_trans unfolding entries by blast
  ultimately have "entries_ok (ops @ [op]) (mark_frame_dirty f c)" using wf by (simp add: entries_ok_def) (simp add: entries)
  moreover have "reads_ok (ops @ [op]) (mark_frame_dirty f c, reads)"
    unfolding reads_ok_def
  proof (clarify, intro conjI impI)
    fix i k
    assume "jget reads i = Some k"
    then have k: "CHR ''|'' \<notin> set (sk_params k)" "sk_epoch k \<le> doc_epoch (sk_frame k) c" "sk_epoch k = doc_epoch (sk_frame k) c \<Longrightarrow> under_way ops i (key_parts k)"
      using inv by (simp_all add: cache_inv_def reads_ok_def)
    show "CHR ''|'' \<notin> set (sk_params k)" using k(1) .
    show "sk_epoch k \<le> doc_epoch (sk_frame k) (mark_frame_dirty f c)" using k(2) by (auto simp: epoch)
    assume same: "sk_epoch k = doc_epoch (sk_frame k) (mark_frame_dirty f c)"
    then have f: "sk_frame k \<noteq> f" using k(2) by (auto simp: epoch)
    then have "\<not> invalidates (sk_frame (key_parts k)) op" using op(2) by auto
    then show "under_way (ops @ [op]) i (key_parts k)" using under_way_snoc [OF k(3)] same f op(3) by (simp add: epoch)
  qed
  ultimately show ?thesis using inv entries(2) by (simp add: cache_inv_def)
qed

definition plain_op :: "'v cache_op \<Rightarrow> bool" where
  "plain_op op = (case op of Read_begins _ p _ \<Rightarrow> CHR ''|'' \<notin> set (sk_params p) | _ \<Rightarrow> True)"

lemma step_cache_inv:
  assumes inv: "cache_inv ops s" and plain: "plain_op op"
  shows "cache_inv (ops @ [op]) (cache_step s op)"
proof -
  obtain c reads where s: "s = (c, reads)" by (cases s)
  have ok: "entries_ok ops c" and max: "0 < sc_max c" using inv by (simp_all add: s cache_inv_def)
  have pend: "CHR ''|'' \<notin> set (sk_params k) \<and> sk_epoch k \<le> doc_epoch (sk_frame k) c \<and> (sk_epoch k = doc_epoch (sk_frame k) c \<longrightarrow> under_way ops i (key_parts k))"
    if "jget reads i = Some k" for i k using inv that by (simp add: s cache_inv_def reads_ok_def)
  show ?thesis
  proof (cases op)
    case (Dirty f)
    have "cache_inv (ops @ [op]) (mark_frame_dirty f c, reads)"
      by (rule dirty_ok [OF inv [unfolded s]]) (simp_all add: Dirty invalidates_def begins_read_def)
    then show ?thesis by (simp add: s Dirty)
  next
    case (Evicted f reason)
    have "cache_inv (ops @ [op]) (mark_frame_dirty f c, reads)"
      by (rule dirty_ok [OF inv [unfolded s]]) (simp_all add: Evicted invalidates_def begins_read_def)
    moreover have "cache_inv h (d\<lparr>sc_reasons := x\<rparr>, r) = cache_inv h (d, r)" for h r x and d :: "'a snapshot_cache"
      by (simp add: cache_inv_def entries_ok_def reads_ok_def doc_epoch_def)
    ultimately show ?thesis using Evicted by (simp add: s evict_frame_def Let_def)
  next
    case (Read_begins i p now)
    let ?k = "build_key p c"
    obtain h c' where get: "cache_get now ?k c = (h, c')" by fastforce
    have c': "entries_ok ops c'" "sc_max c' = sc_max c" "sc_epochs c' = sc_epochs c"
      using get_entries [OF ok, of now ?k] get_frame [of now ?k c] get by simp_all
    have "entries_ok (ops @ [op]) c'" using entries_ok_snoc [OF c'(1)] Read_begins by (simp add: invalidates_def)
    moreover have "under_way (ops @ [op]) j (key_parts k)" if "under_way ops j (key_parts k)" "j \<noteq> i" for j k
      using under_way_snoc [OF that(1), of op] that(2) Read_begins by (simp add: invalidates_def begins_read_def)
    moreover have "under_way (ops @ [op]) i p" using under_way_begin Read_begins by blast
    ultimately show ?thesis
      using c'(2,3) pend plain max get Read_begins
      by (cases h) (auto simp: s cache_inv_def lookup_begins_def Let_def reads_ok_def doc_epoch_def jm plain_op_def split: if_splits)
  next
    case (Read_ends i v should_cache now)
    have later: "under_way (ops @ [op]) j (key_parts k)" if "under_way ops j (key_parts k)" for j k
      using under_way_snoc [OF that, of op] Read_ends by (simp add: invalidates_def begins_read_def)
    have ok': "entries_ok (ops @ [op]) c" using entries_ok_snoc [OF ok] Read_ends by (simp add: invalidates_def)
    show ?thesis
    proof (cases "jget reads i")
      case None
      then show ?thesis using ok' pend later max Read_ends by (simp add: s cache_inv_def lookup_ends_def reads_ok_def)
    next
      case (Some k)
      have "entries_ok (ops @ [op]) (cache_set now k v c)" if "should_cache"
        using pend [OF Some] computed_end [of ops i "key_parts k" v now] Read_ends that by (intro set_entries [OF ok']) auto
      then show ?thesis
        using ok' pend later max Read_ends Some set_frame [of now k v c]
        by (auto simp: s cache_inv_def lookup_ends_def reads_ok_def doc_epoch_def jm split: if_splits)
    qed
  qed
qed

lemma run_cache_inv: "list_all plain_op ops \<Longrightarrow> cache_inv ops (cache_run max_entries ttl ops)"
proof (induction ops rule: rev_induct)
  case Nil
  then show ?case by (simp add: cache_run_def cache_inv_def entries_ok_def reads_ok_def new_snapshot_cache_def)
next
  case (snoc op ops)
  then show ?case using step_cache_inv [of ops "cache_run max_entries ttl ops" op] by (simp add: cache_run_def)
qed

text \<open>C37 (safety). A cached snapshot is never stale: whatever reads, mutations and events of the browser interleave, a hit is the
  value of a computation for the very same question (kind, frame, viewport and parameters) that began after the last
  invalidation of its frame, it is no older than the time to live, and the cache holds no more entries than its limit.\<close>

theorem hit_is_current:
  assumes "list_all plain_op ops" "CHR ''|'' \<notin> set (sk_params p)"
    and "c = fst (cache_run max_entries ttl ops)" "fst (cache_get now (build_key p c) c) = Some hit"
  shows "computed ops p (ch_value hit) (ch_at hit) \<and> ch_age hit = now - ch_at hit \<and> (0 < sc_ttl c \<longrightarrow> ch_age hit \<le> sc_ttl c) \<and>
    length (sc_entries c) \<le> sc_max c"
proof -
  have ok: "entries_ok ops c" using run_cache_inv [OF assms(1)] assms(3) by (simp add: cache_inv_def)
  from assms(4) obtain e where e: "jget (sc_entries c) (entry_key (build_key p c)) = Some e"
    "hit = \<lparr>ch_value = sn_value e, ch_at = sn_at e, ch_age = now - sn_at e\<rparr>" "0 < sc_ttl c \<longrightarrow> now - sn_at e \<le> sc_ttl c"
    by (auto simp: cache_get_def Let_def split: option.splits if_splits)
  then obtain k where k: "entry_key (build_key p c) = entry_key k" "CHR ''|'' \<notin> set (sk_params k)" "computed ops (key_parts k) (sn_value e) (sn_at e)"
    using ok by (auto simp: entries_ok_def)
  then have "build_key p c = k" using entry_key_inj [of "build_key p c" k] assms(2) by simp
  then have "key_parts k = p" by auto
  then show ?thesis using k(3) e ok by (simp add: entries_ok_def)
qed

definition demo_parts :: snapshot_parts where
  "demo_parts = \<lparr>sk_kind = Query_dom, sk_frame = ''F'', sk_viewport = \<lparr>vp_w = 8, vp_h = 6, vp_dpr = 1\<rparr>, sk_params = ''ab''\<rparr>"

definition demo_reads :: "nat cache_op list" where
  "demo_reads = [Read_begins 1 demo_parts 0, Dirty ''F'', Read_ends 1 7 True 5, Read_begins 2 demo_parts 6, Read_ends 2 8 True 9]"

lemma hit_is_current_witness: "computed demo_reads demo_parts 8 9"
proof -
  let ?c = "fst (cache_run None None demo_reads)"
  have "fst (cache_get 10 (build_key demo_parts ?c) ?c) = Some \<lparr>ch_value = 8, ch_at = 9, ch_age = 1\<rparr>" by code_simp
  moreover have "list_all plain_op demo_reads" by code_simp
  moreover have "CHR ''|'' \<notin> set (sk_params demo_parts)" by code_simp
  ultimately show ?thesis using hit_is_current [of demo_reads demo_parts ?c None None 10] by fastforce
qed

section \<open>Targets and pages\<close>

text \<open>The caches are shared objects: \<open>REGISTRY\<close> holds the one of a target, and the listeners of a page object hold the one that the
  page had when they were attached. \<open>sw_attached\<close> gives for a page its target, that cache, and whether its listeners are wired.\<close>

record 'v snapshot_world =
  sw_caches :: "'v snapshot_cache list"
  sw_registry :: "(string, nat) jmap"
  sw_attached :: "(nat, string \<times> nat \<times> bool) jmap"

definition cache_for_target :: "string \<Rightarrow> 'v snapshot_world \<Rightarrow> nat \<times> 'v snapshot_world" where
  "cache_for_target target w =
     (case jget (sw_registry w) target of
        Some a \<Rightarrow> (a, w)
      | None \<Rightarrow> (let a = length (sw_caches w) in
          (a, w\<lparr>sw_caches := sw_caches w @ [new_snapshot_cache None None], sw_registry := jset target a (sw_registry w)\<rparr>)))"

definition on_cache :: "nat \<Rightarrow> ('v snapshot_cache \<Rightarrow> 'v snapshot_cache) \<Rightarrow> 'v snapshot_world \<Rightarrow> 'v snapshot_world" where
  "on_cache a f w = w\<lparr>sw_caches := (sw_caches w)[a := f (sw_caches w ! a)]\<rparr>"

definition dispose_cache :: "string \<Rightarrow> 'v snapshot_world \<Rightarrow> 'v snapshot_world" where
  "dispose_cache target w =
     (case jget (sw_registry w) target of
        None \<Rightarrow> w
      | Some a \<Rightarrow> (on_cache a destroy_cache w)\<lparr>sw_registry := jdel target (sw_registry w)\<rparr>)"

definition cache_for_page :: "nat \<Rightarrow> string \<Rightarrow> 'v snapshot_world \<Rightarrow> nat \<times> 'v snapshot_world" where
  "cache_for_page page target w =
     (let (a, w1) = cache_for_target target w
      in (a, if jhas (sw_attached w1) page then w1 else w1\<lparr>sw_attached := jset page (target, a, False) (sw_attached w1)\<rparr>))"

datatype page_event = Doc_updated | Doc_navigated string | Doc_resized

definition page_event_seen :: "nat \<Rightarrow> string \<Rightarrow> page_event \<Rightarrow> 'v snapshot_world \<Rightarrow> 'v snapshot_world" where
  "page_event_seen page main_frame ev w =
     (case jget (sw_attached w) page of
        Some (target, a, True) \<Rightarrow>
          (case ev of
             Doc_updated \<Rightarrow> on_cache a (evict_frame main_frame Document_updated) w
           | Doc_navigated f \<Rightarrow>
               (let w1 = on_cache a (evict_frame f Frame_navigated) w
                in if f \<noteq> main_frame then on_cache a (evict_frame main_frame Frame_navigated) w1 else w1)
           | Doc_resized \<Rightarrow> on_cache a (evict_frame main_frame Frame_resized) w)
      | _ \<Rightarrow> w)"

definition listeners_wired :: "nat \<Rightarrow> 'v snapshot_world \<Rightarrow> 'v snapshot_world" where
  "listeners_wired page w =
     (case jget (sw_attached w) page of None \<Rightarrow> w | Some (target, a, _) \<Rightarrow> w\<lparr>sw_attached := jset page (target, a, True) (sw_attached w)\<rparr>)"

definition page_closes :: "nat \<Rightarrow> 'v snapshot_world \<Rightarrow> 'v snapshot_world" where
  "page_closes page w = (case jget (sw_attached w) page of None \<Rightarrow> w | Some (target, _, _) \<Rightarrow> dispose_cache target w)"

definition page_mutated :: "nat \<Rightarrow> string \<Rightarrow> string \<Rightarrow> 'v snapshot_world \<Rightarrow> 'v snapshot_world" where
  "page_mutated page target main_frame w = (let (a, w1) = cache_for_page page target w in on_cache a (mark_frame_dirty main_frame) w1)"

definition page_lookup :: "nat \<Rightarrow> string \<Rightarrow> snapshot_parts \<Rightarrow> int \<Rightarrow> 'v snapshot_world \<Rightarrow> 'v cache_hit option \<times> (nat \<times> snapshot_key) \<times> 'v snapshot_world" where
  "page_lookup page target p now w =
     (let (a, w1) = cache_for_page page target w; c = sw_caches w1 ! a; key = build_key p c; (hit, c') = cache_get now key c
      in (hit, (a, key), w1\<lparr>sw_caches := (sw_caches w1)[a := c']\<rparr>))"

definition page_computed :: "nat \<times> snapshot_key \<Rightarrow> 'v \<Rightarrow> int \<Rightarrow> 'v snapshot_world \<Rightarrow> 'v snapshot_world" where
  "page_computed = (\<lambda>(a, key) v now. on_cache a (cache_set now key v))"

definition read_value :: "nat \<Rightarrow> string \<Rightarrow> snapshot_parts \<Rightarrow> 'v \<Rightarrow> int \<Rightarrow> 'v snapshot_world \<Rightarrow> 'v snapshot_world" where
  "read_value page target p v now w = (let (hit, built, w1) = page_lookup page target p now w in if hit = None then page_computed built v now w1 else w1)"

text \<open>Two page objects of one target, as after a reconnect: when the first emits \<open>close\<close>, the cache of the target is replaced, but the
  listeners of the second stay attached to the old one. A navigation then invalidates nothing, and the
  snapshot of the page that has been left is a hit.\<close>

definition two_pages :: "nat snapshot_world" where
  "two_pages =
     (let w0 = \<lparr>sw_caches = [], sw_registry = [], sw_attached = []\<rparr>;
          w1 = listeners_wired 2 (read_value 2 ''T'' demo_parts 1 0 (listeners_wired 1 (read_value 1 ''T'' demo_parts 1 0 w0)));
          w2 = read_value 2 ''T'' demo_parts 3 20 (page_closes 1 w1)
      in page_event_seen 2 ''F'' (Doc_navigated ''F'') w2)"

lemma navigation_missed: "map_option ch_value (fst (page_lookup 2 ''T'' demo_parts 30 two_pages)) = Some 3"
  by code_simp

text \<open>With one page object the same navigation makes the read a miss.\<close>

lemma navigation_seen:
  "fst (page_lookup 1 ''T'' demo_parts 30 (page_event_seen 1 ''F'' (Doc_navigated ''F'')
     (listeners_wired 1 (read_value 1 ''T'' demo_parts (3::nat) 20 \<lparr>sw_caches = [], sw_registry = [], sw_attached = []\<rparr>)))) = None"
  by code_simp

end
