(* ===== verification/Crawl_Dispatcher.thy ===== *)
theory Crawl_Dispatcher
  imports Oc_Prelude
begin

text \<open>
  The adaptive dispatcher of the crawler, \<open>src/src/core/crawl/dispatcher.ts\<close>. Runs are numbers. \<open>cd_tasks\<close> is the queue of
  microtasks: a promise that is resolved continues there, in order, before anything else happens. So \<open>run\<close> is the
  steps up to its first await, the microtask that takes the slot, and the end of the work; a waiter that is released
  is a microtask of its own. Limits are integers, as are times; the memory that is free when a run begins is an argument.
\<close>

section \<open>The dispatcher\<close>

datatype throttle_reason = Memory_pressure | Error_pressure

datatype dispatcher_event =
    Throttled throttle_reason int int int
  | Origin_backoff string int int int
  | Recovery int int int

datatype microtask = Wakes nat | Admits nat

record dispatcher =
  cd_min :: int
  cd_max :: int
  cd_current :: int
  cd_max_seen :: int
  cd_active :: int
  cd_streak :: int
  cd_queue :: "nat list"
  cd_backoff :: "(string, int) jmap"
  cd_events :: "dispatcher_event list"
  cd_started :: int
  cd_memory_limit :: int
  cd_backoff_ms :: int
  cd_statuses :: "int list"
  cd_timers :: nat
  cd_tasks :: "microtask list"
  cd_origins :: "(nat, string) jmap"
  cd_running :: "nat list"

record dispatcher_options =
  do_min :: "int option"
  do_max :: "int option"
  do_memory :: "int option"
  do_backoff :: "int option"
  do_statuses :: "int list option"

definition new_dispatcher :: "int \<Rightarrow> dispatcher_options \<Rightarrow> int \<Rightarrow> dispatcher" where
  "new_dispatcher initial opts now =
     (let mn = max 1 (default_to 1 (do_min opts)); mx = max mn (default_to initial (do_max opts)); cur = max mn (min mx initial)
      in \<lparr>cd_min = mn, cd_max = mx, cd_current = cur, cd_max_seen = cur, cd_active = 0, cd_streak = 0, cd_queue = [], cd_backoff = [],
          cd_events = [], cd_started = now, cd_memory_limit = default_to (500 * 1024 * 1024) (do_memory opts),
          cd_backoff_ms = default_to 30000 (do_backoff opts), cd_statuses = default_to [429, 503] (do_statuses opts),
          cd_timers = 0, cd_tasks = [], cd_origins = [], cd_running = []\<rparr>)"

definition log_event :: "dispatcher_event \<Rightarrow> dispatcher \<Rightarrow> dispatcher" where
  "log_event e d = d\<lparr>cd_events := cd_events d @ [e]\<rparr>"

definition reduce :: "throttle_reason \<Rightarrow> int \<Rightarrow> dispatcher \<Rightarrow> dispatcher" where
  "reduce reason now d =
     (if cd_current d \<le> cd_min d then d
      else
        (let from = cd_current d; to = max (cd_min d) ((from + 1) div 2); d' = d\<lparr>cd_current := to\<rparr>
         in if from \<noteq> to then log_event (Throttled reason from to (now - cd_started d)) d' else d'))"

definition record_response :: "string \<Rightarrow> int option \<Rightarrow> int \<Rightarrow> dispatcher \<Rightarrow> dispatcher" where
  "record_response origin status now d =
     (case truthy_int status of
        None \<Rightarrow> d
      | Some st \<Rightarrow>
          if st \<in> set (cd_statuses d) then
            reduce Error_pressure now (log_event (Origin_backoff origin st (cd_backoff_ms d) (now - cd_started d))
              (d\<lparr>cd_backoff := jset origin (now + cd_backoff_ms d) (cd_backoff d)\<rparr>))
          else d)"

definition record_success :: "int \<Rightarrow> dispatcher \<Rightarrow> dispatcher" where
  "record_success now d =
     (let d1 = d\<lparr>cd_streak := cd_streak d + 1\<rparr>
      in if cd_current d1 * 2 \<le> cd_streak d1 \<and> cd_current d1 < cd_max d1
         then (let from = cd_current d1; to = from + 1
               in log_event (Recovery from to (now - cd_started d)) (d1\<lparr>cd_current := to, cd_max_seen := max (cd_max_seen d1) to, cd_streak := 0\<rparr>))
         else d1)"

definition record_error :: "string \<Rightarrow> int option \<Rightarrow> int \<Rightarrow> dispatcher \<Rightarrow> dispatcher" where
  "record_error origin status now d = reduce Error_pressure now (record_response origin status now (d\<lparr>cd_streak := 0\<rparr>))"

definition apply_memory_pressure :: "int \<Rightarrow> int \<Rightarrow> dispatcher \<Rightarrow> dispatcher" where
  "apply_memory_pressure free now d = (if free < cd_memory_limit d then reduce Memory_pressure now d else d)"

definition release_next :: "dispatcher \<Rightarrow> dispatcher" where
  "release_next d = (case cd_queue d of [] \<Rightarrow> d | i # rest \<Rightarrow> d\<lparr>cd_queue := rest, cd_tasks := cd_tasks d @ [Wakes i]\<rparr>)"

definition is_backed_off :: "string \<Rightarrow> int \<Rightarrow> dispatcher \<Rightarrow> bool \<times> dispatcher" where
  "is_backed_off origin now d =
     (case truthy_int (jget (cd_backoff d) origin) of
        None \<Rightarrow> (False, d)
      | Some till \<Rightarrow>
          if till \<le> now then (False, d\<lparr>cd_backoff := jdel origin (cd_backoff d)\<rparr>)
          else (True, d\<lparr>cd_timers := cd_timers d + 1\<rparr>))"

text \<open>The loop of \<open>waitForSlot\<close> from its condition to the next await.\<close>

definition wait_for_slot :: "nat \<Rightarrow> int \<Rightarrow> dispatcher \<Rightarrow> dispatcher" where
  "wait_for_slot i now d =
     (let (blocked, d1) = (if cd_current d \<le> cd_active d then (True, d) else is_backed_off (default_to [] (jget (cd_origins d) i)) now d)
      in if blocked then d1\<lparr>cd_queue := cd_queue d1 @ [i]\<rparr> else d1\<lparr>cd_tasks := cd_tasks d1 @ [Admits i]\<rparr>)"

definition run_begins :: "nat \<Rightarrow> string \<Rightarrow> int \<Rightarrow> dispatcher \<Rightarrow> dispatcher" where
  "run_begins i origin now d =
     (if jhas (cd_origins d) i then d else wait_for_slot i now (d\<lparr>cd_origins := jset i origin (cd_origins d)\<rparr>))"

definition microtask_runs :: "int \<Rightarrow> int \<Rightarrow> dispatcher \<Rightarrow> dispatcher" where
  "microtask_runs free now d =
     (case cd_tasks d of
        [] \<Rightarrow> d
      | Wakes i # rest \<Rightarrow> wait_for_slot i now (release_next (d\<lparr>cd_tasks := rest\<rparr>))
      | Admits i # rest \<Rightarrow>
          apply_memory_pressure free now (d\<lparr>cd_tasks := rest, cd_active := cd_active d + 1, cd_running := cd_running d @ [i]\<rparr>))"

definition run_ends :: "nat \<Rightarrow> bool \<Rightarrow> int \<Rightarrow> dispatcher \<Rightarrow> dispatcher" where
  "run_ends i succeeded now d =
     (if i \<in> set (cd_running d)
      then
        (let d1 = (if succeeded then record_success now d else record_error (default_to [] (jget (cd_origins d) i)) None now d)
         in release_next (d1\<lparr>cd_active := cd_active d1 - 1, cd_running := remove1 i (cd_running d1)\<rparr>))
      else d)"

definition timer_fires :: "dispatcher \<Rightarrow> dispatcher" where
  "timer_fires d = (if 0 < cd_timers d then release_next (d\<lparr>cd_timers := cd_timers d - 1\<rparr>) else d)"

record dispatcher_stats =
  ds_initial :: int
  ds_min :: int
  ds_max_seen :: int
  ds_events :: "dispatcher_event list"

definition dispatcher_stats_of :: "dispatcher \<Rightarrow> dispatcher_stats" where
  "dispatcher_stats_of d = \<lparr>ds_initial = cd_max d, ds_min = cd_min d, ds_max_seen = cd_max_seen d, ds_events = cd_events d\<rparr>"

section \<open>Runs\<close>

datatype dispatcher_op =
    Run_begins nat string int
  | Microtask int int
  | Run_ends nat bool int
  | Responded string "int option" int
  | Timer_fires

fun dispatcher_step :: "dispatcher \<Rightarrow> dispatcher_op \<Rightarrow> dispatcher" where
  "dispatcher_step d (Run_begins i origin now) = run_begins i origin now d"
| "dispatcher_step d (Microtask free now) = microtask_runs free now d"
| "dispatcher_step d (Run_ends i succeeded now) = run_ends i succeeded now d"
| "dispatcher_step d (Responded origin status now) = record_response origin status now d"
| "dispatcher_step d Timer_fires = timer_fires d"

definition dispatcher_run :: "int \<Rightarrow> dispatcher_options \<Rightarrow> int \<Rightarrow> dispatcher_op list \<Rightarrow> dispatcher" where
  "dispatcher_run initial opts now ops = foldl dispatcher_step (new_dispatcher initial opts now) ops"

section \<open>Limits, accounts and wake-ups\<close>

fun task_run :: "microtask \<Rightarrow> nat" where
  "task_run (Wakes i) = i"
| "task_run (Admits i) = i"

text \<open>Where runs are: waiting, about to continue, or working.\<close>

definition present :: "dispatcher \<Rightarrow> nat list" where
  "present d = cd_queue d @ map task_run (cd_tasks d) @ cd_running d"

definition limits_ok :: "dispatcher \<Rightarrow> bool" where
  "limits_ok d \<longleftrightarrow> 1 \<le> cd_min d \<and> cd_min d \<le> cd_current d \<and> cd_current d \<le> cd_max_seen d \<and> cd_max_seen d \<le> cd_max d"

definition accounts_ok :: "dispatcher \<Rightarrow> bool" where
  "accounts_ok d \<longleftrightarrow> cd_active d = int (length (cd_running d)) \<and> distinct (present d) \<and> (\<forall>i \<in> set (present d). jhas (cd_origins d) i)"

definition woken_later :: "dispatcher \<Rightarrow> bool" where
  "woken_later d \<longleftrightarrow> cd_queue d = [] \<or> cd_tasks d \<noteq> [] \<or> cd_running d \<noteq> [] \<or> 0 < cd_timers d"

definition dispatcher_inv :: "dispatcher \<Rightarrow> bool" where
  "dispatcher_inv d \<longleftrightarrow> limits_ok d \<and> accounts_ok d \<and> woken_later d"

text \<open>What only moves the limit and the log leaves the accounts as they are.\<close>

definition same_runs :: "dispatcher \<Rightarrow> dispatcher \<Rightarrow> bool" where
  "same_runs d d' \<longleftrightarrow> cd_queue d' = cd_queue d \<and> cd_tasks d' = cd_tasks d \<and> cd_running d' = cd_running d \<and> cd_origins d' = cd_origins d \<and>
     cd_active d' = cd_active d \<and> cd_timers d' = cd_timers d"

lemma same_runs_ok: "same_runs d d' \<Longrightarrow> accounts_ok d' = accounts_ok d \<and> woken_later d' = woken_later d"
  by (simp add: same_runs_def accounts_ok_def woken_later_def present_def)

lemma same_runs_refl [simp]: "same_runs d d"
  by (simp add: same_runs_def)

lemma same_runs_trans: "same_runs d d' \<Longrightarrow> same_runs d' d'' \<Longrightarrow> same_runs d d''"
  by (simp add: same_runs_def)

lemma reduce_runs: "same_runs d (reduce reason now d)"
  by (simp add: reduce_def log_event_def same_runs_def Let_def)

lemma response_runs: "same_runs d (record_response origin status now d)"
proof (cases "truthy_int status")
  case (Some st)
  have "same_runs d (log_event e (d\<lparr>cd_backoff := b\<rparr>))" for e b by (simp add: same_runs_def log_event_def)
  then show ?thesis using Some same_runs_trans reduce_runs by (fastforce simp: record_response_def)
qed (simp add: record_response_def)

lemma success_runs: "same_runs d (record_success now d)"
  by (simp add: record_success_def log_event_def same_runs_def Let_def)

lemma error_runs: "same_runs d (record_error origin status now d)"
proof -
  have "same_runs d (d\<lparr>cd_streak := 0\<rparr>)" by (simp add: same_runs_def)
  then show ?thesis unfolding record_error_def using same_runs_trans response_runs reduce_runs by blast
qed

lemma memory_runs: "same_runs d (apply_memory_pressure free now d)"
  by (simp add: apply_memory_pressure_def reduce_runs)

lemma reduce_limits: "limits_ok d \<Longrightarrow> limits_ok (reduce reason now d)"
  by (auto simp: reduce_def log_event_def limits_ok_def Let_def)

lemma success_limits: "limits_ok d \<Longrightarrow> limits_ok (record_success now d)"
  by (auto simp: record_success_def log_event_def limits_ok_def Let_def)

lemma limits_frame:
  "limits_ok (d\<lparr>cd_backoff := a\<rparr>) = limits_ok d" "limits_ok (log_event e d) = limits_ok d" "limits_ok (d\<lparr>cd_streak := s\<rparr>) = limits_ok d"
  by (simp_all add: limits_ok_def log_event_def)

lemma response_limits: "limits_ok d \<Longrightarrow> limits_ok (record_response origin status now d)"
  by (simp add: record_response_def reduce_limits limits_frame split: option.split)

lemma error_limits: "limits_ok d \<Longrightarrow> limits_ok (record_error origin status now d)"
  by (simp add: record_error_def reduce_limits response_limits limits_frame)

lemma memory_limits: "limits_ok d \<Longrightarrow> limits_ok (apply_memory_pressure free now d)"
  by (simp add: apply_memory_pressure_def reduce_limits)

text \<open>Releasing a waiter and waiting for a slot.\<close>

lemma release_next_cases:
  obtains "cd_queue d = []" "release_next d = d" | i rest where "cd_queue d = i # rest" "release_next d = d\<lparr>cd_queue := rest, cd_tasks := cd_tasks d @ [Wakes i]\<rparr>"
  by (cases "cd_queue d") (simp_all add: release_next_def)

lemma release_ok: "limits_ok d \<Longrightarrow> accounts_ok d \<Longrightarrow> dispatcher_inv (release_next d)"
  by (cases rule: release_next_cases [of d]) (auto simp: dispatcher_inv_def limits_ok_def accounts_ok_def woken_later_def present_def)

lemma wait_cases:
  obtains (queued) t where "wait_for_slot i now d = d\<lparr>cd_timers := t, cd_queue := cd_queue d @ [i]\<rparr>" "cd_current d \<le> cd_active d \<or> 0 < t"
  | (admitted) b where "wait_for_slot i now d = d\<lparr>cd_backoff := b, cd_tasks := cd_tasks d @ [Admits i]\<rparr>"
proof (cases "cd_current d \<le> cd_active d")
  case True
  then have "wait_for_slot i now d = d\<lparr>cd_timers := cd_timers d, cd_queue := cd_queue d @ [i]\<rparr>" by (simp add: wait_for_slot_def)
  then show ?thesis using that(1) True by blast
next
  case False
  let ?b = "is_backed_off (default_to [] (jget (cd_origins d) i)) now d"
  consider b where "?b = (False, d\<lparr>cd_backoff := b\<rparr>)" | "?b = (True, d\<lparr>cd_timers := cd_timers d + 1\<rparr>)"
  proof (cases "truthy_int (jget (cd_backoff d) (default_to [] (jget (cd_origins d) i)))")
    case None
    then have "?b = (False, d\<lparr>cd_backoff := cd_backoff d\<rparr>)" by (simp add: is_backed_off_def)
    then show ?thesis using that(1) by blast
  next
    case (Some till)
    then show ?thesis using that by (cases "till \<le> now") (simp_all add: is_backed_off_def)
  qed
  then show ?thesis
  proof cases
    case 1
    then show ?thesis using that(2) False by (simp add: wait_for_slot_def)
  next
    case 2
    then show ?thesis using that(1) [of "cd_timers d + 1"] False by (simp add: wait_for_slot_def)
  qed
qed

lemma wait_ok:
  assumes "limits_ok d" "accounts_ok d" "i \<notin> set (present d)" "jhas (cd_origins d) i"
  shows "dispatcher_inv (wait_for_slot i now d)"
proof (cases rule: wait_cases [of i now d])
  case (queued t)
  have "cd_running d \<noteq> [] \<or> 0 < t" using queued(2) assms(1,2) by (auto simp: limits_ok_def accounts_ok_def)
  then show ?thesis using assms by (auto simp: queued(1) dispatcher_inv_def limits_ok_def accounts_ok_def woken_later_def present_def)
next
  case (admitted b)
  then show ?thesis using assms by (auto simp: dispatcher_inv_def limits_ok_def accounts_ok_def woken_later_def present_def)
qed

lemma release_present: "set (present (release_next d)) = set (present d)" "cd_origins (release_next d) = cd_origins d" "cd_running (release_next d) = cd_running d"
  by (cases rule: release_next_cases [of d]; auto simp: present_def)+

lemma wait_present: "set (present (wait_for_slot i now d)) = insert i (set (present d))" "cd_origins (wait_for_slot i now d) = cd_origins d"
  by (cases rule: wait_cases [of i now d]; auto simp: present_def)+

lemma begins_inv:
  assumes "dispatcher_inv d"
  shows "dispatcher_inv (run_begins i origin now d)"
proof (cases "jhas (cd_origins d) i")
  case False
  then have "i \<notin> set (present d)" using assms by (auto simp: dispatcher_inv_def accounts_ok_def)
  moreover have "limits_ok (d\<lparr>cd_origins := jset i origin (cd_origins d)\<rparr>)" using assms by (simp add: dispatcher_inv_def limits_ok_def)
  moreover have "accounts_ok (d\<lparr>cd_origins := jset i origin (cd_origins d)\<rparr>)"
    using assms by (auto simp: dispatcher_inv_def accounts_ok_def present_def jhas_def jm)
  ultimately show ?thesis using False by (simp add: run_begins_def wait_ok present_def jhas_def jm)
qed (simp add: run_begins_def assms)

lemma microtask_inv:
  assumes "dispatcher_inv d"
  shows "dispatcher_inv (microtask_runs free now d)"
proof (cases "cd_tasks d")
  case (Cons t rest)
  show ?thesis
  proof (cases t)
    case (Wakes i)
    let ?d = "d\<lparr>cd_tasks := rest\<rparr>"
    have "limits_ok ?d" using assms by (simp add: dispatcher_inv_def limits_ok_def)
    moreover have "accounts_ok ?d" "i \<notin> set (present ?d)" "jhas (cd_origins ?d) i"
      using assms Cons Wakes by (auto simp: dispatcher_inv_def accounts_ok_def present_def)
    ultimately have "dispatcher_inv (wait_for_slot i now (release_next ?d))"
      using release_ok [of ?d] by (intro wait_ok) (simp_all add: release_present dispatcher_inv_def)
    then show ?thesis using Cons Wakes by (simp add: microtask_runs_def)
  next
    case (Admits i)
    let ?d = "d\<lparr>cd_tasks := rest, cd_active := cd_active d + 1, cd_running := cd_running d @ [i]\<rparr>"
    have "limits_ok ?d" using assms by (simp add: dispatcher_inv_def limits_ok_def)
    moreover have "accounts_ok ?d" using assms Cons Admits by (auto simp: dispatcher_inv_def accounts_ok_def present_def)
    moreover have "woken_later ?d" by (simp add: woken_later_def)
    ultimately show ?thesis
      using Cons Admits same_runs_ok [OF memory_runs] by (simp add: microtask_runs_def dispatcher_inv_def memory_limits)
  qed
qed (simp add: microtask_runs_def assms)

lemma ends_cases:
  assumes "i \<in> set (cd_running d)"
  obtains d1 where "same_runs d d1" "limits_ok d \<Longrightarrow> limits_ok d1"
    "run_ends i succeeded now d = release_next (d1\<lparr>cd_active := cd_active d1 - 1, cd_running := remove1 i (cd_running d1)\<rparr>)"
  using assms that [OF success_runs success_limits] that [OF error_runs error_limits] by (cases succeeded) (simp_all add: run_ends_def Let_def)

lemma ends_inv:
  assumes "dispatcher_inv d"
  shows "dispatcher_inv (run_ends i succeeded now d)"
proof (cases "i \<in> set (cd_running d)")
  case True
  then obtain d1 where same: "same_runs d d1" and lim: "limits_ok d \<Longrightarrow> limits_ok d1"
    and ends: "run_ends i succeeded now d = release_next (d1\<lparr>cd_active := cd_active d1 - 1, cd_running := remove1 i (cd_running d1)\<rparr>)"
    using ends_cases [of i d succeeded now] by blast
  have acc: "accounts_ok d1" using same_runs_ok [OF same] assms by (simp add: dispatcher_inv_def)
  have mem: "i \<in> set (cd_running d1)" using same True by (simp add: same_runs_def)
  then have "length (cd_running d1) = Suc (length (remove1 i (cd_running d1)))" by (metis One_nat_def Suc_pred length_pos_if_in_set length_remove1)
  then have "accounts_ok (d1\<lparr>cd_active := cd_active d1 - 1, cd_running := remove1 i (cd_running d1)\<rparr>)"
    using acc by (auto simp: accounts_ok_def present_def dest: notin_set_remove1 set_remove1_subset [THEN subsetD])
  moreover have "limits_ok (d1\<lparr>cd_active := cd_active d1 - 1, cd_running := remove1 i (cd_running d1)\<rparr>)"
    using lim assms by (simp add: limits_ok_def dispatcher_inv_def)
  ultimately show ?thesis unfolding ends by (intro release_ok)
qed (simp add: run_ends_def assms)

lemma timer_inv: "dispatcher_inv d \<Longrightarrow> dispatcher_inv (timer_fires d)"
  using release_ok [of "d\<lparr>cd_timers := cd_timers d - 1\<rparr>"]
  by (simp add: timer_fires_def dispatcher_inv_def limits_ok_def accounts_ok_def present_def)

interpretation dispatch: machine dispatcher_step dispatcher_inv
proof
  fix d op
  assume inv: "dispatcher_inv d"
  show "dispatcher_inv (dispatcher_step d op)"
  proof (cases op)
    case (Responded origin status now)
    then show ?thesis using inv same_runs_ok [OF response_runs] by (simp add: dispatcher_inv_def response_limits)
  qed (simp_all add: inv begins_inv microtask_inv ends_inv timer_inv)
qed

lemma dispatcher_inv_new: "dispatcher_inv (new_dispatcher initial opts now)"
  by (auto simp: new_dispatcher_def Let_def dispatcher_inv_def limits_ok_def accounts_ok_def woken_later_def present_def)

text \<open>Runs that began, and runs whose work has ended.\<close>

definition begun :: "dispatcher_op list \<Rightarrow> nat set" where
  "begun ops = {i. \<exists>origin now. Run_begins i origin now \<in> set ops}"

definition ended :: "int \<Rightarrow> dispatcher_options \<Rightarrow> int \<Rightarrow> dispatcher_op list \<Rightarrow> nat set" where
  "ended initial opts now0 ops =
     {i. \<exists>xs succeeded now ys. ops = xs @ Run_ends i succeeded now # ys \<and> i \<in> set (cd_running (dispatcher_run initial opts now0 xs))}"

lemma ended_mono: "ended initial opts now0 ops \<subseteq> ended initial opts now0 (ops @ [op])"
  unfolding ended_def by fastforce

lemma ended_now: "i \<in> set (cd_running (dispatcher_run initial opts now0 ops)) \<Longrightarrow> i \<in> ended initial opts now0 (ops @ [Run_ends i succeeded now])"
  unfolding ended_def by blast

lemma same_present: "same_runs d d' \<Longrightarrow> present d' = present d \<and> cd_origins d' = cd_origins d"
  by (simp add: same_runs_def present_def)

lemma step_present:
  "set (present d) - {i. \<exists>succeeded now. op = Run_ends i succeeded now \<and> i \<in> set (cd_running d)} \<subseteq> set (present (dispatcher_step d op))"
proof (cases op)
  case (Run_begins i origin now)
  then show ?thesis using wait_present [of i now] by (auto simp: run_begins_def present_def)
next
  case (Microtask free now)
  show ?thesis
  proof (cases "cd_tasks d")
    case (Cons t rest)
    show ?thesis
    proof (cases t)
      case (Wakes i)
      have "set (present d) = insert i (set (present (d\<lparr>cd_tasks := rest\<rparr>)))" using Cons Wakes by (auto simp: present_def)
      then show ?thesis using Microtask Cons Wakes by (auto simp: microtask_runs_def wait_present release_present)
    next
      case (Admits i)
      then show ?thesis
        using Microtask Cons same_present [OF memory_runs] by (auto simp: microtask_runs_def) (auto simp: present_def)
    qed
  qed (use Microtask in \<open>simp add: microtask_runs_def\<close>)
next
  case (Run_ends i succeeded now)
  show ?thesis
  proof (cases "i \<in> set (cd_running d)")
    case True
    then obtain d1 where same: "same_runs d d1"
      and ends: "run_ends i succeeded now d = release_next (d1\<lparr>cd_active := cd_active d1 - 1, cd_running := remove1 i (cd_running d1)\<rparr>)"
      using ends_cases [of i d succeeded now] by blast
    have "set (present d) - {i} \<subseteq> set (present (d1\<lparr>cd_active := cd_active d1 - 1, cd_running := remove1 i (cd_running d1)\<rparr>))"
      using same in_set_remove1 by (fastforce simp: present_def same_runs_def)
    then show ?thesis using Run_ends True ends release_present(1) by auto
  qed (use Run_ends in \<open>simp add: run_ends_def\<close>)
next
  case (Responded origin status now)
  then show ?thesis using same_present [OF response_runs] by simp
next
  case Timer_fires
  have "present (d\<lparr>cd_timers := n\<rparr>) = present d" for n by (simp add: present_def)
  then show ?thesis using Timer_fires by (simp add: timer_fires_def release_present)
qed

lemma step_origins: "i \<in> begun [op] \<Longrightarrow> dispatcher_inv d \<Longrightarrow> jhas (cd_origins d) i \<or> i \<in> set (present (dispatcher_step d op))"
  by (auto simp: begun_def run_begins_def wait_present split: if_splits)

lemma dispatcher_run_snoc: "dispatcher_run initial opts now0 (ops @ [op]) = dispatcher_step (dispatcher_run initial opts now0 ops) op"
  by (simp add: dispatcher_run_def)

lemma dispatcher_inv_run: "dispatcher_inv (dispatcher_run initial opts now0 ops)"
  unfolding dispatcher_run_def by (rule dispatch.run_inv) (rule dispatcher_inv_new)

lemma step_origins_eq:
  "cd_origins (dispatcher_step d op) =
     (case op of Run_begins i origin now \<Rightarrow> if jhas (cd_origins d) i then cd_origins d else jset i origin (cd_origins d) | _ \<Rightarrow> cd_origins d)"
proof (cases op)
  case (Microtask free now)
  then show ?thesis
    using same_present [OF memory_runs] by (auto simp: microtask_runs_def wait_present release_present split: list.split microtask.split)
next
  case (Run_ends j succeeded now)
  show ?thesis
  proof (cases "j \<in> set (cd_running d)")
    case True
    then obtain d1 where "same_runs d d1"
      "run_ends j succeeded now d = release_next (d1\<lparr>cd_active := cd_active d1 - 1, cd_running := remove1 j (cd_running d1)\<rparr>)"
      using ends_cases [of j d succeeded now] by blast
    then show ?thesis using same_present [of d d1] Run_ends by (simp add: release_present)
  qed (simp add: Run_ends run_ends_def)
next
  case (Responded origin status now)
  then show ?thesis using same_present [OF response_runs] by simp
qed (simp_all add: run_begins_def wait_present timer_fires_def release_present)

lemma step_known: "jhas (cd_origins (dispatcher_step d op)) i \<longleftrightarrow> jhas (cd_origins d) i \<or> i \<in> begun [op]"
  unfolding step_origins_eq by (auto simp: begun_def jhas_def jm split: dispatcher_op.split)

lemma known_runs: "jhas (cd_origins (dispatcher_run initial opts now0 ops)) i \<Longrightarrow> i \<in> set (present (dispatcher_run initial opts now0 ops)) \<union> ended initial opts now0 ops"
proof (induction ops rule: rev_induct)
  case Nil
  then show ?case by (simp add: dispatcher_run_def new_dispatcher_def jhas_def Let_def)
next
  case (snoc op ops)
  let ?d = "dispatcher_run initial opts now0 ops"
  show ?case
  proof (cases "jhas (cd_origins ?d) i")
    case True
    then have "i \<in> set (present ?d) \<union> ended initial opts now0 ops" by (rule snoc.IH)
    then show ?thesis using step_present [of ?d op] ended_mono [of initial opts now0 ops op] ended_now by (fastforce simp: dispatcher_run_snoc)
  next
    case False
    then have "i \<in> begun [op]" using step_known snoc.prems by (simp add: dispatcher_run_snoc)
    then show ?thesis using step_origins [OF _ dispatcher_inv_run] False by (simp add: dispatcher_run_snoc) blast
  qed
qed

lemma begun_known: "i \<in> begun ops \<Longrightarrow> jhas (cd_origins (dispatcher_run initial opts now0 ops)) i"
proof (induction ops rule: rev_induct)
  case (snoc op ops)
  have "begun (ops @ [op]) = begun ops \<union> begun [op]" by (auto simp: begun_def)
  then show ?case using snoc by (auto simp: dispatcher_run_snoc step_known)
qed (simp add: begun_def)


section \<open>The loop of two waiters\<close>

text \<open>A waiter that is released releases the next one before it looks whether it may go on, and queues up again when it may not. Two
  waiters so release each other for ever while all slots are taken: the queue of microtasks never empties, and no
  timer and no event of the network gets its turn, so none of the working runs can end.\<close>

lemma waiters_loop:
  assumes "cd_tasks d = [Wakes a]" "cd_queue d \<noteq> []" "cd_current d \<le> cd_active d"
  shows "cd_tasks (foldl (\<lambda>d (free, now). microtask_runs free now d) d turns) \<noteq> [] \<and>
    cd_running (foldl (\<lambda>d (free, now). microtask_runs free now d) d turns) = cd_running d"
  using assms
proof (induction turns arbitrary: d a)
  case (Cons turn turns)
  obtain free now where turn: "turn = (free, now)" by (cases turn)
  obtain b q where q: "cd_queue d = b # q" using Cons.prems(2) by (cases "cd_queue d") auto
  let ?d = "microtask_runs free now d"
  have "cd_tasks ?d = [Wakes b]" "cd_queue ?d = q @ [a]" "cd_current ?d \<le> cd_active ?d" "cd_running ?d = cd_running d"
    using Cons.prems q by (simp_all add: microtask_runs_def release_next_def wait_for_slot_def)
  then show ?case using Cons.IH [of ?d b] turn by simp
qed simp

text \<open>A crawl with six slots under memory pressure gets there as soon as two pages wait.\<close>

definition six_slots :: "dispatcher_op list" where
  "six_slots = map (\<lambda>i. Run_begins i ''o'' 0) [1, 2, 3, 4, 5, 6] @ replicate 6 (Microtask 0 0) @
     [Run_ends 1 True 1, Run_begins 7 ''o'' 1, Run_ends 2 True 2, Microtask 0 2, Run_begins 8 ''o'' 2, Run_ends 3 True 3]"

definition no_options :: dispatcher_options where
  "no_options = \<lparr>do_min = None, do_max = None, do_memory = None, do_backoff = None, do_statuses = None\<rparr>"

lemma crawl_hangs:
  "cd_tasks (foldl (\<lambda>d (free, now). microtask_runs free now d) (dispatcher_run 6 no_options 0 six_slots) turns) \<noteq> [] \<and>
   cd_running (foldl (\<lambda>d (free, now). microtask_runs free now d) (dispatcher_run 6 no_options 0 six_slots) turns) = [4, 5, 6]"
proof -
  let ?d = "dispatcher_run 6 no_options 0 six_slots"
  have "cd_tasks ?d = [Wakes 7]" "cd_queue ?d = [8]" "cd_current ?d \<le> cd_active ?d" "cd_running ?d = [4, 5, 6]"
    by (code_simp)+
  then show ?thesis using waiters_loop [of ?d 7 turns] by simp
qed

text \<open>Two runs that begin before the first microtask both find the only slot free.\<close>

lemma both_admitted: "cd_active (dispatcher_run 1 no_options 0 [Run_begins 1 ''o'' 0, Run_begins 2 ''o'' 0, Microtask (10 ^ 9) 0, Microtask (10 ^ 9) 0]) = 2"
  by code_simp

end
