(* ===== verification/Domain_Guard.thy ===== *)
theory Domain_Guard
  imports Js_Strings
begin

text \<open>
  The guard of navigations, \<open>src/src/security/domain-guard.ts\<close>, with \<open>src/src/utils/url-utils.ts\<close>. The platform is the record
  \<open>host_api\<close>: the URL parser (protocol and host name, or an exception), \<open>net.isIP\<close> and \<open>domainToASCII\<close>. The configured lists are
  arguments.
\<close>

section \<open>Hosts and patterns\<close>

record host_api =
  ha_url :: "string \<Rightarrow> (string \<times> string) option"
  ha_is_ip :: "string \<Rightarrow> bool"
  ha_ascii :: "string \<Rightarrow> string"

datatype block_reason = Host_not_allowed | Scheme_not_allowed | Blocked_domain

record domain_blocked =
  db_reason :: block_reason
  db_url :: string
  db_pattern :: "string option"

definition is_internal_url :: "string \<Rightarrow> bool" where
  "is_internal_url url \<longleftrightarrow> url = ''about:blank'' \<or> starts_with ''about:'' url \<or> starts_with ''chrome:'' url \<or>
     starts_with ''chrome-extension:'' url \<or> starts_with ''devtools:'' url"

definition blocked_message :: "domain_blocked \<Rightarrow> string" where
  "blocked_message b =
     (case db_reason b of
        Scheme_not_allowed \<Rightarrow> ''Navigation blocked by host allowlist: unsupported URL scheme for '' @ db_url b
      | Host_not_allowed \<Rightarrow> ''Navigation blocked by host allowlist: host is not allowed for '' @ db_url b
      | Blocked_domain \<Rightarrow> ''Access to domain is blocked by security policy (matched pattern: '' @ CHR 0x22 # default_to ''null'' (db_pattern b) @
          CHR 0x22 # ''). Configure blocked_domains in your OpenChrome security settings to change this.'')"

text \<open>\<open>/^\[(.*)\]$/\<close>: brackets around the whole host; the dot of the pattern matches no line terminator.\<close>

definition unbracket :: "string \<Rightarrow> string" where
  "unbracket s =
     (if starts_with ''['' s \<and> 2 \<le> length s \<and> last s = CHR '']'' \<and> list_all (\<lambda>c. c \<noteq> CHR 0x0A \<and> c \<noteq> CHR 0x0D) (butlast (tl s))
      then butlast (tl s) else s)"

definition strip_final_dot :: "string \<Rightarrow> string" where
  "strip_final_dot s = (if s \<noteq> [] \<and> last s = CHR ''.'' then butlast s else s)"

definition normalize_host :: "host_api \<Rightarrow> string \<Rightarrow> string" where
  "normalize_host api host =
     (let bare = unbracket host
      in if ha_is_ip api bare then to_lower bare
         else ha_ascii api (to_lower (strip_final_dot (takeWhile (\<lambda>c. c \<noteq> CHR '':'') bare))))"

definition normalize_pattern :: "host_api \<Rightarrow> string \<Rightarrow> string" where
  "normalize_pattern api pattern =
     (let trimmed = to_lower (trim_ws pattern)
      in if trimmed = [] then []
         else if starts_with ''*.'' trimmed
         then (let suffix = normalize_host api (drop 2 trimmed) in if suffix = [] then [] else ''*.'' @ suffix)
         else normalize_host api trimmed)"

text \<open>The regular expression of a glob: every character stands for itself, without regard to case, and the star for any
  characters but the dot. (The code leaves a question mark unescaped, but \<open>domainToASCII\<close> returns none.)\<close>

fun glob_match :: "string \<Rightarrow> string \<Rightarrow> bool" where
  "glob_match [] s = (s = [])"
| "glob_match (p # ps) [] = (p = CHR ''*'' \<and> glob_match ps [])"
| "glob_match (p # ps) (c # cs) =
     (if p = CHR ''*'' then glob_match ps (c # cs) \<or> (c \<noteq> CHR ''.'' \<and> glob_match (p # ps) cs)
      else lower_char p = lower_char c \<and> glob_match ps cs)"

text \<open>\<open>None\<close> is the exception for a pattern that is too long.\<close>

definition glob_test :: "host_api \<Rightarrow> string \<Rightarrow> string \<Rightarrow> bool option" where
  "glob_test api pattern host = (if 253 < length pattern then None else Some (glob_match (normalize_pattern api pattern) host))"

definition parse_url :: "host_api \<Rightarrow> string \<Rightarrow> (string \<times> string) option" where
  "parse_url api url = (case ha_url api url of Some u \<Rightarrow> Some u | None \<Rightarrow> ha_url api (''https://'' @ url))"

definition url_hostname :: "host_api \<Rightarrow> string \<Rightarrow> string" where
  "url_hostname api url = (case ha_url api url of Some (_, host) \<Rightarrow> host | None \<Rightarrow> [])"

definition extract_hostname :: "host_api \<Rightarrow> string \<Rightarrow> string option" where
  "extract_hostname api url =
     (if is_internal_url url then None
      else if starts_with ''data:'' url then None
      else
        (let host = normalize_host api (url_hostname api url)
         in if host \<noteq> [] then Some host else truthy_str (Some (normalize_host api (url_hostname api (''https://'' @ url))))))"

definition matches_allow_pattern :: "host_api \<Rightarrow> string \<Rightarrow> string \<Rightarrow> bool" where
  "matches_allow_pattern api host raw =
     (let pattern = normalize_pattern api raw
      in if pattern = [] then False
         else if starts_with ''*.'' pattern
         then (let suffix = drop 2 pattern in starts_with (rev (CHR ''.'' # suffix)) (rev host) \<and> host \<noteq> suffix)
         else host = pattern)"

section \<open>The policy\<close>

definition allowlist_violation :: "host_api \<Rightarrow> string list \<Rightarrow> string \<Rightarrow> domain_blocked option" where
  "allowlist_violation api allow url =
     (if allow = [] then None
      else
        (case parse_url api url of
           Some (protocol, host) \<Rightarrow>
             if protocol \<in> set [''http:'', ''https:''] then
               (case List.find (matches_allow_pattern api (normalize_host api host)) allow of
                  None \<Rightarrow> Some \<lparr>db_reason = Host_not_allowed, db_url = url, db_pattern = None\<rparr>
                | Some pattern \<Rightarrow>
                    if pattern = [] then Some \<lparr>db_reason = Host_not_allowed, db_url = url, db_pattern = None\<rparr> else None)
             else Some \<lparr>db_reason = Scheme_not_allowed, db_url = url, db_pattern = None\<rparr>
         | None \<Rightarrow> Some \<lparr>db_reason = Scheme_not_allowed, db_url = url, db_pattern = None\<rparr>))"

text \<open>The first pattern that matches; the exception of a pattern that is too long ends the search.\<close>

datatype search = Thrown | Found string | Not_found

fun find_blocked :: "host_api \<Rightarrow> string \<Rightarrow> string list \<Rightarrow> search" where
  "find_blocked api host [] = Not_found"
| "find_blocked api host (p # ps) =
     (case glob_test api p host of None \<Rightarrow> Thrown | Some True \<Rightarrow> Found p | Some False \<Rightarrow> find_blocked api host ps)"

datatype domain_verdict = Policy_thrown | Allowed | Refused domain_blocked

definition is_domain_blocked :: "host_api \<Rightarrow> string list \<Rightarrow> string \<Rightarrow> bool option" where
  "is_domain_blocked api blocked url =
     (if blocked = [] then Some False
      else
        (case extract_hostname api url of
           None \<Rightarrow> Some False
         | Some host \<Rightarrow> (case find_blocked api host blocked of Thrown \<Rightarrow> None | Found _ \<Rightarrow> Some True | Not_found \<Rightarrow> Some False)))"

definition domain_policy :: "host_api \<Rightarrow> string list \<Rightarrow> string list \<Rightarrow> string \<Rightarrow> domain_verdict" where
  "domain_policy api allow blocked url =
     (case allowlist_violation api allow url of
        Some b \<Rightarrow> Refused b
      | None \<Rightarrow>
          if blocked = [] then Allowed
          else
            (case extract_hostname api url of
               None \<Rightarrow> Allowed
             | Some host \<Rightarrow>
                 (case find_blocked api host blocked of
                    Thrown \<Rightarrow> Policy_thrown
                  | Not_found \<Rightarrow> Allowed
                  | Found p \<Rightarrow> if p = [] then Allowed else Refused \<lparr>db_reason = Blocked_domain, db_url = url, db_pattern = Some p\<rparr>)))"

section \<open>What globs mean\<close>

text \<open>A glob with its stars replaced, in order, by the texts \<open>ws\<close>.\<close>

fun fill :: "string \<Rightarrow> string list \<Rightarrow> string" where
  "fill [] ws = []"
| "fill (p # ps) ws = (if p = CHR ''*'' then (case ws of [] \<Rightarrow> fill ps [] | w # ws \<Rightarrow> w @ fill ps ws) else p # fill ps ws)"

definition stars :: "string \<Rightarrow> nat" where
  "stars p = length (filter ((=) CHR ''*'') p)"

definition dotless :: "string \<Rightarrow> bool" where
  "dotless w \<longleftrightarrow> CHR ''.'' \<notin> set w"

definition glob_fits :: "string \<Rightarrow> string \<Rightarrow> bool" where
  "glob_fits p s \<longleftrightarrow> (\<exists>ws. length ws = stars p \<and> list_all dotless ws \<and> to_lower s = to_lower (fill p ws))"

lemma lower_dot: "lower_char c = CHR ''.'' \<longleftrightarrow> c = CHR ''.''"
proof
  assume low: "lower_char c = CHR ''.''"
  show "c = CHR ''.''"
  proof (rule ccontr)
    assume c: "c \<noteq> CHR ''.''"
    let ?n = "of_char c :: nat"
    have shifted: "lower_char c = char_of (?n + 32)" and big: "65 \<le> ?n" "?n \<le> 222"
      using low c by (auto simp: lower_char_def Let_def split: if_splits)
    then have "of_char (lower_char c) = ?n + 32" by (simp add: of_char_of)
    then show False using low big by simp
  qed
qed (simp add: lower_char_def)

lemma dotless_lower: "to_lower v = to_lower w \<Longrightarrow> dotless v = dotless w"
proof -
  have "dotless x \<longleftrightarrow> CHR ''.'' \<notin> set (to_lower x)" for x unfolding dotless_def to_lower_def set_map image_iff by (metis lower_dot)
  then show "to_lower v = to_lower w \<Longrightarrow> dotless v = dotless w" by simp
qed

lemma to_lower_simps [simp]:
  "to_lower [] = []" "to_lower (c # cs) = lower_char c # to_lower cs" "to_lower (a @ b) = to_lower a @ to_lower b" "length (to_lower a) = length a"
  by (simp_all add: to_lower_def)

lemma to_lower_split: "to_lower s = a @ b \<Longrightarrow> \<exists>x y. s = x @ y \<and> to_lower x = a \<and> to_lower y = b"
  unfolding to_lower_def by (metis map_eq_append_conv)

lemma glob_fits_star: "glob_fits (CHR ''*'' # ps) s \<longleftrightarrow> (\<exists>a b. s = a @ b \<and> dotless a \<and> glob_fits ps b)"
proof
  assume "glob_fits (CHR ''*'' # ps) s"
  then obtain us where us: "length us = Suc (stars ps)" "list_all dotless us" "to_lower s = to_lower (fill (CHR ''*'' # ps) us)"
    by (auto simp: glob_fits_def stars_def)
  then obtain w ws where w: "us = w # ws" by (cases us) auto
  then have "to_lower s = to_lower w @ to_lower (fill ps ws)" using us(3) by simp
  then obtain x y where xy: "s = x @ y" "to_lower x = to_lower w" "to_lower y = to_lower (fill ps ws)" using to_lower_split by blast
  have "dotless x" using dotless_lower [OF xy(2)] us(2) w by simp
  moreover have "glob_fits ps y" using xy(3) us(1,2) w by (auto simp: glob_fits_def)
  ultimately show "\<exists>a b. s = a @ b \<and> dotless a \<and> glob_fits ps b" using xy(1) by blast
next
  assume "\<exists>a b. s = a @ b \<and> dotless a \<and> glob_fits ps b"
  then obtain a b ws where "s = a @ b" "dotless a" "length ws = stars ps" "list_all dotless ws" "to_lower b = to_lower (fill ps ws)"
    by (auto simp: glob_fits_def)
  then show "glob_fits (CHR ''*'' # ps) s" unfolding glob_fits_def by (intro exI [of _ "a # ws"]) (simp add: stars_def)
qed

lemma glob_fits_char: "p \<noteq> CHR ''*'' \<Longrightarrow> glob_fits (p # ps) s \<longleftrightarrow> (\<exists>c cs. s = c # cs \<and> lower_char p = lower_char c \<and> glob_fits ps cs)"
  by (cases s) (auto simp: glob_fits_def stars_def)

lemma glob_fits_Nil: "glob_fits [] s \<longleftrightarrow> s = []"
  by (cases s) (simp_all add: glob_fits_def stars_def)

text \<open>The scan is exactly this: a host matches when dot-free texts in place of the stars give it.\<close>

lemma glob_match_is_fits: "glob_match p s \<longleftrightarrow> glob_fits p s"
proof (induction p s rule: glob_match.induct)
  case (2 p ps)
  then show ?case by (cases "p = CHR ''*''") (auto simp: glob_fits_star glob_fits_char dotless_def)
next
  case (3 p ps c cs)
  show ?case
  proof (cases "p = CHR ''*''")
    case True
    have "glob_fits (p # ps) (c # cs) \<longleftrightarrow> glob_fits ps (c # cs) \<or> (c \<noteq> CHR ''.'' \<and> glob_fits (p # ps) cs)"
    proof
      assume "glob_fits (p # ps) (c # cs)"
      then obtain a b where ab: "c # cs = a @ b" "dotless a" "glob_fits ps b" using glob_fits_star True by auto
      then show "glob_fits ps (c # cs) \<or> (c \<noteq> CHR ''.'' \<and> glob_fits (p # ps) cs)" using True by (cases a) (auto simp: glob_fits_star dotless_def)
    next
      assume "glob_fits ps (c # cs) \<or> (c \<noteq> CHR ''.'' \<and> glob_fits (p # ps) cs)"
      then show "glob_fits (p # ps) (c # cs)"
      proof
        assume "glob_fits ps (c # cs)"
        then show ?thesis using True by (simp add: glob_fits_star) (intro exI [of _ "[]"] exI [of _ "c # cs"], simp add: dotless_def)
      next
        assume "c \<noteq> CHR ''.'' \<and> glob_fits (p # ps) cs"
        then obtain a b where "cs = a @ b" "dotless a" "glob_fits ps b" "c \<noteq> CHR ''.''" using True glob_fits_star by auto
        then show ?thesis using True by (simp add: glob_fits_star) (intro exI [of _ "c # a"] exI [of _ b], simp add: dotless_def)
      qed
    qed
    then show ?thesis using 3(1,2) True by simp
  next
    case False
    then show ?thesis using 3(3) by (auto simp: glob_fits_char)
  qed
qed (auto simp: glob_fits_Nil)

section \<open>What the policy means\<close>

definition permits :: "host_api \<Rightarrow> string list \<Rightarrow> string \<Rightarrow> bool" where
  "permits api allow url \<longleftrightarrow> allow = [] \<or>
     (\<exists>protocol host p. parse_url api url = Some (protocol, host) \<and> protocol \<in> {''http:'', ''https:''} \<and> p \<in> set allow \<and>
        (let n = normalize_pattern api p; h = normalize_host api host
         in n \<noteq> [] \<and> (h = n \<and> \<not> starts_with ''*.'' n \<or> (\<exists>suffix sub. n = ''*.'' @ suffix \<and> h = sub @ CHR ''.'' # suffix))))"

definition denies :: "host_api \<Rightarrow> string list \<Rightarrow> string \<Rightarrow> bool" where
  "denies api blocked url \<longleftrightarrow> (\<exists>host p. extract_hostname api url = Some host \<and> p \<in> set blocked \<and> glob_fits (normalize_pattern api p) host)"

lemma ends_with: "starts_with (rev x) (rev s) \<longleftrightarrow> (\<exists>a. s = a @ x)"
proof
  assume "starts_with (rev x) (rev s)"
  then have "rev s = rev x @ drop (length x) (rev s)" using starts_with_split by fastforce
  then show "\<exists>a. s = a @ x" by (metis rev_append rev_rev_ident)
qed (auto simp: starts_with_def)

lemma matches_allow:
  "matches_allow_pattern api h p \<longleftrightarrow> normalize_pattern api p \<noteq> [] \<and>
     (h = normalize_pattern api p \<and> \<not> starts_with ''*.'' (normalize_pattern api p) \<or>
      (\<exists>suffix sub. normalize_pattern api p = ''*.'' @ suffix \<and> h = sub @ CHR ''.'' # suffix))"
proof (cases "starts_with ''*.'' (normalize_pattern api p)")
  case True
  then obtain suffix where n: "normalize_pattern api p = ''*.'' @ suffix" using starts_with_split by blast
  have "starts_with (rev (CHR ''.'' # suffix)) (rev h) \<longleftrightarrow> (\<exists>a. h = a @ CHR ''.'' # suffix)" using ends_with by blast
  moreover have "a @ CHR ''.'' # suffix \<noteq> suffix" for a by (metis append.assoc append_Cons append_Nil append_self_conv2 list.distinct(1) snoc_eq_iff_butlast)
  ultimately show ?thesis using True n by (auto simp: matches_allow_pattern_def Let_def)
next
  case False
  then show ?thesis by (auto simp: matches_allow_pattern_def Let_def starts_with_def)
qed

lemma no_violation: "allowlist_violation api allow url = None \<longleftrightarrow> permits api allow url"
proof -
  have found: "(\<exists>p. List.find P xs = Some p \<and> p \<noteq> []) \<longleftrightarrow> (\<exists>p \<in> set xs. P p)" if "\<not> P []" for P and xs :: "string list"
    using that by (induction xs) auto
  have "\<not> matches_allow_pattern api h []" for h by (simp add: matches_allow_pattern_def normalize_pattern_def trim_ws_def to_lower_def)
  then have allow: "(\<exists>p. List.find (matches_allow_pattern api h) allow = Some p \<and> p \<noteq> []) \<longleftrightarrow> (\<exists>p \<in> set allow. matches_allow_pattern api h p)" for h
    by (intro found)
  show ?thesis
  proof (cases "allow = []")
    case False
    show ?thesis
    proof (cases "parse_url api url")
      case (Some u)
      obtain protocol host where u: "u = (protocol, host)" by (cases u)
      show ?thesis
      proof (cases "protocol \<in> set [''http:'', ''https:'']")
        case True
        then have "permits api allow url \<longleftrightarrow> (\<exists>p \<in> set allow. matches_allow_pattern api (normalize_host api host) p)"
          using False Some u by (simp add: permits_def Let_def matches_allow Bex_def)
        then show ?thesis
          using allow [of "normalize_host api host"] False Some u True by (auto simp: allowlist_violation_def split: option.splits)
      next
        case nothttp: False
        then show ?thesis using False Some u by (auto simp: allowlist_violation_def permits_def)
      qed
    qed (use False in \<open>simp add: allowlist_violation_def permits_def\<close>)
  qed (simp add: allowlist_violation_def permits_def)
qed

lemma find_blocked_search:
  "list_all (\<lambda>p. length p \<le> 253) ps \<Longrightarrow> find_blocked api host ps \<noteq> Thrown \<and>
     (find_blocked api host ps = Not_found \<longleftrightarrow> \<not> (\<exists>p \<in> set ps. glob_fits (normalize_pattern api p) host)) \<and>
     (\<forall>p. find_blocked api host ps = Found p \<longrightarrow> glob_fits (normalize_pattern api p) host)"
  by (induction ps) (auto simp: glob_test_def glob_match_is_fits split: bool.splits)

lemma extracted_nonempty: "extract_hostname api url = Some host \<Longrightarrow> host \<noteq> []"
  by (auto simp: extract_hostname_def truthy_str_def Let_def split: if_splits list.splits)

text \<open>C39 (safety). A navigation is allowed exactly when the lists say so: with an allowlist, only to an http or https address whose host is a
  listed one or below a listed \<open>*.\<close> domain; and never to a host that a blocked pattern fits, where a star stands for any text without
  a dot, case aside. (A blocked pattern that is too long makes the check throw instead.)\<close>

theorem allowed_exactly:
  assumes "list_all (\<lambda>p. length p \<le> 253) blocked"
  shows "domain_policy api allow blocked url = Allowed \<longleftrightarrow> permits api allow url \<and> \<not> denies api blocked url"
proof (cases "allowlist_violation api allow url")
  case None
  then have permits: "permits api allow url" using no_violation by blast
  show ?thesis
  proof (cases "extract_hostname api url")
    case (Some host)
    have empty: "\<not> glob_fits (normalize_pattern api []) host" using extracted_nonempty [OF Some]
      by (simp add: normalize_pattern_def trim_ws_def to_lower_def glob_fits_Nil)
    show ?thesis
      using find_blocked_search [OF assms, of api host] empty None Some permits
      by (cases "find_blocked api host blocked") (auto simp: domain_policy_def denies_def)
  qed (auto simp: domain_policy_def denies_def None permits)
next
  case (Some b)
  then show ?thesis using no_violation [of api allow url] by (simp add: domain_policy_def)
qed

definition demo_hosts :: host_api where
  "demo_hosts = \<lparr>ha_url = (\<lambda>url. if starts_with ''https://'' url then Some (''https:'', takeWhile (\<lambda>c. c \<noteq> CHR ''/'') (drop 8 url)) else None),
     ha_is_ip = (\<lambda>_. False), ha_ascii = (\<lambda>h. h)\<rparr>"

lemma allowed_exactly_witness:
  "domain_policy demo_hosts [''*.example.com''] [''ad*.example.com''] ''https://ads.example.com/x'' = Allowed \<longleftrightarrow>
   permits demo_hosts [''*.example.com''] ''https://ads.example.com/x'' \<and> \<not> denies demo_hosts [''ad*.example.com''] ''https://ads.example.com/x''"
  by (rule allowed_exactly) simp

lemma demo_policy:
  "domain_policy demo_hosts [''*.example.com''] [''ad*.example.com''] ''https://ads.example.com/x'' =
     Refused \<lparr>db_reason = Blocked_domain, db_url = ''https://ads.example.com/x'', db_pattern = Some ''ad*.example.com''\<rparr>"
  "domain_policy demo_hosts [''*.example.com''] [''ad*.example.com''] ''https://www.example.com/x'' = Allowed"
  "domain_policy demo_hosts [] [''*.example.com''] ''https://a.b.example.com/x'' = Allowed"
  by code_simp+

text \<open>An address from which no host can be read is not blocked by any pattern, so \<open>view-source:\<close> and \<open>blob:\<close> addresses, whose URL has no
  host, pass the blocklist whatever site they name.\<close>

lemma hostless_not_blocked: "extract_hostname api url = None \<Longrightarrow> domain_policy api [] blocked url = Allowed"
  by (simp add: domain_policy_def allowlist_violation_def)

end
