(* ===== verification/Tool_Risk.thy ===== *)
theory Tool_Risk
  imports Js_Json
begin

text \<open>
  How risky a call of a tool is, \<open>src/src/security/tool-risk-policy.ts\<close>, with the table of hints of all tools,
  \<open>src/src/types/tool-annotations.ts\<close>. The URL parser is the argument \<open>host\<close> (\<open>None\<close> when it throws).
\<close>

section \<open>Hints of the tools\<close>

record tool_hints =
  th_read_only :: bool
  th_destructive :: bool
  th_idempotent :: bool
  th_open_world :: bool

definition read_only_hints :: tool_hints where
  "read_only_hints = \<lparr>th_read_only = True, th_destructive = False, th_idempotent = True, th_open_world = False\<rparr>"

definition mutates_hints :: tool_hints where
  "mutates_hints = \<lparr>th_read_only = False, th_destructive = False, th_idempotent = False, th_open_world = False\<rparr>"

definition destructive_hints :: tool_hints where
  "destructive_hints = \<lparr>th_read_only = False, th_destructive = True, th_idempotent = False, th_open_world = False\<rparr>"

definition open_world_hints :: tool_hints where
  "open_world_hints = \<lparr>th_read_only = False, th_destructive = False, th_idempotent = False, th_open_world = True\<rparr>"

definition open_world_destructive_hints :: tool_hints where
  "open_world_destructive_hints = \<lparr>th_read_only = False, th_destructive = True, th_idempotent = False, th_open_world = True\<rparr>"

definition tool_annotations :: "(string, tool_hints) jmap" where
  "tool_annotations = [
     (''inspect'', read_only_hints), (''query_dom'', read_only_hints), (''oc_query'', read_only_hints), (''find'', read_only_hints),
      (''read_page'', read_only_hints), (''page_content'', read_only_hints), (''tabs_context'', read_only_hints),
      (''oc_browser_control'', mutates_hints), (''list_profiles'', read_only_hints), (''console_capture'', destructive_hints),
      (''performance_metrics'', read_only_hints), (''oc_profile_status'', read_only_hints), (''oc_get_connection_info'', read_only_hints),
      (''oc_connection_health'', read_only_hints), (''oc_policy'', read_only_hints), (''oc_workspace'', mutates_hints),
      (''oc_skill_recall'', read_only_hints), (''oc_skill_export'', read_only_hints), (''vision_find'', read_only_hints),
      (''oc_evidence_get'', read_only_hints), (''image_qa'', read_only_hints), (''oc_gate_inspect'', read_only_hints),
      (''oc_recording_list'', read_only_hints), (''oc_recording_status'', read_only_hints), (''workflow_status'', read_only_hints),
      (''workflow_collect'', read_only_hints), (''workflow_collect_partial'', read_only_hints), (''wait_for'', read_only_hints),
      (''oc_doctor_report'', read_only_hints), (''oc_devtools_url'', read_only_hints), (''oc_context_export'', read_only_hints),
      (''oc_observe'', read_only_hints), (''element_pick'', mutates_hints), (''oc_performance_analyze'', read_only_hints),
      (''oc_normalize_action'', read_only_hints), (''oc_progress_status'', read_only_hints), (''oc_diff'', read_only_hints),
      (''oc_vitals'', read_only_hints), (''oc_pilot_run_with_recovery'', mutates_hints), (''navigate'', open_world_hints),
      (''page_reload'', open_world_hints), (''crawl'', open_world_hints), (''crawl_sitemap'', open_world_hints),
      (''validate_page'', open_world_hints), (''batch_paginate'', open_world_hints), (''oc_performance_insights'', open_world_hints),
      (''network'', open_world_destructive_hints), (''request_intercept'', open_world_destructive_hints),
      (''javascript_tool'', open_world_destructive_hints), (''batch_execute'', open_world_destructive_hints),
      (''act'', open_world_destructive_hints), (''oc_proxy_hook'', open_world_destructive_hints), (''cookies'', destructive_hints),
      (''storage'', destructive_hints), (''tabs_close'', destructive_hints), (''oc_stop'', destructive_hints),
      (''oc_reap_orphans'', destructive_hints), (''oc_recording_stop'', destructive_hints), (''workflow_cleanup'', destructive_hints),
      (''worker_complete'', destructive_hints), (''computer'', mutates_hints), (''interact'', mutates_hints),
      (''form_input'', mutates_hints), (''fill_form'', mutates_hints), (''drag_drop'', mutates_hints), (''file_upload'', mutates_hints),
      (''http_auth'', mutates_hints), (''user_agent'', mutates_hints), (''geolocation'', mutates_hints), (''emulate_device'', mutates_hints),
      (''tabs_activate'', mutates_hints), (''tabs_create'', mutates_hints), (''lightweight_scroll'', mutates_hints),
      (''memory'', destructive_hints), (''oc_skill_record'', mutates_hints), (''oc_journal'', mutates_hints),
      (''oc_journal_compact'', read_only_hints), (''oc_session_snapshot'', mutates_hints), (''oc_session_resume'', mutates_hints),
      (''oc_checkpoint'', mutates_hints), (''oc_assert'', mutates_hints), (''oc_evidence_bundle'', mutates_hints),
      (''oc_recording_start'', mutates_hints), (''oc_recording_export'', mutates_hints), (''oc_copy_to_clipboard'', mutates_hints),
      (''oc_open_host_settings'', mutates_hints), (''oc_totp_generate'', mutates_hints), (''page_pdf'', mutates_hints),
      (''page_screenshot'', mutates_hints), (''extract_data'', mutates_hints), (''worker'', mutates_hints),
      (''worker_update'', mutates_hints), (''workflow_init'', open_world_hints), (''execute_plan'', open_world_destructive_hints),
      (''network_capture_lite'', mutates_hints), (''network_capture_full'', mutates_hints), (''oc_context_import'', mutates_hints),
      (''oc_credentials'', mutates_hints), (''oc_pilot_handoff_create'', mutates_hints), (''oc_pilot_handoff_redeem'', mutates_hints),
      (''oc_react'', read_only_hints), (''crawl_start'', open_world_hints), (''crawl_cancel'', destructive_hints),
      (''crawl_status'', read_only_hints), (''oc_reflect'', mutates_hints), (''oc_task_start'', mutates_hints),
      (''oc_task_cancel'', destructive_hints), (''oc_task_get'', read_only_hints), (''oc_task_list'', read_only_hints),
      (''oc_task_wait'', read_only_hints), (''oc_lane_create'', mutates_hints), (''oc_lane_list'', read_only_hints),
      (''oc_lane_get'', read_only_hints), (''oc_lane_close'', destructive_hints), (''oc_skill_replay'', open_world_destructive_hints),
      (''oc_run_start'', mutates_hints), (''oc_run_status'', mutates_hints), (''oc_run_events'', read_only_hints),
      (''oc_run_finish'', destructive_hints), (''oc_task_run_start'', mutates_hints), (''oc_task_run_update'', mutates_hints),
      (''oc_task_run_checkpoint'', mutates_hints), (''oc_task_run_needs_help'', mutates_hints),
      (''oc_task_run_complete'', destructive_hints), (''oc_task_run_get'', read_only_hints), (''oc_task_run_list'', read_only_hints),
      (''expand_tools'', mutates_hints)]"

section \<open>Policies\<close>

datatype action_risk = Read_only | Browser_mutation | External_side_effect | Destructive | Irreversible

record tool_risk_policy =
  rp_tool :: string
  rp_risk :: action_risk
  rp_trigger :: "string option"
  rp_dry_run :: bool
  rp_elicitation :: bool
  rp_checkpoint :: bool
  rp_precheck :: bool

definition plain_policy :: "string \<Rightarrow> action_risk \<Rightarrow> tool_risk_policy" where
  "plain_policy tool risk = \<lparr>rp_tool = tool, rp_risk = risk, rp_trigger = None, rp_dry_run = False, rp_elicitation = False, rp_checkpoint = False, rp_precheck = False\<rparr>"

definition triggered :: "string \<Rightarrow> tool_risk_policy \<Rightarrow> tool_risk_policy" where
  "triggered t p = p\<lparr>rp_trigger := Some t\<rparr>"

definition default_risk_policies :: "tool_risk_policy list" where
  "default_risk_policies =
     [plain_policy ''read_page'' Read_only,
      plain_policy ''tabs_context'' Read_only,
      plain_policy ''query_dom'' Read_only,
      triggered ''action in delete/delete-all/clear'' ((plain_policy ''cookies'' Destructive)\<lparr>rp_dry_run := True, rp_elicitation := True\<rparr>),
      triggered ''action in clear/delete/remove'' ((plain_policy ''storage'' Destructive)\<lparr>rp_dry_run := True, rp_elicitation := True\<rparr>),
      triggered ''always'' ((plain_policy ''oc_stop'' Destructive)\<lparr>rp_elicitation := True, rp_checkpoint := True\<rparr>),
      triggered ''always'' ((plain_policy ''oc_reap_orphans'' Destructive)\<lparr>rp_dry_run := True, rp_elicitation := True\<rparr>),
      triggered ''broad block/abort rules'' ((plain_policy ''request_intercept'' External_side_effect)\<lparr>rp_dry_run := True\<rparr>),
      triggered ''always'' ((plain_policy ''file_upload'' External_side_effect)\<lparr>rp_elicitation := True, rp_checkpoint := True\<rparr>),
      triggered ''submit/payment/delete form action text'' ((plain_policy ''act'' Irreversible)\<lparr>rp_elicitation := True, rp_checkpoint := True, rp_precheck := True\<rparr>),
      triggered ''submit/payment/delete form action text'' ((plain_policy ''interact'' Irreversible)\<lparr>rp_elicitation := True, rp_checkpoint := True, rp_precheck := True\<rparr>),
      triggered ''url host outside allowedDomains'' ((plain_policy ''navigate'' External_side_effect)\<lparr>rp_elicitation := True\<rparr>)]"

definition policy_of :: "string \<Rightarrow> tool_risk_policy option" where
  "policy_of tool = List.find (\<lambda>p. rp_tool p = tool) default_risk_policies"

section \<open>What a call says\<close>

text \<open>\<open>a || b\<close> and \<open>String(v || '')\<close> on values; an array is joined by commas.\<close>

fun falsy :: "jsvalue \<Rightarrow> bool" where
  "falsy JUndefined = True"
| "falsy JNull = True"
| "falsy (JBool b) = (\<not> b)"
| "falsy (JNum q) = (q = 0)"
| "falsy JNaN = True"
| "falsy (JStr s) = (s = [])"
| "falsy _ = False"

function value_string :: "jsvalue \<Rightarrow> string" where
  "value_string JUndefined = ''undefined''"
| "value_string JNull = ''null''"
| "value_string (JBool b) = (if b then ''true'' else ''false'')"
| "value_string (JNum q) = json_text (JNum q)"
| "value_string JNaN = ''NaN''"
| "value_string (JInfinity neg) = (if neg then ''-Infinity'' else ''Infinity'')"
| "value_string (JStr s) = s"
| "value_string (JArr vs) = commas (map (\<lambda>v. if v = JUndefined \<or> v = JNull then [] else value_string v) vs)"
| "value_string (JObj fs) = ''[object Object]''"
  by pat_completeness auto
termination
  by (relation "measure size") (auto simp: less_Suc_eq_le size_list_estimation')

definition string_or_empty :: "jsvalue \<Rightarrow> string" where
  "string_or_empty v = (if falsy v then [] else value_string v)"

definition either_field :: "(string \<times> jsvalue) list \<Rightarrow> string \<Rightarrow> string \<Rightarrow> jsvalue" where
  "either_field args a b = (if falsy (field args a) then field args b else field args a)"

text \<open>An alternation of words, searched anywhere in a text.\<close>

fun occurs :: "string \<Rightarrow> string \<Rightarrow> bool" where
  "occurs part [] = (part = [])"
| "occurs part (c # cs) = (starts_with part (c # cs) \<or> occurs part cs)"

definition mentions :: "string list \<Rightarrow> string \<Rightarrow> bool" where
  "mentions parts s = list_ex (\<lambda>p. occurs p s) parts"

definition args_text :: "(string \<times> jsvalue) list \<Rightarrow> string" where
  "args_text args = to_lower (json_text (JObj args))"

definition has_broad_block_rule :: "(string \<times> jsvalue) list \<Rightarrow> bool" where
  "has_broad_block_rule args \<longleftrightarrow> mentions [''block'', ''abort'', ''deny''] (args_text args) \<and>
     mentions [''*'', ''all'', ''resource'', ''image'', ''script'', ''stylesheet''] (args_text args)"

definition has_irreversible_text :: "(string \<times> jsvalue) list \<Rightarrow> bool" where
  "has_irreversible_text args \<longleftrightarrow> mentions [''submit'', ''payment'', ''pay'', ''purchase'', ''checkout'', ''delete'', ''remove'', ''transfer'',
     ''send money'', ''place order''] (args_text args)"

definition is_allowed_domain :: "(string \<Rightarrow> string option) \<Rightarrow> string \<Rightarrow> string list \<Rightarrow> bool" where
  "is_allowed_domain host url domains =
     (if url = [] \<or> domains = [] then True
      else
        (case host url of
           None \<Rightarrow> False
         | Some h \<Rightarrow> list_ex (\<lambda>d. to_lower h = to_lower d \<or> starts_with (rev (CHR ''.'' # to_lower d)) (rev (to_lower h))) domains))"

definition action_in :: "(string \<times> jsvalue) list \<Rightarrow> string list \<Rightarrow> bool" where
  "action_in args words \<longleftrightarrow> to_lower (string_or_empty (either_field args ''action'' ''operation'')) \<in> set words"

definition outside_domains :: "(string \<Rightarrow> string option) \<Rightarrow> (string \<times> jsvalue) list \<Rightarrow> string list option \<Rightarrow> bool" where
  "outside_domains host args domains = (case domains of None \<Rightarrow> False | Some ds \<Rightarrow> \<not> is_allowed_domain host (string_or_empty (field args ''url'')) ds)"

section \<open>The decision\<close>

definition effective_policy :: "(string \<Rightarrow> string option) \<Rightarrow> string \<Rightarrow> (string \<times> jsvalue) list \<Rightarrow> string list option \<Rightarrow> tool_risk_policy" where
  "effective_policy host tool args domains =
     (let named = default_to (plain_policy tool Browser_mutation) (policy_of tool) in
      if tool = ''navigate'' \<and> outside_domains host args domains then named
      else if tool = ''cookies'' \<and> action_in args [''delete'', ''delete-all'', ''clear'', ''remove''] then named
      else if tool = ''storage'' \<and> action_in args [''clear'', ''delete'', ''remove''] then named
      else if tool = ''request_intercept'' \<and> has_broad_block_rule args then named
      else if (tool = ''act'' \<or> tool = ''interact'') \<and> has_irreversible_text args then named
      else
        (case List.find (\<lambda>p. rp_tool p = tool \<and> rp_trigger p = Some ''always'') default_risk_policies of
           Some p \<Rightarrow> p
         | None \<Rightarrow>
             (case jget tool_annotations tool of
                None \<Rightarrow> plain_policy tool Browser_mutation
              | Some h \<Rightarrow>
                  if th_read_only h then plain_policy tool Read_only
                  else if th_destructive h then (plain_policy tool Destructive)\<lparr>rp_elicitation := True\<rparr>
                  else if th_open_world h then plain_policy tool External_side_effect
                  else plain_policy tool Browser_mutation)))"

definition checkpoint_max_age :: int where "checkpoint_max_age = 5 * 60 * 1000"

record checkpoint_info =
  ck_created :: int
  ck_now :: "int option"

definition has_fresh_checkpoint :: "int \<Rightarrow> checkpoint_info option \<Rightarrow> bool" where
  "has_fresh_checkpoint clock ck = (case ck of None \<Rightarrow> False | Some c \<Rightarrow> default_to clock (ck_now c) - ck_created c \<le> checkpoint_max_age)"

datatype missing_gate = Miss_dry_run | Miss_elicitation | Miss_checkpoint | Miss_domain

datatype risk_decision = Allow | Preview_required | Elicitation_required | Checkpoint_required | Blocked

record risk_input =
  ri_tool :: string
  ri_args :: "(string \<times> jsvalue) list"
  ri_dry_run :: bool
  ri_elicitation :: bool
  ri_checkpoint :: "checkpoint_info option"
  ri_domains :: "string list option"

definition missing_gates :: "(string \<Rightarrow> string option) \<Rightarrow> int \<Rightarrow> risk_input \<Rightarrow> tool_risk_policy \<Rightarrow> missing_gate list" where
  "missing_gates host clock r p =
     (if rp_dry_run p \<and> \<not> ri_dry_run r then [Miss_dry_run] else []) @
     (if rp_elicitation p \<and> \<not> ri_elicitation r then [Miss_elicitation] else []) @
     (if rp_checkpoint p \<and> \<not> has_fresh_checkpoint clock (ri_checkpoint r) then [Miss_checkpoint] else []) @
     (if ri_tool r = ''navigate'' \<and> outside_domains host (ri_args r) (ri_domains r) then [Miss_domain] else [])"

definition evaluate_risk :: "(string \<Rightarrow> string option) \<Rightarrow> int \<Rightarrow> risk_input \<Rightarrow> risk_decision \<times> tool_risk_policy \<times> missing_gate list" where
  "evaluate_risk host clock r =
     (let p = effective_policy host (ri_tool r) (ri_args r) (ri_domains r) in
      if rp_risk p = Read_only then (Allow, p, [])
      else
        (let missing = missing_gates host clock r p in
         if Miss_domain \<in> set missing then (Blocked, p, missing)
         else if Miss_dry_run \<in> set missing then (Preview_required, p, missing)
         else if Miss_checkpoint \<in> set missing then (Checkpoint_required, p, missing)
         else if Miss_elicitation \<in> set missing then (Elicitation_required, p, missing)
         else (Allow, p, [])))"

section \<open>What an allowed call has passed\<close>

lemma allow_cases:
  "fst (evaluate_risk host clock r) = Allow \<longleftrightarrow>
     (let p = effective_policy host (ri_tool r) (ri_args r) (ri_domains r) in rp_risk p = Read_only \<or> missing_gates host clock r p = [])"
  by (auto simp: evaluate_risk_def Let_def missing_gates_def)

lemma hints_exclusive: "list_all (\<lambda>(_, h). \<not> (th_read_only h \<and> th_destructive h)) tool_annotations"
  by code_simp

definition confirmed :: "tool_risk_policy \<Rightarrow> bool" where
  "confirmed p \<longleftrightarrow> rp_elicitation p \<and> rp_risk p \<noteq> Read_only"

lemma always_confirmed: "list_all (\<lambda>p. rp_trigger p = Some ''always'' \<longrightarrow> confirmed p) default_risk_policies"
  by code_simp

lemma found_always: "List.find (\<lambda>p. rp_tool p = tool \<and> rp_trigger p = Some ''always'') default_risk_policies = Some p \<Longrightarrow> confirmed p"
  using always_confirmed by (auto simp: find_Some_iff list_all_length)

lemma named_policies:
  "policy_of ''navigate'' = Some (triggered ''url host outside allowedDomains'' ((plain_policy ''navigate'' External_side_effect)\<lparr>rp_elicitation := True\<rparr>))"
  "policy_of ''cookies'' = Some (triggered ''action in delete/delete-all/clear'' ((plain_policy ''cookies'' Destructive)\<lparr>rp_dry_run := True, rp_elicitation := True\<rparr>))"
  "policy_of ''storage'' = Some (triggered ''action in clear/delete/remove'' ((plain_policy ''storage'' Destructive)\<lparr>rp_dry_run := True, rp_elicitation := True\<rparr>))"
  "policy_of ''act'' = Some (triggered ''submit/payment/delete form action text'' ((plain_policy ''act'' Irreversible)\<lparr>rp_elicitation := True, rp_checkpoint := True, rp_precheck := True\<rparr>))"
  "policy_of ''interact'' = Some (triggered ''submit/payment/delete form action text'' ((plain_policy ''interact'' Irreversible)\<lparr>rp_elicitation := True, rp_checkpoint := True, rp_precheck := True\<rparr>))"
  by (simp_all add: policy_of_def default_risk_policies_def triggered_def plain_policy_def)

lemma named_confirmed:
  "tool \<in> {''navigate'', ''cookies'', ''storage'', ''act'', ''interact''} \<Longrightarrow> confirmed (default_to (plain_policy tool Browser_mutation) (policy_of tool))"
  "tool \<in> {''act'', ''interact''} \<Longrightarrow> rp_checkpoint (default_to (plain_policy tool Browser_mutation) (policy_of tool))"
  by (auto simp: named_policies triggered_def plain_policy_def confirmed_def)

lemma destructive_policy:
  assumes "jget tool_annotations tool = Some h" "th_destructive h" "\<not> (tool = ''request_intercept'' \<and> has_broad_block_rule args)"
  shows "confirmed (effective_policy host tool args domains)"
proof -
  have "(tool, h) \<in> set tool_annotations" using assms(1) by (rule map_of_SomeD)
  then have "\<not> th_read_only h" using assms(2) hints_exclusive by (auto simp: list_all_iff)
  then have "confirmed (if th_read_only h then a else if th_destructive h then (plain_policy tool Destructive)\<lparr>rp_elicitation := True\<rparr> else b)" for a b
    using assms(2) by (simp add: confirmed_def plain_policy_def)
  moreover have "confirmed q" if "List.find (\<lambda>p. rp_tool p = tool \<and> rp_trigger p = Some ''always'') default_risk_policies = Some q" for q
    using found_always that by blast
  moreover have split: "confirmed (if c then x else y)" if "c \<Longrightarrow> confirmed x" "\<not> c \<Longrightarrow> confirmed y" for c x y using that by simp
  ultimately show ?thesis
    unfolding effective_policy_def Let_def assms(1)
    by (intro split named_confirmed(1); cases "List.find (\<lambda>p. rp_tool p = tool \<and> rp_trigger p = Some ''always'') default_risk_policies")
      (use assms(3) in auto)
qed

lemma irreversible_policy:
  assumes "tool \<in> {''act'', ''interact''}" "has_irreversible_text args"
  shows "confirmed (effective_policy host tool args domains) \<and> rp_checkpoint (effective_policy host tool args domains)"
proof -
  have "effective_policy host tool args domains = default_to (plain_policy tool Browser_mutation) (policy_of tool)"
    using assms by (auto simp: effective_policy_def Let_def)
  then show ?thesis using assms(1) named_confirmed by simp
qed

text \<open>No call of a tool that is annotated as destructive is allowed without a client that can ask the user, whatever its
  arguments, except a request interception with a broad rule (see below); and a call of \<open>act\<close> or \<open>interact\<close> whose arguments mention
  a submission, a payment or a deletion also needs a checkpoint of the last five minutes.\<close>

theorem destructive_needs_confirmation:
  assumes "fst (evaluate_risk host clock r) = Allow"
    and "(\<exists>h. jget tool_annotations (ri_tool r) = Some h \<and> th_destructive h \<and> \<not> (ri_tool r = ''request_intercept'' \<and> has_broad_block_rule (ri_args r))) \<or>
         (ri_tool r \<in> {''act'', ''interact''} \<and> has_irreversible_text (ri_args r))"
  shows "ri_elicitation r \<and> (ri_tool r \<in> {''act'', ''interact''} \<and> has_irreversible_text (ri_args r) \<longrightarrow> has_fresh_checkpoint clock (ri_checkpoint r))"
proof -
  let ?p = "effective_policy host (ri_tool r) (ri_args r) (ri_domains r)"
  have "confirmed ?p" using assms(2) destructive_policy irreversible_policy by blast
  moreover have "rp_checkpoint ?p" if "ri_tool r \<in> {''act'', ''interact''} \<and> has_irreversible_text (ri_args r)" using that irreversible_policy by blast
  ultimately show ?thesis using assms(1) by (auto simp: allow_cases Let_def missing_gates_def confirmed_def split: if_splits)
qed

definition demo_risk :: "string \<Rightarrow> (string \<times> jsvalue) list \<Rightarrow> bool \<Rightarrow> risk_input" where
  "demo_risk tool args asked = \<lparr>ri_tool = tool, ri_args = args, ri_dry_run = True, ri_elicitation = asked,
     ri_checkpoint = Some \<lparr>ck_created = 0, ck_now = None\<rparr>, ri_domains = None\<rparr>"

text \<open>Broad rules weaken the gate: an interception that blocks everything is allowed, one of a single address is not.\<close>

lemma broad_rule_needs_less:
  "fst (evaluate_risk (\<lambda>_. None) 5 (demo_risk ''request_intercept'' [(''block'', JStr ''*'')] False)) = Allow"
  "fst (evaluate_risk (\<lambda>_. None) 5 (demo_risk ''request_intercept'' [(''block'', JStr ''/x.gif'')] False)) = Elicitation_required"
  by code_simp+

text \<open>A destructive call that is not a dry run is always sent back for a preview, so no policy allows it to commit.\<close>

lemma commit_never_allowed:
  assumes "ri_tool r = ''cookies''" "action_in (ri_args r) [''clear'']" "\<not> ri_dry_run r"
  shows "fst (evaluate_risk host clock r) = Preview_required"
  using assms by (auto simp: evaluate_risk_def effective_policy_def Let_def named_policies triggered_def plain_policy_def missing_gates_def action_in_def)

end
