(* ===== verification/Workspaces.thy ===== *)
theory Workspaces
  imports Js_Strings
begin

text \<open>
  Workspace handles, \<open>src/src/mcp/workspace-handles.ts\<close>: names that the server gives to browser sessions, each bound to a tenant and
  to an idle time. The two indexes share mutable records, which are positions of \<open>wr_heap\<close>. Random texts, the clock and the
  workspaces that are protected at a call (by their handles) are arguments.
\<close>

section \<open>The registry\<close>

record workspace_record =
  ws_handle :: string
  ws_session :: string
  ws_tenant :: string
  ws_created :: int
  ws_used :: int
  ws_ttl :: int

record workspace_registry =
  wr_heap :: "workspace_record list"
  wr_records :: "(string, nat) jmap"
  wr_sessions :: "(string, nat) jmap"
  wr_tag :: string

datatype workspace_answer =
    Workspace workspace_record
  | Workspace_unknown
  | Workspace_expired
  | Workspace_forbidden
  | Stale_runtime

definition handle_prefix :: string where "handle_prefix = ''ocw_''"

definition is_workspace_handle :: "string \<Rightarrow> bool" where
  "is_workspace_handle h = starts_with handle_prefix h"

text \<open>\<open>replace(/[^0-9a-f]/gi, '')\<close>, eight characters of it, in lower case.\<close>

definition is_hex_char :: "char \<Rightarrow> bool" where
  "is_hex_char c \<longleftrightarrow> is_digit c \<or> lower_char c \<in> set ''abcdef''"

definition runtime_tag :: "string \<Rightarrow> string" where
  "runtime_tag runtime_id = to_lower (take 8 (filter is_hex_char runtime_id))"

definition new_workspaces :: "string \<Rightarrow> workspace_registry" where
  "new_workspaces runtime_id = \<lparr>wr_heap = [], wr_records = [], wr_sessions = [], wr_tag = runtime_tag runtime_id\<rparr>"

definition handle_of :: "string \<Rightarrow> string \<Rightarrow> string" where
  "handle_of tag secret = handle_prefix @ tag @ CHR ''_'' # secret"

definition open_workspace :: "string \<Rightarrow> string \<Rightarrow> string \<Rightarrow> int \<Rightarrow> int \<Rightarrow> workspace_registry \<Rightarrow> workspace_record \<times> workspace_registry" where
  "open_workspace tenant secret session_hex ttl now r =
     (let rec = \<lparr>ws_handle = handle_of (wr_tag r) secret, ws_session = ''ws-'' @ session_hex, ws_tenant = tenant, ws_created = now, ws_used = now, ws_ttl = ttl\<rparr>;
          a = length (wr_heap r)
      in (rec, r\<lparr>wr_heap := wr_heap r @ [rec], wr_records := jset (ws_handle rec) a (wr_records r), wr_sessions := jset (ws_session rec) a (wr_sessions r)\<rparr>))"

definition workspace_expired :: "int \<Rightarrow> string set \<Rightarrow> workspace_record \<Rightarrow> bool" where
  "workspace_expired now protected rec \<longleftrightarrow> \<not> now - ws_used rec \<le> ws_ttl rec \<and> ws_handle rec \<notin> protected"

definition forget_workspace :: "workspace_record \<Rightarrow> workspace_registry \<Rightarrow> workspace_registry" where
  "forget_workspace rec r = r\<lparr>wr_records := jdel (ws_handle rec) (wr_records r), wr_sessions := jdel (ws_session rec) (wr_sessions r)\<rparr>"

definition tag_of :: "string \<Rightarrow> string" where
  "tag_of h = takeWhile (\<lambda>c. c \<noteq> CHR ''_'') (drop (length handle_prefix) h)"

definition resolve_workspace :: "string \<Rightarrow> string \<Rightarrow> int \<Rightarrow> string set \<Rightarrow> workspace_registry \<Rightarrow> workspace_answer \<times> workspace_registry" where
  "resolve_workspace h tenant now protected r =
     (case jget (wr_records r) h of
        None \<Rightarrow>
          (if is_workspace_handle h \<and> tag_of h \<noteq> [] \<and> tag_of h \<noteq> wr_tag r then (Stale_runtime, r) else (Workspace_unknown, r))
      | Some a \<Rightarrow>
          (let rec = wr_heap r ! a
           in if ws_tenant rec \<noteq> tenant then (Workspace_forbidden, r)
              else if workspace_expired now protected rec then (Workspace_expired, forget_workspace rec r)
              else (let rec' = rec\<lparr>ws_used := now\<rparr> in (Workspace rec', r\<lparr>wr_heap := (wr_heap r)[a := rec']\<rparr>))))"

definition close_workspace :: "string \<Rightarrow> string \<Rightarrow> int \<Rightarrow> string set \<Rightarrow> workspace_registry \<Rightarrow> workspace_answer \<times> workspace_registry" where
  "close_workspace h tenant now protected r =
     (case resolve_workspace h tenant now protected r of
        (Workspace rec, r') \<Rightarrow> (Workspace rec, forget_workspace rec r')
      | (answer, r') \<Rightarrow> (answer, r'))"

definition list_workspaces :: "string \<Rightarrow> workspace_registry \<Rightarrow> workspace_record list" where
  "list_workspaces tenant r = filter (\<lambda>rec. ws_tenant rec = tenant) (map (\<lambda>(_, a). wr_heap r ! a) (wr_records r))"

definition find_by_session :: "string \<Rightarrow> workspace_registry \<Rightarrow> workspace_record option" where
  "find_by_session sid r = map_option ((!) (wr_heap r)) (jget (wr_sessions r) sid)"

definition sweep_workspaces :: "int \<Rightarrow> string set \<Rightarrow> workspace_registry \<Rightarrow> workspace_record list \<times> workspace_registry" where
  "sweep_workspaces now protected r =
     (let expired = filter (workspace_expired now protected) (map (\<lambda>(_, a). wr_heap r ! a) (wr_records r))
      in (expired, foldl (\<lambda>r rec. forget_workspace rec r) r expired))"

definition clear_workspaces :: "workspace_registry \<Rightarrow> workspace_registry" where
  "clear_workspaces r = r\<lparr>wr_records := [], wr_sessions := []\<rparr>"

section \<open>Runs, and what they promise\<close>

datatype workspace_op =
    Open string string string int int
  | Resolve string string int "string set"
  | Close string string int "string set"
  | Sweep int "string set"
  | Clear

fun workspace_step :: "workspace_registry \<Rightarrow> workspace_op \<Rightarrow> workspace_registry" where
  "workspace_step r (Open tenant secret session_hex ttl now) = snd (open_workspace tenant secret session_hex ttl now r)"
| "workspace_step r (Resolve h tenant now protected) = snd (resolve_workspace h tenant now protected r)"
| "workspace_step r (Close h tenant now protected) = snd (close_workspace h tenant now protected r)"
| "workspace_step r (Sweep now protected) = snd (sweep_workspaces now protected r)"
| "workspace_step r Clear = clear_workspaces r"

definition workspace_run :: "string \<Rightarrow> workspace_op list \<Rightarrow> workspace_registry" where
  "workspace_run runtime_id ops = foldl workspace_step (new_workspaces runtime_id) ops"

text \<open>The promise: a handle means a tenant, the time of its last use and an idle time, or nothing.\<close>

type_synonym workspace_leases = "string \<Rightarrow> (string \<times> int \<times> int) option"

definition usable :: "workspace_leases \<Rightarrow> string \<Rightarrow> int \<Rightarrow> string set \<Rightarrow> bool" where
  "usable f h now protected \<longleftrightarrow> (case f h of None \<Rightarrow> False | Some (_, used, ttl) \<Rightarrow> now - used \<le> ttl \<or> h \<in> protected)"

definition owned :: "workspace_leases \<Rightarrow> string \<Rightarrow> string \<Rightarrow> bool" where
  "owned f h tenant \<longleftrightarrow> (case f h of None \<Rightarrow> False | Some (t, _, _) \<Rightarrow> t = tenant)"

fun promise_step :: "string \<Rightarrow> workspace_leases \<Rightarrow> workspace_op \<Rightarrow> workspace_leases" where
  "promise_step tag f (Open tenant secret _ ttl now) = f(handle_of tag secret \<mapsto> (tenant, now, ttl))"
| "promise_step tag f (Resolve h tenant now protected) =
     (if \<not> owned f h tenant then f
      else if usable f h now protected then f(h := map_option (\<lambda>(t, _, ttl). (t, now, ttl)) (f h)) else f(h := None))"
| "promise_step tag f (Close h tenant now protected) = (if owned f h tenant then f(h := None) else f)"
| "promise_step tag f (Sweep now protected) = (\<lambda>h. if usable f h now protected then f h else None)"
| "promise_step tag f Clear = (\<lambda>_. None)"

definition leases :: "workspace_registry \<Rightarrow> workspace_leases" where
  "leases r h = map_option (\<lambda>a. let rec = wr_heap r ! a in (ws_tenant rec, ws_used rec, ws_ttl rec)) (jget (wr_records r) h)"

definition workspace_inv :: "workspace_registry \<Rightarrow> bool" where
  "workspace_inv r \<longleftrightarrow> jwf (wr_records r) \<and> (\<forall>h a. jget (wr_records r) h = Some a \<longrightarrow> a < length (wr_heap r) \<and> ws_handle (wr_heap r ! a) = h)"

lemma workspace_invD: "workspace_inv r \<Longrightarrow> jget (wr_records r) h = Some a \<Longrightarrow> a < length (wr_heap r) \<and> ws_handle (wr_heap r ! a) = h"
  by (simp add: workspace_inv_def)

lemma forget_simps [simp]:
  "wr_heap (forget_workspace rec r) = wr_heap r" "wr_tag (forget_workspace rec r) = wr_tag r" "wr_records (forget_workspace rec r) = jdel (ws_handle rec) (wr_records r)"
  by (simp_all add: forget_workspace_def)

lemma leases_forget [simp]: "leases (forget_workspace rec r) = (leases r)(ws_handle rec := None)"
  by (rule ext) (simp add: leases_def jm)

lemma forget_inv: "workspace_inv r \<Longrightarrow> workspace_inv (forget_workspace rec r)"
  by (auto simp: workspace_inv_def jm split: if_splits)

lemma open_promise:
  assumes "workspace_inv r"
  shows "workspace_inv (snd (open_workspace tenant secret sid ttl now r))"
    "leases (snd (open_workspace tenant secret sid ttl now r)) = (leases r)(handle_of (wr_tag r) secret \<mapsto> (tenant, now, ttl))"
proof -
  have "\<And>h a. jget (wr_records r) h = Some a \<Longrightarrow> a < length (wr_heap r)" using workspace_invD [OF assms] by blast
  then show "leases (snd (open_workspace tenant secret sid ttl now r)) = (leases r)(handle_of (wr_tag r) secret \<mapsto> (tenant, now, ttl))"
    by (intro ext) (auto simp: open_workspace_def leases_def Let_def jm nth_append intro!: map_option_cong)
  show "workspace_inv (snd (open_workspace tenant secret sid ttl now r))"
    using workspace_invD [OF assms] assms by (auto simp: workspace_inv_def open_workspace_def Let_def jm nth_append split: if_splits) (use less_Suc_eq in blast)
qed

definition answer_ok :: "workspace_answer \<Rightarrow> bool" where
  "answer_ok x = (case x of Workspace _ \<Rightarrow> True | _ \<Rightarrow> False)"

definition answers_for :: "string \<Rightarrow> string \<Rightarrow> workspace_answer \<Rightarrow> bool" where
  "answers_for h tenant x \<longleftrightarrow> (case x of Workspace rec \<Rightarrow> ws_handle rec = h \<and> ws_tenant rec = tenant | _ \<Rightarrow> True)"

lemma resolve_promise:
  fixes h tenant now protected
  assumes inv: "workspace_inv r"
  defines "x \<equiv> resolve_workspace h tenant now protected r"
  shows "workspace_inv (snd x)" "leases (snd x) = promise_step tag (leases r) (Resolve h tenant now protected)"
    "answer_ok (fst x) \<longleftrightarrow> owned (leases r) h tenant \<and> usable (leases r) h now protected"
    "fst x = Workspace rec \<Longrightarrow> ws_handle rec = h \<and> ws_tenant rec = tenant" "wr_tag (snd x) = wr_tag r"
proof -
  have "workspace_inv (snd x) \<and> leases (snd x) = promise_step tag (leases r) (Resolve h tenant now protected) \<and>
    (answer_ok (fst x) \<longleftrightarrow> owned (leases r) h tenant \<and> usable (leases r) h now protected) \<and>
    (\<forall>rec. fst x = Workspace rec \<longrightarrow> ws_handle rec = h \<and> ws_tenant rec = tenant) \<and> wr_tag (snd x) = wr_tag r"
  proof (cases "jget (wr_records r) h")
    case None
    then show ?thesis using inv by (simp add: x_def resolve_workspace_def answer_ok_def owned_def leases_def)
  next
    case (Some a)
    let ?rec = "wr_heap r ! a"
    have a: "a < length (wr_heap r)" "ws_handle ?rec = h" using workspace_invD [OF inv Some] by simp_all
    have l: "leases r h = Some (ws_tenant ?rec, ws_used ?rec, ws_ttl ?rec)" using Some by (simp add: leases_def Let_def)
    have other: "b = a \<longleftrightarrow> k = h" if "jget (wr_records r) k = Some b" for k b
      using workspace_invD [OF inv that] a(2) Some that by (metis option.inject)
    show ?thesis
    proof (cases "ws_tenant ?rec = tenant \<and> \<not> workspace_expired now protected ?rec")
      case True
      let ?r = "r\<lparr>wr_heap := (wr_heap r)[a := ?rec\<lparr>ws_used := now\<rparr>]\<rparr>"
      have x: "x = (Workspace (?rec\<lparr>ws_used := now\<rparr>), ?r)" using True Some by (simp add: x_def resolve_workspace_def Let_def)
      have "leases ?r k = ((leases r)(h \<mapsto> (tenant, now, ws_ttl ?rec))) k" for k
      proof (cases "k = h")
        case True
        then show ?thesis using Some a \<open>ws_tenant ?rec = tenant \<and> _\<close> by (simp add: leases_def Let_def)
      next
        case False
        then have "b \<noteq> a" if "jget (wr_records r) k = Some b" for b using other [OF that] by simp
        then show ?thesis using False by (auto simp: leases_def Let_def intro!: map_option_cong)
      qed
      then have "leases ?r = (leases r)(h \<mapsto> (tenant, now, ws_ttl ?rec))" by (rule ext)
      moreover have "workspace_inv ?r" using inv a by (auto simp: workspace_inv_def nth_list_update)
      ultimately show ?thesis using True l a by (auto simp: x answer_ok_def owned_def usable_def workspace_expired_def)
    next
      case False
      then show ?thesis
        using inv Some l a forget_inv [OF inv, of ?rec]
        by (cases "ws_tenant ?rec = tenant") (auto simp: x_def resolve_workspace_def Let_def answer_ok_def owned_def usable_def workspace_expired_def)
    qed
  qed
  then show "workspace_inv (snd x)" "leases (snd x) = promise_step tag (leases r) (Resolve h tenant now protected)"
    "answer_ok (fst x) \<longleftrightarrow> owned (leases r) h tenant \<and> usable (leases r) h now protected"
    "fst x = Workspace rec \<Longrightarrow> ws_handle rec = h \<and> ws_tenant rec = tenant" "wr_tag (snd x) = wr_tag r" by blast+
qed

lemma close_promise:
  assumes inv: "workspace_inv r"
  shows "workspace_inv (snd (close_workspace h tenant now protected r))"
    "leases (snd (close_workspace h tenant now protected r)) = promise_step tag (leases r) (Close h tenant now protected)"
proof -
  note res = resolve_promise [OF inv, of h tenant now protected]
  obtain ans r' where x: "resolve_workspace h tenant now protected r = (ans, r')" by fastforce
  show "workspace_inv (snd (close_workspace h tenant now protected r))"
    using res(1) forget_inv by (auto simp: close_workspace_def x split: workspace_answer.split)
  show "leases (snd (close_workspace h tenant now protected r)) = promise_step tag (leases r) (Close h tenant now protected)"
  proof (cases ans)
    case (Workspace rec)
    then show ?thesis using res(2) [of tag] res(3) res(4) [of rec] by (auto simp: close_workspace_def x answer_ok_def)
  qed (use res(2) [of tag] res(3) in \<open>auto simp: close_workspace_def x answer_ok_def\<close>)
qed

lemma forget_all:
  "workspace_inv r \<Longrightarrow> workspace_inv (foldl (\<lambda>r rec. forget_workspace rec r) r recs) \<and> wr_tag (foldl (\<lambda>r rec. forget_workspace rec r) r recs) = wr_tag r \<and>
   leases (foldl (\<lambda>r rec. forget_workspace rec r) r recs) = (\<lambda>h. if h \<in> ws_handle ` set recs then None else leases r h)"
  by (induction recs arbitrary: r) (auto simp: forget_inv)

lemma sweep_promise:
  assumes inv: "workspace_inv r"
  shows "workspace_inv (snd (sweep_workspaces now protected r))" "wr_tag (snd (sweep_workspaces now protected r)) = wr_tag r"
    "leases (snd (sweep_workspaces now protected r)) = promise_step tag (leases r) (Sweep now protected)"
proof -
  let ?gone = "filter (workspace_expired now protected) (map (\<lambda>(_, a). wr_heap r ! a) (wr_records r))"
  have wf: "jwf (wr_records r)" using inv by (simp add: workspace_inv_def)
  have gone: "h \<in> ws_handle ` set ?gone \<longleftrightarrow> (\<exists>a. jget (wr_records r) h = Some a \<and> workspace_expired now protected (wr_heap r ! a))" for h
  proof
    assume "h \<in> ws_handle ` set ?gone"
    then obtain k a where "(k, a) \<in> set (wr_records r)" "h = ws_handle (wr_heap r ! a)" "workspace_expired now protected (wr_heap r ! a)" by auto
    then show "\<exists>a. jget (wr_records r) h = Some a \<and> workspace_expired now protected (wr_heap r ! a)"
      using workspace_invD [OF inv] jget_in_set [OF wf] by metis
  next
    assume "\<exists>a. jget (wr_records r) h = Some a \<and> workspace_expired now protected (wr_heap r ! a)"
    then obtain a where a: "jget (wr_records r) h = Some a" "workspace_expired now protected (wr_heap r ! a)" by blast
    then have "(h, a) \<in> set (wr_records r)" using jget_in_set [OF wf] by blast
    then have "wr_heap r ! a \<in> set ?gone" using a(2) by force
    then show "h \<in> ws_handle ` set ?gone" using workspace_invD [OF inv a(1)] by force
  qed
  show "workspace_inv (snd (sweep_workspaces now protected r))" "wr_tag (snd (sweep_workspaces now protected r)) = wr_tag r"
    using forget_all [OF inv] by (simp_all add: sweep_workspaces_def Let_def)
  have "leases (snd (sweep_workspaces now protected r)) = (\<lambda>h. if h \<in> ws_handle ` set ?gone then None else leases r h)"
    using forget_all [OF inv] by (simp add: sweep_workspaces_def Let_def)
  also have "\<dots> = promise_step tag (leases r) (Sweep now protected)"
    unfolding gone using workspace_invD [OF inv]
    by (intro ext) (auto simp: usable_def leases_def workspace_expired_def Let_def split: option.splits)
  finally show "leases (snd (sweep_workspaces now protected r)) = promise_step tag (leases r) (Sweep now protected)" .
qed

lemma step_tag: "workspace_inv r \<Longrightarrow> wr_tag (workspace_step r op) = wr_tag r"
proof (cases op)
  case (Close h tenant now protected)
  moreover assume "workspace_inv r"
  ultimately show ?thesis using resolve_promise(5) [of r h tenant now protected]
    by (auto simp: close_workspace_def split: prod.splits workspace_answer.splits)
qed (simp_all add: open_workspace_def Let_def resolve_promise(5) sweep_promise(2) clear_workspaces_def)

text \<open>The registry is a machine that keeps its promise, for each runtime tag.\<close>

definition tagged_inv :: "string \<Rightarrow> workspace_registry \<Rightarrow> bool" where
  "tagged_inv tag r \<longleftrightarrow> workspace_inv r \<and> wr_tag r = tag"

interpretation workspaces: refined_machine workspace_step "tagged_inv tag" leases "promise_step tag" for tag
proof
  fix r op
  assume "tagged_inv tag r"
  then have r: "workspace_inv r" "wr_tag r = tag" by (simp_all add: tagged_inv_def)
  have "workspace_inv (workspace_step r op) \<and> leases (workspace_step r op) = promise_step tag (leases r) op"
  proof (cases op)
    case (Open tenant secret sid ttl now)
    then show ?thesis using open_promise [OF r(1)] r(2) by simp
  next
    case (Resolve h tenant now protected)
    then show ?thesis using resolve_promise(1,2) [OF r(1)] by simp
  next
    case (Close h tenant now protected)
    then show ?thesis using close_promise [OF r(1)] by simp
  next
    case (Sweep now protected)
    then show ?thesis using sweep_promise [OF r(1)] by simp
  next
    case Clear
    then show ?thesis by (auto simp: clear_workspaces_def workspace_inv_def leases_def)
  qed
  then show "tagged_inv tag (workspace_step r op)" "leases (workspace_step r op) = promise_step tag (leases r) op"
    using step_tag [OF r(1)] r(2) by (simp_all add: tagged_inv_def)
qed

lemma workspace_run_inv: "tagged_inv (runtime_tag rid) (workspace_run rid ops)"
  unfolding workspace_run_def by (rule workspaces.run_inv) (simp add: tagged_inv_def workspace_inv_def new_workspaces_def)

text \<open>C40 (refinement). The registry is a map from handles to a tenant and a deadline: after any calls, \<open>resolve\<close> gives a workspace exactly
  when the calls before say that this tenant opened the handle, that it has been neither closed nor expired since, and that it is
  still within its idle time or protected; the workspace is then the one of that handle and tenant. So a tenant never
  reaches a workspace of another one, whatever handles it tries, and a closed or expired handle never comes back.\<close>

theorem workspace_promise:
  "let f = foldl (promise_step (runtime_tag rid)) (\<lambda>_. None) ops; ans = fst (resolve_workspace h tenant now protected (workspace_run rid ops)) in
     leases (workspace_run rid ops) = f \<and> (answer_ok ans \<longleftrightarrow> owned f h tenant \<and> usable f h now protected) \<and>
     answers_for h tenant ans"
proof -
  have new: "leases (new_workspaces rid) = (\<lambda>_. None)" "tagged_inv (runtime_tag rid) (new_workspaces rid)"
    by (auto simp: leases_def new_workspaces_def tagged_inv_def workspace_inv_def)
  have run: "leases (workspace_run rid ops) = foldl (promise_step (runtime_tag rid)) (\<lambda>_. None) ops"
    using workspaces.run_refines [OF new(2), of ops] new(1) by (simp add: workspace_run_def)
  have inv: "workspace_inv (workspace_run rid ops)" using workspace_run_inv by (simp add: tagged_inv_def)
  show ?thesis unfolding Let_def run [symmetric] using resolve_promise(3,4) [OF inv, of h tenant now protected]
    by (auto simp: answers_for_def split: workspace_answer.split)
qed

text \<open>A handle of another runtime is reported as such, and a handle of this runtime never.\<close>

lemma stale_runtime:
  assumes "jget (wr_records r) (handle_of tag secret) = None" "CHR ''_'' \<notin> set tag" "tag \<noteq> []"
  shows "fst (resolve_workspace (handle_of tag secret) tenant now protected r) = (if tag = wr_tag r then Workspace_unknown else Stale_runtime)"
proof -
  have "is_workspace_handle (handle_of tag secret)" by (simp add: is_workspace_handle_def handle_of_def)
  moreover have "takeWhile (\<lambda>c. c \<noteq> CHR ''_'') (tag @ CHR ''_'' # secret) = tag"
    using assms(2) by (subst takeWhile_append2) auto
  then have "tag_of (handle_of tag secret) = tag" by (simp add: tag_of_def handle_of_def)
  ultimately show ?thesis using assms(1,3) by (simp add: resolve_workspace_def)
qed

end
